(* ===== verification/Prelude.thy ===== *)
theory Prelude
  imports Main "HOL-Library.Word"
begin

text \<open>
  The shared vocabulary of the development: the outcome type of a kernel function, the
  machine integers of \<^verbatim>\<open>kernel/types.h\<close>, the byte-addressed memory every pointer of the C code
  points into, and the generic facts about words, functions and lists that the component
  theories use. Nothing here is specific to one source file except the type names.
\<close>

unbundle bit_operations_syntax

section \<open>Collections of rewrite rules\<close>

text \<open>
  \<open>res_simps\<close> evaluates the outcome monad, \<open>flag_simps\<close> turns the C idiom \<open>x & FLAG\<close>
  into a statement about one bit, and \<open>const_defs\<close> holds the numeric macros.
\<close>

named_theorems res_simps
named_theorems flag_simps
named_theorems const_defs

section \<open>Outcomes of kernel code\<close>

text \<open>
  \<open>Ret\<close> is a normal return. \<open>Panic\<close> is a call of \<open>panic()\<close>, which never returns; the string
  is the argument of the call. \<open>Undef\<close> is an access that C leaves undefined (an index
  outside an array, a division by zero), so that no theorem can hide one. \<open>Block\<close> is a call
  that sleeps until another process acts, in the functions that are modelled as running
  alone (the file system below a system call); where sleeping is part of the behaviour
  (pipes, the console, \<open>wait\<close>) the model returns the state at the sleep instead.
\<close>

datatype 'a res = Ret 'a | Panic string | Undef | Block

primrec bindR :: "'a res \<Rightarrow> ('a \<Rightarrow> 'b res) \<Rightarrow> 'b res" where
  "bindR (Ret x) f = f x"
| "bindR (Panic msg) f = Panic msg"
| "bindR Undef f = Undef"
| "bindR Block f = Block"

declare bindR.simps [res_simps]

lemma bindR_eq_Ret [res_simps]: "bindR m f = Ret y \<longleftrightarrow> (\<exists>x. m = Ret x \<and> f x = Ret y)"
  by (cases m) auto

lemma bindR_eq_Panic [res_simps]:
  "bindR m f = Panic msg \<longleftrightarrow> m = Panic msg \<or> (\<exists>x. m = Ret x \<and> f x = Panic msg)"
  by (cases m) auto

lemma bindR_eq_Undef [res_simps]:
  "bindR m f = Undef \<longleftrightarrow> m = Undef \<or> (\<exists>x. m = Ret x \<and> f x = Undef)"
  by (cases m) auto

lemma bindR_eq_Block [res_simps]:
  "bindR m f = Block \<longleftrightarrow> m = Block \<or> (\<exists>x. m = Ret x \<and> f x = Block)"
  by (cases m) auto

lemma bindR_assoc: "bindR (bindR m f) g = bindR m (\<lambda>x. bindR (f x) g)"
  by (cases m) auto

lemma bindR_Ret [simp]: "bindR m Ret = m"
  by (cases m) auto

lemma bindR_cong [fundef_cong]:
  assumes "m = m'" and "\<And>x. m' = Ret x \<Longrightarrow> f x = f' x"
  shows "bindR m f = bindR m' f'"
  using assms by (cases m') auto

text \<open>A property of the result of every normal return.\<close>

definition holdsR :: "('a \<Rightarrow> bool) \<Rightarrow> 'a res \<Rightarrow> bool" where
  "holdsR P m \<longleftrightarrow> (\<forall>x. m = Ret x \<longrightarrow> P x)"

lemma holdsR_simps [simp]:
  "holdsR P (Ret x) = P x" "holdsR P (Panic msg)" "holdsR P Undef" "holdsR P Block"
  by (auto simp: holdsR_def)

lemma holdsR_bind:
  "holdsR Q m \<Longrightarrow> (\<And>x. m = Ret x \<Longrightarrow> Q x \<Longrightarrow> holdsR P (f x)) \<Longrightarrow> holdsR P (bindR m f)"
  by (cases m) (auto simp: holdsR_def)

lemma holdsR_D: "holdsR P m \<Longrightarrow> m = Ret x \<Longrightarrow> P x"
  by (simp add: holdsR_def)

section \<open>Machine integers\<close>

type_synonym u8 = "8 word"
type_synonym u16 = "16 word"
type_synonym u32 = "32 word"
type_synonym u64 = "64 word"

text \<open>C's \<open>int\<close> is a 32-bit word read with \<^const>\<open>sint\<close>.\<close>

type_synonym s32 = "32 word"

lemma uint_eq_iff [simp]: "uint x = uint y \<longleftrightarrow> x = y"
  by (simp add: word_uint_eq_iff)

lemma uint_eq_0_iff [simp]: "uint x = 0 \<longleftrightarrow> x = 0"
  using uint_eq_iff [of x 0] by (simp del: uint_eq_iff)

lemma sint_eq_iff [simp]: "sint x = sint y \<longleftrightarrow> x = y"
  by (auto intro: signed_word_eqI)

lemma unat_of_nat_u64: "i < 2 ^ 64 \<Longrightarrow> unat (of_nat i :: u64) = i"
  by (simp add: unat_of_nat)

lemma of_nat_u64_inj:
  assumes "i < 2 ^ 64" and "j < 2 ^ 64"
  shows "(of_nat i :: u64) = of_nat j \<longleftrightarrow> i = j"
  using assms by (metis unat_of_nat_u64)

section \<open>Byte-addressed memory\<close>

type_synonym memory = "u64 \<Rightarrow> u8"

text \<open>
  The \<open>n\<close> bytes from address \<open>a\<close>. Unsigned subtraction makes the test independent of where
  the region lies, and right for a region that wraps around the end of the address space.
\<close>

definition in_region :: "u64 \<Rightarrow> nat \<Rightarrow> u64 \<Rightarrow> bool" where
  "in_region a n x \<longleftrightarrow> unat (x - a) < n"

lemma in_region_self [simp]: "in_region a n a \<longleftrightarrow> 0 < n"
  by (simp add: in_region_def)

lemma in_region_0 [simp]: "\<not> in_region a 0 x"
  by (simp add: in_region_def)

lemma in_region_offset:
  assumes "i < 2 ^ 64"
  shows "in_region a n (a + of_nat i) \<longleftrightarrow> i < n"
  using assms by (simp add: in_region_def unat_of_nat)

lemma in_regionE:
  assumes "in_region a n x"
  obtains i where "i < n" and "i < 2 ^ 64" and "x = a + of_nat i"
proof
  show "unat (x - a) < n" using assms by (simp add: in_region_def)
  show "unat (x - a) < 2 ^ 64" using unsigned_less [of "x - a"] by simp
  show "x = a + of_nat (unat (x - a))" by simp
qed

lemma in_region_Suc:
  assumes "n < 2 ^ 64"
  shows "in_region a (Suc n) x \<longleftrightarrow> x = a + of_nat n \<or> in_region a n x"
proof -
  have "unat (x - a) = n \<longleftrightarrow> x - a = of_nat n"
    using assms by (auto simp: unat_of_nat)
  then show ?thesis by (auto simp: in_region_def less_Suc_eq algebra_simps)
qed

lemma in_region_Suc_shift:
  assumes "n < 2 ^ 64"
  shows "in_region a (Suc n) x \<longleftrightarrow> x = a \<or> in_region (a + 1) n x"
proof (cases "x = a")
  case False
  then have "x - a \<noteq> 0" by simp
  then have "unat (x - a - 1) = unat (x - a) - 1" by (rule unat_minus_one)
  moreover from \<open>x - a \<noteq> 0\<close> have "0 < unat (x - a)"
    by (simp add: unat_gt_0)
  ultimately show ?thesis using False
    by (auto simp: in_region_def algebra_simps)
qed simp

section \<open>Counting\<close>

text \<open>The number of entries of a list with a property, as an integer.\<close>

definition cnt :: "('a \<Rightarrow> bool) \<Rightarrow> 'a list \<Rightarrow> int" where
  "cnt P xs = int (length (filter P xs))"

lemma cnt_update:
  "i < length xs \<Longrightarrow> cnt P (xs[i := y]) = cnt P xs - of_bool (P (xs ! i)) + of_bool (P y)"
proof (induction xs arbitrary: i)
  case (Cons x xs)
  then show ?case
  proof (cases i)
    case (Suc j)
    then show ?thesis using Cons.IH [of j] Cons.prems by (auto simp: cnt_def)
  qed (simp add: cnt_def)
qed simp

lemma cnt_nonneg [simp]: "0 \<le> cnt P xs"
  by (simp add: cnt_def)

lemma cnt_pos: "x \<in> set xs \<Longrightarrow> P x \<Longrightarrow> 0 < cnt P xs"
  by (auto simp: cnt_def filter_empty_conv)

lemma cnt_le: "(\<And>x. x \<in> set xs \<Longrightarrow> P x \<Longrightarrow> Q x) \<Longrightarrow> cnt P xs \<le> cnt Q xs"
  by (induction xs) (auto simp: cnt_def)

lemma cnt_lt_length: "cnt P xs < int (length xs) \<Longrightarrow> \<exists>i < length xs. \<not> P (xs ! i)"
  by (induction xs) (force simp: cnt_def split: if_splits)+

lemma cnt_less:
  assumes "\<And>x. x \<in> set xs \<Longrightarrow> P x \<Longrightarrow> Q x" and "y \<in> set xs" and "Q y" and "\<not> P y"
  shows "cnt P xs < cnt Q xs"
  using assms
proof (induction xs)
  case (Cons x xs)
  show ?case
  proof (cases "y \<in> set xs")
    case True
    then show ?thesis using Cons by (auto simp: cnt_def)
  next
    case False
    then show ?thesis using Cons.prems cnt_le [of xs P Q] by (auto simp: cnt_def)
  qed
qed simp

section \<open>Invariants of step relations\<close>

text \<open>
  The contract of an inductive invariant: it holds initially and every step keeps it. What
  a client gets is that it holds in every state that can be reached.
\<close>

locale inductive_invariant =
  fixes init :: "'s \<Rightarrow> bool" and step :: "'s \<Rightarrow> 's \<Rightarrow> bool" and inv :: "'s \<Rightarrow> bool"
  assumes inv_init: "init s \<Longrightarrow> inv s"
    and inv_step: "inv s \<Longrightarrow> step s s' \<Longrightarrow> inv s'"
begin

lemma inv_steps: "step\<^sup>*\<^sup>* s s' \<Longrightarrow> inv s \<Longrightarrow> inv s'"
  by (induction rule: rtranclp_induct) (auto intro: inv_step)

lemma inv_reachable: "init s \<Longrightarrow> step\<^sup>*\<^sup>* s s' \<Longrightarrow> inv s'"
  by (rule inv_steps) (auto intro: inv_init)

end

text \<open>A loop that visits a list of values and may stop.\<close>

fun foldR :: "('b \<Rightarrow> 's \<Rightarrow> 's res) \<Rightarrow> 'b list \<Rightarrow> 's \<Rightarrow> 's res" where
  "foldR f [] s = Ret s"
| "foldR f (x # xs) s = bindR (f x s) (foldR f xs)"

lemma foldR_snoc: "foldR f (xs @ [x]) s = bindR (foldR f xs s) (f x)"
proof (induction xs arbitrary: s)
  case Nil
  have "foldR f [] = Ret" by (rule ext) simp
  then show ?case by simp
next
  case (Cons y xs)
  then have "foldR f (xs @ [x]) = (\<lambda>s. bindR (foldR f xs s) (f x))" by (rule ext)
  then show ?case by (simp add: bindR_assoc)
qed

end
