(* ===== verification/Spinlock.thy ===== *)
theory Spinlock
  imports Prelude
begin

text \<open>
  \<^verbatim>\<open>kernel/spinlock.c\<close>: spinlocks with nested interrupt disabling. The functions are written
  over the state of one CPU and one lock; \<open>acquire\<close> and \<open>release\<close> are also split at their
  atomic instructions, so that several CPUs can be interleaved inside them. The step
  relation \<open>lstep\<close> is that interleaving, and mutual exclusion is proved of it.
\<close>

section \<open>Operations\<close>

text \<open>
  \<open>struct cpu\<close> as far as locking uses it; \<open>sie\<close> is the interrupt-enable bit that \<open>intr_get\<close>
  reads. A CPU is named by its number, and a null \<open>lk->cpu\<close> is \<^const>\<open>None\<close>.
\<close>

record cpu =
  c_proc :: "nat option"
  noff :: int
  intena :: bool
  sie :: bool

record spinlock =
  lk_name :: string
  lk_locked :: u32
  lk_cpu :: "nat option"

definition initlock :: "string \<Rightarrow> spinlock \<Rightarrow> spinlock" where
  "initlock nm lk = lk\<lparr>lk_name := nm, lk_locked := 0, lk_cpu := None\<rparr>"

definition holding :: "nat \<Rightarrow> spinlock \<Rightarrow> bool" where
  "holding me lk \<longleftrightarrow> lk_locked lk \<noteq> 0 \<and> lk_cpu lk = Some me"

definition push_off :: "cpu \<Rightarrow> cpu" where
  "push_off c =
     (let old = sie c;
          c = c\<lparr>sie := False\<rparr>;
          c = (if noff c = 0 then c\<lparr>intena := old\<rparr> else c)
      in c\<lparr>noff := noff c + 1\<rparr>)"

definition pop_off :: "cpu \<Rightarrow> cpu res" where
  "pop_off c =
     (if sie c then Panic ''pop_off - interruptible''
      else if noff c < 1 then Panic ''pop_off''
      else let c = c\<lparr>noff := noff c - 1\<rparr>
           in Ret (if noff c = 0 \<and> intena c then c\<lparr>sie := True\<rparr> else c))"

text \<open>\<open>acquire\<close> up to its loop; one iteration of the loop (an atomic swap); what follows it.\<close>

definition acquire_enter :: "nat \<Rightarrow> cpu \<Rightarrow> spinlock \<Rightarrow> cpu res" where
  "acquire_enter me c lk =
     (let c = push_off c in if holding me lk then Panic ''acquire'' else Ret c)"

definition test_and_set :: "spinlock \<Rightarrow> u32 \<times> spinlock" where
  "test_and_set lk = (lk_locked lk, lk\<lparr>lk_locked := 1\<rparr>)"

definition acquire_finish :: "nat \<Rightarrow> spinlock \<Rightarrow> spinlock" where
  "acquire_finish me lk = lk\<lparr>lk_cpu := Some me\<rparr>"

text \<open>
  The whole call when the first swap succeeds; when the lock is taken by another CPU the
  loop spins (the inner \<^const>\<open>None\<close>) until that CPU releases it.
\<close>

definition acquire :: "nat \<Rightarrow> cpu \<Rightarrow> spinlock \<Rightarrow> (cpu \<times> spinlock) option res" where
  "acquire me c lk =
     bindR (acquire_enter me c lk) (\<lambda>c.
       let (old, lk) = test_and_set lk in
       if old \<noteq> 0 then Ret None else Ret (Some (c, acquire_finish me lk)))"

definition release_enter :: "nat \<Rightarrow> spinlock \<Rightarrow> spinlock res" where
  "release_enter me lk = (if \<not> holding me lk then Panic ''release'' else Ret (lk\<lparr>lk_cpu := None\<rparr>))"

definition lock_release :: "spinlock \<Rightarrow> spinlock" where
  "lock_release lk = lk\<lparr>lk_locked := 0\<rparr>"

definition release :: "nat \<Rightarrow> cpu \<Rightarrow> spinlock \<Rightarrow> (cpu \<times> spinlock) res" where
  "release me c lk =
     bindR (release_enter me lk) (\<lambda>lk.
       let lk = lock_release lk in bindR (pop_off c) (\<lambda>c. Ret (c, lk)))"

section \<open>Interleaved CPUs\<close>

text \<open>
  Where a CPU is: outside, in the loop of \<open>acquire\<close>, behind the loop, in the critical
  section, and in \<open>release\<close> before and after the releasing store.
\<close>

datatype pc = Outside | Spinning | Taken | Critical | Releasing | Released

record lmach =
  l_lock :: spinlock
  l_cpu :: "nat \<Rightarrow> cpu"
  l_pc :: "nat \<Rightarrow> pc"

text \<open>One atomic step of CPU \<open>i\<close>. A step that panics has no successor and is ruled out below.\<close>

inductive lstep :: "lmach \<Rightarrow> lmach \<Rightarrow> bool" where
  enter: "l_pc s i = Outside \<Longrightarrow> acquire_enter i (l_cpu s i) (l_lock s) = Ret c \<Longrightarrow>
    lstep s (s\<lparr>l_cpu := (l_cpu s)(i := c), l_pc := (l_pc s)(i := Spinning)\<rparr>)"
| spin: "l_pc s i = Spinning \<Longrightarrow> test_and_set (l_lock s) = (old, lk) \<Longrightarrow>
    lstep s (s\<lparr>l_lock := lk, l_pc := (l_pc s)(i := if old \<noteq> 0 then Spinning else Taken)\<rparr>)"
| finish: "l_pc s i = Taken \<Longrightarrow>
    lstep s (s\<lparr>l_lock := acquire_finish i (l_lock s), l_pc := (l_pc s)(i := Critical)\<rparr>)"
| leave: "l_pc s i = Critical \<Longrightarrow> release_enter i (l_lock s) = Ret lk \<Longrightarrow>
    lstep s (s\<lparr>l_lock := lk, l_pc := (l_pc s)(i := Releasing)\<rparr>)"
| unlock: "l_pc s i = Releasing \<Longrightarrow>
    lstep s (s\<lparr>l_lock := lock_release (l_lock s), l_pc := (l_pc s)(i := Released)\<rparr>)"
| pop: "l_pc s i = Released \<Longrightarrow> pop_off (l_cpu s i) = Ret c \<Longrightarrow>
    lstep s (s\<lparr>l_cpu := (l_cpu s)(i := c), l_pc := (l_pc s)(i := Outside)\<rparr>)"

definition linit :: "lmach \<Rightarrow> bool" where
  "linit s \<longleftrightarrow> lk_locked (l_lock s) = 0 \<and> lk_cpu (l_lock s) = None \<and>
     (\<forall>i. l_pc s i = Outside \<and> 0 \<le> noff (l_cpu s i) \<and> (0 < noff (l_cpu s i) \<longrightarrow> \<not> sie (l_cpu s i)))"

text \<open>
  \<open>linv h s\<close>: \<open>h\<close> is the CPU that has won the swap and not yet given the lock back.
\<close>

definition linv :: "nat option \<Rightarrow> lmach \<Rightarrow> bool" where
  "linv h s \<longleftrightarrow>
     (lk_locked (l_lock s) = 0 \<longleftrightarrow> h = None) \<and>
     (\<forall>i. l_pc s i \<in> {Taken, Critical, Releasing} \<longleftrightarrow> h = Some i) \<and>
     (\<forall>i. lk_cpu (l_lock s) = Some i \<longleftrightarrow> l_pc s i = Critical) \<and>
     (\<forall>i. 0 \<le> noff (l_cpu s i) \<and> (l_pc s i \<noteq> Outside \<longrightarrow> 0 < noff (l_cpu s i)) \<and>
          (0 < noff (l_cpu s i) \<longrightarrow> \<not> sie (l_cpu s i)))"

lemma linvD:
  assumes "linv h s"
  shows "lk_locked (l_lock s) = 0 \<longleftrightarrow> h = None"
    and "l_pc s i \<in> {Taken, Critical, Releasing} \<longleftrightarrow> h = Some i"
    and "lk_cpu (l_lock s) = Some i \<longleftrightarrow> l_pc s i = Critical"
    and "0 \<le> noff (l_cpu s i)" and "l_pc s i \<noteq> Outside \<Longrightarrow> 0 < noff (l_cpu s i)"
    and "0 < noff (l_cpu s i) \<Longrightarrow> \<not> sie (l_cpu s i)"
  using assms by (simp_all add: linv_def)

lemma linvI:
  assumes "lk_locked (l_lock s) = 0 \<longleftrightarrow> h = None"
    and "\<And>i. l_pc s i \<in> {Taken, Critical, Releasing} \<longleftrightarrow> h = Some i"
    and "\<And>i. lk_cpu (l_lock s) = Some i \<longleftrightarrow> l_pc s i = Critical"
    and "\<And>i. 0 \<le> noff (l_cpu s i)" and "\<And>i. l_pc s i \<noteq> Outside \<Longrightarrow> 0 < noff (l_cpu s i)"
    and "\<And>i. 0 < noff (l_cpu s i) \<Longrightarrow> \<not> sie (l_cpu s i)"
  shows "linv h s"
  using assms by (simp add: linv_def)

lemma push_off_props: "0 \<le> noff c \<Longrightarrow> noff (push_off c) = noff c + 1 \<and> \<not> sie (push_off c)"
  by (simp add: push_off_def Let_def)

lemma pop_off_ok:
  assumes "0 < noff c" and "\<not> sie c"
  shows "\<exists>c'. pop_off c = Ret c' \<and> noff c' = noff c - 1 \<and> 0 \<le> noff c' \<and> (0 < noff c' \<longrightarrow> \<not> sie c')"
  using assms by (auto simp: pop_off_def Let_def)

lemma linv_linit: "linit s \<Longrightarrow> linv None s"
  by (rule linvI) (auto simp: linit_def)

lemma linv_lstep:
  assumes inv: "linv h s" and "lstep s s'"
  shows "\<exists>h. linv h s'"
  using assms(2)
proof cases
  case (enter i c)
  have "0 < noff c \<and> \<not> sie c"
    using enter linvD(4) [OF inv, of i] push_off_props [of "l_cpu s i"]
    by (auto simp: acquire_enter_def Let_def split: if_splits)
  then have "linv h s'"
    using enter linvD [OF inv] linvD(2,3) [OF inv, of i] by (intro linvI) (auto split: if_splits)
  then show ?thesis ..
next
  case (spin i old lk)
  have "linv (if old = 0 then Some i else h) s'"
    using spin linvD [OF inv] linvD(2,3) [OF inv, of i] linvD(5) [OF inv, of i]
    by (intro linvI) (auto simp: test_and_set_def split: if_splits)
  then show ?thesis ..
next
  case (finish i)
  have h: "h = Some i" using finish linvD(2) [OF inv, of i] by simp
  have "l_pc s j \<noteq> Taken \<and> l_pc s j \<noteq> Critical \<and> l_pc s j \<noteq> Releasing" if "j \<noteq> i" for j
    using linvD(2) [OF inv, of j] h that by auto
  with h have "linv h s'"
    using finish linvD [OF inv] linvD(5) [OF inv, of i]
    by (intro linvI) (auto simp: acquire_finish_def split: if_splits)
  then show ?thesis ..
next
  case (leave i lk)
  have h: "h = Some i" using leave linvD(2) [OF inv, of i] by simp
  have "l_pc s j \<noteq> Taken \<and> l_pc s j \<noteq> Critical \<and> l_pc s j \<noteq> Releasing" if "j \<noteq> i" for j
    using linvD(2) [OF inv, of j] h that by auto
  with h have "linv h s'"
    using leave linvD [OF inv] linvD(5) [OF inv, of i]
    by (intro linvI) (auto simp: release_enter_def split: if_splits)
  then show ?thesis ..
next
  case (unlock i)
  have h: "h = Some i" using unlock linvD(2) [OF inv, of i] by simp
  have "l_pc s j \<noteq> Taken \<and> l_pc s j \<noteq> Critical \<and> l_pc s j \<noteq> Releasing" if "j \<noteq> i" for j
    using linvD(2) [OF inv, of j] h that by auto
  with h have "linv None s'"
    using unlock linvD [OF inv] linvD(5) [OF inv, of i]
    by (intro linvI) (auto simp: lock_release_def split: if_splits)
  then show ?thesis ..
next
  case (pop i c)
  then have "0 \<le> noff c \<and> (0 < noff c \<longrightarrow> \<not> sie c)"
    using pop_off_ok [of "l_cpu s i"] linvD(5,6) [OF inv, of i] by auto
  then have "linv h s'"
    using pop linvD [OF inv] linvD(2,3) [OF inv, of i] by (intro linvI) (auto split: if_splits)
  then show ?thesis ..
qed

interpretation sl: inductive_invariant linit lstep "\<lambda>s. \<exists>h. linv h s"
  by unfold_locales (blast intro: linv_linit, blast intro: linv_lstep)

text \<open>
  C15 Mutual exclusion: however the CPUs interleave inside \<open>acquire\<close> and \<open>release\<close>, two of
  them are never in the critical section at once; \<open>holding\<close> answers correctly for every
  CPU, so neither \<open>acquire\<close> nor \<open>release\<close> nor \<open>pop_off\<close> panics; and inside the critical
  section interrupts are off.
\<close>

theorem spinlock_mutual_exclusion:
  assumes "linit s0" and "lstep\<^sup>*\<^sup>* s0 s"
  shows "(l_pc s i = Critical \<and> l_pc s j = Critical \<longrightarrow> i = j) \<and>
    (holding i (l_lock s) \<longleftrightarrow> l_pc s i = Critical) \<and>
    (l_pc s i = Outside \<longrightarrow> (\<exists>c. acquire_enter i (l_cpu s i) (l_lock s) = Ret c)) \<and>
    (l_pc s i = Critical \<longrightarrow> (\<exists>lk. release_enter i (l_lock s) = Ret lk)) \<and>
    (l_pc s i = Released \<longrightarrow> (\<exists>c. pop_off (l_cpu s i) = Ret c)) \<and>
    (l_pc s i \<noteq> Outside \<longrightarrow> \<not> sie (l_cpu s i)) \<and>
    ((\<forall>k. l_pc s k \<notin> {Taken, Critical, Releasing}) \<longrightarrow> fst (test_and_set (l_lock s)) = 0)"
proof -
  obtain h where inv: "linv h s" using sl.inv_reachable [OF assms] by blast
  note I = linvD [OF inv]
  have hold: "holding i (l_lock s) \<longleftrightarrow> l_pc s i = Critical"
    using I(1) I(2,3) [of i] by (auto simp: holding_def)
  have "l_pc s i = Critical \<and> l_pc s j = Critical \<longrightarrow> i = j" using I(2) [of i] I(2) [of j] by auto
  moreover have "l_pc s i = Outside \<longrightarrow> (\<exists>c. acquire_enter i (l_cpu s i) (l_lock s) = Ret c)"
    using hold by (simp add: acquire_enter_def Let_def)
  moreover have "l_pc s i = Critical \<longrightarrow> (\<exists>lk. release_enter i (l_lock s) = Ret lk)"
    using hold by (simp add: release_enter_def)
  moreover have "l_pc s i = Released \<longrightarrow> (\<exists>c. pop_off (l_cpu s i) = Ret c)"
    using I(5,6) [of i] pop_off_ok [of "l_cpu s i"] by auto
  moreover have "l_pc s i \<noteq> Outside \<longrightarrow> \<not> sie (l_cpu s i)" using I(5,6) [of i] by auto
  moreover have "(\<forall>k. l_pc s k \<notin> {Taken, Critical, Releasing}) \<longrightarrow> fst (test_and_set (l_lock s)) = 0"
    using I(1,2) by (cases h) (auto simp: test_and_set_def)
  ultimately show ?thesis using hold by blast
qed

text \<open>Idle CPUs, and the same machine after CPU 0 has entered \<open>acquire\<close>.\<close>

definition two_cpus :: lmach where
  "two_cpus = \<lparr>l_lock = \<lparr>lk_name = ''l'', lk_locked = 0, lk_cpu = None\<rparr>,
     l_cpu = (\<lambda>_. \<lparr>c_proc = None, noff = 0, intena = False, sie = True\<rparr>), l_pc = (\<lambda>_. Outside)\<rparr>"

definition two_cpus' :: lmach where
  "two_cpus' = two_cpus\<lparr>l_cpu := (l_cpu two_cpus)(0 := push_off (l_cpu two_cpus 0)),
     l_pc := (\<lambda>_. Outside)(0 := Spinning)\<rparr>"

lemma two_cpus_steps: "linit two_cpus" "lstep\<^sup>*\<^sup>* two_cpus two_cpus'"
proof -
  show "linit two_cpus" by (simp add: linit_def two_cpus_def)
  have "acquire_enter 0 (l_cpu two_cpus 0) (l_lock two_cpus) = Ret (push_off (l_cpu two_cpus 0))"
    by (simp add: acquire_enter_def holding_def two_cpus_def)
  from lstep.enter [OF _ this] have "lstep two_cpus two_cpus'"
    by (simp add: two_cpus'_def two_cpus_def)
  then show "lstep\<^sup>*\<^sup>* two_cpus two_cpus'" by blast
qed

theorem spinlock_mutual_exclusion_witness:
  "linit two_cpus \<and> lstep\<^sup>*\<^sup>* two_cpus two_cpus' \<and> \<not> sie (l_cpu two_cpus' 0) \<and>
   fst (test_and_set (l_lock two_cpus')) = 0"
  using two_cpus_steps spinlock_mutual_exclusion [OF two_cpus_steps, of 0 0]
  by (simp add: two_cpus'_def two_cpus_def)

text \<open>A CPU outside every critical section, or inside some: what \<open>push_off\<close> relies on.\<close>

definition cpu_ok :: "cpu \<Rightarrow> bool" where
  "cpu_ok c \<longleftrightarrow> 0 \<le> noff c \<and> (0 < noff c \<longrightarrow> \<not> sie c)"

text \<open>
  C35 A free lock can be taken and given back: \<open>acquire\<close> then \<open>release\<close> succeed, interrupts
  are off in between, and afterwards the lock is free, the interrupt state and the nesting
  depth of the CPU are what they were. \<open>acquire\<close> of a lock the CPU holds, and \<open>release\<close> of
  one it does not hold, panic.
\<close>

theorem acquire_release:
  assumes "cpu_ok c" and "lk_locked lk = 0"
  shows "\<exists>c' lk'. acquire me c lk = Ret (Some (c', lk')) \<and> holding me lk' \<and> \<not> sie c' \<and> cpu_ok c' \<and>
    acquire me c' lk' = Panic ''acquire'' \<and> release me c lk = Panic ''release'' \<and>
    release me c' lk' =
      Ret (c\<lparr>intena := if noff c = 0 then sie c else intena c\<rparr>, lk\<lparr>lk_cpu := None\<rparr>)"
proof -
  have "acquire me c lk = Ret (Some (push_off c, lk\<lparr>lk_locked := 1, lk_cpu := Some me\<rparr>))"
    using assms(2)
    by (simp add: acquire_def acquire_enter_def holding_def test_and_set_def acquire_finish_def Let_def)
  moreover have "pop_off (push_off c) = Ret (c\<lparr>intena := if noff c = 0 then sie c else intena c\<rparr>)"
    using assms(1) by (auto simp: pop_off_def push_off_def cpu_ok_def Let_def)
  ultimately show ?thesis
    using assms
    by (simp add: acquire_def acquire_enter_def holding_def release_def release_enter_def
        lock_release_def Let_def push_off_def cpu_ok_def)
qed

theorem acquire_release_witness:
  "\<exists>c' lk'. acquire 0 (l_cpu two_cpus 0) (l_lock two_cpus) = Ret (Some (c', lk')) \<and> holding 0 lk'"
  using acquire_release [of "l_cpu two_cpus 0" "l_lock two_cpus" 0]
  by (auto simp: two_cpus_def cpu_ok_def)

section \<open>Sleep locks\<close>

text \<open>
  \<^verbatim>\<open>kernel/sleeplock.c\<close>: the fields of the lock are protected by its spinlock, so each pass
  of a function from one \<open>acquire\<close> to the next \<open>sleep\<close> or \<open>release\<close> is one step.
  \<open>acquiresleep\<close> gives \<^const>\<open>None\<close> when the pass ends in \<open>sleep(lk, ...)\<close>; the caller runs it
  again after a wakeup.
\<close>

record sleeplock =
  sl_locked :: u32
  sl_name :: string
  sl_pid :: s32

definition initsleeplock :: "string \<Rightarrow> sleeplock \<Rightarrow> sleeplock" where
  "initsleeplock nm lk = lk\<lparr>sl_name := nm, sl_locked := 0, sl_pid := 0\<rparr>"

definition acquiresleep :: "s32 \<Rightarrow> sleeplock \<Rightarrow> sleeplock option" where
  "acquiresleep pid lk =
     (if sl_locked lk \<noteq> 0 then None else Some (lk\<lparr>sl_locked := 1, sl_pid := pid\<rparr>))"

definition releasesleep :: "sleeplock \<Rightarrow> sleeplock" where
  "releasesleep lk = lk\<lparr>sl_locked := 0, sl_pid := 0\<rparr>"

definition holdingsleep :: "s32 \<Rightarrow> sleeplock \<Rightarrow> bool" where
  "holdingsleep pid lk \<longleftrightarrow> sl_locked lk \<noteq> 0 \<and> sl_pid lk = pid"

lemma acquiresleep_SomeD:
  "acquiresleep pid lk = Some lk' \<Longrightarrow> sl_locked lk = 0 \<and> holdingsleep pid lk' \<and> acquiresleep pid' lk' = None"
  by (auto simp: acquiresleep_def holdingsleep_def split: if_splits)

lemma acquiresleep_releasesleep [simp]:
  "acquiresleep pid (releasesleep lk) = Some (lk\<lparr>sl_locked := 1, sl_pid := pid\<rparr>)"
  by (simp add: acquiresleep_def releasesleep_def)

end
