(* ===== verification/Bio.thy ===== *)
theory Bio
  imports Spinlock
begin

text \<open>
  \<^verbatim>\<open>kernel/bio.c\<close>: the buffer cache, a doubly linked list in order of use over an array of
  buffers. A buffer is its index in \<open>bcache.buf\<close>; the list head, which is a \<open>struct buf\<close> too, is
  the index \<open>NBUF\<close>. The disk driver (\<open>virtio_disk_rw\<close>) is taken at its contract: it transfers
  one block between the buffer and the disk; \<open>dtrace\<close> records the blocks in the order they
  were written. Buffers are used by one process at a time: a sleep lock that is
  taken makes the model stop with \<^const>\<open>Block\<close>.
\<close>

definition NBUF :: nat where "NBUF = 30"

type_synonym blk = "u8 list"

record buf =
  b_valid :: bool
  b_dev :: u32
  b_blockno :: u32
  b_lock :: sleeplock
  b_refcnt :: u32
  b_prev :: nat
  b_next :: nat
  b_data :: blk

record bio =
  bufs :: "buf list"
  disk :: "u32 \<Rightarrow> blk"
  dtrace :: "(u32 \<times> blk) list"

definition upd_buf :: "nat \<Rightarrow> (buf \<Rightarrow> buf) \<Rightarrow> buf list \<Rightarrow> buf list" where
  "upd_buf b f bs = bs[b := f (bs ! b)]"

section \<open>Operations\<close>

text \<open>One iteration of the loop of \<open>binit\<close>: buffer \<open>b\<close> goes to the front of the list.\<close>

definition link_front :: "nat \<Rightarrow> buf list \<Rightarrow> buf list" where
  "link_front b bs =
     (let bs = upd_buf b (b_next_update (\<lambda>_. b_next (bs ! NBUF))) bs;
          bs = upd_buf b (b_prev_update (\<lambda>_. NBUF)) bs;
          bs = upd_buf (b_next (bs ! NBUF)) (b_prev_update (\<lambda>_. b)) bs
      in upd_buf NBUF (b_next_update (\<lambda>_. b)) bs)"

definition binit :: "buf list \<Rightarrow> buf list" where
  "binit bs =
     (let bs = upd_buf NBUF (\<lambda>h. h\<lparr>b_prev := NBUF, b_next := NBUF\<rparr>) bs
      in fold (\<lambda>b bs. upd_buf b (b_lock_update (initsleeplock ''buffer'')) (link_front b bs)) [0..<NBUF] bs)"

text \<open>
  A search along the list from buffer \<open>b\<close>, forwards with \<open>b_next\<close> or backwards with \<open>b_prev\<close>,
  up to the head. The first argument bounds the number of visits; a list that is not closed
  after all buffers were visited would loop for ever, and is \<^const>\<open>Undef\<close> here.
\<close>

fun bget_scan :: "nat \<Rightarrow> (buf \<Rightarrow> nat) \<Rightarrow> (buf \<Rightarrow> bool) \<Rightarrow> nat \<Rightarrow> buf list \<Rightarrow> nat option res" where
  "bget_scan 0 step P b bs = Undef"
| "bget_scan (Suc n) step P b bs =
     (if b = NBUF then Ret None
      else if P (bs ! b) then Ret (Some b)
      else bget_scan n step P (step (bs ! b)) bs)"

definition bget :: "s32 \<Rightarrow> u32 \<Rightarrow> u32 \<Rightarrow> 'a bio_scheme \<Rightarrow> (nat \<times> 'a bio_scheme) res" where
  "bget pid dev blockno s =
     bindR (bget_scan (NBUF + 2) b_next (\<lambda>b. b_dev b = dev \<and> b_blockno b = blockno)
        (b_next (bufs s ! NBUF)) (bufs s)) (\<lambda>r. case r of
       Some b \<Rightarrow>
         let s = s\<lparr>bufs := upd_buf b (\<lambda>b. b\<lparr>b_refcnt := b_refcnt b + 1\<rparr>) (bufs s)\<rparr> in
         (case acquiresleep pid (b_lock (bufs s ! b)) of None \<Rightarrow> Block
          | Some lk \<Rightarrow> Ret (b, s\<lparr>bufs := upd_buf b (b_lock_update (\<lambda>_. lk)) (bufs s)\<rparr>))
     | None \<Rightarrow>
         bindR (bget_scan (NBUF + 2) b_prev (\<lambda>b. b_refcnt b = 0) (b_prev (bufs s ! NBUF)) (bufs s)) (\<lambda>r. case r of
           Some b \<Rightarrow>
             let s = s\<lparr>bufs := upd_buf b (\<lambda>b. b\<lparr>b_dev := dev, b_blockno := blockno, b_valid := False, b_refcnt := 1\<rparr>) (bufs s)\<rparr> in
             (case acquiresleep pid (b_lock (bufs s ! b)) of None \<Rightarrow> Block
              | Some lk \<Rightarrow> Ret (b, s\<lparr>bufs := upd_buf b (b_lock_update (\<lambda>_. lk)) (bufs s)\<rparr>))
         | None \<Rightarrow> Panic ''bget: no buffers''))"

definition bread :: "s32 \<Rightarrow> u32 \<Rightarrow> u32 \<Rightarrow> 'a bio_scheme \<Rightarrow> (nat \<times> 'a bio_scheme) res" where
  "bread pid dev blockno s =
     bindR (bget pid dev blockno s) (\<lambda>(b, s).
       if \<not> b_valid (bufs s ! b)
       then Ret (b, s\<lparr>bufs := upd_buf b (\<lambda>x. x\<lparr>b_data := disk s (b_blockno x), b_valid := True\<rparr>) (bufs s)\<rparr>)
       else Ret (b, s))"

definition bwrite :: "s32 \<Rightarrow> nat \<Rightarrow> 'a bio_scheme \<Rightarrow> 'a bio_scheme res" where
  "bwrite pid b s =
     (let x = bufs s ! b in
      if \<not> holdingsleep pid (b_lock x) then Panic ''bwrite''
      else Ret (s\<lparr>disk := (disk s)(b_blockno x := b_data x), dtrace := dtrace s @ [(b_blockno x, b_data x)]\<rparr>))"

text \<open>The unlinking half of \<open>brelse\<close>.\<close>

definition unlink_buf :: "nat \<Rightarrow> buf list \<Rightarrow> buf list" where
  "unlink_buf b bs =
     (let bs = upd_buf (b_next (bs ! b)) (b_prev_update (\<lambda>_. b_prev (bs ! b))) bs
      in upd_buf (b_prev (bs ! b)) (b_next_update (\<lambda>_. b_next (bs ! b))) bs)"

definition brelse :: "s32 \<Rightarrow> nat \<Rightarrow> 'a bio_scheme \<Rightarrow> 'a bio_scheme res" where
  "brelse pid b s =
     (if \<not> holdingsleep pid (b_lock (bufs s ! b)) then Panic ''brelse''
      else let bs = upd_buf b (\<lambda>x. x\<lparr>b_lock := releasesleep (b_lock x)\<rparr>) (bufs s);
               bs = upd_buf b (\<lambda>x. x\<lparr>b_refcnt := b_refcnt x - 1\<rparr>) bs;
               bs = (if b_refcnt (bs ! b) = 0 then link_front b (unlink_buf b bs) else bs)
           in Ret (s\<lparr>bufs := bs\<rparr>))"

definition bpin :: "nat \<Rightarrow> 'a bio_scheme \<Rightarrow> 'a bio_scheme" where
  "bpin b s = s\<lparr>bufs := upd_buf b (\<lambda>x. x\<lparr>b_refcnt := b_refcnt x + 1\<rparr>) (bufs s)\<rparr>"

definition bunpin :: "nat \<Rightarrow> 'a bio_scheme \<Rightarrow> 'a bio_scheme" where
  "bunpin b s = s\<lparr>bufs := upd_buf b (\<lambda>x. x\<lparr>b_refcnt := b_refcnt x - 1\<rparr>) (bufs s)\<rparr>"

section \<open>The list of buffers\<close>

text \<open>\<open>lnk nx pv xs\<close>: each element of \<open>xs\<close> points forward to the next and is pointed back to.\<close>

fun lnk :: "(nat \<Rightarrow> nat) \<Rightarrow> (nat \<Rightarrow> nat) \<Rightarrow> nat list \<Rightarrow> bool" where
  "lnk nx pv (x # y # zs) \<longleftrightarrow> nx x = y \<and> pv y = x \<and> lnk nx pv (y # zs)"
| "lnk nx pv [x] \<longleftrightarrow> True"
| "lnk nx pv [] \<longleftrightarrow> True"

lemma lnk_append: "lnk nx pv (xs @ a # ys) \<longleftrightarrow> lnk nx pv (xs @ [a]) \<and> lnk nx pv (a # ys)"
  by (induction nx pv xs rule: lnk.induct) auto

lemma lnk_cong:
  assumes "\<And>x. x \<in> set (butlast xs) \<Longrightarrow> nx' x = nx x" and "\<And>x. x \<in> set (tl xs) \<Longrightarrow> pv' x = pv x"
  shows "lnk nx' pv' xs \<longleftrightarrow> lnk nx pv xs"
  using assms by (induction nx pv xs rule: lnk.induct) auto

definition nexts :: "buf list \<Rightarrow> nat \<Rightarrow> nat" where "nexts bs i = b_next (bs ! i)"
definition prevs :: "buf list \<Rightarrow> nat \<Rightarrow> nat" where "prevs bs i = b_prev (bs ! i)"

text \<open>The cache lists the buffers in the order \<open>ord\<close>, most recently used first.\<close>

definition lru :: "buf list \<Rightarrow> nat list \<Rightarrow> bool" where
  "lru bs ord \<longleftrightarrow> length bs = NBUF + 1 \<and> distinct ord \<and> (\<forall>b \<in> set ord. b < NBUF) \<and>
     lnk (nexts bs) (prevs bs) (NBUF # ord @ [NBUF])"

lemma lruD:
  assumes "lru bs ord"
  shows "length bs = NBUF + 1" and "distinct ord" and "b \<in> set ord \<Longrightarrow> b < NBUF" and "NBUF \<notin> set ord"
    and "lnk (nexts bs) (prevs bs) (NBUF # ord @ [NBUF])"
  using assms by (auto simp: lru_def)

lemma nexts_upd:
  assumes "b < length bs"
  shows "nexts (upd_buf b (b_next_update (\<lambda>_. v)) bs) = (nexts bs)(b := v)"
    and "nexts (upd_buf b (b_prev_update (\<lambda>_. v)) bs) = nexts bs"
    and "prevs (upd_buf b (b_prev_update (\<lambda>_. v)) bs) = (prevs bs)(b := v)"
    and "prevs (upd_buf b (b_next_update (\<lambda>_. v)) bs) = prevs bs"
  using assms by (auto simp: nexts_def prevs_def upd_buf_def nth_list_update fun_eq_iff)

lemma length_upd_buf [simp]: "length (upd_buf b f bs) = length bs"
  by (simp add: upd_buf_def)

lemma length_link_front [simp]: "length (link_front b bs) = length bs"
  by (simp add: link_front_def Let_def)

lemma link_front_links:
  assumes "b < length bs" and "nexts bs NBUF < length bs" and "NBUF < length bs" and "b \<noteq> NBUF"
  shows "nexts (link_front b bs) = (nexts bs)(b := nexts bs NBUF, NBUF := b)"
    and "prevs (link_front b bs) = (prevs bs)(b := NBUF, nexts bs NBUF := b)"
    and "length (link_front b bs) = length bs"
proof -
  define b1 where "b1 = upd_buf b (b_next_update (\<lambda>_. nexts bs NBUF)) bs"
  define b2 where "b2 = upd_buf b (b_prev_update (\<lambda>_. NBUF)) b1"
  define b3 where "b3 = upd_buf (nexts b2 NBUF) (b_prev_update (\<lambda>_. b)) b2"
  have e: "link_front b bs = upd_buf NBUF (b_next_update (\<lambda>_. b)) b3"
    by (simp add: link_front_def b3_def b2_def b1_def nexts_def Let_def)
  have l: "length b1 = length bs" "length b2 = length bs" "length b3 = length bs"
    by (simp_all add: b1_def b2_def b3_def)
  have n2: "nexts b2 = (nexts bs)(b := nexts bs NBUF)" "prevs b2 = (prevs bs)(b := NBUF)"
    using assms l by (simp_all add: b2_def b1_def nexts_upd)
  then have "nexts b2 NBUF = nexts bs NBUF" using assms(4) by simp
  then have n3: "nexts b3 = (nexts bs)(b := nexts bs NBUF)" "prevs b3 = (prevs bs)(b := NBUF, nexts bs NBUF := b)"
    using assms l n2 unfolding b3_def by (simp_all add: nexts_upd)
  show "nexts (link_front b bs) = (nexts bs)(b := nexts bs NBUF, NBUF := b)"
    "prevs (link_front b bs) = (prevs bs)(b := NBUF, nexts bs NBUF := b)"
    "length (link_front b bs) = length bs"
    using assms l n3 unfolding e by (simp_all add: nexts_upd)
qed

lemma unlink_buf_links:
  assumes "b < length bs" and "nexts bs b < length bs" and "prevs bs b < length bs" and "nexts bs b \<noteq> b"
  shows "nexts (unlink_buf b bs) = (nexts bs)(prevs bs b := nexts bs b)"
    and "prevs (unlink_buf b bs) = (prevs bs)(nexts bs b := prevs bs b)"
    and "length (unlink_buf b bs) = length bs"
proof -
  define b1 where "b1 = upd_buf (nexts bs b) (b_prev_update (\<lambda>_. prevs bs b)) bs"
  have e: "unlink_buf b bs = upd_buf (prevs b1 b) (b_next_update (\<lambda>_. nexts b1 b)) b1"
    by (simp add: unlink_buf_def b1_def nexts_def prevs_def Let_def)
  have l: "length b1 = length bs" by (simp add: b1_def)
  have n1: "nexts b1 = nexts bs" "prevs b1 = (prevs bs)(nexts bs b := prevs bs b)"
    using assms unfolding b1_def by (simp_all add: nexts_upd)
  then have "prevs b1 b = prevs bs b" using assms(4) by simp
  then show "nexts (unlink_buf b bs) = (nexts bs)(prevs bs b := nexts bs b)"
    "prevs (unlink_buf b bs) = (prevs bs)(nexts bs b := prevs bs b)"
    "length (unlink_buf b bs) = length bs"
    using assms l n1 unfolding e by (simp_all add: nexts_upd)
qed

lemma lnk_unlink:
  assumes l: "lnk nx pv (ps @ p # b # n # ns)" and d: "p \<notin> set ps" "p \<notin> set (butlast (n # ns))"
    "n \<notin> set (tl (ps @ [p]))" "n \<notin> set ns"
  shows "lnk (nx(p := n)) (pv(n := p)) (ps @ p # n # ns)"
proof -
  have a: "lnk nx pv (ps @ [p])" "lnk nx pv (n # ns)"
    using l lnk_append [of nx pv ps p "b # n # ns"] by auto
  have "lnk (nx(p := n)) (pv(n := p)) (ps @ [p])" using a(1) d by (subst lnk_cong [of _ _ nx _ pv]) auto
  moreover have "lnk (nx(p := n)) (pv(n := p)) (n # ns)" using a(2) d by (subst lnk_cong [of _ _ nx _ pv]) auto
  ultimately show ?thesis using lnk_append [of _ _ ps p "n # ns"] by auto
qed

lemma lnk_front:
  assumes l: "lnk nx pv (h # f # fs)" and d: "b \<noteq> h" "b \<notin> set (f # fs)" "h \<notin> set (butlast (f # fs))" "f \<notin> set fs"
  shows "lnk (nx(b := f, h := b)) (pv(b := h, f := b)) (h # b # f # fs)"
proof -
  have "b \<notin> set (butlast (f # fs))" using d(2) by (meson in_set_butlastD)
  then have "lnk (nx(b := f, h := b)) (pv(b := h, f := b)) (f # fs)"
    using l d by (subst lnk_cong [of _ _ nx _ pv]) auto
  then show ?thesis using d by auto
qed

lemma lnk_at: "lnk nx pv (ps @ p # b # n # ns) \<Longrightarrow> nx p = b \<and> pv b = p \<and> nx b = n \<and> pv n = b"
  using lnk_append [of nx pv ps p "b # n # ns"] by auto

lemma lru_link_front:
  assumes lr: "lru bs ord" and b: "b < NBUF" "b \<notin> set ord"
  shows "lru (link_front b bs) (b # ord)"
proof -
  note L = lruD [OF lr]
  define f fs where "f = hd (ord @ [NBUF])" and "fs = tl (ord @ [NBUF])"
  have ff: "f # fs = ord @ [NBUF]" unfolding f_def fs_def by (cases ord) auto
  have lf: "lnk (nexts bs) (prevs bs) (NBUF # f # fs)" using L(5) ff by simp
  then have nf: "nexts bs NBUF = f" by simp
  have "f \<in> insert NBUF (set ord)" using arg_cong [OF ff, of set] by auto
  then have "f < length bs" using L(1) L(3) [of f] by auto
  then have F: "nexts (link_front b bs) = (nexts bs)(b := f, NBUF := b)"
      "prevs (link_front b bs) = (prevs bs)(b := NBUF, f := b)" "length (link_front b bs) = length bs"
    using link_front_links [of b bs] b L(1) nf by auto
  have bf: "butlast (f # fs) = ord" unfolding ff by (rule butlast_snoc)
  have "distinct (f # fs)" unfolding ff using L(2,4) by simp
  moreover have "b \<notin> set (f # fs)" unfolding ff using b by auto
  ultimately have "lnk (nexts (link_front b bs)) (prevs (link_front b bs)) (NBUF # b # f # fs)"
    unfolding F using b L(4) bf by (intro lnk_front [OF lf]) auto
  then have "lnk (nexts (link_front b bs)) (prevs (link_front b bs)) (NBUF # (b # ord) @ [NBUF])"
    using ff by simp
  then show ?thesis using L F(3) b unfolding lru_def by auto
qed

lemma lru_unlink:
  assumes lr: "lru bs (as @ b # cs)"
  shows "lru (unlink_buf b bs) (as @ cs)"
proof -
  note L = lruD [OF lr]
  define ps p where "ps = butlast (NBUF # as)" and "p = last (NBUF # as)"
  define n ns where "n = hd (cs @ [NBUF])" and "ns = tl (cs @ [NBUF])"
  have pp: "ps @ [p] = NBUF # as" unfolding ps_def p_def by (rule append_butlast_last_id) simp
  have nn: "n # ns = cs @ [NBUF]" unfolding n_def ns_def by (cases cs) auto
  have path: "NBUF # (as @ b # cs) @ [NBUF] = ps @ p # b # n # ns"
    using pp nn by (metis append.assoc append_Cons append_Nil)
  have l: "lnk (nexts bs) (prevs bs) (ps @ p # b # n # ns)" using L(5) path by simp
  note at = lnk_at [OF l]
  have nb: "NBUF \<notin> set as" "NBUF \<notin> set cs" "NBUF \<noteq> b" "b \<notin> set as" "b \<notin> set cs" "set as \<inter> set cs = {}"
    "distinct as" "distinct cs"
    using L(2,4) by auto
  have p_in: "p \<in> insert NBUF (set as)" unfolding p_def by (cases as rule: rev_cases) auto
  have n_in: "n \<in> insert NBUF (set cs)" unfolding n_def by (cases cs) auto
  have "distinct (ps @ [p])" "distinct (n # ns)" unfolding pp nn using nb by simp_all
  then have p_ps: "p \<notin> set ps" and n_ns: "n \<notin> set ns" by auto
  have bl: "butlast (n # ns) = cs" and tlp: "tl (ps @ [p]) = as" unfolding nn pp by simp_all
  have p_cs: "p \<notin> set cs" and n_as: "n \<notin> set as" and "n \<noteq> b" using p_in n_in nb by auto
  have bnd: "x < length bs" if "x \<in> insert NBUF (set (as @ b # cs))" for x
    using that L(1) L(3) [of x] by auto
  have lt: "b < length bs" "nexts bs b < length bs" "prevs bs b < length bs" "nexts bs b \<noteq> b"
    using at \<open>n \<noteq> b\<close> bnd [of b] bnd [of n] bnd [of p] p_in n_in by auto
  note U = unlink_buf_links [OF lt]
  have "lnk (nexts (unlink_buf b bs)) (prevs (unlink_buf b bs)) (ps @ p # n # ns)"
    unfolding U using at lnk_unlink [OF l p_ps] p_cs bl n_as tlp n_ns by simp
  moreover have "ps @ p # n # ns = NBUF # (as @ cs) @ [NBUF]"
    using pp nn by (metis append.assoc append_Cons append_Nil)
  ultimately show ?thesis using L U(3) nb unfolding lru_def by auto
qed

lemma lru_move_to_front:
  assumes "lru bs (as @ b # cs)"
  shows "lru (link_front b (unlink_buf b bs)) (b # as @ cs)"
  using lru_link_front [OF lru_unlink [OF assms]] lruD [OF assms] by simp

section \<open>Searching and using the cache\<close>

text \<open>The search visits the buffers in the order of the list.\<close>

lemma bget_scan_next:
  assumes "lnk (nexts bs) pv (b # ord @ [NBUF])" and "NBUF \<notin> set (b # ord)" and "length ord + 1 < n"
  shows "bget_scan n b_next P b bs = Ret (find (\<lambda>i. P (bs ! i)) (b # ord))"
  using assms
proof (induction ord arbitrary: b n)
  case Nil
  then obtain m where "n = Suc (Suc m)" by (metis add_0 less_iff_Suc_add list.size(3) plus_1_eq_Suc add_Suc)
  then show ?case using Nil by (simp add: nexts_def)
next
  case (Cons c ord)
  then obtain m where n: "n = Suc m" by (cases n) auto
  have c: "b_next (bs ! b) = c" using Cons.prems(1) by (simp add: nexts_def)
  have "bget_scan m b_next P c bs = Ret (find (\<lambda>i. P (bs ! i)) (c # ord))"
    using Cons.prems n by (intro Cons.IH) auto
  then show ?case using Cons.prems(2) n c by simp
qed

lemma lnk_rev: "lnk nx pv xs \<longleftrightarrow> lnk pv nx (rev xs)"
proof (induction nx pv xs rule: lnk.induct)
  case (1 nx pv x y zs)
  show ?case using 1 lnk_append [of pv nx "rev zs" y "[x]"] by auto
qed auto

lemma bget_scan_prev:
  assumes "lnk nx (prevs bs) (NBUF # rev (b # ord))" and "NBUF \<notin> set (b # ord)" and "length ord + 1 < n"
  shows "bget_scan n b_prev P b bs = Ret (find (\<lambda>i. P (bs ! i)) (b # ord))"
  using assms
proof (induction ord arbitrary: b n)
  case Nil
  then obtain m where "n = Suc (Suc m)" by (metis add_0 less_iff_Suc_add list.size(3) plus_1_eq_Suc add_Suc)
  then show ?case using Nil by (simp add: prevs_def)
next
  case (Cons c ord)
  then obtain m where n: "n = Suc m" by (cases n) auto
  have split: "lnk nx (prevs bs) ((NBUF # rev ord) @ c # [b])" using Cons.prems(1) by simp
  have c: "b_prev (bs ! b) = c" and l: "lnk nx (prevs bs) (NBUF # rev (c # ord))"
    using split unfolding lnk_append [of nx "prevs bs" "NBUF # rev ord" c "[b]"] by (auto simp: prevs_def)
  have "bget_scan m b_prev P c bs = Ret (find (\<lambda>i. P (bs ! i)) (c # ord))"
    using Cons.prems n l by (intro Cons.IH) auto
  then show ?case using Cons.prems(2) n c by simp
qed

lemma bget_scan_head: "bget_scan (NBUF + 2) step P NBUF bs = Ret None"
  by (simp add: numeral_2_eq_2)

declare bget_scan.simps [simp del]

lemma length_ord: "lru bs ord \<Longrightarrow> length ord \<le> NBUF"
proof -
  assume "lru bs ord"
  then have "distinct ord" "set ord \<subseteq> {..<NBUF}" by (auto simp: lru_def)
  then show ?thesis using distinct_card [of ord] card_mono [of "{..<NBUF}" "set ord"] by simp
qed

lemma bget_scan_forward:
  assumes "lru bs ord"
  shows "bget_scan (NBUF + 2) b_next P (b_next (bs ! NBUF)) bs = Ret (find (\<lambda>i. P (bs ! i)) ord)"
proof (cases ord)
  case Nil
  then show ?thesis using lruD [OF assms] bget_scan_head by (simp add: nexts_def)
next
  case (Cons b os)
  have "b_next (bs ! NBUF) = b" "lnk (nexts bs) (prevs bs) (b # os @ [NBUF])"
    using lruD(5) [OF assms] Cons by (auto simp: nexts_def)
  then show ?thesis
    using bget_scan_next [of bs "prevs bs" b os "NBUF + 2" P] lruD(4) [OF assms] length_ord [OF assms] Cons by simp
qed

lemma bget_scan_backward:
  assumes "lru bs ord"
  shows "bget_scan (NBUF + 2) b_prev P (b_prev (bs ! NBUF)) bs = Ret (find (\<lambda>i. P (bs ! i)) (rev ord))"
proof (cases ord rule: rev_cases)
  case Nil
  then show ?thesis using lruD [OF assms] bget_scan_head by (simp add: prevs_def)
next
  case (snoc os b)
  have "lnk (nexts bs) (prevs bs) ((NBUF # os) @ b # [NBUF])" using lruD(5) [OF assms] snoc by simp
  then have "b_prev (bs ! NBUF) = b" "lnk (nexts bs) (prevs bs) (NBUF # os @ [b])"
    unfolding lnk_append [of _ _ "NBUF # os" b "[NBUF]"] by (auto simp: prevs_def)
  then show ?thesis
    using bget_scan_prev [of "nexts bs" bs b "rev os" "NBUF + 2" P] lruD(4) [OF assms] length_ord [OF assms] snoc by simp
qed

text \<open>
  The invariant of the cache: the list holds every buffer, no two buffers hold the same
  block of a device, and a buffer nobody refers to is not locked. Device 0 does not exist;
  it is what the buffers start with.
\<close>

definition cache_inv :: "'a bio_scheme \<Rightarrow> nat list \<Rightarrow> bool" where
  "cache_inv s ord \<longleftrightarrow> lru (bufs s) ord \<and> set ord = {..<NBUF} \<and>
     (\<forall>i < NBUF. \<forall>j < NBUF. b_dev (bufs s ! i) \<noteq> 0 \<longrightarrow> b_dev (bufs s ! i) = b_dev (bufs s ! j) \<longrightarrow>
        b_blockno (bufs s ! i) = b_blockno (bufs s ! j) \<longrightarrow> i = j) \<and>
     (\<forall>i < NBUF. b_refcnt (bufs s ! i) = 0 \<longrightarrow> sl_locked (b_lock (bufs s ! i)) = 0)"

definition holds_block :: "u32 \<Rightarrow> u32 \<Rightarrow> buf \<Rightarrow> bool" where
  "holds_block dev blockno b \<longleftrightarrow> b_dev b = dev \<and> b_blockno b = blockno"

text \<open>The current contents of a block: the cached copy when there is one, else the disk.\<close>

definition block_view :: "'a bio_scheme \<Rightarrow> u32 \<Rightarrow> u32 \<Rightarrow> blk" where
  "block_view s dev blockno =
     (case find (\<lambda>i. holds_block dev blockno (bufs s ! i) \<and> b_valid (bufs s ! i)) [0..<NBUF] of
        Some i \<Rightarrow> b_data (bufs s ! i) | None \<Rightarrow> disk s blockno)"

lemma upd_buf_nth: "j < length bs \<Longrightarrow> upd_buf b f bs ! j = (if j = b then f (bs ! j) else bs ! j)"
  by (simp add: upd_buf_def)

lemma lru_cong:
  assumes "lru bs ord" and "length bs' = length bs" and "\<And>i. i < length bs \<Longrightarrow> b_next (bs' ! i) = b_next (bs ! i)"
    and "\<And>i. i < length bs \<Longrightarrow> b_prev (bs' ! i) = b_prev (bs ! i)"
  shows "lru bs' ord"
proof -
  note L = lruD [OF assms(1)]
  have in_range: "x < length bs" if "x \<in> set (NBUF # ord @ [NBUF])" for x
    using that L(1) L(3) [of x] by auto
  have "lnk (nexts bs') (prevs bs') (NBUF # ord @ [NBUF]) \<longleftrightarrow> lnk (nexts bs) (prevs bs) (NBUF # ord @ [NBUF])"
  proof (rule lnk_cong)
    fix x assume "x \<in> set (butlast (NBUF # ord @ [NBUF]))"
    then have "x < length bs" by (intro in_range) (rule in_set_butlastD)
    then show "nexts bs' x = nexts bs x" using assms(3) by (simp add: nexts_def)
  next
    fix x assume "x \<in> set (tl (NBUF # ord @ [NBUF]))"
    then have "x < length bs" by (intro in_range) auto
    then show "prevs bs' x = prevs bs x" using assms(4) by (simp add: prevs_def)
  qed
  then show ?thesis using assms L unfolding lru_def by simp
qed

lemma find_Some_unique:
  assumes "find P xs = Some i" shows "P i \<and> i \<in> set xs"
  using assms by (auto simp: find_Some_iff)

lemma cache_inv_unique:
  "cache_inv s ord \<Longrightarrow> i < NBUF \<Longrightarrow> j < NBUF \<Longrightarrow> b_dev (bufs s ! i) \<noteq> 0 \<Longrightarrow>
    holds_block (b_dev (bufs s ! i)) (b_blockno (bufs s ! i)) (bufs s ! j) \<Longrightarrow> j = i"
  unfolding cache_inv_def holds_block_def by metis

lemma block_view_cached:
  assumes inv: "cache_inv s ord" and "dev \<noteq> 0" and "i < NBUF" and "holds_block dev bno (bufs s ! i)"
  shows "block_view s dev bno = (if b_valid (bufs s ! i) then b_data (bufs s ! i) else disk s bno)"
proof -
  have uniq: "j = i" if "j < NBUF" "holds_block dev bno (bufs s ! j)" for j
    using inv assms that unfolding cache_inv_def holds_block_def by metis
  show ?thesis
  proof (cases "find (\<lambda>i. holds_block dev bno (bufs s ! i) \<and> b_valid (bufs s ! i)) [0..<NBUF]")
    case None
    then have "\<not> b_valid (bufs s ! i)" using assms(3,4) by (auto simp: find_None_iff)
    then show ?thesis using None by (simp add: block_view_def)
  next
    case (Some j)
    then have "j = i" "b_valid (bufs s ! j)" using find_Some_unique [OF Some] uniq by auto
    then show ?thesis using Some by (simp add: block_view_def)
  qed
qed

text \<open>What \<open>bread\<close> does to its buffer, and that nothing else changes.\<close>

definition fetched :: "s32 \<Rightarrow> u32 \<Rightarrow> u32 \<Rightarrow> nat \<Rightarrow> 'a bio_scheme \<Rightarrow> 'a bio_scheme \<Rightarrow> bool" where
  "fetched pid dev bno b s s' \<longleftrightarrow> b < NBUF \<and> holds_block dev bno (bufs s' ! b) \<and> b_valid (bufs s' ! b) \<and>
     b_data (bufs s' ! b) = block_view s dev bno \<and> holdingsleep pid (b_lock (bufs s' ! b)) \<and>
     (\<forall>j < length (bufs s). j \<noteq> b \<longrightarrow> bufs s' ! j = bufs s ! j) \<and> disk s' = disk s \<and> dtrace s' = dtrace s \<and> bio.more s' = bio.more s"

lemma cache_inv_update:
  assumes inv: "cache_inv s ord" and i: "i < NBUF" and s': "bufs s' = (bufs s)[i := x]"
    and "b_next x = b_next (bufs s ! i)" "b_prev x = b_prev (bufs s ! i)"
    and other: "\<And>j. j < NBUF \<Longrightarrow> j \<noteq> i \<Longrightarrow> b_dev x \<noteq> 0 \<Longrightarrow> \<not> holds_block (b_dev x) (b_blockno x) (bufs s ! j)"
    and lock: "b_refcnt x = 0 \<Longrightarrow> sl_locked (b_lock x) = 0"
  shows "cache_inv s' ord"
proof -
  have lr: "lru (bufs s) ord" and ord: "set ord = {..<NBUF}" using inv by (auto simp: cache_inv_def)
  have len: "length (bufs s) = NBUF + 1" using lruD(1) [OF lr] .
  have nth: "bufs s' ! j = (if j = i then x else bufs s ! j)" if "j < NBUF + 1" for j
    using that len i unfolding s' by (simp add: nth_list_update)
  have length_s': "length (bufs s') = NBUF + 1" using len unfolding s' by simp
  have "lru (bufs s') ord"
    by (rule lru_cong [OF lr]) (use assms(4,5) in \<open>simp_all add: nth len length_s'\<close>)
  moreover have "j = k" if "j < NBUF" "k < NBUF" "b_dev (bufs s' ! j) \<noteq> 0"
      "b_dev (bufs s' ! j) = b_dev (bufs s' ! k)" "b_blockno (bufs s' ! j) = b_blockno (bufs s' ! k)" for j k
    using that other [of j] other [of k] inv len i
    unfolding s' cache_inv_def holds_block_def by (auto simp: nth_list_update split: if_splits)
  moreover have "sl_locked (b_lock (bufs s' ! j)) = 0" if "j < NBUF" "b_refcnt (bufs s' ! j) = 0" for j
    using that lock inv len i unfolding s' cache_inv_def by (auto simp: nth_list_update split: if_splits)
  ultimately show ?thesis using ord unfolding cache_inv_def by blast
qed

lemma find_cached:
  assumes inv: "cache_inv s ord" and "dev \<noteq> 0" and "i < NBUF" and "holds_block dev bno (bufs s ! i)"
  shows "find (\<lambda>i. b_dev (bufs s ! i) = dev \<and> b_blockno (bufs s ! i) = bno) ord = Some i"
proof -
  have "i \<in> set ord" using inv assms(3) by (simp add: cache_inv_def)
  then have "find (\<lambda>i. b_dev (bufs s ! i) = dev \<and> b_blockno (bufs s ! i) = bno) ord \<noteq> None"
    using assms(4) by (auto simp: find_None_iff holds_block_def)
  then obtain j where j: "find (\<lambda>i. b_dev (bufs s ! i) = dev \<and> b_blockno (bufs s ! i) = bno) ord = Some j" by auto
  from find_Some_unique [OF j] have "j < NBUF" "b_dev (bufs s ! j) = dev" "b_blockno (bufs s ! j) = bno"
    using inv by (auto simp: cache_inv_def)
  then have "j = i" using inv assms(2-4) unfolding cache_inv_def holds_block_def by metis
  then show ?thesis using j by simp
qed

lemma bread_hit:
  assumes inv: "cache_inv s ord" and dev: "dev \<noteq> 0" and i: "i < NBUF" and hb: "holds_block dev bno (bufs s ! i)"
    and lk: "sl_locked (b_lock (bufs s ! i)) = 0" and rc: "b_refcnt (bufs s ! i) + 1 \<noteq> 0"
  shows "\<exists>s'. bread pid dev bno s = Ret (i, s') \<and> fetched pid dev bno i s s' \<and> cache_inv s' ord \<and>
    b_refcnt (bufs s' ! i) = b_refcnt (bufs s ! i) + 1"
proof -
  have lr: "lru (bufs s) ord" using inv by (simp add: cache_inv_def)
  have len: "length (bufs s) = NBUF + 1" using lruD(1) [OF lr] .
  define x where "x = bufs s ! i"
  define x1 where "x1 = x\<lparr>b_refcnt := b_refcnt x + 1, b_lock := (b_lock x)\<lparr>sl_locked := 1, sl_pid := pid\<rparr>\<rparr>"
  define x2 where "x2 = (if b_valid x then x1 else x1\<lparr>b_data := disk s bno, b_valid := True\<rparr>)"
  let ?s' = "s\<lparr>bufs := (bufs s)[i := x2]\<rparr>"
  have sc: "bget_scan (NBUF + 2) b_next (\<lambda>b. b_dev b = dev \<and> b_blockno b = bno) (b_next (bufs s ! NBUF)) (bufs s) =
      Ret (Some i)"
    by (simp only: bget_scan_forward [OF lr] find_cached [OF inv dev i hb])
  have g: "bget pid dev bno s = Ret (i, s\<lparr>bufs := (bufs s)[i := x1]\<rparr>)"
    using lk i len unfolding bget_def sc by (simp add: x_def x1_def upd_buf_def acquiresleep_def)
  have bno: "b_blockno x = bno" "b_dev x = dev" using hb by (simp_all add: holds_block_def x_def)
  have r: "bread pid dev bno s = Ret (i, ?s')"
    using i len bno unfolding bread_def g by (simp add: x1_def x2_def upd_buf_def)
  have x2: "b_next x2 = b_next x" "b_prev x2 = b_prev x" "b_dev x2 = dev" "b_blockno x2 = bno"
      "b_refcnt x2 = b_refcnt x + 1" "b_valid x2" "b_lock x2 = (b_lock x)\<lparr>sl_locked := 1, sl_pid := pid\<rparr>"
      "b_data x2 = (if b_valid x then b_data x else disk s bno)"
    using bno by (auto simp: x2_def x1_def)
  have uniq: "\<not> holds_block dev bno (bufs s ! j)" if "j < NBUF" "j \<noteq> i" for j
    using inv that i hb dev unfolding cache_inv_def holds_block_def by metis
  have "cache_inv ?s' ord"
    by (rule cache_inv_update [OF inv i, of _ x2]) (use x2 uniq rc in \<open>auto simp: x_def\<close>)
  moreover have "fetched pid dev bno i s ?s'"
    using i len x2 block_view_cached [OF inv dev i hb]
    by (simp add: fetched_def holds_block_def holdingsleep_def x_def)
  ultimately show ?thesis using r x2 i len by (simp add: x_def)
qed

lemma bread_locked:
  assumes inv: "cache_inv s ord" and dev: "dev \<noteq> 0" and i: "i < NBUF" and hb: "holds_block dev bno (bufs s ! i)"
    and lk: "sl_locked (b_lock (bufs s ! i)) \<noteq> 0"
  shows "bread pid dev bno s = Block"
proof -
  have lr: "lru (bufs s) ord" using inv by (simp add: cache_inv_def)
  have len: "length (bufs s) = NBUF + 1" using lruD(1) [OF lr] .
  have sc: "bget_scan (NBUF + 2) b_next (\<lambda>b. b_dev b = dev \<and> b_blockno b = bno) (b_next (bufs s ! NBUF)) (bufs s) =
      Ret (Some i)"
    by (simp only: bget_scan_forward [OF lr] find_cached [OF inv dev i hb])
  show ?thesis using lk i len unfolding bread_def bget_def sc by (simp add: upd_buf_def acquiresleep_def)
qed

lemma bread_full:
  assumes inv: "cache_inv s ord" and miss: "\<forall>i < NBUF. \<not> holds_block dev bno (bufs s ! i)"
    and busy: "\<forall>i < NBUF. b_refcnt (bufs s ! i) \<noteq> 0"
  shows "bread pid dev bno s = Panic ''bget: no buffers''"
proof -
  have lr: "lru (bufs s) ord" and ord: "set ord = {..<NBUF}" using inv by (simp_all add: cache_inv_def)
  have sc: "bget_scan (NBUF + 2) b_next (\<lambda>b. b_dev b = dev \<and> b_blockno b = bno) (b_next (bufs s ! NBUF)) (bufs s) = Ret None"
    by (simp only: bget_scan_forward [OF lr]) (use miss ord in \<open>auto simp: find_None_iff holds_block_def\<close>)
  have sp: "bget_scan (NBUF + 2) b_prev (\<lambda>b. b_refcnt b = 0) (b_prev (bufs s ! NBUF)) (bufs s) = Ret None"
    by (simp only: bget_scan_backward [OF lr]) (use busy ord in \<open>auto simp: find_None_iff\<close>)
  show ?thesis unfolding bread_def bget_def sc bindR.simps option.case sp by simp
qed

lemma bread_miss:
  assumes inv: "cache_inv s ord" and dev: "dev \<noteq> 0" and miss: "\<forall>i < NBUF. \<not> holds_block dev bno (bufs s ! i)"
    and free: "\<exists>i < NBUF. b_refcnt (bufs s ! i) = 0"
  shows "\<exists>b s'. bread pid dev bno s = Ret (b, s') \<and> find (\<lambda>i. b_refcnt (bufs s ! i) = 0) (rev ord) = Some b \<and>
    fetched pid dev bno b s s' \<and> cache_inv s' ord \<and> b_refcnt (bufs s' ! b) = 1"
proof -
  have lr: "lru (bufs s) ord" and ord: "set ord = {..<NBUF}" using inv by (simp_all add: cache_inv_def)
  have len: "length (bufs s) = NBUF + 1" using lruD(1) [OF lr] .
  have sc: "bget_scan (NBUF + 2) b_next (\<lambda>b. b_dev b = dev \<and> b_blockno b = bno) (b_next (bufs s ! NBUF)) (bufs s) = Ret None"
    by (simp only: bget_scan_forward [OF lr]) (use miss ord in \<open>auto simp: find_None_iff holds_block_def\<close>)
  obtain b where b: "find (\<lambda>i. b_refcnt (bufs s ! i) = 0) (rev ord) = Some b"
    using free ord by (cases "find (\<lambda>i. b_refcnt (bufs s ! i) = 0) (rev ord)") (auto simp: find_None_iff)
  have bl: "b < NBUF" "b_refcnt (bufs s ! b) = 0" using find_Some_unique [OF b] ord by auto
  have sp: "bget_scan (NBUF + 2) b_prev (\<lambda>b. b_refcnt b = 0) (b_prev (bufs s ! NBUF)) (bufs s) = Ret (Some b)"
    by (simp only: bget_scan_backward [OF lr] b)
  have lk: "sl_locked (b_lock (bufs s ! b)) = 0" using inv bl by (simp add: cache_inv_def)
  define x where "x = bufs s ! b"
  define x1 where "x1 = x\<lparr>b_dev := dev, b_blockno := bno, b_valid := False, b_refcnt := 1,
    b_lock := (b_lock x)\<lparr>sl_locked := 1, sl_pid := pid\<rparr>\<rparr>"
  define x2 where "x2 = x1\<lparr>b_data := disk s bno, b_valid := True\<rparr>"
  let ?s' = "s\<lparr>bufs := (bufs s)[b := x2]\<rparr>"
  have g: "bget pid dev bno s = Ret (b, s\<lparr>bufs := (bufs s)[b := x1]\<rparr>)"
    using lk bl len unfolding bget_def sc bindR.simps option.case sp by (simp add: x_def x1_def upd_buf_def acquiresleep_def)
  have r: "bread pid dev bno s = Ret (b, ?s')"
    using bl len unfolding bread_def g by (simp add: x1_def x2_def upd_buf_def)
  have x2: "b_next x2 = b_next x" "b_prev x2 = b_prev x" "b_dev x2 = dev" "b_blockno x2 = bno" "b_refcnt x2 = 1"
      "b_valid x2" "b_lock x2 = (b_lock x)\<lparr>sl_locked := 1, sl_pid := pid\<rparr>" "b_data x2 = disk s bno"
    by (simp_all add: x2_def x1_def)
  have "cache_inv ?s' ord"
    by (rule cache_inv_update [OF inv bl(1), of _ x2]) (use x2 miss in \<open>auto simp: x_def\<close>)
  moreover have "block_view s dev bno = disk s bno"
    using miss by (auto simp: block_view_def find_None_iff split: option.splits dest!: find_Some_unique)
  then have "fetched pid dev bno b s ?s'"
    using bl len x2 by (simp add: fetched_def holds_block_def holdingsleep_def)
  ultimately show ?thesis using r x2 bl len b by simp
qed

text \<open>The fields of a buffer other than its place in the list.\<close>

definition unlinked :: "buf \<Rightarrow> buf" where
  "unlinked b = b\<lparr>b_prev := 0, b_next := 0\<rparr>"

lemma map_update_same: "g x = g (xs ! i) \<Longrightarrow> map g (xs[i := x]) = map g xs"
  by (metis list_update_id map_update)

lemma unlinked_upd_buf [simp]:
  "map unlinked (upd_buf b (b_next_update f) bs) = map unlinked bs"
  "map unlinked (upd_buf b (b_prev_update f) bs) = map unlinked bs"
  by (simp_all add: upd_buf_def map_update_same unlinked_def)

lemma unlinked_link_front [simp]: "map unlinked (link_front b bs) = map unlinked bs"
  by (simp add: link_front_def Let_def)

lemma unlinked_unlink_buf [simp]: "map unlinked (unlink_buf b bs) = map unlinked bs"
  by (simp add: unlink_buf_def Let_def)

lemma unlinked_fields:
  assumes "unlinked x = unlinked y"
  shows "b_valid x = b_valid y" "b_dev x = b_dev y" "b_blockno x = b_blockno y" "b_lock x = b_lock y"
    "b_refcnt x = b_refcnt y" "b_data x = b_data y"
  using assms by (cases x; cases y; simp add: unlinked_def)+

lemma nth_unlinked: "map unlinked bs' = map unlinked bs \<Longrightarrow> i < length bs \<Longrightarrow> unlinked (bs' ! i) = unlinked (bs ! i)"
  by (metis length_map nth_map)

lemma cache_inv_cong:
  assumes inv: "cache_inv s ord" and u: "map unlinked (bufs s') = map unlinked (bufs s)"
    and lr: "lru (bufs s') ord'" and ord: "set ord' = set ord"
  shows "cache_inv s' ord'"
proof -
  have "length (bufs s) = NBUF + 1" using inv lruD(1) by (auto simp: cache_inv_def)
  then have "unlinked (bufs s' ! i) = unlinked (bufs s ! i)" if "i < NBUF" for i
    using that by (intro nth_unlinked [OF u]) simp
  note f = unlinked_fields [OF this]
  show ?thesis using inv lr ord unfolding cache_inv_def by (simp add: f cong: conj_cong)
qed

lemma block_view_data:
  assumes v: "\<And>i. i < NBUF \<Longrightarrow> (b_valid (bufs s' ! i), b_dev (bufs s' ! i), b_blockno (bufs s' ! i), b_data (bufs s' ! i)) =
      (b_valid (bufs s ! i), b_dev (bufs s ! i), b_blockno (bufs s ! i), b_data (bufs s ! i))" and "disk s' = disk s"
  shows "block_view s' dev bno = block_view s dev bno"
proof -
  have e: "find (\<lambda>i. holds_block dev bno (bufs s' ! i) \<and> b_valid (bufs s' ! i)) [0..<NBUF] =
      find (\<lambda>i. holds_block dev bno (bufs s ! i) \<and> b_valid (bufs s ! i)) [0..<NBUF]"
    by (rule find_cong) (use v in \<open>auto simp: holds_block_def\<close>)
  show ?thesis unfolding block_view_def e assms(2)
    using v by (auto split: option.splits dest!: find_Some_unique)
qed

text \<open>What \<open>brelse\<close> leaves: the lock is free, one reference less, everything else as it was.\<close>

definition released :: "nat \<Rightarrow> 'a bio_scheme \<Rightarrow> 'a bio_scheme \<Rightarrow> bool" where
  "released b s s' \<longleftrightarrow> map unlinked (bufs s') = map unlinked
       ((bufs s)[b := (bufs s ! b)\<lparr>b_lock := releasesleep (b_lock (bufs s ! b)), b_refcnt := b_refcnt (bufs s ! b) - 1\<rparr>]) \<and>
     disk s' = disk s \<and> dtrace s' = dtrace s \<and> bio.more s' = bio.more s"

lemma brelse_released:
  assumes inv: "cache_inv s (as @ b # cs)" and lk: "holdingsleep pid (b_lock (bufs s ! b))"
  shows "\<exists>s'. brelse pid b s = Ret s' \<and> released b s s' \<and>
    cache_inv s' (if b_refcnt (bufs s ! b) = 1 then b # as @ cs else as @ b # cs)"
proof -
  have lr: "lru (bufs s) (as @ b # cs)" and len: "length (bufs s) = NBUF + 1" and b: "b < NBUF"
    using inv lruD by (auto simp: cache_inv_def)
  define x where "x = (bufs s ! b)\<lparr>b_lock := releasesleep (b_lock (bufs s ! b)), b_refcnt := b_refcnt (bufs s ! b) - 1\<rparr>"
  define s1 where "s1 = s\<lparr>bufs := (bufs s)[b := x]\<rparr>"
  have uniq: "\<not> holds_block (b_dev x) (b_blockno x) (bufs s ! j)" if "j < NBUF" "j \<noteq> b" "b_dev x \<noteq> 0" for j
    using cache_inv_unique [OF inv b that(1)] that(2,3) by (auto simp: x_def)
  have i1: "cache_inv s1 (as @ b # cs)"
    by (rule cache_inv_update [OF inv b, of _ x]) (use uniq in \<open>simp_all add: x_def s1_def releasesleep_def\<close>)
  then have l1: "lru (bufs s1) (as @ b # cs)" by (simp add: cache_inv_def)
  define s2 where "s2 = s1\<lparr>bufs := link_front b (unlink_buf b (bufs s1))\<rparr>"
  have r: "brelse pid b s = Ret (if b_refcnt (bufs s ! b) = 1 then s2 else s1)"
    using lk b len by (auto simp: brelse_def upd_buf_def s2_def s1_def x_def)
  have "cache_inv s2 (b # as @ cs)"
    by (rule cache_inv_cong [OF i1]) (use lru_move_to_front [OF l1] in \<open>auto simp: s2_def\<close>)
  moreover have "released b s s1" "released b s s2" by (simp_all add: released_def s1_def s2_def x_def)
  ultimately show ?thesis using r i1 by auto
qed

lemma releasedD:
  assumes r: "released b s s'" and inv: "cache_inv s (as @ b # cs)"
  shows "b_refcnt (bufs s' ! b) = b_refcnt (bufs s ! b) - 1" and "sl_locked (b_lock (bufs s' ! b)) = 0"
    and "\<forall>i < NBUF. i \<noteq> b \<longrightarrow> unlinked (bufs s' ! i) = unlinked (bufs s ! i)"
    and "\<forall>dev bno. block_view s' dev bno = block_view s dev bno"
proof -
  define x where "x = (bufs s ! b)\<lparr>b_lock := releasesleep (b_lock (bufs s ! b)), b_refcnt := b_refcnt (bufs s ! b) - 1\<rparr>"
  have len: "length (bufs s) = NBUF + 1" and b: "b < NBUF" using inv lruD by (auto simp: cache_inv_def)
  have u: "map unlinked (bufs s') = map unlinked ((bufs s)[b := x])" and d: "disk s' = disk s"
    using r by (simp_all add: released_def x_def)
  have n: "unlinked (bufs s' ! i) = unlinked (if i = b then x else bufs s ! i)" if "i < NBUF" for i
    using nth_unlinked [OF u, of i] that len by (simp add: nth_list_update)
  from n [of b] b have "unlinked (bufs s' ! b) = unlinked x" by simp
  note f = unlinked_fields [OF this]
  show "b_refcnt (bufs s' ! b) = b_refcnt (bufs s ! b) - 1" "sl_locked (b_lock (bufs s' ! b)) = 0"
    using f by (simp_all add: x_def releasesleep_def)
  show "\<forall>i < NBUF. i \<noteq> b \<longrightarrow> unlinked (bufs s' ! i) = unlinked (bufs s ! i)" using n by simp
  let ?v = "\<lambda>b. (b_valid b, b_dev b, b_blockno b, b_data b)"
  have v: "?v (bufs s' ! i) = ?v (bufs s ! i)" if "i < NBUF" for i
    using unlinked_fields [OF n [OF that]] by (simp add: x_def)
  show "\<forall>dev bno. block_view s' dev bno = block_view s dev bno"
    using block_view_data [of s' s] v d by simp
qed

section \<open>Initialisation\<close>

lemma binit_fold:
  assumes "lru bs []" and "k \<le> NBUF"
  shows "lru (fold (\<lambda>b bs. upd_buf b (b_lock_update (initsleeplock ''buffer'')) (link_front b bs)) [0..<k] bs) (rev [0..<k])"
  using assms(2)
proof (induction k)
  case (Suc k)
  let ?bs = "fold (\<lambda>b bs. upd_buf b (b_lock_update (initsleeplock ''buffer'')) (link_front b bs)) [0..<k] bs"
  have "lru (link_front k ?bs) (k # rev [0..<k])"
    by (rule lru_link_front) (use Suc in auto)
  then have "lru (upd_buf k (b_lock_update (initsleeplock ''buffer'')) (link_front k ?bs)) (k # rev [0..<k])"
    by (rule lru_cong) (auto simp: upd_buf_nth)
  then show ?case by simp
qed (simp add: assms(1))

lemma binit_fold_fields:
  assumes "length bs = NBUF + 1" and "k \<le> NBUF" and "i < NBUF"
  defines "bs' \<equiv> fold (\<lambda>b bs. upd_buf b (b_lock_update (initsleeplock ''buffer'')) (link_front b bs)) [0..<k] bs"
  shows "length bs' = NBUF + 1 \<and> b_dev (bs' ! i) = b_dev (bs ! i) \<and> b_refcnt (bs' ! i) = b_refcnt (bs ! i) \<and> (i < k \<longrightarrow> sl_locked (b_lock (bs' ! i)) = 0)"
  using assms(2) unfolding bs'_def
proof (induction k)
  case (Suc k)
  define b1 where "b1 = fold (\<lambda>b bs. upd_buf b (b_lock_update (initsleeplock ''buffer'')) (link_front b bs)) [0..<k] bs"
  have IH: "length b1 = NBUF + 1" "b_dev (b1 ! i) = b_dev (bs ! i)" "b_refcnt (b1 ! i) = b_refcnt (bs ! i)" "i < k \<longrightarrow> sl_locked (b_lock (b1 ! i)) = 0"
    using Suc by (auto simp: b1_def)
  have u: "map unlinked (link_front k b1) = map unlinked b1" by simp
  have l: "length (link_front k b1) = NBUF + 1" using IH(1) by simp
  have "unlinked (link_front k b1 ! i) = unlinked (b1 ! i)" using nth_unlinked [OF u] IH(1) assms(3) by simp
  note f = unlinked_fields [OF this]
  have e: "fold (\<lambda>b bs. upd_buf b (b_lock_update (initsleeplock ''buffer'')) (link_front b bs)) [0..<Suc k] bs =
      upd_buf k (b_lock_update (initsleeplock ''buffer'')) (link_front k b1)" by (simp add: b1_def)
  show ?case unfolding e using IH l assms(3) f by (auto simp: upd_buf_nth initsleeplock_def less_Suc_eq)
qed (simp add: assms(1))

lemma binit_inv:
  assumes "length bs = NBUF + 1" and "\<forall>i < NBUF. b_dev (bs ! i) = 0"
  shows "cache_inv \<lparr>bufs = binit bs, disk = d, dtrace = t, \<dots> = m\<rparr> (rev [0..<NBUF])"
proof -
  define b0 where "b0 = upd_buf NBUF (\<lambda>h. h\<lparr>b_prev := NBUF, b_next := NBUF\<rparr>) bs"
  have l0: "length b0 = NBUF + 1" and d0: "i < NBUF \<Longrightarrow> b_dev (b0 ! i) = 0" for i
    using assms by (auto simp: b0_def upd_buf_nth)
  have "lru b0 []" using assms(1) by (simp add: lru_def nexts_def prevs_def b0_def upd_buf_nth)
  then have "lru (binit bs) (rev [0..<NBUF])" using binit_fold [of b0 NBUF] by (simp add: binit_def b0_def)
  moreover have "b_dev (binit bs ! i) = 0 \<and> sl_locked (b_lock (binit bs ! i)) = 0" if "i < NBUF" for i
    using binit_fold_fields [of b0 NBUF i] l0 d0 that by (simp add: binit_def b0_def)
  ultimately show ?thesis by (simp add: cache_inv_def lessThan_atLeast0)
qed

section \<open>Properties of the buffer cache\<close>

definition empty_buf :: buf where
  "empty_buf = \<lparr>b_valid = False, b_dev = 0, b_blockno = 0, b_lock = \<lparr>sl_locked = 0, sl_name = [], sl_pid = 0\<rparr>,
     b_refcnt = 0, b_prev = 0, b_next = 0, b_data = []\<rparr>"

definition boot_bio :: "(u32 \<Rightarrow> blk) \<Rightarrow> bio" where
  "boot_bio d = \<lparr>bufs = binit (replicate (NBUF + 1) empty_buf), disk = d, dtrace = []\<rparr>"

lemma boot_bio_inv: "cache_inv (boot_bio d) (rev [0..<NBUF])"
  unfolding boot_bio_def by (rule binit_inv) (auto simp: empty_buf_def nth_append simp del: replicate.simps replicate_Suc)

lemma boot_bio_fields:
  assumes "i < NBUF" shows "b_dev (bufs (boot_bio d) ! i) = 0 \<and> b_refcnt (bufs (boot_bio d) ! i) = 0"
proof -
  define b0 where "b0 = upd_buf NBUF (\<lambda>h. h\<lparr>b_prev := NBUF, b_next := NBUF\<rparr>) (replicate (NBUF + 1) empty_buf)"
  have l: "length b0 = NBUF + 1" and f: "b_dev (b0 ! i) = 0" "b_refcnt (b0 ! i) = 0"
    using assms by (simp_all add: b0_def upd_buf_nth empty_buf_def del: replicate.simps replicate_Suc)
  show ?thesis using binit_fold_fields [OF l, of NBUF i] assms f by (simp add: boot_bio_def binit_def b0_def)
qed

text \<open>The first read after boot, with a disk that holds its block numbers.\<close>

lemma boot_read:
  fixes d :: "u32 \<Rightarrow> blk" assumes dev: "dev \<noteq> 0"
  shows "\<exists>s'. bread pid dev bno (boot_bio d) = Ret (0, s') \<and> fetched pid dev bno 0 (boot_bio d) s' \<and>
    cache_inv s' (rev [0..<NBUF]) \<and> b_refcnt (bufs s' ! 0) = 1 \<and> block_view (boot_bio d) dev bno = d bno"
proof -
  have e: "i < NBUF \<Longrightarrow> \<not> holds_block dev bno (bufs (boot_bio d) ! i) \<and> b_refcnt (bufs (boot_bio d) ! i) = 0" for i
    using boot_bio_fields [of i d] dev by (simp add: holds_block_def)
  have N: "0 < NBUF" by (simp add: NBUF_def)
  then have f: "find (\<lambda>i. b_refcnt (bufs (boot_bio d) ! i) = 0) (rev (rev [0..<NBUF])) = Some 0"
    using e [of 0] by (simp add: upt_rec [of 0 NBUF])
  have v: "block_view (boot_bio d) dev bno = d bno"
    using e by (auto simp: block_view_def boot_bio_def split: option.splits dest!: find_Some_unique)
  have "\<exists>i < NBUF. b_refcnt (bufs (boot_bio d) ! i) = 0" using e [OF N] N by blast
  from bread_miss [OF boot_bio_inv dev _ this, of bno pid] e f v show ?thesis by auto
qed

text \<open>
  C25 With the invariant of the cache, \<open>bread\<close> returns a locked buffer that holds the
  current contents of the block: the cached copy when there is one, the contents of the disk
  otherwise, in the least recently used buffer nobody refers to. It changes no other buffer
  and keeps the invariant, in particular that no block is cached twice. It panics exactly when
  the block is not cached and every buffer is referred to, and waits only for the holder of
  the buffer's lock.
\<close>

theorem bread_correct:
  assumes inv: "cache_inv s ord" and dev: "dev \<noteq> 0" and rc: "\<forall>i < NBUF. b_refcnt (bufs s ! i) + 1 \<noteq> 0"
  shows "case bread pid dev bno s of
      Ret (b, s') \<Rightarrow> fetched pid dev bno b s s' \<and> cache_inv s' ord \<and>
        (holds_block dev bno (bufs s ! b) \<or> (\<forall>i < NBUF. \<not> holds_block dev bno (bufs s ! i)) \<and>
           find (\<lambda>i. b_refcnt (bufs s ! i) = 0) (rev ord) = Some b)
    | Panic msg \<Rightarrow> msg = ''bget: no buffers'' \<and>
        (\<forall>i < NBUF. \<not> holds_block dev bno (bufs s ! i) \<and> b_refcnt (bufs s ! i) \<noteq> 0)
    | Undef \<Rightarrow> False
    | Block \<Rightarrow> (\<exists>i < NBUF. holds_block dev bno (bufs s ! i) \<and> sl_locked (b_lock (bufs s ! i)) \<noteq> 0)"
proof (cases "\<exists>i < NBUF. holds_block dev bno (bufs s ! i)")
  case True
  then obtain i where i: "i < NBUF" "holds_block dev bno (bufs s ! i)" by blast
  show ?thesis
  proof (cases "sl_locked (b_lock (bufs s ! i)) = 0")
    case True
    then show ?thesis using bread_hit [OF inv dev i, of pid] i rc by auto
  next
    case False
    then show ?thesis using bread_locked [OF inv dev i, of pid] i by auto
  qed
next
  case miss: False
  show ?thesis
  proof (cases "\<exists>i < NBUF. b_refcnt (bufs s ! i) = 0")
    case True
    then show ?thesis using bread_miss [OF inv dev _ True, of bno pid] miss by auto
  next
    case False
    then show ?thesis using bread_full [OF inv, of dev bno pid] miss by auto
  qed
qed

theorem bread_correct_witness:
  "(case bread 1 1 7 (boot_bio (\<lambda>n. [ucast n])) of
      Ret (b, s') \<Rightarrow> b_data (bufs s' ! b) = [7] \<and> cache_inv s' (rev [0..<NBUF])
    | _ \<Rightarrow> False)"
proof -
  let ?s = "boot_bio (\<lambda>n. [ucast n])"
  have "\<forall>i < NBUF. b_refcnt (bufs ?s ! i) + 1 \<noteq> 0" using boot_bio_fields by auto
  from bread_correct [OF boot_bio_inv [of "\<lambda>n. [ucast n]"] _ this, of 1 1 7]
    boot_read [of 1 1 7 "\<lambda>n. [ucast n]"]
  show ?thesis by (auto simp: fetched_def)
qed

text \<open>
  \<open>brelse\<close> by the holder of the buffer's lock frees the lock and gives up one reference;
  when it was the last one the buffer becomes the most recently used. No block changes its
  contents and the invariant is kept.
\<close>

theorem brelse_correct:
  assumes inv: "cache_inv s (as @ b # cs)" and lk: "holdingsleep pid (b_lock (bufs s ! b))"
  shows "\<exists>s'. brelse pid b s = Ret s' \<and>
    cache_inv s' (if b_refcnt (bufs s ! b) = 1 then b # as @ cs else as @ b # cs) \<and>
    b_refcnt (bufs s' ! b) = b_refcnt (bufs s ! b) - 1 \<and> sl_locked (b_lock (bufs s' ! b)) = 0 \<and>
    (\<forall>i < NBUF. i \<noteq> b \<longrightarrow> unlinked (bufs s' ! i) = unlinked (bufs s ! i)) \<and>
    (\<forall>dev bno. block_view s' dev bno = block_view s dev bno)"
proof -
  from brelse_released [OF assms] obtain s' where
    s': "brelse pid b s = Ret s'" "released b s s'" and
    inv': "cache_inv s' (if b_refcnt (bufs s ! b) = 1 then b # as @ cs else as @ b # cs)" by blast
  note R = releasedD [OF s'(2) inv]
  show ?thesis
    using s'(1) inv' R by blast
qed

theorem brelse_correct_witness:
  "\<exists>s' s''. bread 1 1 7 (boot_bio (\<lambda>n. [ucast n])) = Ret (0, s') \<and> brelse 1 0 s' = Ret s'' \<and>
     cache_inv s'' (0 # rev [1..<NBUF]) \<and> b_refcnt (bufs s'' ! 0) = 0"
proof -
  obtain s' where s': "bread 1 1 7 (boot_bio (\<lambda>n. [ucast n])) = Ret (0, s')"
      "fetched 1 1 7 0 (boot_bio (\<lambda>n. [ucast n])) s'" "cache_inv s' (rev [0..<NBUF])" "b_refcnt (bufs s' ! 0) = 1"
    using boot_read [of 1 1 7 "\<lambda>n. [ucast n]"] by auto
  have "rev [0..<NBUF] = rev [1..<NBUF] @ 0 # []" by (subst upt_rec) (simp add: NBUF_def)
  with s'(3) have "cache_inv s' (rev [1..<NBUF] @ 0 # [])" by simp
  from brelse_correct [OF this, of 1] s' show ?thesis by (auto simp: fetched_def)
qed

end
