(* ===== verification/Calm.thy ===== *)
theory Calm
  imports Bio
begin

text \<open>
  The buffer cache as a client sees it: \<open>calm pid dev R L s\<close> says that the process \<open>pid\<close> holds
  exactly the buffers \<open>L\<close> and no other process holds one, that apart from its own use buffer \<open>i\<close> has \<open>R i\<close>
  references (the pins of the log), and that a buffer without references is clean: its contents
  are what the disk holds, so that recycling it loses nothing. Each operation is
  described by its effect on \<open>L\<close>, on \<open>R\<close> and on the contents of the blocks.
\<close>

definition calm_buf :: "s32 \<Rightarrow> u32 \<Rightarrow> (u32 \<Rightarrow> blk) \<Rightarrow> nat \<Rightarrow> bool \<Rightarrow> buf \<Rightarrow> bool" where
  "calm_buf pid dev d r l x \<longleftrightarrow> r < 2 ^ 31 \<and> unat (b_refcnt x) = r + of_bool l \<and>
     (if l then holdingsleep pid (b_lock x) else sl_locked (b_lock x) = 0) \<and>
     (r = 0 \<and> \<not> l \<and> b_valid x \<and> b_dev x = dev \<longrightarrow> b_data x = d (b_blockno x))"

definition calm :: "s32 \<Rightarrow> u32 \<Rightarrow> (nat \<Rightarrow> nat) \<Rightarrow> nat set \<Rightarrow> 'a bio_scheme \<Rightarrow> bool" where
  "calm pid dev R L s \<longleftrightarrow> (\<exists>ord. cache_inv s ord) \<and> L \<subseteq> {..<NBUF} \<and>
     (\<forall>i < NBUF. calm_buf pid dev (disk s) (R i) (i \<in> L) (bufs s ! i))"

lemma calmD:
  assumes "calm pid dev R L s"
  shows "\<exists>ord. cache_inv s ord" and "i \<in> L \<Longrightarrow> i < NBUF" and "length (bufs s) = NBUF + 1"
    and "i < NBUF \<Longrightarrow> unat (b_refcnt (bufs s ! i)) = R i + of_bool (i \<in> L)" and "i < NBUF \<Longrightarrow> R i < 2 ^ 31"
    and "i \<in> L \<Longrightarrow> holdingsleep pid (b_lock (bufs s ! i))"
    and "i < NBUF \<Longrightarrow> i \<notin> L \<Longrightarrow> sl_locked (b_lock (bufs s ! i)) = 0"
    and "i < NBUF \<Longrightarrow> R i = 0 \<Longrightarrow> i \<notin> L \<Longrightarrow> b_valid (bufs s ! i) \<Longrightarrow> b_dev (bufs s ! i) = dev \<Longrightarrow>
      b_data (bufs s ! i) = disk s (b_blockno (bufs s ! i))"
  using assms lruD(1) unfolding calm_def cache_inv_def calm_buf_def by (auto split: if_splits)

lemma calm_buf_cong:
  assumes "unlinked x' = unlinked x" and "b_dev x = dev \<Longrightarrow> d' (b_blockno x) = d (b_blockno x)"
  shows "calm_buf pid dev d' r l x' \<longleftrightarrow> calm_buf pid dev d r l x"
  using assms(2) unlinked_fields [OF assms(1)] by (auto simp: calm_buf_def)

text \<open>A change of one buffer (and of the disk where no other buffer sees it).\<close>

lemma calm_update:
  assumes c: "calm pid dev R L s" and c': "\<exists>ord. cache_inv s' ord" and b: "b < NBUF"
    and rest: "\<And>j. j < NBUF \<Longrightarrow> j \<noteq> b \<Longrightarrow> unlinked (bufs s' ! j) = unlinked (bufs s ! j)"
    and d: "\<And>j. j < NBUF \<Longrightarrow> j \<noteq> b \<Longrightarrow> b_dev (bufs s ! j) = dev \<Longrightarrow> disk s' (b_blockno (bufs s ! j)) = disk s (b_blockno (bufs s ! j))"
    and x: "calm_buf pid dev (disk s') (R' b) (b \<in> L') (bufs s' ! b)"
    and RL: "\<And>j. j \<noteq> b \<Longrightarrow> R' j = R j \<and> (j \<in> L' \<longleftrightarrow> j \<in> L)"
  shows "calm pid dev R' L' s'"
proof -
  have "calm_buf pid dev (disk s') (R' j) (j \<in> L') (bufs s' ! j)" if "j < NBUF" for j
  proof (cases "j = b")
    case False
    then have "calm_buf pid dev (disk s) (R j) (j \<in> L) (bufs s ! j)" using c that by (simp add: calm_def)
    then show ?thesis 
      using calm_buf_cong [of "bufs s' ! j" "bufs s ! j" dev "disk s'" "disk s"] rest [OF that False] d [OF that False]
        RL [OF False] by simp
  qed (use x in simp)
  moreover have "L' \<subseteq> {..<NBUF}"
  proof
    fix j assume "j \<in> L'"
    then show "j \<in> {..<NBUF}" using b RL [of j] calmD(2) [OF c, of j] by (cases "j = b") auto
  qed
  ultimately show ?thesis using c' unfolding calm_def by blast
qed

text \<open>The block a buffer holds is seen through that buffer.\<close>

lemma calm_view:
  assumes "calm pid dev R L s" and "dev \<noteq> 0" and "i < NBUF" and "holds_block dev bno (bufs s ! i)"
  shows "block_view s dev bno = (if b_valid (bufs s ! i) then b_data (bufs s ! i) else disk s bno)"
  using calmD(1) [OF assms(1)] block_view_cached assms by blast

lemma view_uncached:
  assumes "\<forall>i < NBUF. holds_block dev bno (bufs s ! i) \<longrightarrow> \<not> b_valid (bufs s ! i)"
  shows "block_view s dev bno = disk s bno"
  using assms by (auto simp: block_view_def split: option.splits dest!: find_Some_unique)

text \<open>
  A change of one buffer: the contents of another block are unchanged, unless the buffer
  held that block and the disk differs.
\<close>

lemma view_update:
  assumes c: "\<exists>ord. cache_inv s ord" and c': "\<exists>ord. cache_inv s' ord" and dev: "dev \<noteq> 0"
    and rest: "\<forall>j < NBUF. j \<noteq> b \<longrightarrow> unlinked (bufs s' ! j) = unlinked (bufs s ! j)" and d: "disk s' n = disk s n"
    and new: "\<not> holds_block dev n (bufs s' ! b)"
    and old: "holds_block dev n (bufs s ! b) \<and> b_valid (bufs s ! b) \<longrightarrow> b_data (bufs s ! b) = disk s n"
    and b: "b < NBUF"
  shows "block_view s' dev n = block_view s dev n"
proof (cases "\<exists>i < NBUF. i \<noteq> b \<and> holds_block dev n (bufs s ! i)")
  case True
  then obtain i where i: "i < NBUF" "i \<noteq> b" "holds_block dev n (bufs s ! i)" by blast
  then have u: "unlinked (bufs s' ! i) = unlinked (bufs s ! i)" using rest by simp
  have h': "holds_block dev n (bufs s' ! i)" using i(3) unlinked_fields [OF u] by (simp add: holds_block_def)
  obtain o1 o2 where "cache_inv s o1" "cache_inv s' o2" using c c' by blast
  then show ?thesis
    using block_view_cached [OF _ dev i(1) i(3)] block_view_cached [OF _ dev i(1) h'] unlinked_fields [OF u] d by simp
next
  case False
  have "\<not> holds_block dev n (bufs s' ! i)" if "i < NBUF" for i
  proof (cases "i = b")
    case True then show ?thesis using new by simp
  next
    case False
    then have u: "unlinked (bufs s' ! i) = unlinked (bufs s ! i)" using rest that by simp
    have "\<not> holds_block dev n (bufs s ! i)"
      using \<open>\<not> (\<exists>i < NBUF. i \<noteq> b \<and> holds_block dev n (bufs s ! i))\<close> False that by blast
    then show ?thesis using unlinked_fields(2,3) [OF u] by (simp add: holds_block_def)
  qed
  then have v': "block_view s' dev n = disk s n" using view_uncached [of dev n s'] d by simp
  show ?thesis
  proof (cases "holds_block dev n (bufs s ! b)")
    case True
    obtain o1 where "cache_inv s o1" using c by blast
    from block_view_cached [OF this dev b True] old True v' show ?thesis by auto
  next
    case F: False
    then have "block_view s dev n = disk s n" using False by (intro view_uncached) blast
    with v' show ?thesis by simp
  qed
qed

text \<open>The pinned buffers keep their blocks.\<close>

definition same_pins :: "(nat \<Rightarrow> nat) \<Rightarrow> 'a bio_scheme \<Rightarrow> 'a bio_scheme \<Rightarrow> bool" where
  "same_pins R s s' \<longleftrightarrow> (\<forall>i < NBUF. 0 < R i \<longrightarrow>
     b_dev (bufs s' ! i) = b_dev (bufs s ! i) \<and> b_blockno (bufs s' ! i) = b_blockno (bufs s ! i))"

lemma same_pins_trans: "same_pins R s s' \<Longrightarrow> same_pins R s' s'' \<Longrightarrow> same_pins R s s''"
  by (simp add: same_pins_def)

lemma same_pins_upd:
  "(\<And>x. b_dev (f x) = b_dev x \<and> b_blockno (f x) = b_blockno x) \<Longrightarrow> same_pins R s (s\<lparr>bufs := upd_buf b f (bufs s)\<rparr>)"
  by (cases "b < length (bufs s)") (auto simp: same_pins_def upd_buf_def nth_list_update list_update_beyond)

lemma same_pins_disk [simp]: "same_pins R s (s\<lparr>disk := d, dtrace := t\<rparr>)"
  by (simp add: same_pins_def)

lemma inc_refcnt: "unat (x :: u32) = n \<Longrightarrow> n < 2 ^ 31 \<Longrightarrow> unat (x + 1) = n + 1"
  by (simp add: unat_word_ariths)

lemma bread_fetches:
  assumes c: "calm pid dev R L s" and inv: "cache_inv s ord" and dev: "dev \<noteq> 0"
    and L: "\<forall>i \<in> L. \<not> holds_block dev bno (bufs s ! i)" and free: "\<exists>i < NBUF. i \<notin> L \<and> R i = 0"
  shows "\<exists>b s'. bread pid dev bno s = Ret (b, s') \<and> b < NBUF \<and> b \<notin> L \<and> fetched pid dev bno b s s' \<and> cache_inv s' ord \<and>
      unat (b_refcnt (bufs s' ! b)) = R b + 1 \<and>
      (holds_block dev bno (bufs s ! b) \<or> R b = 0 \<and> (\<forall>i < NBUF. \<not> holds_block dev bno (bufs s ! i)))"
proof -
  note C = calmD [OF c]
  show ?thesis
  proof (cases "\<exists>i < NBUF. holds_block dev bno (bufs s ! i)")
    case True
    then obtain i where i: "i < NBUF" "holds_block dev bno (bufs s ! i)" by blast
    then have nl: "i \<notin> L" using L by blast
    have r: "unat (b_refcnt (bufs s ! i) + 1) = R i + 1" using C(4) [OF i(1)] C(5) [OF i(1)] nl by (intro inc_refcnt) auto
    then have "b_refcnt (bufs s ! i) + 1 \<noteq> 0" by auto
    from bread_hit [OF inv dev i C(7) [OF i(1) nl] this, of pid] r nl i show ?thesis by auto
  next
    case False
    obtain i where "i < NBUF" "i \<notin> L" "R i = 0" using free by blast
    then have "\<exists>i < NBUF. b_refcnt (bufs s ! i) = 0" using C(4) [of i] by (auto simp: unat_eq_zero)
    then obtain b s' where b: "bread pid dev bno s = Ret (b, s')" "find (\<lambda>i. b_refcnt (bufs s ! i) = 0) (rev ord) = Some b"
        "fetched pid dev bno b s s'" "cache_inv s' ord" "b_refcnt (bufs s' ! b) = 1"
      using bread_miss [OF inv dev, of bno pid] False by blast
    have bl: "b < NBUF" "b_refcnt (bufs s ! b) = 0" using find_Some_unique [OF b(2)] b(3) by (auto simp: fetched_def)
    then have "R b = 0 \<and> b \<notin> L" using C(4) [of b] by (auto split: if_splits)
    then show ?thesis using b bl False by auto
  qed
qed

lemma calm_bread:
  assumes c: "calm pid dev R L s" and dev: "dev \<noteq> 0" and L: "\<forall>i \<in> L. \<not> holds_block dev bno (bufs s ! i)"
    and free: "\<exists>i < NBUF. i \<notin> L \<and> R i = 0"
  obtains b s' where "bread pid dev bno s = Ret (b, s')" and "b < NBUF" and "b \<notin> L" and "calm pid dev R (insert b L) s'"
    and "holds_block dev bno (bufs s' ! b)" and "b_valid (bufs s' ! b)" and "b_data (bufs s' ! b) = block_view s dev bno"
    and "\<And>j. j < NBUF \<Longrightarrow> j \<noteq> b \<Longrightarrow> bufs s' ! j = bufs s ! j" and "\<And>n. block_view s' dev n = block_view s dev n"
    and "disk s' = disk s" and "dtrace s' = dtrace s" and "bio.more s' = bio.more s"
    and "R b = 0 \<Longrightarrow> block_view s dev bno = disk s bno" and "same_pins R s s'"
    and "0 < R b \<Longrightarrow> holds_block dev bno (bufs s ! b)"
proof -
  note C = calmD [OF c]
  obtain ord where inv: "cache_inv s ord" using C(1) by blast
  from bread_fetches [OF c inv dev L free] obtain b s' where r: "bread pid dev bno s = Ret (b, s')" and b: "b < NBUF" "b \<notin> L"
    and f: "fetched pid dev bno b s s'" and inv': "cache_inv s' ord" and rc: "unat (b_refcnt (bufs s' ! b)) = R b + 1"
    and hr: "holds_block dev bno (bufs s ! b) \<or> R b = 0 \<and> (\<forall>i < NBUF. \<not> holds_block dev bno (bufs s ! i))" by blast
  have rest: "bufs s' ! j = bufs s ! j" if "j < NBUF" "j \<noteq> b" for j using f that C(3) by (auto simp: fetched_def)
  have calm': "calm pid dev R (insert b L) s'"
    by (rule calm_update [OF c _ b(1)]) (use b f rc inv' rest C(5) [OF b(1)] in \<open>auto simp: fetched_def calm_buf_def\<close>)
  have view: "block_view s' dev n = block_view s dev n" for n
  proof (cases "n = bno")
    case True
    have "block_view s' dev bno = b_data (bufs s' ! b)" using calm_view [OF calm' dev b(1)] f by (simp add: fetched_def)
    then show ?thesis using f True by (simp add: fetched_def)
  next
    case False
    show ?thesis
    proof (rule view_update [OF C(1) _ dev])
      show "\<exists>ord. cache_inv s' ord" using inv' by blast
      show "\<not> holds_block dev n (bufs s' ! b)" using f False by (auto simp: fetched_def holds_block_def)
      show "holds_block dev n (bufs s ! b) \<and> b_valid (bufs s ! b) \<longrightarrow> b_data (bufs s ! b) = disk s n"
        using hr False b C(8) [OF b(1)] by (auto simp: holds_block_def)
    qed (use rest b f in \<open>auto simp: fetched_def\<close>)
  qed
  have clean: "block_view s dev bno = disk s bno" if "R b = 0"
    using hr calm_view [OF c dev b(1)] C(8) [OF b(1) that b(2)] view_uncached [of dev bno s]
    by (auto simp: holds_block_def)
  have pins: "same_pins R s s'"
    unfolding same_pins_def
  proof (intro allI impI)
    fix i assume i: "i < NBUF" "0 < R i"
    show "b_dev (bufs s' ! i) = b_dev (bufs s ! i) \<and> b_blockno (bufs s' ! i) = b_blockno (bufs s ! i)"
      using rest [OF i(1)] hr f i by (cases "i = b") (auto simp: fetched_def holds_block_def)
  qed
  have hit: "holds_block dev bno (bufs s ! b)" if "0 < R b" using hr that by auto
  show thesis by (rule that [OF r b calm' _ _ _ rest view _ _ _ clean pins hit]) (use f in \<open>auto simp: fetched_def\<close>)
qed


abbreviation set_data :: "nat \<Rightarrow> blk \<Rightarrow> 'a bio_scheme \<Rightarrow> 'a bio_scheme" where
  "set_data b d s \<equiv> s\<lparr>bufs := upd_buf b (b_data_update (\<lambda>_. d)) (bufs s)\<rparr>"

lemma cache_inv_upd:
  assumes c: "\<exists>ord. cache_inv s ord" and b: "b < NBUF"
    and "\<And>x. b_next (f x) = b_next x \<and> b_prev (f x) = b_prev x \<and> b_dev (f x) = b_dev x \<and> b_blockno (f x) = b_blockno x"
    and lock: "b_refcnt (f (bufs s ! b)) = 0 \<Longrightarrow> sl_locked (b_lock (f (bufs s ! b))) = 0"
  shows "\<exists>ord. cache_inv (s\<lparr>bufs := upd_buf b f (bufs s)\<rparr>) ord"
proof -
  obtain ord where inv: "cache_inv s ord" using c by blast
  have "cache_inv (s\<lparr>bufs := upd_buf b f (bufs s)\<rparr>) ord"
    by (rule cache_inv_update [OF inv b, of _ "f (bufs s ! b)"])
      (use assms(3) lock cache_inv_unique [OF inv b] in \<open>auto simp: upd_buf_def\<close>)
  then show ?thesis ..
qed

lemma calm_set_data:
  assumes c: "calm pid dev R L s" and dev: "dev \<noteq> 0" and b: "b \<in> L"
    and h: "holds_block dev bno (bufs s ! b)" "b_valid (bufs s ! b)"
  shows "calm pid dev R L (set_data b d s)"
    and "block_view (set_data b d s) dev n = (if n = bno then d else block_view s dev n)"
proof -
  note C = calmD [OF c]
  have bn: "b < NBUF" using C(2) b .
  have nth: "bufs (set_data b d s) ! j = (if j = b then (bufs s ! j)\<lparr>b_data := d\<rparr> else bufs s ! j)" if "j < NBUF" for j
    using that C(3) by (simp add: upd_buf_nth)
  have inv': "\<exists>ord. cache_inv (set_data b d s) ord"
    by (rule cache_inv_upd [OF C(1) bn]) (use C(4) [OF bn] b in auto)
  show c': "calm pid dev R L (set_data b d s)"
    by (rule calm_update [OF c inv' bn]) (use nth bn b C(4) [OF bn] C(5) [OF bn] C(6) [OF b] in \<open>auto simp: calm_buf_def\<close>)
  show "block_view (set_data b d s) dev n = (if n = bno then d else block_view s dev n)"
  proof (cases "n = bno")
    case True
    then show ?thesis using calm_view [OF c' dev bn] nth [OF bn] h by (simp add: holds_block_def)
  next
    case False
    then show ?thesis using h nth bn
      by (simp, intro view_update [OF C(1) inv' dev, where b = b]) (auto simp: holds_block_def)
  qed
qed

lemma calm_bwrite:
  assumes c: "calm pid dev R L s" and dev: "dev \<noteq> 0" and b: "b \<in> L"
    and h: "holds_block dev bno (bufs s ! b)" "b_valid (bufs s ! b)"
  defines "s' \<equiv> s\<lparr>disk := (disk s)(bno := b_data (bufs s ! b)), dtrace := dtrace s @ [(bno, b_data (bufs s ! b))]\<rparr>"
  shows "bwrite pid b s = Ret s'" and "calm pid dev R L s'" and "block_view s' dev n = block_view s dev n"
proof -
  note C = calmD [OF c]
  have bn: "b < NBUF" using C(2) b .
  show "bwrite pid b s = Ret s'" using C(6) [OF b] h by (simp add: bwrite_def Let_def s'_def holds_block_def)
  obtain ord where inv: "cache_inv s ord" using C(1) by blast
  then have "cache_inv s' ord" unfolding cache_inv_def s'_def by simp
  then have inv': "\<exists>ord. cache_inv s' ord" ..
  have other: "b_blockno (bufs s ! j) \<noteq> bno" if "j < NBUF" "j \<noteq> b" "b_dev (bufs s ! j) = dev" for j
  proof
    assume "b_blockno (bufs s ! j) = bno"
    then have "holds_block (b_dev (bufs s ! b)) (b_blockno (bufs s ! b)) (bufs s ! j)" "b_dev (bufs s ! b) \<noteq> 0"
      using that(3) h(1) dev by (simp_all add: holds_block_def)
    then show False using cache_inv_unique [OF inv bn that(1)] that(2) by blast
  qed
  have S: "bufs s' = bufs s" "disk s' = (disk s)(bno := b_data (bufs s ! b))" by (simp_all add: s'_def)
  show c': "calm pid dev R L s'"
    by (rule calm_update [OF c inv' bn]) (use S other b C(4) [OF bn] C(5) [OF bn] C(6) [OF b] in \<open>simp_all add: calm_buf_def\<close>)
  show "block_view s' dev n = block_view s dev n"
  proof (cases "n = bno")
    case True
    then show ?thesis using calm_view [OF c' dev bn, of bno] calm_view [OF c dev bn, of bno] h S by simp
  next
    case False
    then show ?thesis using h S
      by (intro view_update [OF C(1) inv' dev, where b = b]) (auto simp: holds_block_def bn)
  qed
qed

lemma calm_brelse:
  assumes c: "calm pid dev R L s" and b: "b \<in> L"
    and clean: "R b = 0 \<Longrightarrow> b_valid (bufs s ! b) \<Longrightarrow> b_dev (bufs s ! b) = dev \<Longrightarrow> b_data (bufs s ! b) = disk s (b_blockno (bufs s ! b))"
  obtains s' where "brelse pid b s = Ret s'" and "calm pid dev R (L - {b}) s'" and "\<And>n. block_view s' dev n = block_view s dev n"
    and "disk s' = disk s" and "dtrace s' = dtrace s" and "bio.more s' = bio.more s"
    and "\<And>j. j < NBUF \<Longrightarrow> j \<noteq> b \<Longrightarrow> unlinked (bufs s' ! j) = unlinked (bufs s ! j)" and "\<And>Q. same_pins Q s s'"
proof -
  note C = calmD [OF c]
  have bn: "b < NBUF" using C(2) b .
  obtain ord where inv: "cache_inv s ord" using C(1) by blast
  then have "b \<in> set ord" using bn by (simp add: cache_inv_def)
  then obtain as cs where "ord = as @ b # cs" by (meson split_list)
  with inv have inv: "cache_inv s (as @ b # cs)" by simp
  from brelse_released [OF inv C(6) [OF b]] obtain s' o' where
    s': "brelse pid b s = Ret s'" "released b s s'" "cache_inv s' o'" by blast
  note D = releasedD [OF s'(2) inv]
  define x where "x = (bufs s ! b)\<lparr>b_lock := releasesleep (b_lock (bufs s ! b)), b_refcnt := b_refcnt (bufs s ! b) - 1\<rparr>"
  have "map unlinked (bufs s') = map unlinked ((bufs s)[b := x])" using s'(2) by (simp add: released_def x_def)
  from nth_unlinked [OF this, of b] bn C(3) have "unlinked (bufs s' ! b) = unlinked x" by simp
  note f = unlinked_fields [OF this]
  have "unat (b_refcnt (bufs s ! b)) = R b + 1" using C(4) [OF bn] b by simp
  then have rc: "unat (b_refcnt (bufs s ! b) - 1) = R b"
    by (metis add_diff_cancel_right' unat_minus_one unat_eq_zero add_is_0 one_neq_zero)
  have "calm pid dev R (L - {b}) s'"
    by (rule calm_update [OF c _ bn])
      (use s' D rc f clean C(5) [OF bn] in \<open>auto simp: calm_buf_def released_def x_def releasesleep_def\<close>)
  moreover have "same_pins Q s s'" for Q
    unfolding same_pins_def
  proof (intro allI impI)
    fix i assume "i < NBUF"
    then show "b_dev (bufs s' ! i) = b_dev (bufs s ! i) \<and> b_blockno (bufs s' ! i) = b_blockno (bufs s ! i)"
      using D(3) f by (cases "i = b") (auto simp: x_def dest: unlinked_fields(2,3))
  qed
  ultimately show thesis using that [OF s'(1)] D s'(2) by (auto simp: released_def)
qed

lemma calm_bunpin:
  assumes c: "calm pid dev R L s" and b: "b \<in> L" and r: "0 < R b"
  shows "calm pid dev (R(b := R b - 1)) L (bunpin b s)" and "block_view (bunpin b s) dev n = block_view s dev n"
proof -
  note C = calmD [OF c]
  have bn: "b < NBUF" using C(2) b .
  have nth: "bufs (bunpin b s) ! j = (if j = b then (bufs s ! j)\<lparr>b_refcnt := b_refcnt (bufs s ! j) - 1\<rparr> else bufs s ! j)" if "j < NBUF" for j
    using that C(3) by (simp add: bunpin_def upd_buf_nth)
  have "unat (b_refcnt (bufs s ! b)) = R b + 1" using C(4) [OF bn] b by simp
  then have rc: "unat (b_refcnt (bufs s ! b) - 1) = R b"
    by (metis add_diff_cancel_right' unat_minus_one unat_eq_zero add_is_0 one_neq_zero)
  have inv': "\<exists>ord. cache_inv (bunpin b s) ord"
    unfolding bunpin_def by (rule cache_inv_upd [OF C(1) bn]) (use rc r in auto)
  have e: "b_refcnt (bufs (bunpin b s) ! b) = b_refcnt (bufs s ! b) - 1" using nth [OF bn] by simp
  show "calm pid dev (R(b := R b - 1)) L (bunpin b s)"
    by (rule calm_update [OF c inv' bn])
      (use nth bn b rc r C(5) [OF bn] C(6) [OF b] in \<open>auto simp: calm_buf_def bunpin_def\<close>)
  show "block_view (bunpin b s) dev n = block_view s dev n"
    by (rule block_view_data) (use nth in \<open>auto simp: bunpin_def\<close>)
qed

lemma calm_bpin:
  assumes c: "calm pid dev R L s" and b: "b \<in> L" and r: "R b + 1 < 2 ^ 31"
  shows "calm pid dev (R(b := R b + 1)) L (bpin b s)" and "block_view (bpin b s) dev n = block_view s dev n"
proof -
  note C = calmD [OF c]
  have bn: "b < NBUF" using C(2) b .
  have nth: "bufs (bpin b s) ! j = (if j = b then (bufs s ! j)\<lparr>b_refcnt := b_refcnt (bufs s ! j) + 1\<rparr> else bufs s ! j)" if "j < NBUF" for j
    using that C(3) by (simp add: bpin_def upd_buf_nth)
  have "unat (b_refcnt (bufs s ! b)) = R b + 1" using C(4) [OF bn] b by simp
  then have rc: "unat (b_refcnt (bufs s ! b) + 1) = R b + 2" using inc_refcnt [of _ "R b + 1"] r by simp
  then have ne: "b_refcnt (bufs s ! b) + 1 \<noteq> 0" by auto
  have inv': "\<exists>ord. cache_inv (bpin b s) ord"
    unfolding bpin_def by (rule cache_inv_upd [OF C(1) bn]) (use ne in auto)
  show "calm pid dev (R(b := R b + 1)) L (bpin b s)"
    by (rule calm_update [OF c inv' bn])
      (use nth bn b rc r C(6) [OF b] in \<open>auto simp: calm_buf_def bpin_def\<close>)
  show "block_view (bpin b s) dev n = block_view s dev n"
    by (rule block_view_data) (use nth in \<open>auto simp: bpin_def\<close>)
qed

section \<open>Sequences of operations\<close>

text \<open>Two different blocks are read.\<close>

lemma calm_bread2:
  assumes c: "calm pid dev R {} s" and dev: "dev \<noteq> 0" and ne: "n1 \<noteq> n2"
    and free: "i < NBUF" "j < NBUF" "i \<noteq> j" "R i = 0" "R j = 0"
  obtains b1 b2 s1 s2 where "bread pid dev n1 s = Ret (b1, s1)" and "bread pid dev n2 s1 = Ret (b2, s2)" and "b1 \<noteq> b2"
    and "calm pid dev R {b1, b2} s2" and "holds_block dev n1 (bufs s2 ! b1)" and "holds_block dev n2 (bufs s2 ! b2)"
    and "b_valid (bufs s2 ! b1)" and "b_valid (bufs s2 ! b2)"
    and "b_data (bufs s2 ! b1) = block_view s dev n1" and "b_data (bufs s2 ! b2) = block_view s dev n2"
    and "\<And>n. block_view s2 dev n = block_view s dev n" and "disk s2 = disk s" and "dtrace s2 = dtrace s"
    and "bio.more s2 = bio.more s" and "bio.more s1 = bio.more s" and "same_pins R s s2"
    and "R b1 = 0 \<Longrightarrow> block_view s dev n1 = disk s n1" and "R b2 = 0 \<Longrightarrow> block_view s dev n2 = disk s n2"
    and "b1 < NBUF" and "b2 < NBUF"
proof -
  have f1: "\<exists>i < NBUF. i \<notin> {} \<and> R i = 0" using free by blast
  have "\<forall>i \<in> {}. \<not> holds_block dev n1 (bufs s ! i)" by simp
  from calm_bread [OF c dev this f1] obtain b1 s1 where r1: "bread pid dev n1 s = Ret (b1, s1)" "b1 < NBUF"
      "calm pid dev R {b1} s1" "holds_block dev n1 (bufs s1 ! b1)" "b_valid (bufs s1 ! b1)"
      "b_data (bufs s1 ! b1) = block_view s dev n1" "\<And>n. block_view s1 dev n = block_view s dev n"
      "disk s1 = disk s" "dtrace s1 = dtrace s" "bio.more s1 = bio.more s"
      "R b1 = 0 \<Longrightarrow> block_view s dev n1 = disk s n1" "same_pins R s s1" by metis
  have f2: "\<exists>i < NBUF. i \<notin> {b1} \<and> R i = 0" using free by blast
  have "\<forall>i \<in> {b1}. \<not> holds_block dev n2 (bufs s1 ! i)" using r1(4) ne by (auto simp: holds_block_def)
  from calm_bread [OF r1(3) dev this f2] obtain b2 s2 where r2: "bread pid dev n2 s1 = Ret (b2, s2)" "b2 < NBUF"
      "b2 \<notin> {b1}" "calm pid dev R (insert b2 {b1}) s2" "holds_block dev n2 (bufs s2 ! b2)" "b_valid (bufs s2 ! b2)"
      "b_data (bufs s2 ! b2) = block_view s1 dev n2" "\<And>j. j < NBUF \<Longrightarrow> j \<noteq> b2 \<Longrightarrow> bufs s2 ! j = bufs s1 ! j"
      "\<And>n. block_view s2 dev n = block_view s1 dev n"
      "disk s2 = disk s1" "dtrace s2 = dtrace s1" "bio.more s2 = bio.more s1"
      "R b2 = 0 \<Longrightarrow> block_view s1 dev n2 = disk s1 n2" "same_pins R s1 s2" by metis
  have b: "bufs s2 ! b1 = bufs s1 ! b1" "b1 \<noteq> b2" using r2(3,8) r1(2) by auto
  show thesis
    by (rule that [OF r1(1) r2(1) b(2) _ _ r2(5)])
      (use r1 r2 b same_pins_trans [OF r1(12) r2(14)] in \<open>auto simp: insert_commute\<close>)
qed

text \<open>New contents are written through a buffer to the disk.\<close>

lemma calm_write:
  assumes c: "calm pid dev R L s" and dev: "dev \<noteq> 0" and b: "b \<in> L"
    and h: "holds_block dev bno (bufs s ! b)" "b_valid (bufs s ! b)"
  obtains s' where "bwrite pid b (set_data b d s) = Ret s'" and "calm pid dev R L s'"
    and "\<And>n. block_view s' dev n = (if n = bno then d else block_view s dev n)"
    and "disk s' = (disk s)(bno := d)" and "dtrace s' = dtrace s @ [(bno, d)]" and "bio.more s' = bio.more s"
    and "b_data (bufs s' ! b) = d" and "holds_block dev bno (bufs s' ! b)" and "same_pins R s s'"
    and "\<And>j. j < NBUF \<Longrightarrow> j \<noteq> b \<Longrightarrow> bufs s' ! j = bufs s ! j"
proof -
  have bn: "b < NBUF" "b < length (bufs s)" using calmD(2) [OF c b] calmD(3) [OF c] by auto
  let ?s = "set_data b d s"
  note S = calm_set_data [OF c dev b h, of d]
  have x: "bufs ?s ! b = (bufs s ! b)\<lparr>b_data := d\<rparr>" using bn by (simp add: upd_buf_nth)
  have h': "holds_block dev bno (bufs ?s ! b)" "b_valid (bufs ?s ! b)" using h x by (simp_all add: holds_block_def)
  note W = calm_bwrite [OF S(1) dev b h']
  have p: "same_pins R s ?s" by (rule same_pins_upd) simp
  have q: "same_pins R ?s (?s\<lparr>disk := (disk s)(bno := b_data (bufs ?s ! b)), dtrace := dtrace s @ [(bno, b_data (bufs ?s ! b))]\<rparr>)"
    by (rule same_pins_disk)
  show thesis
    by (rule that [OF W(1) W(2)]) (use W(3) S(2) x h' calmD(3) [OF c] same_pins_trans [OF p q] in \<open>simp_all add: upd_buf_nth\<close>)
qed

text \<open>The two buffers are released.\<close>

lemma calm_brelse2:
  assumes c: "calm pid dev R {x, y} s" and ne: "x \<noteq> y" and xy: "holds_block dev n1 (bufs s ! x)" "holds_block dev n2 (bufs s ! y)"
    and clean: "R x = 0 \<Longrightarrow> b_data (bufs s ! x) = disk s n1" "R y = 0 \<Longrightarrow> b_data (bufs s ! y) = disk s n2"
  obtains s' where "bindR (brelse pid x s) (brelse pid y) = Ret s'" and "calm pid dev R {} s'"
    and "\<And>n. block_view s' dev n = block_view s dev n"
    and "disk s' = disk s" and "dtrace s' = dtrace s" and "bio.more s' = bio.more s" and "\<And>Q. same_pins Q s s'"
proof -
  have c1: "R x = 0 \<Longrightarrow> b_valid (bufs s ! x) \<Longrightarrow> b_dev (bufs s ! x) = dev \<Longrightarrow> b_data (bufs s ! x) = disk s (b_blockno (bufs s ! x))"
    using clean(1) xy(1) by (simp add: holds_block_def)
  have "x \<in> {x, y}" by simp
  from calm_brelse [OF c this c1] obtain s1 where s1: "brelse pid x s = Ret s1" "calm pid dev R ({x, y} - {x}) s1"
      "\<And>n. block_view s1 dev n = block_view s dev n" "disk s1 = disk s" "dtrace s1 = dtrace s" "bio.more s1 = bio.more s"
      "\<And>j. j < NBUF \<Longrightarrow> j \<noteq> x \<Longrightarrow> unlinked (bufs s1 ! j) = unlinked (bufs s ! j)" "\<And>Q. same_pins Q s s1" by metis
  have "y < NBUF" using calmD(2) [OF c, of y] by simp
  then have "unlinked (bufs s1 ! y) = unlinked (bufs s ! y)" using s1(7) ne by blast
  note f = unlinked_fields [OF this]
  have c2: "R y = 0 \<Longrightarrow> b_valid (bufs s1 ! y) \<Longrightarrow> b_dev (bufs s1 ! y) = dev \<Longrightarrow> b_data (bufs s1 ! y) = disk s1 (b_blockno (bufs s1 ! y))"
    using clean(2) xy(2) f s1(4) by (simp add: holds_block_def)
  have y: "y \<in> {x, y} - {x}" using ne by simp
  from calm_brelse [OF s1(2) y c2] obtain s2 where s2: "brelse pid y s1 = Ret s2" "calm pid dev R ({x, y} - {x} - {y}) s2"
      "\<And>n. block_view s2 dev n = block_view s1 dev n" "disk s2 = disk s1" "dtrace s2 = dtrace s1" "bio.more s2 = bio.more s1"
      "\<And>Q. same_pins Q s1 s2" by metis
  have "{x, y} - {x} - {y} = {}" by auto
  with s2(2) have "calm pid dev R {} s2" by metis
  then show thesis
    by (intro that [of s2]) (use s1 s2 same_pins_trans [OF s1(8) s2(7)] in auto)
qed

end
