(* ===== verification/Bytes.thy ===== *)
theory Bytes
  imports Prelude
begin

text \<open>
  Words in byte arrays, least significant byte first as the machine stores them, and the
  four-byte fields of the blocks of the file system.
\<close>

definition le_bytes :: "nat \<Rightarrow> 'a::len word \<Rightarrow> u8 list" where
  "le_bytes n w = map (\<lambda>i. ucast (drop_bit (8 * i) w)) [0..<n]"

definition le_word :: "u8 list \<Rightarrow> 'a::len word" where
  "le_word bs = foldr (\<lambda>b w. ucast b OR push_bit 8 w) bs 0"

lemma length_le_bytes [simp]: "length (le_bytes n w) = n"
  by (simp add: le_bytes_def)

lemma bit_le_word:
  "bit (le_word bs :: 'a::len word) k \<longleftrightarrow> k < LENGTH('a) \<and> k < 8 * length bs \<and> bit (bs ! (k div 8)) (k mod 8)"
proof (induction bs arbitrary: k)
  case (Cons b bs)
  show ?case
  proof (cases "k < 8")
    case True
    then show ?thesis by (simp add: le_word_def bit_or_iff bit_push_bit_iff bit_ucast_iff)
  next
    case False
    then obtain j where k: "k = j + 8" by (metis add.commute le_Suc_ex not_less)
    have "\<not> bit b k" using False by (metis bit_imp_le_length len_num1 len_bit0 not_less mult_2 numeral_Bit0 mult.right_neutral)
    moreover have "(j + 8) div 8 = Suc (j div 8)" by simp
    ultimately show ?thesis using Cons.IH [of j] k
      by (auto simp: le_word_def bit_or_iff bit_push_bit_iff bit_ucast_iff)
  qed
qed (simp add: le_word_def)

lemma le_word_le_bytes: "LENGTH('a) \<le> 8 * n \<Longrightarrow> le_word (le_bytes n (w :: 'a::len word)) = w"
  by (rule bit_eqI) (auto simp: bit_le_word le_bytes_def bit_ucast_iff bit_drop_bit_eq dest: bit_imp_le_length)

definition get32 :: "u8 list \<Rightarrow> nat \<Rightarrow> u32" where
  "get32 d off = le_word (take 4 (drop off d))"

definition put_at :: "nat \<Rightarrow> u8 list \<Rightarrow> u8 list \<Rightarrow> u8 list" where
  "put_at off bs d = take off d @ bs @ drop (off + length bs) d"

definition put32 :: "nat \<Rightarrow> u32 \<Rightarrow> u8 list \<Rightarrow> u8 list" where
  "put32 off w d = put_at off (le_bytes 4 w) d"

lemma length_put_at [simp]: "off + length bs \<le> length d \<Longrightarrow> length (put_at off bs d) = length d"
  by (simp add: put_at_def)

lemma length_put32 [simp]: "off + 4 \<le> length d \<Longrightarrow> length (put32 off w d) = length d"
  by (simp add: put32_def)

lemma get32_put32: "off + 4 \<le> length d \<Longrightarrow> get32 (put32 off w d) off = w"
  by (simp add: get32_def put32_def put_at_def le_word_le_bytes)

lemma take_put_at: "off + length bs \<le> length d \<Longrightarrow> take n (drop k (put_at off bs d)) = take n (drop k d)"
  if "k + n \<le> off \<or> off + length bs \<le> k"
  using that by (intro nth_equalityI) (auto simp: put_at_def nth_append)

lemma get32_put32_other:
  "off + 4 \<le> length d \<Longrightarrow> k + 4 \<le> off \<or> off + 4 \<le> k \<Longrightarrow> get32 (put32 off w d) k = get32 d k"
  by (simp add: get32_def put32_def take_put_at)

definition get16 :: "u8 list \<Rightarrow> nat \<Rightarrow> u16" where
  "get16 d off = le_word (take 2 (drop off d))"

definition put16 :: "nat \<Rightarrow> u16 \<Rightarrow> u8 list \<Rightarrow> u8 list" where
  "put16 off w d = put_at off (le_bytes 2 w) d"

lemma length_put16 [simp]: "off + 2 \<le> length d \<Longrightarrow> length (put16 off w d) = length d"
  by (simp add: put16_def)

lemma get16_put16: "off + 2 \<le> length d \<Longrightarrow> get16 (put16 off w d) off = w"
  by (simp add: get16_def put16_def put_at_def le_word_le_bytes)

end
