(* ===== verification/Log.thy ===== *)
theory Log
  imports Calm Bytes
begin

text \<open>
  \<^verbatim>\<open>kernel/log.c\<close>: the write-ahead log of the file system. Modified blocks stay pinned in the
  buffer cache until the last outstanding operation ends; \<open>commit\<close> then writes them to the
  log, writes the header (the point of commitment), copies them home and clears the
  header. The header is in memory (\<open>lh_n\<close>, \<open>lh_block\<close>) and in the block \<open>log.start\<close>.
  A process that has to wait in \<open>begin_op\<close> is \<^const>\<open>Block\<close> here; the calls of \<open>wakeup(&log)\<close>
  concern only such processes.
\<close>

section \<open>State\<close>

definition BSIZE :: nat where "BSIZE = 1024"
definition MAXOPBLOCKS :: nat where "MAXOPBLOCKS = 10"
definition LOGSIZE :: nat where "LOGSIZE = MAXOPBLOCKS * 3"

record superblock =
  sb_magic :: u32
  sb_size :: u32
  sb_nblocks :: u32
  sb_ninodes :: u32
  sb_nlog :: u32
  sb_logstart :: u32
  sb_inodestart :: u32
  sb_bmapstart :: u32

record log = bio +
  lg_start :: s32
  lg_size :: s32
  lg_outstanding :: s32
  lg_committing :: s32
  lg_dev :: s32
  lh_n :: s32
  lh_block :: "s32 list"

section \<open>Operations\<close>

text \<open>One iteration of the loop of \<open>install_trans\<close>.\<close>

definition install_block :: "s32 \<Rightarrow> bool \<Rightarrow> nat \<Rightarrow> 'a log_scheme \<Rightarrow> 'a log_scheme res" where
  "install_block pid recovering tail s =
     bindR (bread pid (lg_dev s) (lg_start s + of_nat tail + 1) s) (\<lambda>(lbuf, s).
     bindR (bread pid (lg_dev s) (lh_block s ! tail) s) (\<lambda>(dbuf, s).
     let s = set_data dbuf (b_data (bufs s ! lbuf)) s in
     bindR (bwrite pid dbuf s) (\<lambda>s.
     let s = (if \<not> recovering then bunpin dbuf s else s) in
     bindR (brelse pid lbuf s) (\<lambda>s.
     brelse pid dbuf s))))"

definition install_trans :: "s32 \<Rightarrow> bool \<Rightarrow> 'a log_scheme \<Rightarrow> 'a log_scheme res" where
  "install_trans pid recovering s = foldR (install_block pid recovering) [0..<nat (sint (lh_n s))] s"

text \<open>A header with more than \<open>LOGSIZE\<close> blocks would be copied past the end of \<open>log.lh.block\<close>.\<close>

definition read_head :: "s32 \<Rightarrow> 'a log_scheme \<Rightarrow> 'a log_scheme res" where
  "read_head pid s =
     bindR (bread pid (lg_dev s) (lg_start s) s) (\<lambda>(buf, s).
     let d = b_data (bufs s ! buf);
         n = get32 d 0;
         k = nat (sint n) in
     if k > LOGSIZE then Undef
     else brelse pid buf (s\<lparr>lh_n := n, lh_block := map (\<lambda>i. get32 d (4 + 4 * i)) [0..<k] @ drop k (lh_block s)\<rparr>))"

definition write_head :: "s32 \<Rightarrow> 'a log_scheme \<Rightarrow> 'a log_scheme res" where
  "write_head pid s =
     bindR (bread pid (lg_dev s) (lg_start s) s) (\<lambda>(buf, s).
     let d = put32 0 (lh_n s) (b_data (bufs s ! buf));
         d = fold (\<lambda>i. put32 (4 + 4 * i) (lh_block s ! i)) [0..<nat (sint (lh_n s))] d in
     bindR (bwrite pid buf (set_data buf d s)) (\<lambda>s.
     brelse pid buf s))"

definition recover_from_log :: "s32 \<Rightarrow> 'a log_scheme \<Rightarrow> 'a log_scheme res" where
  "recover_from_log pid s =
     bindR (read_head pid s) (\<lambda>s.
     bindR (install_trans pid True s) (\<lambda>s.
     write_head pid (s\<lparr>lh_n := 0\<rparr>)))"

definition initlog :: "s32 \<Rightarrow> s32 \<Rightarrow> superblock \<Rightarrow> 'a log_scheme \<Rightarrow> 'a log_scheme res" where
  "initlog pid dev sb s =
     (if 4 + 4 * LOGSIZE \<ge> BSIZE then Panic ''initlog: too big logheader''
      else recover_from_log pid (s\<lparr>lg_start := sb_logstart sb, lg_size := sb_nlog sb, lg_dev := dev\<rparr>))"

definition begin_op :: "'a log_scheme \<Rightarrow> 'a log_scheme res" where
  "begin_op s =
     (if lg_committing s \<noteq> 0 then Block
      else if sint (lh_n s + (lg_outstanding s + 1) * of_nat MAXOPBLOCKS) > int LOGSIZE then Block
      else Ret (s\<lparr>lg_outstanding := lg_outstanding s + 1\<rparr>))"

definition write_log_block :: "s32 \<Rightarrow> nat \<Rightarrow> 'a log_scheme \<Rightarrow> 'a log_scheme res" where
  "write_log_block pid tail s =
     bindR (bread pid (lg_dev s) (lg_start s + of_nat tail + 1) s) (\<lambda>(to, s).
     bindR (bread pid (lg_dev s) (lh_block s ! tail) s) (\<lambda>(from', s).
     let s = set_data to (b_data (bufs s ! from')) s in
     bindR (bwrite pid to s) (\<lambda>s.
     bindR (brelse pid from' s) (\<lambda>s.
     brelse pid to s))))"

definition write_log :: "s32 \<Rightarrow> 'a log_scheme \<Rightarrow> 'a log_scheme res" where
  "write_log pid s = foldR (write_log_block pid) [0..<nat (sint (lh_n s))] s"

definition commit :: "s32 \<Rightarrow> 'a log_scheme \<Rightarrow> 'a log_scheme res" where
  "commit pid s =
     (if sint (lh_n s) > 0 then
        bindR (write_log pid s) (\<lambda>s.
        bindR (write_head pid s) (\<lambda>s.
        bindR (install_trans pid False s) (\<lambda>s.
        write_head pid (s\<lparr>lh_n := 0\<rparr>))))
      else Ret s)"

definition end_op :: "s32 \<Rightarrow> 'a log_scheme \<Rightarrow> 'a log_scheme res" where
  "end_op pid s =
     (let s = s\<lparr>lg_outstanding := lg_outstanding s - 1\<rparr> in
      if lg_committing s \<noteq> 0 then Panic ''log.committing''
      else if lg_outstanding s = 0 then
        bindR (commit pid (s\<lparr>lg_committing := 1\<rparr>)) (\<lambda>s. Ret (s\<lparr>lg_committing := 0\<rparr>))
      else Ret s)"

definition log_write :: "nat \<Rightarrow> 'a log_scheme \<Rightarrow> 'a log_scheme res" where
  "log_write b s =
     (if sint (lh_n s) \<ge> int LOGSIZE \<or> sint (lh_n s) \<ge> sint (lg_size s - 1) then Panic ''too big a transaction''
      else if sint (lg_outstanding s) < 1 then Panic ''log_write outside of trans''
      else
        let bno = b_blockno (bufs s ! b);
            i = length (takeWhile (\<lambda>x. x \<noteq> bno) (take (nat (sint (lh_n s))) (lh_block s)));
            s = s\<lparr>lh_block := (lh_block s)[i := bno]\<rparr>
        in if int i = sint (lh_n s) then Ret ((bpin b s)\<lparr>lh_n := lh_n s + 1\<rparr>) else Ret s)"

section \<open>Copying one block\<close>

lemma same_more:
  fixes s s' :: "'a log_scheme"
  assumes "bio.more s' = bio.more s"
  shows "lg_start s' = lg_start s" "lg_size s' = lg_size s" "lg_outstanding s' = lg_outstanding s"
    "lg_committing s' = lg_committing s" "lg_dev s' = lg_dev s" "lh_n s' = lh_n s" "lh_block s' = lh_block s"
  using assms by (cases s; cases s'; simp)+

lemma more_log:
  fixes s s' :: "'a log_scheme"
  assumes "bio.more s' = bio.more s" shows "log.more s' = log.more s"
  using assms by (cases s; cases s'; simp)

text \<open>A sequence of block writes, and what a step that performs it does.\<close>

definition apply_writes :: "(u32 \<times> blk) list \<Rightarrow> (u32 \<Rightarrow> blk) \<Rightarrow> u32 \<Rightarrow> blk" where
  "apply_writes ws d = fold (\<lambda>(n, b) d. d(n := b)) ws d"

lemma apply_writes_simps [simp]:
  "apply_writes [] d = d" "apply_writes (w # ws) d = apply_writes ws (d(fst w := snd w))"
  "apply_writes (ws @ ws') d = apply_writes ws' (apply_writes ws d)"
  by (auto simp: apply_writes_def split_beta)

lemma apply_writes_other: "n \<notin> fst ` set ws \<Longrightarrow> apply_writes ws d n = d n"
  by (induction ws arbitrary: d) auto

lemma apply_writes_in: "distinct (map fst ws) \<Longrightarrow> (n, b) \<in> set ws \<Longrightarrow> apply_writes ws d n = b"
  by (induction ws arbitrary: d) (auto simp: apply_writes_other image_iff)

lemma apply_writes_last: "n \<in> fst ` set ws \<Longrightarrow> apply_writes ws d n = apply_writes ws d' n"
proof (induction ws arbitrary: d d')
  case (Cons w ws)
  show ?case
  proof (cases "n \<in> fst ` set ws")
    case False
    then show ?thesis using Cons.prems by (simp add: apply_writes_other)
  qed (use Cons.IH in simp)
qed simp

definition wrote :: "s32 \<Rightarrow> u32 \<Rightarrow> (nat \<Rightarrow> nat) \<Rightarrow> (nat \<Rightarrow> nat) \<Rightarrow> (u32 \<times> blk) list \<Rightarrow> 'a log_scheme \<Rightarrow> 'a log_scheme \<Rightarrow> bool" where
  "wrote pid dev R R' ws s s' \<longleftrightarrow> calm pid dev R' {} s' \<and> block_view s' dev = apply_writes ws (block_view s dev) \<and>
     disk s' = apply_writes ws (disk s) \<and> dtrace s' = dtrace s @ ws \<and> bio.more s' = bio.more s \<and> same_pins R s s'"

lemma write_log_block_wrote:
  assumes c: "calm pid dev R {} s" and dev: "dev \<noteq> 0" "lg_dev s = dev"
    and ne: "lg_start s + of_nat t + 1 \<noteq> lh_block s ! t"
    and free: "i < NBUF" "j < NBUF" "i \<noteq> j" "R i = 0" "R j = 0"
  shows "\<exists>s'. write_log_block pid t s = Ret s' \<and>
    wrote pid dev R R [(lg_start s + of_nat t + 1, block_view s dev (lh_block s ! t))] s s'"
proof -
  define n1 n2 where "n1 = lg_start s + of_nat t + 1" and "n2 = lh_block s ! t"
  have ne: "n1 \<noteq> n2" using ne by (simp add: n1_def n2_def)
  obtain b1 b2 s1 s2 where r: "bread pid dev n1 s = Ret (b1, s1)" "bread pid dev n2 s1 = Ret (b2, s2)" "b1 \<noteq> b2"
      "calm pid dev R {b1, b2} s2" "holds_block dev n1 (bufs s2 ! b1)" "holds_block dev n2 (bufs s2 ! b2)"
      "b_valid (bufs s2 ! b1)" "b_data (bufs s2 ! b2) = block_view s dev n2" "\<And>n. block_view s2 dev n = block_view s dev n"
      "disk s2 = disk s" "dtrace s2 = dtrace s" "bio.more s2 = bio.more s" "bio.more s1 = bio.more s" "same_pins R s s2"
      "R b2 = 0 \<Longrightarrow> block_view s dev n2 = disk s n2" "b2 < NBUF"
    using calm_bread2 [OF c dev(1) ne free] by metis
  have "b1 \<in> {b1, b2}" by simp
  from calm_write [OF r(4) dev(1) this r(5) r(7), of "b_data (bufs s2 ! b2)"] obtain s3 where
    w: "bwrite pid b1 (set_data b1 (b_data (bufs s2 ! b2)) s2) = Ret s3" "calm pid dev R {b1, b2} s3"
      "\<And>n. block_view s3 dev n = (if n = n1 then b_data (bufs s2 ! b2) else block_view s2 dev n)"
      "disk s3 = (disk s2)(n1 := b_data (bufs s2 ! b2))" "dtrace s3 = dtrace s2 @ [(n1, b_data (bufs s2 ! b2))]"
      "bio.more s3 = bio.more s2" "b_data (bufs s3 ! b1) = b_data (bufs s2 ! b2)" "holds_block dev n1 (bufs s3 ! b1)"
      "same_pins R s2 s3" "\<And>j. j < NBUF \<Longrightarrow> j \<noteq> b1 \<Longrightarrow> bufs s3 ! j = bufs s2 ! j" by metis
  have b2: "bufs s3 ! b2 = bufs s2 ! b2" using w(10) r(3,16) by blast
  have c3: "calm pid dev R {b2, b1} s3" using w(2) by (simp add: insert_commute)
  have "R b2 = 0 \<Longrightarrow> b_data (bufs s3 ! b2) = disk s3 n2" "R b1 = 0 \<Longrightarrow> b_data (bufs s3 ! b1) = disk s3 n1"
    using b2 r w ne by auto
  from calm_brelse2 [OF c3 r(3) [symmetric] _ w(8) this] obtain s4 where
    s4: "bindR (brelse pid b2 s3) (brelse pid b1) = Ret s4" "calm pid dev R {} s4" "\<And>n. block_view s4 dev n = block_view s3 dev n"
      "disk s4 = disk s3" "dtrace s4 = dtrace s3" "bio.more s4 = bio.more s3" "\<And>Q. same_pins Q s3 s4"
    using r(6) b2 by metis
  have "write_log_block pid t s = Ret s4"
    using r w s4 same_more [OF r(12)] same_more [OF r(13)] dev(2)
    by (simp add: write_log_block_def n1_def n2_def Let_def)
  moreover have "wrote pid dev R R [(n1, block_view s dev n2)] s s4"
    using s4 w r same_pins_trans [OF same_pins_trans [OF r(14) w(9)] s4(7)] unfolding wrote_def by (auto simp: fun_eq_iff)
  ultimately show ?thesis unfolding n1_def n2_def by blast
qed

lemma holds_unique:
  assumes c: "calm pid dev R L s" and "dev \<noteq> 0" and "i < NBUF" "j < NBUF"
    and "holds_block dev n (bufs s ! i)" "holds_block dev n (bufs s ! j)"
  shows "j = i"
proof -
  obtain ord where "cache_inv s ord" using calmD(1) [OF c] by blast
  from cache_inv_unique [OF this assms(3,4)] assms(2,5,6) show ?thesis by (simp add: holds_block_def)
qed

lemma install_block_wrote:
  assumes c: "calm pid dev R {} s" and dev: "dev \<noteq> 0" "lg_dev s = dev"
    and ne: "lg_start s + of_nat t + 1 \<noteq> lh_block s ! t"
    and free: "i < NBUF" "j < NBUF" "i \<noteq> j" "R i = 0" "R j = 0"
    and pin: "\<not> rec \<Longrightarrow> k < NBUF \<and> holds_block dev (lh_block s ! t) (bufs s ! k) \<and> 0 < R k"
  shows "\<exists>s'. install_block pid rec t s = Ret s' \<and>
    wrote pid dev R (if rec then R else R(k := R k - 1)) [(lh_block s ! t, block_view s dev (lg_start s + of_nat t + 1))] s s'"
proof -
  define n1 n2 where "n1 = lg_start s + of_nat t + 1" and "n2 = lh_block s ! t"
  have ne: "n1 \<noteq> n2" using ne by (simp add: n1_def n2_def)
  obtain b1 b2 s1 s2 where r: "bread pid dev n1 s = Ret (b1, s1)" "bread pid dev n2 s1 = Ret (b2, s2)" "b1 \<noteq> b2"
      "calm pid dev R {b1, b2} s2" "holds_block dev n1 (bufs s2 ! b1)" "holds_block dev n2 (bufs s2 ! b2)"
      "b_valid (bufs s2 ! b2)" "b_data (bufs s2 ! b1) = block_view s dev n1" "\<And>n. block_view s2 dev n = block_view s dev n"
      "disk s2 = disk s" "dtrace s2 = dtrace s" "bio.more s2 = bio.more s" "bio.more s1 = bio.more s" "same_pins R s s2"
      "R b1 = 0 \<Longrightarrow> block_view s dev n1 = disk s n1" "b1 < NBUF" "b2 < NBUF"
    using calm_bread2 [OF c dev(1) ne free] by metis
  have b2: "b2 \<in> {b1, b2}" by simp
  from calm_write [OF r(4) dev(1) b2 r(6) r(7), of "b_data (bufs s2 ! b1)"] obtain s3 where
    w: "bwrite pid b2 (set_data b2 (b_data (bufs s2 ! b1)) s2) = Ret s3" "calm pid dev R {b1, b2} s3"
      "\<And>n. block_view s3 dev n = (if n = n2 then b_data (bufs s2 ! b1) else block_view s2 dev n)"
      "disk s3 = (disk s2)(n2 := b_data (bufs s2 ! b1))" "dtrace s3 = dtrace s2 @ [(n2, b_data (bufs s2 ! b1))]"
      "bio.more s3 = bio.more s2" "b_data (bufs s3 ! b2) = b_data (bufs s2 ! b1)" "holds_block dev n2 (bufs s3 ! b2)"
      "same_pins R s2 s3" "\<And>j. j < NBUF \<Longrightarrow> j \<noteq> b2 \<Longrightarrow> bufs s3 ! j = bufs s2 ! j" by metis
  have b1: "bufs s3 ! b1 = bufs s2 ! b1" using w(10) r(3,16) by blast
  define R' where "R' = (if rec then R else R(k := R k - 1))"
  define s3' where "s3' = (if \<not> rec then bunpin b2 s3 else s3)"
  have k: "k = b2" if "\<not> rec"
  proof -
    have "holds_block dev n2 (bufs s2 ! k)"
      using pin [OF that] r(14) by (simp add: n2_def same_pins_def holds_block_def)
    then show ?thesis using holds_unique [OF r(4) dev(1) r(17)] pin [OF that] r(6) by blast
  qed
  have c3: "calm pid dev R' {b1, b2} s3'" and v3: "\<And>n. block_view s3' dev n = block_view s3 dev n"
    using w(2) k calm_bunpin [OF w(2) b2] pin by (auto simp: R'_def s3'_def)
  have e3: "disk s3' = disk s3" "dtrace s3' = dtrace s3" "bio.more s3' = bio.more s3" by (simp_all add: s3'_def bunpin_def)
  have x3: "bufs s3' ! b1 = bufs s3 ! b1" "b_data (bufs s3' ! b2) = b_data (bufs s3 ! b2)" "holds_block dev n2 (bufs s3' ! b2)"
    using r(3,17) calmD(3) [OF w(2)] w(8) by (auto simp: s3'_def bunpin_def upd_buf_def holds_block_def)
  have p3: "same_pins R s3 s3'" unfolding s3'_def bunpin_def using same_pins_upd [of "\<lambda>x. x\<lparr>b_refcnt := b_refcnt x - 1\<rparr>" R s3 b2]
    by (simp add: same_pins_def)
  have R0: "R b1 = 0" if "R' b1 = 0" using that k r(3) by (auto simp: R'_def split: if_splits)
  have "R' b1 = 0 \<Longrightarrow> b_data (bufs s3' ! b1) = disk s3' n1" "R' b2 = 0 \<Longrightarrow> b_data (bufs s3' ! b2) = disk s3' n2"
    using b1 r w ne x3 e3 R0 by auto
  from calm_brelse2 [OF c3 r(3) _ x3(3) this] obtain s4 where
    s4: "bindR (brelse pid b1 s3') (brelse pid b2) = Ret s4" "calm pid dev R' {} s4" "\<And>n. block_view s4 dev n = block_view s3' dev n"
      "disk s4 = disk s3'" "dtrace s4 = dtrace s3'" "bio.more s4 = bio.more s3'" "\<And>Q. same_pins Q s3' s4"
    using r(5) x3(1) b1 by metis
  have "install_block pid rec t s = Ret s4"
    using r w s4 same_more [OF r(12)] same_more [OF r(13)] dev(2)
    by (simp add: install_block_def n1_def n2_def Let_def s3'_def)
  moreover have "wrote pid dev R R' [(n2, block_view s dev n1)] s s4"
    using s4 w r e3 v3 same_pins_trans [OF same_pins_trans [OF r(14) w(9)] same_pins_trans [OF p3 s4(7)]]
    unfolding wrote_def by (auto simp: fun_eq_iff)
  ultimately show ?thesis unfolding n1_def n2_def R'_def by blast
qed

section \<open>The header block\<close>

definition head_block :: "u32 \<Rightarrow> u32 list \<Rightarrow> blk \<Rightarrow> blk" where
  "head_block n bl d = fold (\<lambda>i. put32 (4 + 4 * i) (bl ! i)) [0..<nat (sint n)] (put32 0 n d)"

lemma head_block_fold:
  fixes bl :: "u32 list"
  assumes "length d = BSIZE" and "k \<le> LOGSIZE"
  defines "d' \<equiv> fold (\<lambda>i. put32 (4 + 4 * i) (bl ! i)) [0..<k] d"
  shows "length d' = BSIZE \<and> get32 d' 0 = get32 d 0 \<and> (\<forall>i < k. get32 d' (4 + 4 * i) = bl ! i)"
  using assms(2) unfolding d'_def
proof (induction k)
  case (Suc k)
  define e where "e = fold (\<lambda>i. put32 (4 + 4 * i) (bl ! i)) [0..<k] d"
  have IH: "length e = BSIZE" "get32 e 0 = get32 d 0" "\<And>i. i < k \<Longrightarrow> get32 e (4 + 4 * i) = bl ! i"
    using Suc by (auto simp: e_def)
  have fit: "4 + 4 * k + 4 \<le> length e" using IH(1) Suc.prems by (simp add: BSIZE_def LOGSIZE_def MAXOPBLOCKS_def)
  have f: "fold (\<lambda>i. put32 (4 + 4 * i) (bl ! i)) [0..<Suc k] d = put32 (4 + 4 * k) (bl ! k) e" by (simp add: e_def)
  have "get32 (put32 (4 + 4 * k) (bl ! k) e) (4 + 4 * i) = bl ! i" if "i < Suc k" for i
    using that IH(3) get32_put32 [OF fit] get32_put32_other [OF fit, of "4 + 4 * i"] by (cases "i = k") auto
  moreover have "get32 (put32 (4 + 4 * k) (bl ! k) e) 0 = get32 d 0"
    using get32_put32_other [OF fit, of 0] IH(2) by simp
  ultimately show ?case unfolding f using length_put32 [OF fit] IH(1) by simp
qed (simp add: assms(1))

lemma head_block:
  assumes "length d = BSIZE" and "nat (sint n) \<le> LOGSIZE"
  shows "length (head_block n bl d) = BSIZE" and "get32 (head_block n bl d) 0 = n"
    and "i < nat (sint n) \<Longrightarrow> get32 (head_block n bl d) (4 + 4 * i) = bl ! i"
proof -
  have fit: "0 + 4 \<le> length d" using assms(1) by (simp add: BSIZE_def)
  have "length (put32 0 n d) = BSIZE" "get32 (put32 0 n d) 0 = n"
    using length_put32 [OF fit] get32_put32 [OF fit] assms(1) by simp_all
  with head_block_fold [OF this(1) assms(2), of bl] show "length (head_block n bl d) = BSIZE" "get32 (head_block n bl d) 0 = n"
    "i < nat (sint n) \<Longrightarrow> get32 (head_block n bl d) (4 + 4 * i) = bl ! i"
    by (simp_all add: head_block_def)
qed

text \<open>One block is read, and released after it was written or as it was.\<close>

lemma calm_bread1:
  assumes c: "calm pid dev R {} s" and dev: "dev \<noteq> 0" and free: "i < NBUF" "R i = 0"
  obtains b s' where "bread pid dev n s = Ret (b, s')" and "calm pid dev R {b} s'" and "holds_block dev n (bufs s' ! b)"
    and "b_valid (bufs s' ! b)" and "b_data (bufs s' ! b) = block_view s dev n" and "\<And>n. block_view s' dev n = block_view s dev n"
    and "disk s' = disk s" and "dtrace s' = dtrace s" and "bio.more s' = bio.more s"
    and "R b = 0 \<Longrightarrow> block_view s dev n = disk s n" and "same_pins R s s'"
proof -
  have "\<forall>i \<in> {}. \<not> holds_block dev n (bufs s ! i)" "\<exists>i < NBUF. i \<notin> {} \<and> R i = 0" using free by auto
  from calm_bread [OF c dev this] show thesis using that by metis
qed

lemma write_head_wrote:
  assumes c: "calm pid dev R {} s" and dev: "dev \<noteq> 0" "lg_dev s = dev" and free: "i < NBUF" "R i = 0"
  shows "\<exists>s'. write_head pid s = Ret s' \<and>
    wrote pid dev R R [(lg_start s, head_block (lh_n s) (lh_block s) (block_view s dev (lg_start s)))] s s'"
proof -
  define n where "n = lg_start s"
  obtain b s1 where r: "bread pid dev n s = Ret (b, s1)" "calm pid dev R {b} s1" "holds_block dev n (bufs s1 ! b)"
      "b_valid (bufs s1 ! b)" "b_data (bufs s1 ! b) = block_view s dev n" "\<And>n. block_view s1 dev n = block_view s dev n"
      "disk s1 = disk s" "dtrace s1 = dtrace s" "bio.more s1 = bio.more s" "same_pins R s s1"
    using calm_bread1 [OF c dev(1) free, of n] by metis
  define d where "d = head_block (lh_n s) (lh_block s) (block_view s dev n)"
  have b: "b \<in> {b}" by simp
  from calm_write [OF r(2) dev(1) b r(3,4), of d] obtain s2 where
    w: "bwrite pid b (set_data b d s1) = Ret s2" "calm pid dev R {b} s2"
      "\<And>m. block_view s2 dev m = (if m = n then d else block_view s1 dev m)" "disk s2 = (disk s1)(n := d)"
      "dtrace s2 = dtrace s1 @ [(n, d)]" "bio.more s2 = bio.more s1" "b_data (bufs s2 ! b) = d" "holds_block dev n (bufs s2 ! b)"
      "same_pins R s1 s2" by metis
  have clean: "b_data (bufs s2 ! b) = disk s2 (b_blockno (bufs s2 ! b))" using w by (simp add: holds_block_def)
  from calm_brelse [OF w(2) b clean] obtain s3 where
    s3: "brelse pid b s2 = Ret s3" "calm pid dev R ({b} - {b}) s3" "\<And>n. block_view s3 dev n = block_view s2 dev n"
      "disk s3 = disk s2" "dtrace s3 = dtrace s2" "bio.more s3 = bio.more s2" "\<And>Q. same_pins Q s2 s3" by metis
  have "write_head pid s = Ret s3"
    using r w s3 same_more [OF r(9)] dev(2) by (simp add: write_head_def Let_def d_def head_block_def n_def)
  moreover have "wrote pid dev R R [(n, d)] s s3"
    using s3 w r same_pins_trans [OF same_pins_trans [OF r(10) w(9)] s3(7)] by (auto simp: wrote_def fun_eq_iff)
  ultimately show ?thesis unfolding d_def n_def by blast
qed

section \<open>The loops\<close>

text \<open>The blocks of the log, header included; \<open>log_block start t\<close> is the place of the \<open>t\<close>-th logged block.\<close>

definition log_block :: "u32 \<Rightarrow> nat \<Rightarrow> u32" where
  "log_block start t = start + of_nat t + 1"

definition log_region :: "u32 \<Rightarrow> u32 set" where
  "log_region start = insert start (log_block start ` {..<LOGSIZE})"

lemma of_nat_u32_inj: "i < 2 ^ 32 \<Longrightarrow> j < 2 ^ 32 \<Longrightarrow> (of_nat i :: u32) = of_nat j \<longleftrightarrow> i = j"
  using of_nat_inverse [of i "of_nat j :: u32"] of_nat_inverse [of j "of_nat j :: u32"] by (auto simp: unat_of_nat word_unat_eq_iff)

lemma log_block_inj:
  "t < LOGSIZE \<Longrightarrow> u < LOGSIZE \<Longrightarrow> log_block start t = log_block start u \<longleftrightarrow> t = u"
  using of_nat_u32_inj [of t u] by (simp add: log_block_def LOGSIZE_def MAXOPBLOCKS_def)

lemma log_block_start: "t < LOGSIZE \<Longrightarrow> log_block start t \<noteq> start"
  using of_nat_u32_inj [of "Suc t" 0] by (simp add: log_block_def LOGSIZE_def MAXOPBLOCKS_def add.commute)

text \<open>The header in memory names \<open>n\<close> different blocks outside the log.\<close>

definition log_wf :: "nat \<Rightarrow> 'a log_scheme \<Rightarrow> bool" where
  "log_wf n s \<longleftrightarrow> n \<le> LOGSIZE \<and> n \<le> length (lh_block s) \<and> distinct (take n (lh_block s)) \<and>
     set (take n (lh_block s)) \<inter> log_region (lg_start s) = {}"

lemma log_wfD:
  assumes "log_wf n s" and "t < n"
  shows "t < LOGSIZE" and "lh_block s ! t \<notin> log_region (lg_start s)"
    and "u < n \<Longrightarrow> lh_block s ! t = lh_block s ! u \<longleftrightarrow> t = u"
    and "u < LOGSIZE \<Longrightarrow> log_block (lg_start s) u \<noteq> lh_block s ! t"
proof -
  have t: "lh_block s ! t \<in> set (take n (lh_block s))"
    using assms by (auto simp: log_wf_def in_set_conv_nth intro!: exI [of _ t])
  then show nin: "lh_block s ! t \<notin> log_region (lg_start s)" using assms(1) by (auto simp: log_wf_def)
  then show "u < LOGSIZE \<Longrightarrow> log_block (lg_start s) u \<noteq> lh_block s ! t"
    unfolding log_region_def by (metis imageI insertI2 lessThan_iff)
  show "t < LOGSIZE" using assms by (simp add: log_wf_def)
  show "u < n \<Longrightarrow> lh_block s ! t = lh_block s ! u \<longleftrightarrow> t = u"
    using assms nth_eq_iff_index_eq [of "take n (lh_block s)" t u] by (simp add: log_wf_def)
qed

definition log_writes :: "nat \<Rightarrow> u32 \<Rightarrow> 'a log_scheme \<Rightarrow> (u32 \<times> blk) list" where
  "log_writes m dev s = map (\<lambda>t. (log_block (lg_start s) t, block_view s dev (lh_block s ! t))) [0..<m]"

definition home_writes :: "nat \<Rightarrow> u32 \<Rightarrow> 'a log_scheme \<Rightarrow> (u32 \<times> blk) list" where
  "home_writes m dev s = map (\<lambda>t. (lh_block s ! t, block_view s dev (log_block (lg_start s) t))) [0..<m]"

lemma wrote_trans:
  "wrote pid dev Q R1 ws s s1 \<Longrightarrow> wrote pid dev Q R2 ws' s1 s2 \<Longrightarrow> wrote pid dev Q R2 (ws @ ws') s s2"
  unfolding wrote_def by (auto intro: same_pins_trans)

lemma wrote_mono: "wrote pid dev Q R ws s s' \<Longrightarrow> (\<And>i. Q' i \<le> Q i) \<Longrightarrow> wrote pid dev Q' R ws s s'"
  unfolding wrote_def same_pins_def by (metis gr_zeroI less_le_trans not_less_zero)

lemma wrote_refl: "calm pid dev R {} s \<Longrightarrow> wrote pid dev Q R [] s s"
  by (simp add: wrote_def same_pins_def)

lemma write_log_loop:
  assumes c: "calm pid dev R {} s" and dev: "dev \<noteq> 0" "lg_dev s = dev" and wf: "log_wf n s" and m: "m \<le> n"
    and free: "i < NBUF" "j < NBUF" "i \<noteq> j" "R i = 0" "R j = 0"
  shows "\<exists>s'. foldR (write_log_block pid) [0..<m] s = Ret s' \<and> wrote pid dev R R (log_writes m dev s) s s'"
  using m
proof (induction m)
  case 0
  then show ?case using wrote_refl [OF c] by (simp add: log_writes_def)
next
  case (Suc m)
  then obtain s1 where s1: "foldR (write_log_block pid) [0..<m] s = Ret s1" "wrote pid dev R R (log_writes m dev s) s s1"
    by auto
  have c1: "calm pid dev R {} s1" and more: "bio.more s1 = bio.more s" using s1(2) by (simp_all add: wrote_def)
  note M = same_more [OF more]
  have mn: "m < n" using Suc.prems by simp
  have ne: "lg_start s1 + of_nat m + 1 \<noteq> lh_block s1 ! m"
    using log_wfD(4) [OF wf mn, of m] log_wfD(1) [OF wf mn] M by (simp add: log_block_def)
  have "lh_block s ! m \<notin> fst ` set (log_writes m dev s)"
  proof
    assume "lh_block s ! m \<in> fst ` set (log_writes m dev s)"
    then obtain u where "u < m" "lh_block s ! m = log_block (lg_start s) u" by (auto simp: log_writes_def)
    then show False using log_wfD(4) [OF wf mn, of u] log_wfD(1) [OF wf, of u] mn by simp
  qed
  then have v: "block_view s1 dev (lh_block s ! m) = block_view s dev (lh_block s ! m)"
    using s1(2) by (simp add: wrote_def apply_writes_other)
  have "lg_dev s1 = dev" using M dev by simp
  from write_log_block_wrote [OF c1 dev(1) this ne free] obtain s2 where
    s2: "write_log_block pid m s1 = Ret s2"
      "wrote pid dev R R [(log_block (lg_start s) m, block_view s dev (lh_block s ! m))] s1 s2"
    using M v by (auto simp: log_block_def)
  have "wrote pid dev R R (log_writes (Suc m) dev s) s s2"
    using wrote_trans [OF s1(2) s2(2)] by (simp add: log_writes_def)
  moreover have "foldR (write_log_block pid) [0..<Suc m] s = Ret s2" using s1(1) s2(1) by (simp add: foldR_snoc)
  ultimately show ?case by blast
qed

definition pinned :: "u32 \<Rightarrow> (nat \<Rightarrow> nat) \<Rightarrow> u32 set \<Rightarrow> 'a bio_scheme \<Rightarrow> bool" where
  "pinned dev R B s \<longleftrightarrow> (\<forall>n \<in> B. \<exists>k < NBUF. holds_block dev n (bufs s ! k) \<and> 0 < R k)"

lemma pinned_same: "pinned dev R B s \<Longrightarrow> same_pins R s s' \<Longrightarrow> pinned dev R B s'"
  unfolding pinned_def same_pins_def holds_block_def by metis

lemma pinned_unpin:
  assumes "pinned dev R (insert n B) s" and "n \<notin> B" and "holds_block dev n (bufs s ! k)"
  shows "pinned dev (R(k := r)) B s"
  unfolding pinned_def
proof
  fix x assume x: "x \<in> B"
  then obtain l where l: "l < NBUF" "holds_block dev x (bufs s ! l)" "0 < R l" using assms(1) by (auto simp: pinned_def)
  then have "l \<noteq> k" using assms(2,3) x by (auto simp: holds_block_def)
  then show "\<exists>k' < NBUF. holds_block dev x (bufs s ! k') \<and> 0 < (R(k := r)) k'" using l by auto
qed

text \<open>The blocks named by the entries of the header from \<open>m\<close> on.\<close>

definition homes_from :: "nat \<Rightarrow> nat \<Rightarrow> 'a log_scheme \<Rightarrow> u32 set" where
  "homes_from m n s = (\<lambda>t. lh_block s ! t) ` {m..<n}"

lemma homes_from_Suc:
  assumes "log_wf n s" and "m < n"
  shows "homes_from m n s = insert (lh_block s ! m) (homes_from (Suc m) n s)" and "lh_block s ! m \<notin> homes_from (Suc m) n s"
proof -
  have "{m..<n} = insert m {Suc m..<n}" using assms(2) by auto
  then show "homes_from m n s = insert (lh_block s ! m) (homes_from (Suc m) n s)" by (simp add: homes_from_def)
  show "lh_block s ! m \<notin> homes_from (Suc m) n s"
  proof
    assume "lh_block s ! m \<in> homes_from (Suc m) n s"
    then obtain t where "Suc m \<le> t" "t < n" "lh_block s ! m = lh_block s ! t" by (auto simp: homes_from_def)
    then show False using log_wfD(3) [OF assms, of t] by simp
  qed
qed

lemma home_view:
  assumes wf: "log_wf n s" and m: "m \<le> n" "t < LOGSIZE" and w: "wrote pid dev Q R (home_writes m dev s) s s1"
  shows "block_view s1 dev (log_block (lg_start s) t) = block_view s dev (log_block (lg_start s) t)"
proof -
  have "log_block (lg_start s) t \<notin> fst ` set (home_writes m dev s)"
  proof
    assume "log_block (lg_start s) t \<in> fst ` set (home_writes m dev s)"
    then obtain u where "u < m" "log_block (lg_start s) t = lh_block s ! u" by (auto simp: home_writes_def)
    then show False using log_wfD(4) [OF wf, of u t] m by simp
  qed
  then show ?thesis using w by (simp add: wrote_def apply_writes_other)
qed

lemma install_loop:
  assumes c: "calm pid dev R {} s" and dev: "dev \<noteq> 0" "lg_dev s = dev" and wf: "log_wf n s" and m: "m \<le> n"
    and free: "i < NBUF" "j < NBUF" "i \<noteq> j" "R i = 0" "R j = 0"
    and pin: "\<not> rec \<Longrightarrow> pinned dev R (homes_from 0 n s) s"
  shows "\<exists>s' R'. foldR (install_block pid rec) [0..<m] s = Ret s' \<and> wrote pid dev R' R' (home_writes m dev s) s s' \<and>
    (\<forall>i. R' i \<le> R i) \<and> (rec \<longrightarrow> R' = R) \<and> (\<not> rec \<longrightarrow> pinned dev R' (homes_from m n s) s')"
  using m
proof (induction m)
  case 0
  then show ?case using wrote_refl [OF c] pin by (auto simp: home_writes_def intro!: exI [of _ R])
next
  case (Suc m)
  then obtain s1 R1 where s1: "foldR (install_block pid rec) [0..<m] s = Ret s1" "wrote pid dev R1 R1 (home_writes m dev s) s s1"
    and R1: "\<forall>i. R1 i \<le> R i" "rec \<longrightarrow> R1 = R" and pin1: "\<not> rec \<longrightarrow> pinned dev R1 (homes_from m n s) s1" by auto
  have c1: "calm pid dev R1 {} s1" and more: "bio.more s1 = bio.more s" using s1(2) by (simp_all add: wrote_def)
  note M = same_more [OF more]
  have mn: "m < n" and ml: "m < LOGSIZE" using Suc.prems log_wfD(1) [OF wf] by auto
  note H = homes_from_Suc [OF wf mn]
  have ne: "lg_start s1 + of_nat m + 1 \<noteq> lh_block s1 ! m"
    using log_wfD(4) [OF wf mn ml] M by (simp add: log_block_def)
  have v: "block_view s1 dev (log_block (lg_start s) m) = block_view s dev (log_block (lg_start s) m)"
    using home_view [OF wf _ ml s1(2)] mn by simp
  obtain k where k: "\<not> rec \<Longrightarrow> k < NBUF \<and> holds_block dev (lh_block s1 ! m) (bufs s1 ! k) \<and> 0 < R1 k"
    using pin1 H(1) M by (auto simp: pinned_def)
  define R2 where "R2 = (if rec then R1 else R1(k := R1 k - 1))"
  have le: "R2 i \<le> R1 i" for i by (simp add: R2_def)
  have free1: "R1 i = 0" "R1 j = 0" using R1(1) free by (metis le_zero_eq)+
  have "lg_dev s1 = dev" using M dev by simp
  from install_block_wrote [OF c1 dev(1) this ne free(1-3) free1 k] obtain s2 where
    s2: "install_block pid rec m s1 = Ret s2"
      "wrote pid dev R1 R2 [(lh_block s ! m, block_view s dev (log_block (lg_start s) m))] s1 s2"
    using M v by (auto simp: log_block_def R2_def)
  note le2 = wrote_mono [OF _ le]
  have "wrote pid dev R2 R2 (home_writes (Suc m) dev s) s s2"
    using wrote_trans [OF le2 [OF s1(2)] le2 [OF s2(2)]] by (simp add: home_writes_def)
  moreover have "pinned dev R2 (homes_from (Suc m) n s) s2" if "\<not> rec"
  proof -
    have "pinned dev R2 (homes_from (Suc m) n s) s1"
      using pinned_unpin [of dev R1 "lh_block s ! m" "homes_from (Suc m) n s" s1 k] pin1 H k [OF that] that M by (simp add: R2_def)
    then show ?thesis by (rule pinned_same) (use le2 [OF s2(2)] in \<open>simp add: wrote_def\<close>)
  qed
  moreover have "foldR (install_block pid rec) [0..<Suc m] s = Ret s2" using s1(1) s2(1) by (simp add: foldR_snoc)
  moreover have "\<forall>i. R2 i \<le> R i" using R1(1) le order_trans by blast
  moreover have "rec \<longrightarrow> R2 = R" using R1(2) by (simp add: R2_def)
  ultimately show ?case by blast
qed

section \<open>Committing\<close>

text \<open>The writes of a commit, in order: the log, the header, the home blocks, the cleared header.\<close>

definition commit_writes :: "nat \<Rightarrow> u32 \<Rightarrow> 'a log_scheme \<Rightarrow> (u32 \<times> blk) list" where
  "commit_writes n dev s =
     (let h = head_block (lh_n s) (lh_block s) (block_view s dev (lg_start s)) in
      log_writes n dev s @ [(lg_start s, h)] @
      map (\<lambda>t. (lh_block s ! t, block_view s dev (lh_block s ! t))) [0..<n] @ [(lg_start s, head_block 0 (lh_block s) h)])"

lemma fst_log_writes: "fst ` set (log_writes n dev s) = log_block (lg_start s) ` {..<n}"
  by (force simp: log_writes_def)

lemma log_writes_view:
  assumes "n \<le> LOGSIZE" and "t < n"
  shows "apply_writes (log_writes n dev s) d (log_block (lg_start s) t) = block_view s dev (lh_block s ! t)"
proof (rule apply_writes_in)
  show "distinct (map fst (log_writes n dev s))"
    using assms(1) log_block_inj [of _ _ "lg_start s"] by (auto simp: log_writes_def distinct_map inj_on_def)
qed (use assms in \<open>auto simp: log_writes_def\<close>)

definition free_bufs :: "(nat \<Rightarrow> nat) \<Rightarrow> nat set" where
  "free_bufs R = {i. i < NBUF \<and> R i = 0}"

lemma finite_free_bufs [simp]: "finite (free_bufs R)"
  by (simp add: free_bufs_def)

lemma two_free:
  assumes "2 \<le> card (free_bufs R)"
  obtains i j where "i < NBUF" "j < NBUF" "i \<noteq> j" "R i = 0" "R j = 0"
proof -
  have "\<not> card (free_bufs R) \<le> Suc 0" using assms by simp
  then obtain i j where "i \<in> free_bufs R" "j \<in> free_bufs R" "i \<noteq> j"
    using card_le_Suc0_iff_eq [of "free_bufs R"] by auto
  then show thesis using that by (auto simp: free_bufs_def)
qed

text \<open>Only the blocks of the set are pinned, each once.\<close>

definition pins_exact :: "u32 \<Rightarrow> (nat \<Rightarrow> nat) \<Rightarrow> u32 set \<Rightarrow> 'a bio_scheme \<Rightarrow> bool" where
  "pins_exact dev R B s \<longleftrightarrow> (\<forall>i < NBUF. 0 < R i \<longrightarrow> R i = 1 \<and> (\<exists>n \<in> B. holds_block dev n (bufs s ! i)))"

lemma pins_exact_same: "pins_exact dev R B s \<Longrightarrow> same_pins R s s' \<Longrightarrow> pins_exact dev R B s'"
  by (simp add: pins_exact_def same_pins_def holds_block_def)

text \<open>
  The state a commit starts from: the process holds no buffer, the blocks the header
  names are pinned, two buffers are free, and the header block has the size of a block.
\<close>

definition ready :: "s32 \<Rightarrow> u32 \<Rightarrow> (nat \<Rightarrow> nat) \<Rightarrow> nat \<Rightarrow> 'a log_scheme \<Rightarrow> bool" where
  "ready pid dev R n s \<longleftrightarrow> calm pid dev R {} s \<and> dev \<noteq> 0 \<and> lg_dev s = dev \<and> log_wf n s \<and> nat (sint (lh_n s)) = n \<and>
     pinned dev R (homes_from 0 n s) s \<and> pins_exact dev R (homes_from 0 n s) s \<and> 2 \<le> card (free_bufs R) \<and>
     length (block_view s dev (lg_start s)) = BSIZE"

lemma ready_free:
  assumes "ready pid dev R n s"
  obtains i j where "i < NBUF" "j < NBUF" "i \<noteq> j" "R i = 0" "R j = 0"
  by (rule two_free [of R]) (use assms that in \<open>auto simp: ready_def\<close>)

lemma home_writes_after_log:
  assumes wf: "log_wf n s" and w: "wrote pid dev Q R (log_writes n dev s @ [(lg_start s, h)]) s s2"
  shows "home_writes n dev s2 = map (\<lambda>t. (lh_block s ! t, block_view s dev (lh_block s ! t))) [0..<n]"
proof -
  have "bio.more s2 = bio.more s" using w by (simp add: wrote_def)
  note M = same_more [OF this]
  have "block_view s2 dev (log_block (lg_start s) t) = block_view s dev (lh_block s ! t)" if "t < n" for t
    using w log_wfD(1) [OF wf that] wf that log_writes_view [of n t dev s] log_block_start [of t "lg_start s"]
    by (simp add: wrote_def log_wf_def)
  then show ?thesis unfolding home_writes_def M by simp
qed

lemma calm_more: "bufs s' = bufs s \<Longrightarrow> disk s' = disk s \<Longrightarrow> calm pid dev R L s' = calm pid dev R L s"
  by (simp add: calm_def cache_inv_def)

lemma view_more: "bufs s' = bufs s \<Longrightarrow> disk s' = disk s \<Longrightarrow> block_view s' dev = block_view s dev"
  by (auto simp: block_view_def fun_eq_iff split: option.splits)

lemma log_update_simps [simp]:
  "calm pid dev R L (s\<lparr>lh_n := x\<rparr>) = calm pid dev R L s" "block_view (s\<lparr>lh_n := x\<rparr>) dev = block_view s dev"
  "calm pid dev R L (s\<lparr>lh_block := bl\<rparr>) = calm pid dev R L s" "block_view (s\<lparr>lh_block := bl\<rparr>) dev = block_view s dev"
  by (rule calm_more view_more; simp)+

lemma commit_clear:
  assumes rd: "ready pid dev R n s" and h: "h = head_block (lh_n s) (lh_block s) (block_view s dev (lg_start s))"
    and w2: "wrote pid dev R R (log_writes n dev s @ [(lg_start s, h)]) s s2"
    and w3: "wrote pid dev R3 R3 (home_writes n dev s2) s2 s3" and R3: "\<forall>i. R3 i \<le> R i"
  shows "\<exists>s4. write_head pid (s3\<lparr>lh_n := 0\<rparr>) = Ret s4 \<and> calm pid dev R3 {} s4 \<and> lh_n s4 = 0 \<and>
    dtrace s4 = dtrace s @ commit_writes n dev s \<and> disk s4 = apply_writes (commit_writes n dev s) (disk s) \<and>
    block_view s4 dev = apply_writes (commit_writes n dev s) (block_view s dev)"
proof -
  obtain i where i: "i < NBUF" "R i = 0" using ready_free [OF rd] by metis
  moreover have "R3 i \<le> R i" using R3 by blast
  ultimately have free: "i < NBUF" "R3 i = 0" by simp_all
  have wf: "log_wf n s" and dev: "dev \<noteq> 0" "lg_dev s = dev" using rd by (simp_all add: ready_def)
  have c3: "calm pid dev R3 {} (s3\<lparr>lh_n := 0\<rparr>)" and more: "bio.more s3 = bio.more s"
    using w2 w3 by (simp_all add: wrote_def)
  note M = same_more [OF more]
  have hw: "home_writes n dev s2 = map (\<lambda>t. (lh_block s ! t, block_view s dev (lh_block s ! t))) [0..<n]"
    by (rule home_writes_after_log [OF wf w2])
  have "lg_start s \<notin> fst ` set (home_writes n dev s2)"
  proof
    assume "lg_start s \<in> fst ` set (home_writes n dev s2)"
    then obtain t where "t < n" "lh_block s ! t = lg_start s" by (auto simp: hw)
    then show False using log_wfD(2) [OF wf, of t] by (simp add: log_region_def)
  qed
  then have v3: "block_view s3 dev (lg_start s) = h"
    using w2 w3 by (simp add: wrote_def apply_writes_other)
  have "lg_dev (s3\<lparr>lh_n := 0\<rparr>) = dev" using M dev by simp
  from write_head_wrote [OF c3 dev(1) this free] obtain s4 where
    s4: "write_head pid (s3\<lparr>lh_n := 0\<rparr>) = Ret s4"
      "wrote pid dev R3 R3 [(lg_start s, head_block 0 (lh_block s) h)] (s3\<lparr>lh_n := 0\<rparr>) s4"
    using M v3 by auto
  have "bio.more s4 = bio.more (s3\<lparr>lh_n := 0\<rparr>)" using s4(2) by (simp add: wrote_def)
  from same_more(6) [OF this] have "lh_n s4 = 0" by simp
  then show ?thesis
    using s4 w2 w3 by (intro exI [of _ s4]) (simp add: wrote_def hw commit_writes_def Let_def h)
qed

lemma commit_effect:
  assumes rd: "ready pid dev R n s" and n: "0 < n"
  shows "\<exists>s' R'. commit pid s = Ret s' \<and> calm pid dev R' {} s' \<and> lh_n s' = 0 \<and>
    dtrace s' = dtrace s @ commit_writes n dev s \<and> disk s' = apply_writes (commit_writes n dev s) (disk s) \<and>
    block_view s' dev = apply_writes (commit_writes n dev s) (block_view s dev) \<and> (\<forall>i. R' i \<le> R i)"
proof -
  obtain i j where free: "i < NBUF" "j < NBUF" "i \<noteq> j" "R i = 0" "R j = 0"
    using ready_free [OF rd] by metis
  have c: "calm pid dev R {} s" and dev: "dev \<noteq> 0" "lg_dev s = dev" and wf: "log_wf n s" and nn: "nat (sint (lh_n s)) = n"
    and pin: "pinned dev R (homes_from 0 n s) s"
    using rd by (simp_all add: ready_def)
  define h where "h = head_block (lh_n s) (lh_block s) (block_view s dev (lg_start s))"
  from write_log_loop [OF c dev wf order_refl free] obtain s1 where
    s1: "write_log pid s = Ret s1" "wrote pid dev R R (log_writes n dev s) s s1" by (auto simp: write_log_def nn)
  have c1: "calm pid dev R {} s1" and "bio.more s1 = bio.more s" using s1(2) by (simp_all add: wrote_def)
  note M1 = same_more [OF this(2)]
  have "lg_start s \<notin> fst ` set (log_writes n dev s)"
    using log_block_start log_wfD(1) [OF wf] unfolding fst_log_writes by (metis imageE lessThan_iff)
  then have v1: "block_view s1 dev (lg_start s) = block_view s dev (lg_start s)"
    using s1(2) by (simp add: wrote_def apply_writes_other)
  from write_head_wrote [OF c1 dev(1) _ free(1,4)] obtain s2 where
    s2: "write_head pid s1 = Ret s2" "wrote pid dev R R [(lg_start s, h)] s1 s2"
    using M1 dev v1 by (auto simp: h_def)
  have w2: "wrote pid dev R R (log_writes n dev s @ [(lg_start s, h)]) s s2" using wrote_trans [OF s1(2) s2(2)] .
  have c2: "calm pid dev R {} s2" and "bio.more s2 = bio.more s" using w2 by (simp_all add: wrote_def)
  note M2 = same_more [OF this(2)]
  have wf2: "log_wf n s2" using wf M2 by (simp add: log_wf_def)
  have h2: "homes_from 0 n s2 = homes_from 0 n s" using M2 by (simp add: homes_from_def)
  have p2: "pinned dev R (homes_from 0 n s2) s2" unfolding h2
    by (rule pinned_same [OF pin]) (use w2 in \<open>simp add: wrote_def\<close>)
  have "lg_dev s2 = dev" using M2 dev by simp
  from install_loop [OF c2 dev(1) this wf2 order_refl free, of False] p2 obtain s3 R3 where
    s3: "install_trans pid False s2 = Ret s3" "wrote pid dev R3 R3 (home_writes n dev s2) s2 s3" and R3: "\<forall>i. R3 i \<le> R i"
    using M2 nn by (auto simp: install_trans_def)
  from commit_clear [OF rd h_def w2 s3(2) R3] obtain s4 where
    s4: "write_head pid (s3\<lparr>lh_n := 0\<rparr>) = Ret s4" "calm pid dev R3 {} s4" "lh_n s4 = 0"
      "dtrace s4 = dtrace s @ commit_writes n dev s" "disk s4 = apply_writes (commit_writes n dev s) (disk s)"
      "block_view s4 dev = apply_writes (commit_writes n dev s) (block_view s dev)" by blast
  have "commit pid s = Ret s4" using s1(1) s2(1) s3(1) s4(1) nn n by (simp add: commit_def)
  then show ?thesis using s4 R3 by blast
qed

section \<open>Recovery\<close>

lemma read_head_effect:
  assumes c: "calm pid dev R {} s" and dev: "dev \<noteq> 0" "lg_dev s = dev" and free: "i < NBUF" "R i = 0"
    and d: "d = block_view s dev (lg_start s)" and k: "k = nat (sint (get32 d 0))" "k \<le> LOGSIZE"
  shows "\<exists>s'. read_head pid s = Ret s' \<and> calm pid dev R {} s' \<and> block_view s' dev = block_view s dev \<and> disk s' = disk s \<and>
    lg_start s' = lg_start s \<and> lg_dev s' = dev \<and> lh_n s' = get32 d 0 \<and>
    lh_block s' = map (\<lambda>i. get32 d (4 + 4 * i)) [0..<k] @ drop k (lh_block s)"
proof -
  define n where "n = lg_start s"
  obtain b s1 where r: "bread pid dev n s = Ret (b, s1)" "calm pid dev R {b} s1" "holds_block dev n (bufs s1 ! b)"
      "b_data (bufs s1 ! b) = block_view s dev n" "\<And>n. block_view s1 dev n = block_view s dev n"
      "disk s1 = disk s" "bio.more s1 = bio.more s" "R b = 0 \<Longrightarrow> block_view s dev n = disk s n"
    using calm_bread1 [OF c dev(1) free, of n] by metis
  note M = same_more [OF r(7)]
  define s2 where "s2 = s1\<lparr>lh_n := get32 d 0, lh_block := map (\<lambda>i. get32 d (4 + 4 * i)) [0..<k] @ drop k (lh_block s)\<rparr>"
  have c2: "calm pid dev R {b} s2" and v2: "block_view s2 dev = block_view s dev"
    using r(2,5) by (auto simp: s2_def fun_eq_iff)
  have b: "b \<in> {b}" by simp
  have e2: "bufs s2 = bufs s1" "disk s2 = disk s" using r(6) by (simp_all add: s2_def)
  have "R b = 0 \<Longrightarrow> b_data (bufs s2 ! b) = disk s2 (b_blockno (bufs s2 ! b))"
    using r(3,4,8) e2 by (simp add: holds_block_def)
  from calm_brelse [OF c2 b this] obtain s3 where s3: "brelse pid b s2 = Ret s3" "calm pid dev R ({b} - {b}) s3"
      "\<And>n. block_view s3 dev n = block_view s2 dev n" "disk s3 = disk s2" "bio.more s3 = bio.more s2" by metis
  note M3 = same_more [OF s3(5)]
  have "read_head pid s = Ret s3"
    using r(1,4) s3(1) k dev(2) M unfolding read_head_def by (simp add: n_def d s2_def Let_def)
  then show ?thesis using s3 v2 e2 M3 M dev by (intro exI [of _ s3]) (auto simp: s2_def fun_eq_iff)
qed

text \<open>The effect of recovery on the disk.\<close>

definition head_home :: "blk \<Rightarrow> nat \<Rightarrow> u32" where
  "head_home d t = get32 d (4 + 4 * t)"

definition head_count :: "blk \<Rightarrow> nat" where
  "head_count d = nat (sint (get32 d 0))"

definition recovered :: "u32 \<Rightarrow> (u32 \<Rightarrow> blk) \<Rightarrow> u32 \<Rightarrow> blk" where
  "recovered start d = apply_writes
     (map (\<lambda>t. (head_home (d start) t, d (log_block start t))) [0..<head_count (d start)]) d"

text \<open>A header on disk that a commit can have left.\<close>

definition head_wf :: "u32 \<Rightarrow> blk \<Rightarrow> bool" where
  "head_wf start h \<longleftrightarrow> head_count h \<le> LOGSIZE \<and> distinct (map (head_home h) [0..<head_count h]) \<and>
     head_home h ` {..<head_count h} \<inter> log_region start = {}"

lemma recover_from_log_effect:
  assumes c: "calm pid dev (\<lambda>_. 0) {} s" and v: "block_view s dev = disk s" and dev: "dev \<noteq> 0" "lg_dev s = dev"
    and wf: "head_wf (lg_start s) (disk s (lg_start s))" and len: "length (lh_block s) = LOGSIZE"
  shows "\<exists>s'. recover_from_log pid s = Ret s' \<and> lh_n s' = 0 \<and> calm pid dev (\<lambda>_. 0) {} s' \<and>
    (\<forall>x. x \<notin> log_region (lg_start s) \<longrightarrow> block_view s' dev x = recovered (lg_start s) (disk s) x \<and> disk s' x = block_view s' dev x)"
proof -
  define h where "h = disk s (lg_start s)"
  define k where "k = head_count h"
  have k: "k = nat (sint (get32 h 0))" "k \<le> LOGSIZE" using wf by (simp_all add: k_def head_count_def h_def head_wf_def)
  have free: "0 < NBUF" "1 < NBUF" "(0::nat) \<noteq> 1" by (simp_all add: NBUF_def)
  have hv: "h = block_view s dev (lg_start s)" using v by (simp add: h_def)
  from read_head_effect [OF c dev free(1) refl hv k] obtain s1 where
    s1: "read_head pid s = Ret s1" "calm pid dev (\<lambda>_. 0) {} s1" "block_view s1 dev = block_view s dev" "disk s1 = disk s"
      "lg_start s1 = lg_start s" "lg_dev s1 = dev" "lh_n s1 = get32 h 0"
      "lh_block s1 = map (head_home h) [0..<k] @ drop k (lh_block s)"
    unfolding head_home_def [abs_def] by blast
  have wf1: "log_wf k s1"
    using wf len k(2) unfolding log_wf_def s1 head_wf_def
    by (auto simp: k_def h_def atLeast0LessThan)
  from install_loop [OF s1(2) dev(1) s1(6) wf1 order_refl free refl refl, of True] obtain s2 where
    s2: "install_trans pid True s1 = Ret s2" "wrote pid dev (\<lambda>_. 0) (\<lambda>_. 0) (home_writes k dev s1) s1 s2"
    using k(1) s1(7) by (auto simp: install_trans_def)
  have c2: "calm pid dev (\<lambda>_. 0) {} (s2\<lparr>lh_n := 0\<rparr>)" and "bio.more s2 = bio.more s1" using s2(2) by (simp_all add: wrote_def)
  note M2 = same_more [OF this(2)]
  have "lg_dev (s2\<lparr>lh_n := 0\<rparr>) = dev" using M2 s1(6) by simp
  from write_head_wrote [OF c2 dev(1) this free(1) refl] obtain s3 g where
    s3: "write_head pid (s2\<lparr>lh_n := 0\<rparr>) = Ret s3" "wrote pid dev (\<lambda>_. 0) (\<lambda>_. 0) [(lg_start s, g)] (s2\<lparr>lh_n := 0\<rparr>) s3"
    using M2 s1(5) by auto
  have "bio.more s3 = bio.more (s2\<lparr>lh_n := 0\<rparr>)" using s3(2) by (simp add: wrote_def)
  from same_more(6) [OF this] have n0: "lh_n s3 = 0" by simp
  have hw: "home_writes k dev s1 = map (\<lambda>t. (head_home h t, disk s (log_block (lg_start s) t))) [0..<k]"
    using s1(3,5,8) v by (simp add: home_writes_def nth_append)
  have "block_view s3 dev x = recovered (lg_start s) (disk s) x \<and> disk s3 x = block_view s3 dev x"
    if "x \<notin> log_region (lg_start s)" for x
  proof -
    have "x \<noteq> lg_start s" using that by (auto simp: log_region_def)
    then show ?thesis using s3(2) s2(2) s1(3,4) v hw by (simp add: wrote_def recovered_def h_def k_def)
  qed
  moreover have "recover_from_log pid s = Ret s3" using s1(1) s2(1) s3(1) by (simp add: recover_from_log_def)
  moreover have "calm pid dev (\<lambda>_. 0) {} s3" using s3(2) by (simp add: wrote_def)
  ultimately show ?thesis using n0 by blast
qed

text \<open>The state after a reboot: a fresh buffer cache over the disk \<open>d\<close>.\<close>

definition booted :: "(u32 \<Rightarrow> blk) \<Rightarrow> 'a log_scheme \<Rightarrow> bool" where
  "booted d s \<longleftrightarrow> bufs s = bufs (boot_bio d) \<and> disk s = d \<and> length (lh_block s) = LOGSIZE"

lemma booted_calm:
  assumes b: "booted d s" and dev: "dev \<noteq> 0"
  shows "calm pid dev (\<lambda>_. 0) {} s" and "block_view s dev = disk s"
proof -
  have e: "bufs s = bufs (boot_bio d)" "disk s = disk (boot_bio d)" using b by (simp_all add: booted_def boot_bio_def)
  have "\<exists>ord. cache_inv s ord" using boot_bio_inv [of d] e by (auto simp: cache_inv_def)
  moreover have "calm_buf pid dev (disk s) 0 False (bufs s ! i)" if "i < NBUF" for i
    using boot_bio_fields [OF that, of d] boot_bio_inv [of d] e that dev by (auto simp: calm_buf_def cache_inv_def)
  ultimately show "calm pid dev (\<lambda>_. 0) {} s" by (simp add: calm_def)
  show "block_view s dev = disk s"
  proof
    fix x
    show "block_view s dev x = disk s x"
      by (rule view_uncached) (use boot_bio_fields [of _ d] e dev in \<open>auto simp: holds_block_def\<close>)
  qed
qed

lemma initlog_effect:
  assumes b: "booted d s" and dev: "dev \<noteq> 0" and wf: "head_wf (sb_logstart sb) (d (sb_logstart sb))"
  shows "\<exists>s'. initlog pid dev sb s = Ret s' \<and> lh_n s' = 0 \<and>
    (\<forall>x. x \<notin> log_region (sb_logstart sb) \<longrightarrow> block_view s' dev x = recovered (sb_logstart sb) d x)"
proof -
  define s1 where "s1 = s\<lparr>lg_start := sb_logstart sb, lg_size := sb_nlog sb, lg_dev := dev\<rparr>"
  have b1: "booted d s1" using b by (simp add: booted_def s1_def)
  have e: "lg_start s1 = sb_logstart sb" "lg_dev s1 = dev" "disk s1 = d" "length (lh_block s1) = LOGSIZE"
    using b by (simp_all add: s1_def booted_def)
  have "initlog pid dev sb s = recover_from_log pid s1"
    by (simp add: initlog_def s1_def LOGSIZE_def MAXOPBLOCKS_def BSIZE_def)
  then show ?thesis
    using recover_from_log_effect [OF booted_calm [OF b1 dev] dev e(2) _ e(4), of pid] wf e by auto
qed

section \<open>Crashes\<close>

text \<open>The contents of the file system before and after the transaction.\<close>

definition txn_result :: "nat \<Rightarrow> u32 \<Rightarrow> 'a log_scheme \<Rightarrow> u32 \<Rightarrow> blk" where
  "txn_result n dev s x = (if x \<in> homes_from 0 n s then block_view s dev x else disk s x)"

definition new_blocks :: "nat \<Rightarrow> u32 \<Rightarrow> 'a log_scheme \<Rightarrow> (u32 \<times> blk) list" where
  "new_blocks n dev s = map (\<lambda>t. (lh_block s ! t, block_view s dev (lh_block s ! t))) [0..<n]"

lemma new_blocks_result:
  assumes "x \<notin> log_region (lg_start s)" and "\<And>y. y \<notin> log_region (lg_start s) \<Longrightarrow> y \<notin> homes_from 0 n s \<Longrightarrow> d y = disk s y"
  shows "apply_writes (new_blocks n dev s) d x = txn_result n dev s x"
proof -
  have f: "fst ` set (new_blocks n dev s) = homes_from 0 n s"
    by (force simp: new_blocks_def homes_from_def)
  have "apply_writes ws d' y = block_view s dev y"
    if "y \<in> fst ` set ws" "\<forall>(a, b) \<in> set ws. b = block_view s dev a" for ws d' y
    using that
  proof (induction ws arbitrary: d')
    case (Cons w ws)
    then show ?case by (cases "y \<in> fst ` set ws") (auto simp: apply_writes_other)
  qed simp
  then show ?thesis
    using assms f by (cases "x \<in> homes_from 0 n s") (auto simp: txn_result_def apply_writes_other new_blocks_def)
qed

lemma fst_take_subset: "fst ` set (take k ws) \<subseteq> fst ` set ws"
  by (meson image_mono set_take_subset)

lemma log_writes_region: "n \<le> LOGSIZE \<Longrightarrow> fst ` set (log_writes n dev s) \<subseteq> log_region (lg_start s) - {lg_start s}"
proof
  fix x assume n: "n \<le> LOGSIZE" and "x \<in> fst ` set (log_writes n dev s)"
  then obtain t where "t < n" "x = log_block (lg_start s) t" by (auto simp: fst_log_writes)
  then show "x \<in> log_region (lg_start s) - {lg_start s}"
    using n log_block_start [of t "lg_start s"] by (auto simp: log_region_def)
qed

lemma new_blocks_region: "log_wf n s \<Longrightarrow> fst ` set (new_blocks n dev s) \<inter> log_region (lg_start s) = {}"
  using log_wfD(2) by (fastforce simp: new_blocks_def)

text \<open>A crash before the header was written.\<close>

lemma crash_before:
  fixes dev :: u32 and k :: nat
  assumes wf: "log_wf n s" and h0: "head_count (disk s (lg_start s)) = 0" and x: "x \<notin> log_region (lg_start s)"
  defines "d \<equiv> apply_writes (take k (log_writes n dev s)) (disk s)"
  shows "head_wf (lg_start s) (d (lg_start s)) \<and> recovered (lg_start s) d x = disk s x"
proof -
  have n: "n \<le> LOGSIZE" using wf by (simp add: log_wf_def)
  have sub: "fst ` set (take k (log_writes n dev s)) \<subseteq> log_region (lg_start s) - {lg_start s}"
    using log_writes_region [OF n] fst_take_subset by (rule subset_trans [rotated])
  then have "lg_start s \<notin> fst ` set (take k (log_writes n dev s))" "x \<notin> fst ` set (take k (log_writes n dev s))"
    using x by blast+
  then have "d (lg_start s) = disk s (lg_start s)" "d x = disk s x"
    unfolding d_def by (simp_all add: apply_writes_other)
  then show ?thesis using h0 by (simp add: head_wf_def recovered_def)
qed

text \<open>A crash after the header was written and before it was cleared.\<close>

lemma crash_between:
  fixes dev :: u32 and k :: nat
  assumes wf: "log_wf n s" and nn: "nat (sint (lh_n s)) = n" and len: "length h0 = BSIZE"
    and x: "x \<notin> log_region (lg_start s)"
  defines "h \<equiv> head_block (lh_n s) (lh_block s) h0"
  defines "d \<equiv> apply_writes (log_writes n dev s @ [(lg_start s, h)] @ take k (new_blocks n dev s)) (disk s)"
  shows "head_wf (lg_start s) (d (lg_start s)) \<and> recovered (lg_start s) d x = txn_result n dev s x"
proof -
  have n: "n \<le> LOGSIZE" using wf by (simp add: log_wf_def)
  note H = head_block [OF len, of "lh_n s"]
  have sub: "fst ` set (take k (new_blocks n dev s)) \<inter> log_region (lg_start s) = {}"
    using new_blocks_region [OF wf, of dev] fst_take_subset [of k "new_blocks n dev s"] by blast
  have reg: "d y = ((apply_writes (log_writes n dev s) (disk s))(lg_start s := h)) y" if "y \<in> log_region (lg_start s)" for y
  proof -
    have "y \<notin> fst ` set (take k (new_blocks n dev s))" using sub that by blast
    then show ?thesis unfolding d_def by (simp add: apply_writes_other)
  qed
  have dh: "d (lg_start s) = h" using reg [of "lg_start s"] by (simp add: log_region_def)
  have cnt: "head_count h = n" and hm: "t < n \<Longrightarrow> head_home h t = lh_block s ! t" for t
    using H n nn by (simp_all add: head_count_def head_home_def h_def)
  have m: "map (head_home h) [0..<n] = take n (lh_block s)"
    using wf hm by (intro nth_equalityI) (auto simp: log_wf_def)
  then have "head_home h ` {..<n} = set (take n (lh_block s))"
    by (metis atLeast0LessThan list.set_map set_upt)
  then have hwf: "head_wf (lg_start s) h" using wf cnt m by (simp add: head_wf_def log_wf_def)
  have "d (log_block (lg_start s) t) = block_view s dev (lh_block s ! t)" if "t < n" for t
    using reg [of "log_block (lg_start s) t"] log_writes_view [OF n that] log_block_start [of t] n that
    by (simp add: log_region_def)
  then have "map (\<lambda>t. (head_home h t, d (log_block (lg_start s) t))) [0..<n] = new_blocks n dev s"
    using hm by (simp add: new_blocks_def)
  then have r: "recovered (lg_start s) d = apply_writes (new_blocks n dev s) d" by (simp add: recovered_def dh cnt)
  have "d y = disk s y" if "y \<notin> log_region (lg_start s)" "y \<notin> homes_from 0 n s" for y
  proof -
    have "y \<notin> fst ` set (take k (new_blocks n dev s))"
      using that(2) fst_take_subset [of k "new_blocks n dev s"] by (force simp: new_blocks_def homes_from_def)
    moreover have "y \<notin> fst ` set (log_writes n dev s)" "y \<noteq> lg_start s" using log_writes_region [OF n] that(1)
      by (auto simp: log_region_def)
    ultimately show ?thesis unfolding d_def by (simp add: apply_writes_other)
  qed
  then show ?thesis using hwf dh r new_blocks_result [OF x, of n d dev] by simp
qed

lemma crash_after:
  assumes wf: "log_wf n s" and len: "length h = BSIZE" and x: "x \<notin> log_region (lg_start s)"
    and d: "d = apply_writes (log_writes n dev s @ [(lg_start s, h)] @ new_blocks n dev s @ [(lg_start s, head_block 0 (lh_block s) h)]) (disk s)"
  shows "head_wf (lg_start s) (d (lg_start s)) \<and> recovered (lg_start s) d x = txn_result n dev s x"
proof -
  have n: "n \<le> LOGSIZE" using wf by (simp add: log_wf_def)
  have "get32 (head_block 0 (lh_block s) h) 0 = 0" using head_block(2) [OF len, of 0] by simp
  then have c0: "head_count (d (lg_start s)) = 0" by (simp add: d head_count_def)
  have xs: "x \<noteq> lg_start s" using x by (auto simp: log_region_def)
  have "((apply_writes (log_writes n dev s) (disk s))(lg_start s := h)) y = disk s y"
    if "y \<notin> log_region (lg_start s)" for y
    using that log_writes_region [OF n, of dev s] by (auto simp: log_region_def intro!: apply_writes_other)
  then have "d x = txn_result n dev s x" using new_blocks_result [OF x, of n _ dev] xs by (simp add: d)
  then show ?thesis using c0 by (simp add: head_wf_def recovered_def)
qed

lemma commit_final:
  assumes rd: "ready pid dev R n s" and x: "x \<notin> log_region (lg_start s)"
  shows "apply_writes (commit_writes n dev s) (disk s) x = txn_result n dev s x"
proof -
  have n: "n \<le> LOGSIZE" and xs: "x \<noteq> lg_start s" using rd x by (auto simp: ready_def log_wf_def log_region_def)
  define h where "h = head_block (lh_n s) (lh_block s) (block_view s dev (lg_start s))"
  have W: "commit_writes n dev s =
      log_writes n dev s @ [(lg_start s, h)] @ new_blocks n dev s @ [(lg_start s, head_block 0 (lh_block s) h)]"
    by (simp add: commit_writes_def h_def new_blocks_def Let_def)
  have "((apply_writes (log_writes n dev s) (disk s))(lg_start s := h)) y = disk s y"
    if "y \<notin> log_region (lg_start s)" for y
    using that log_writes_region [OF n, of dev s] by (auto simp: log_region_def intro!: apply_writes_other)
  then show ?thesis using new_blocks_result [OF x, of n _ dev] xs by (simp add: W)
qed

lemma log_region_proper: "\<exists>y. y \<notin> log_region start"
proof -
  have "card (log_region start) \<le> 31"
    using card_insert_le_m1 card_image_le [of "{..<LOGSIZE}" "log_block start"]
    by (auto simp: log_region_def LOGSIZE_def MAXOPBLOCKS_def card_insert_if)
  moreover have "(31::nat) < card (UNIV :: u32 set)" by (simp add: card_word)
  ultimately show ?thesis by (metis UNIV_eq_I not_less)
qed

lemma crash_cases:
  assumes rd: "ready pid dev R n s" and h0: "head_count (disk s (lg_start s)) = 0" and x: "x \<notin> log_region (lg_start s)"
    and d: "d = apply_writes (take k (commit_writes n dev s)) (disk s)"
  shows "head_wf (lg_start s) (d (lg_start s)) \<and>
    recovered (lg_start s) d x = (if k \<le> n then disk s x else txn_result n dev s x)"
proof -
  have wf: "log_wf n s" and nn: "nat (sint (lh_n s)) = n" and len: "length (block_view s dev (lg_start s)) = BSIZE"
    using rd by (simp_all add: ready_def)
  define h where "h = head_block (lh_n s) (lh_block s) (block_view s dev (lg_start s))"
  have W: "commit_writes n dev s =
      log_writes n dev s @ [(lg_start s, h)] @ new_blocks n dev s @ [(lg_start s, head_block 0 (lh_block s) h)]"
    by (simp add: commit_writes_def h_def new_blocks_def Let_def)
  have l: "length (log_writes n dev s) = n" "length (new_blocks n dev s) = n" by (simp_all add: log_writes_def new_blocks_def)
  consider "k \<le> n" | "n < k" "k \<le> 2 * n + 1" | "2 * n + 2 \<le> k" by linarith
  then show ?thesis
  proof cases
    case 1
    then show ?thesis using crash_before [OF wf h0 x, of k dev] l by (simp add: d W)
  next
    case 2
    then obtain j where j: "k = n + 1 + j" "j \<le> n" by (metis Suc_eq_plus1 add_Suc add_le_cancel_left less_eq_Suc_le mult_2 le_Suc_ex add.assoc)
    then have "take k (commit_writes n dev s) = log_writes n dev s @ [(lg_start s, h)] @ take j (new_blocks n dev s)"
      using l by (simp add: W)
    then show ?thesis using crash_between [OF wf nn len x, of dev j] j by (simp add: d h_def)
  next
    case 3
    then have "take k (commit_writes n dev s) = commit_writes n dev s" using l by (simp add: W)
    moreover have "length h = BSIZE" using head_block(1) [OF len, of "lh_n s"] wf nn by (simp add: h_def log_wf_def)
    ultimately show ?thesis using crash_after [OF wf _ x, of h d dev] 3 by (simp add: d W)
  qed
qed

section \<open>Updates in a transaction\<close>

text \<open>The index \<open>log_write\<close> finds: that of the block, or the end.\<close>

lemma log_index:
  fixes x :: u32 and bl :: "u32 list"
  assumes "n \<le> length bl"
  defines "i \<equiv> length (takeWhile (\<lambda>y. y \<noteq> x) (take n bl))"
  shows "x \<in> set (take n bl) \<Longrightarrow> i < n \<and> bl ! i = x" and "x \<notin> set (take n bl) \<Longrightarrow> i = n"
proof -
  assume x: "x \<in> set (take n bl)"
  then have "i < length (take n bl)" unfolding i_def
    by (metis (mono_tags, lifting) length_takeWhile_le le_neq_implies_less takeWhile_eq_all_conv takeWhile_eq_take take_all_iff order_refl)
  moreover have "take n bl ! i = x" using nth_length_takeWhile [of "\<lambda>y. y \<noteq> x" "take n bl"] calculation by (simp add: i_def)
  ultimately show "i < n \<and> bl ! i = x" by simp
next
  assume "x \<notin> set (take n bl)"
  then have "takeWhile (\<lambda>y. y \<noteq> x) (take n bl) = take n bl" by (auto simp: takeWhile_eq_all_conv)
  from arg_cong [OF this, of length] show "i = n" using assms(1) by (simp add: i_def)
qed

lemma homes_take: "n \<le> length (lh_block s) \<Longrightarrow> homes_from 0 n s = set (take n (lh_block s))"
  using nth_image [of n "lh_block s"] by (simp add: homes_from_def)

text \<open>A state in which \<open>log_write\<close> has room.\<close>

definition room :: "nat \<Rightarrow> 'a log_scheme \<Rightarrow> bool" where
  "room n s \<longleftrightarrow> n < LOGSIZE \<and> sint (lh_n s) = int n \<and> int n < sint (lg_size s - 1) \<and> 1 \<le> sint (lg_outstanding s) \<and>
     length (lh_block s) = LOGSIZE"

lemma log_write_absorbed:
  assumes "room n s" and "b_blockno (bufs s ! b) \<in> set (take n (lh_block s))"
  shows "log_write b s = Ret s"
proof -
  have "n \<le> length (lh_block s)" using assms(1) by (simp add: room_def)
  note I = log_index(1) [OF this assms(2)]
  then have "(lh_block s)[length (takeWhile (\<lambda>y. y \<noteq> b_blockno (bufs s ! b)) (take n (lh_block s))) := b_blockno (bufs s ! b)] = lh_block s"
    by (metis list_update_id)
  then show ?thesis using I assms(1) by (simp add: log_write_def room_def Let_def)
qed

lemma log_write_new:
  assumes "room n s" and "b_blockno (bufs s ! b) \<notin> set (take n (lh_block s))"
  shows "log_write b s = Ret ((bpin b (s\<lparr>lh_block := (lh_block s)[n := b_blockno (bufs s ! b)]\<rparr>))\<lparr>lh_n := lh_n s + 1\<rparr>)"
proof -
  have "n \<le> length (lh_block s)" using assms(1) by (simp add: room_def)
  note I = log_index(2) [OF this assms(2)]
  show ?thesis using I assms(1) by (simp add: log_write_def room_def Let_def)
qed

lemma ready_more_log:
  assumes "ready pid dev R n s" and "calm pid dev R {} s'" and "bio.more s' = bio.more s" and "same_pins R s s'"
    and "length (block_view s' dev (lg_start s)) = BSIZE"
  shows "ready pid dev R n s'"
proof -
  note M = same_more [OF assms(3)]
  have "homes_from 0 n s' = homes_from 0 n s" using M by (simp add: homes_from_def)
  then have "pinned dev R (homes_from 0 n s') s'" using assms(1,4) pinned_same by (metis ready_def)
  moreover have "pins_exact dev R (homes_from 0 n s') s'"
    using assms(1,4) \<open>homes_from 0 n s' = homes_from 0 n s\<close> pins_exact_same by (metis ready_def)
  ultimately show ?thesis using assms M by (simp add: ready_def log_wf_def)
qed

lemma log_update_absorbed:
  assumes rd: "ready pid dev R n s" and rm: "room n s" and x: "x \<in> homes_from 0 n s"
  shows "\<exists>b s1 s2. bread pid dev x s = Ret (b, s1) \<and> log_write b (set_data b d s1) = Ret (set_data b d s1) \<and>
    brelse pid b (set_data b d s1) = Ret s2 \<and> ready pid dev R n s2 \<and> block_view s2 dev = (block_view s dev)(x := d) \<and>
    disk s2 = disk s \<and> dtrace s2 = dtrace s \<and> bio.more s2 = bio.more s \<and>
    b_data (bufs s1 ! b) = block_view s dev x \<and> bio.more s1 = bio.more s"
proof -
  have c: "calm pid dev R {} s" and dev: "dev \<noteq> 0" and pin: "pinned dev R (homes_from 0 n s) s" and wf: "log_wf n s"
    and len: "length (block_view s dev (lg_start s)) = BSIZE" using rd by (simp_all add: ready_def)
  obtain i where "i < NBUF" "R i = 0" using ready_free [OF rd] by metis
  from calm_bread1 [OF c dev this, of x] obtain b s1 where r: "bread pid dev x s = Ret (b, s1)" "calm pid dev R {b} s1"
      "holds_block dev x (bufs s1 ! b)" "b_valid (bufs s1 ! b)" "\<And>n. block_view s1 dev n = block_view s dev n"
      "disk s1 = disk s" "dtrace s1 = dtrace s" "bio.more s1 = bio.more s" "same_pins R s s1"
      "b_data (bufs s1 ! b) = block_view s dev x" by metis
  have b: "b \<in> {b}" and bn: "b < NBUF" using calmD(2) [OF r(2), of b] by simp_all
  define s2 where "s2 = set_data b d s1"
  note S = calm_set_data [OF r(2) dev b r(3,4), of d, folded s2_def]
  have m2: "bio.more s2 = bio.more s" "disk s2 = disk s" "dtrace s2 = dtrace s" "same_pins R s1 s2"
    using r(6-8) same_pins_upd [of "b_data_update (\<lambda>_. d)" R s1 b] by (simp_all add: s2_def)
  note M2 = same_more [OF m2(1)]
  have bx: "b_blockno (bufs s2 ! b) = x" using r(3) calmD(3) [OF r(2)] bn by (simp add: s2_def upd_buf_nth holds_block_def)
  have rm2: "room n s2" using rm M2 by (simp add: room_def)
  have "n \<le> length (lh_block s)" using wf by (simp add: log_wf_def)
  then have lw: "log_write b s2 = Ret s2" using log_write_absorbed [OF rm2] bx M2 homes_take x by metis
  obtain k where k: "k < NBUF" "holds_block dev x (bufs s ! k)" "0 < R k" using pin x by (auto simp: pinned_def)
  then have "holds_block dev x (bufs s1 ! k)" using r(9) by (simp add: same_pins_def holds_block_def)
  then have "k = b" using holds_unique [OF r(2) dev bn k(1) r(3)] by blast
  then have "R b = 0 \<Longrightarrow> b_data (bufs s2 ! b) = disk s2 (b_blockno (bufs s2 ! b))" using k(3) by simp
  from calm_brelse [OF S(1) b this] obtain s3 where s3: "brelse pid b s2 = Ret s3" "calm pid dev R ({b} - {b}) s3"
      "\<And>n. block_view s3 dev n = block_view s2 dev n" "disk s3 = disk s2" "dtrace s3 = dtrace s2" "bio.more s3 = bio.more s2"
      "\<And>Q. same_pins Q s2 s3" by metis
  have v: "block_view s3 dev = (block_view s dev)(x := d)" using s3(3) S(2) r(5) by (auto simp: fun_eq_iff)
  have "x \<noteq> lg_start s" using x log_wfD(2) [OF wf] by (auto simp: homes_from_def log_region_def)
  then have l3: "length (block_view s3 dev (lg_start s)) = BSIZE" using v len by simp
  have "ready pid dev R n s3"
    by (rule ready_more_log [OF rd]) (use s3 m2 l3 same_pins_trans [OF same_pins_trans [OF r(9) m2(4)] s3(7)] in auto)
  moreover have "disk s3 = disk s" "dtrace s3 = dtrace s" "bio.more s3 = bio.more s" using s3(4-6) m2 by simp_all
  ultimately show ?thesis using r(1,8,10) lw s3(1) v unfolding s2_def by blast
qed

lemma free_bufs_pin: "3 \<le> card (free_bufs R) \<Longrightarrow> 2 \<le> card (free_bufs (R(b := r)))"
proof -
  assume "3 \<le> card (free_bufs R)"
  moreover have "free_bufs R - {b} \<subseteq> free_bufs (R(b := r))" by (auto simp: free_bufs_def)
  then have "card (free_bufs R - {b}) \<le> card (free_bufs (R(b := r)))" by (rule card_mono [rotated]) simp
  moreover have "card (free_bufs R) - 1 \<le> card (free_bufs R - {b})" by (simp add: card_Diff_singleton_if)
  ultimately show ?thesis by simp
qed

lemma sint_Suc_small: "sint (w :: s32) = int n \<Longrightarrow> n < LOGSIZE \<Longrightarrow> sint (w + 1) = int (n + 1)"
  using sint_word_ariths(1) [of w 1] by (simp add: LOGSIZE_def MAXOPBLOCKS_def signed_take_bit_int_eq_self)

lemma log_wf_new:
  assumes "log_wf n s" and "length (lh_block s) = LOGSIZE" and "n < LOGSIZE" and "x \<notin> set (take n (lh_block s))"
    and "x \<notin> log_region (lg_start s)" and "lh_block s' = (lh_block s)[n := x]" and "lg_start s' = lg_start s"
  shows "log_wf (n + 1) s'" and "homes_from 0 (n + 1) s' = insert x (homes_from 0 n s)"
proof -
  have t: "take (n + 1) (lh_block s') = take n (lh_block s) @ [x]"
    using assms(2,3,6) by (simp add: take_Suc_conv_app_nth)
  show "log_wf (n + 1) s'" using assms t by (simp add: log_wf_def)
  show "homes_from 0 (n + 1) s' = insert x (homes_from 0 n s)"
    using homes_take [of "n + 1" s'] homes_take [of n s] t assms(2,3,6) by simp
qed

lemma log_update_ready:
  assumes rd: "ready pid dev R n s" and rm: "room n s" and x: "x \<notin> homes_from 0 n s" "x \<notin> log_region (lg_start s)"
    and free: "3 \<le> card (free_bufs R)" and b: "R b = 0" "b < NBUF" and c: "calm pid dev (R(b := 1)) {} s'"
    and hb: "holds_block dev x (bufs s' ! b)" and pins: "same_pins R s s'"
    and f: "lh_block s' = (lh_block s)[n := x]" "lh_n s' = lh_n s + 1" "lg_start s' = lg_start s" "lg_dev s' = dev"
    and v: "block_view s' dev = (block_view s dev)(x := d)"
  shows "ready pid dev (R(b := 1)) (n + 1) s'" and "homes_from 0 (n + 1) s' = insert x (homes_from 0 n s)"
proof -
  have rn: "n < LOGSIZE" "length (lh_block s) = LOGSIZE" "sint (lh_n s) = int n" using rm by (simp_all add: room_def)
  have wf: "log_wf n s" and pin: "pinned dev R (homes_from 0 n s) s" and ex: "pins_exact dev R (homes_from 0 n s) s"
    using rd by (simp_all add: ready_def)
  have nl: "n \<le> length (lh_block s)" using rn by simp
  have xt: "x \<notin> set (take n (lh_block s))" using x(1) homes_take [OF nl] by simp
  note W = log_wf_new [OF wf rn(2) rn(1) xt x(2) f(1,3)]
  then show "homes_from 0 (n + 1) s' = insert x (homes_from 0 n s)" by simp
  have "pinned dev (R(b := 1)) (homes_from 0 n s) s'"
    using pinned_same [OF pin pins] by (auto simp: pinned_def)
  then have p: "pinned dev (R(b := 1)) (homes_from 0 (n + 1) s') s'"
    using hb b(2) unfolding W by (auto simp: pinned_def)
  have e: "pins_exact dev (R(b := 1)) (homes_from 0 (n + 1) s') s'"
    using pins_exact_same [OF ex pins] hb unfolding W by (auto simp: pins_exact_def)
  have "nat (sint (lh_n s')) = n + 1" using sint_Suc_small [OF rn(3,1)] f(2) by simp
  moreover have "x \<noteq> lg_start s" using x(2) by (auto simp: log_region_def)
  ultimately show "ready pid dev (R(b := 1)) (n + 1) s'"
    using rd c W(1) p e f v free_bufs_pin [OF free, of b 1] by (simp add: ready_def)
qed

lemma log_update_new:
  assumes rd: "ready pid dev R n s" and rm: "room n s" and x: "x \<notin> homes_from 0 n s" "x \<notin> log_region (lg_start s)"
    and free: "3 \<le> card (free_bufs R)"
  shows "\<exists>b s1 s2 s3. bread pid dev x s = Ret (b, s1) \<and> log_write b (set_data b d s1) = Ret s2 \<and> b < NBUF \<and>
    brelse pid b s2 = Ret s3 \<and> ready pid dev (R(b := 1)) (n + 1) s3 \<and> block_view s3 dev = (block_view s dev)(x := d) \<and>
    disk s3 = disk s \<and> dtrace s3 = dtrace s \<and> homes_from 0 (n + 1) s3 = insert x (homes_from 0 n s) \<and>
    lg_start s3 = lg_start s \<and> lh_n s3 = lh_n s + 1 \<and> length (lh_block s3) = length (lh_block s) \<and>
    lg_size s3 = lg_size s \<and> lg_outstanding s3 = lg_outstanding s \<and> lg_committing s3 = lg_committing s \<and>
    log.more s3 = log.more s \<and> b_data (bufs s1 ! b) = block_view s dev x \<and> bio.more s1 = bio.more s"
proof -
  have c: "calm pid dev R {} s" and dev: "dev \<noteq> 0" "lg_dev s = dev" and pin: "pinned dev R (homes_from 0 n s) s" and wf: "log_wf n s"
    and ex: "pins_exact dev R (homes_from 0 n s) s"
    and len: "length (block_view s dev (lg_start s)) = BSIZE" using rd by (simp_all add: ready_def)
  have nl: "n \<le> length (lh_block s)" and rn: "n < LOGSIZE" "length (lh_block s) = LOGSIZE" "sint (lh_n s) = int n"
    using rm by (simp_all add: room_def)
  obtain i where i: "i < NBUF" "R i = 0" using ready_free [OF rd] by metis
  from calm_bread1 [OF c dev(1) i, of x] obtain b s1 where r: "bread pid dev x s = Ret (b, s1)" "calm pid dev R {b} s1"
      "holds_block dev x (bufs s1 ! b)" "b_valid (bufs s1 ! b)" "\<And>n. block_view s1 dev n = block_view s dev n"
      "disk s1 = disk s" "dtrace s1 = dtrace s" "bio.more s1 = bio.more s" "same_pins R s s1"
      "b_data (bufs s1 ! b) = block_view s dev x" by metis
  have b: "b \<in> {b}" and bn: "b < NBUF" using calmD(2) [OF r(2), of b] by simp_all
  have Rb: "R b = 0"
    using pins_exact_same [OF ex r(9)] bn r(3) x(1) by (auto simp: pins_exact_def holds_block_def)
  define s2 where "s2 = set_data b d s1"
  note S = calm_set_data [OF r(2) dev(1) b r(3,4), of d, folded s2_def]
  have m2: "bio.more s2 = bio.more s" "disk s2 = disk s" "dtrace s2 = dtrace s" "same_pins R s1 s2"
    using r(6-8) same_pins_upd [of "b_data_update (\<lambda>_. d)" R s1 b] by (simp_all add: s2_def)
  note M2 = same_more [OF m2(1)]
  have bx: "b_blockno (bufs s2 ! b) = x" using r(3) calmD(3) [OF r(2)] bn by (simp add: s2_def upd_buf_nth holds_block_def)
  define s3 where "s3 = bpin b (s2\<lparr>lh_block := (lh_block s)[n := x]\<rparr>)"
  define R' where "R' = R(b := 1)"
  have lw: "log_write b s2 = Ret (s3\<lparr>lh_n := lh_n s + 1\<rparr>)"
    using log_write_new [of n s2 b] rm M2 bx x(1) homes_take [OF nl] by (simp add: room_def s3_def)
  have c3: "calm pid dev R' {b} s3" and v3: "\<And>y. block_view s3 dev y = block_view s2 dev y"
    using calm_bpin [of pid dev R "{b}" "s2\<lparr>lh_block := (lh_block s)[n := x]\<rparr>" b] S(1) Rb by (auto simp: s3_def R'_def)
  define s4 where "s4 = s3\<lparr>lh_n := lh_n s + 1\<rparr>"
  have c4: "calm pid dev R' {b} s4" and v4: "\<And>y. block_view s4 dev y = block_view s2 dev y" using c3 v3 by (simp_all add: s4_def)
  have "R' b = 0 \<Longrightarrow> b_data (bufs s4 ! b) = disk s4 (b_blockno (bufs s4 ! b))" by (simp add: R'_def)
  from calm_brelse [OF c4 b this] obtain s5 where s5: "brelse pid b s4 = Ret s5" "calm pid dev R' ({b} - {b}) s5"
      "\<And>n. block_view s5 dev n = block_view s4 dev n" "disk s5 = disk s4" "dtrace s5 = dtrace s4" "bio.more s5 = bio.more s4"
      "\<And>Q. same_pins Q s4 s5" by metis
  have m4: "disk s4 = disk s" "dtrace s4 = dtrace s" "lh_block s4 = (lh_block s)[n := x]" "lh_n s4 = lh_n s + 1"
      "lg_start s4 = lg_start s" "lg_dev s4 = dev" using m2 M2 dev(2) by (simp_all add: s4_def s3_def bpin_def)
  have p24: "same_pins Q s2 s4" for Q
    using same_pins_upd [of "\<lambda>x. x\<lparr>b_refcnt := b_refcnt x + 1\<rparr>" Q s2 b] by (simp add: s4_def s3_def bpin_def same_pins_def)
  have view: "block_view s5 dev = (block_view s dev)(x := d)" using s5(3) v4 S(2) r(5) by (auto simp: fun_eq_iff)
  have hb5: "holds_block dev x (bufs s5 ! b)"
  proof -
    have "same_pins (\<lambda>_. 1) s1 s2" using same_pins_upd [of "b_data_update (\<lambda>_. d)" "\<lambda>_. 1" s1 b] by (simp add: s2_def)
    from same_pins_trans [OF same_pins_trans [OF this p24] s5(7)] show ?thesis
      using r(3) bn by (simp add: same_pins_def holds_block_def)
  qed
  note M5 = same_more [OF s5(6)]
  have c5: "calm pid dev (R(b := 1)) {} s5" using s5(2) by (simp add: R'_def)
  have p5: "same_pins R s s5" using same_pins_trans [OF same_pins_trans [OF r(9) m2(4)] same_pins_trans [OF p24 s5(7)]] .
  have f5: "lh_block s5 = (lh_block s)[n := x]" "lh_n s5 = lh_n s + 1" "lg_start s5 = lg_start s" "lg_dev s5 = dev"
    using M5 m4 by simp_all
  note F = log_update_ready [OF rd rm x free Rb bn c5 hb5 p5 f5 view]
  have "disk s5 = disk s" "dtrace s5 = dtrace s" using s5(4,5) m4 by simp_all
  moreover have "length (lh_block s5) = length (lh_block s)" using f5(1) by simp
  moreover have "lg_size s5 = lg_size s" "lg_outstanding s5 = lg_outstanding s" "lg_committing s5 = lg_committing s"
    using M5 M2 by (simp_all add: s4_def s3_def bpin_def)
  moreover have "log.more s5 = log.more s"
    using more_log [OF s5(6)] more_log [OF m2(1)] by (simp add: s4_def s3_def bpin_def)
  ultimately show ?thesis using r(1,8,10) lw s5(1) bn view F f5(2,3) unfolding s2_def s4_def by blast
qed

text \<open>
  C3 Atomicity of a commit. \<open>commit\<close> returns, clears the header and leaves the new contents
  on the disk. If the machine stops after any number \<open>k\<close> of the block writes of the commit,
  then the recovery that \<open>initlog\<close> performs on a fresh cache over the
  disk as it is then returns too, and every block outside the log has its old contents when the header had not
  been written (\<open>k \<le> n\<close>), and the new contents of the transaction otherwise.
\<close>

theorem commit_crash_atomic:
  assumes rd: "ready pid dev R n s" and n: "0 < n" and h0: "head_count (disk s (lg_start s)) = 0"
  shows "\<exists>s'. commit pid s = Ret s' \<and> lh_n s' = 0 \<and>
    (\<forall>x. x \<notin> log_region (lg_start s) \<longrightarrow> disk s' x = txn_result n dev s x) \<and>
    (\<forall>k b sb. booted (apply_writes (take k (drop (length (dtrace s)) (dtrace s'))) (disk s)) (b :: log) \<and> sb_logstart sb = lg_start s \<longrightarrow>
      (\<exists>r. initlog pid dev sb b = Ret r \<and> lh_n r = 0 \<and>
        (\<forall>x. x \<notin> log_region (lg_start s) \<longrightarrow>
           block_view r dev x = (if k \<le> n then disk s x else txn_result n dev s x))))"
proof -
  have dev: "dev \<noteq> 0" using rd by (simp add: ready_def)
  from commit_effect [OF rd n] obtain s' where
    s': "commit pid s = Ret s'" "lh_n s' = 0" "dtrace s' = dtrace s @ commit_writes n dev s"
      "disk s' = apply_writes (commit_writes n dev s) (disk s)" by blast
  have "disk s' x = txn_result n dev s x" if "x \<notin> log_region (lg_start s)" for x
    using commit_final [OF rd that] s'(4) by simp
  moreover have "\<exists>r. initlog pid dev sb b = Ret r \<and> lh_n r = 0 \<and> (\<forall>x. x \<notin> log_region (lg_start s) \<longrightarrow>
      block_view r dev x = (if k \<le> n then disk s x else txn_result n dev s x))"
    if b: "booted (apply_writes (take k (drop (length (dtrace s)) (dtrace s'))) (disk s)) (b :: log)"
      and sb: "sb_logstart sb = lg_start s" for k b sb
  proof -
    define d where "d = apply_writes (take k (commit_writes n dev s)) (disk s)"
    note C = crash_cases [OF rd h0 _ d_def]
    obtain y where "y \<notin> log_region (lg_start s)" using log_region_proper by blast
    from C [OF this] have "head_wf (lg_start s) (d (lg_start s))" by simp
    then show ?thesis using initlog_effect [of d b dev sb pid] b s'(3) dev sb C by (simp add: d_def)
  qed
  ultimately show ?thesis using s'(1,2) by blast
qed

text \<open>A file system whose log is empty, inside a transaction.\<close>

definition example_sb :: superblock where
  "example_sb = \<lparr>sb_magic = 0, sb_size = 2000, sb_nblocks = 0, sb_ninodes = 0, sb_nlog = 30, sb_logstart = 2,
     sb_inodestart = 32, sb_bmapstart = 45\<rparr>"

definition example_log :: log where
  "example_log = bio.extend (boot_bio (\<lambda>_. replicate BSIZE 0))
     \<lparr>lg_start = 2, lg_size = 30, lg_outstanding = 1, lg_committing = 0, lg_dev = 1, lh_n = 0, lh_block = replicate LOGSIZE 0\<rparr>"

lemma example_log_ready: "ready 1 1 (\<lambda>_. 0) 0 example_log" and example_log_room: "room 0 example_log"
proof -
  have b: "booted (\<lambda>_. replicate BSIZE 0) example_log"
    by (simp add: booted_def example_log_def bio.defs boot_bio_def)
  have d: "(1::u32) \<noteq> 0" by simp
  note C = booted_calm [OF b d]
  have "free_bufs (\<lambda>_. 0) = {..<NBUF}" by (auto simp: free_bufs_def)
  then have "2 \<le> card (free_bufs (\<lambda>_. 0))" by (simp add: NBUF_def)
  moreover have "disk example_log = (\<lambda>_. replicate BSIZE 0)" using b by (simp add: booted_def)
  ultimately show "ready 1 1 (\<lambda>_. 0) 0 example_log" using C
    by (simp add: ready_def log_wf_def pinned_def pins_exact_def homes_from_def example_log_def bio.defs boot_bio_def)
  show "room 0 example_log"
    by (simp add: room_def example_log_def bio.defs boot_bio_def LOGSIZE_def MAXOPBLOCKS_def)
qed

lemma region_2: "50 \<notin> log_region 2"
proof
  assume "50 \<in> log_region 2"
  then obtain t where t: "t < LOGSIZE" "(50 :: u32) = log_block 2 t" by (auto simp: log_region_def)
  then have "(of_nat t :: u32) = of_nat 47" by (simp add: log_block_def algebra_simps)
  then show False using t(1) of_nat_u32_inj [of t 47] by (simp add: LOGSIZE_def MAXOPBLOCKS_def)
qed

lemma example_fields:
  "lg_start example_log = 2" "homes_from 0 0 example_log = {}" "disk example_log = (\<lambda>_. replicate BSIZE 0)"
  "3 \<le> card (free_bufs (\<lambda>_. 0))"
proof -
  show "lg_start example_log = 2" "homes_from 0 0 example_log = {}" "disk example_log = (\<lambda>_. replicate BSIZE 0)"
    by (simp_all add: example_log_def bio.defs boot_bio_def homes_from_def)
  have "free_bufs (\<lambda>_. 0) = {..<NBUF}" by (auto simp: free_bufs_def)
  then show "3 \<le> card (free_bufs (\<lambda>_. 0))" by (simp add: NBUF_def)
qed

text \<open>One block is changed in the transaction.\<close>

lemma example_update:
  "\<exists>b s1 s2 s. bread 1 1 50 example_log = Ret (b, s1) \<and> log_write b (set_data b [1] s1) = Ret s2 \<and> brelse 1 b s2 = Ret s \<and>
    (\<exists>R. ready 1 1 R 1 s) \<and> block_view s 1 50 = [1] \<and> disk s = (\<lambda>_. replicate BSIZE 0) \<and>
    lg_start s = 2 \<and> homes_from 0 1 s = {50} \<and> head_count (disk s 2) = 0"
proof -
  have "head_count (replicate BSIZE 0) = 0"
    by (simp add: head_count_def get32_def BSIZE_def le_word_def numeral_eq_Suc)
  then show ?thesis
    using log_update_new [OF example_log_ready example_log_room _ _ example_fields(4), of 50 "[1]"] example_fields region_2
    by (fastforce simp: fun_eq_iff)
qed

theorem commit_crash_atomic_witness:
  "\<exists>b s1 s2 s s'. bread 1 1 50 example_log = Ret (b, s1) \<and> log_write b (set_data b [1] s1) = Ret s2 \<and>
    brelse 1 b s2 = Ret s \<and> commit 1 s = Ret s' \<and> disk s' 50 = [1] \<and>
    (\<forall>k d. booted (apply_writes (take k (drop (length (dtrace s)) (dtrace s'))) (disk s)) (d :: log) \<longrightarrow>
      (\<exists>r. initlog 1 1 example_sb d = Ret r \<and> block_view r 1 50 = (if k \<le> 1 then replicate BSIZE 0 else [1])))"
proof -
  from example_update obtain b s1 s2 s R where s: "bread 1 1 50 example_log = Ret (b, s1)" "log_write b (set_data b [1] s1) = Ret s2"
      "brelse 1 b s2 = Ret s" and rd: "ready 1 1 R 1 s" and e: "block_view s 1 50 = [1]" "disk s = (\<lambda>_. replicate BSIZE 0)"
      "lg_start s = 2" "homes_from 0 1 s = {50}" "head_count (disk s 2) = 0" by blast
  have c: "txn_result 1 1 s 50 = [1]" using e by (simp add: txn_result_def)
  have h0: "head_count (disk s (lg_start s)) = 0" using e by simp
  from commit_crash_atomic [OF rd zero_less_one h0] obtain s' where
    s': "commit 1 s = Ret s'" "\<forall>x. x \<notin> log_region 2 \<longrightarrow> disk s' x = txn_result 1 1 s x"
      "\<forall>k b sb. booted (apply_writes (take k (drop (length (dtrace s)) (dtrace s'))) (disk s)) (b :: log) \<and> sb_logstart sb = 2 \<longrightarrow>
      (\<exists>r. initlog 1 1 sb b = Ret r \<and> lh_n r = 0 \<and> (\<forall>x. x \<notin> log_region 2 \<longrightarrow>
           block_view r 1 x = (if k \<le> 1 then disk s x else txn_result 1 1 s x)))" unfolding e(3) by blast
  have "\<exists>r. initlog 1 1 example_sb d = Ret r \<and> block_view r 1 50 = (if k \<le> 1 then replicate BSIZE 0 else [1])"
    if bt: "booted (apply_writes (take k (drop (length (dtrace s)) (dtrace s'))) (disk s)) (d :: log)" for k d
  proof -
    have "sb_logstart example_sb = 2" by (simp add: example_sb_def)
    then obtain r where "initlog 1 1 example_sb d = Ret r"
      "\<forall>x. x \<notin> log_region 2 \<longrightarrow> block_view r 1 x = (if k \<le> 1 then disk s x else txn_result 1 1 s x)" using s'(3) bt by blast
    then show ?thesis using region_2 c e(2) by auto
  qed
  moreover have "disk s' 50 = [1]" using s'(2) region_2 c by simp
  ultimately show ?thesis using s s'(1) by blast
qed

text \<open>
  C26 The way the file system updates a block: \<open>bread\<close>, new contents, \<open>log_write\<close>, \<open>brelse\<close>. Inside
  a transaction with room the four steps succeed, the block reads as the new
  contents, the disk is not touched, and the block is in the header exactly once, however
  often it is written (absorption).
\<close>

theorem log_write_correct:
  assumes rd: "ready pid dev R n s" and rm: "room n s" and x: "x \<notin> log_region (lg_start s)"
    and free: "3 \<le> card (free_bufs R)"
  shows "\<exists>b s1 s2 s3 R'. bread pid dev x s = Ret (b, s1) \<and> log_write b (set_data b d s1) = Ret s2 \<and> brelse pid b s2 = Ret s3 \<and>
    ready pid dev R' (if x \<in> homes_from 0 n s then n else n + 1) s3 \<and>
    homes_from 0 (if x \<in> homes_from 0 n s then n else n + 1) s3 = insert x (homes_from 0 n s) \<and>
    block_view s3 dev = (block_view s dev)(x := d) \<and> disk s3 = disk s \<and> dtrace s3 = dtrace s"
proof (cases "x \<in> homes_from 0 n s")
  case True
  from log_update_absorbed [OF rd rm True, of d] obtain b s1 s2 where
    s: "bread pid dev x s = Ret (b, s1)" "log_write b (set_data b d s1) = Ret (set_data b d s1)"
      "brelse pid b (set_data b d s1) = Ret s2" "ready pid dev R n s2" "block_view s2 dev = (block_view s dev)(x := d)"
      "disk s2 = disk s" "dtrace s2 = dtrace s" "bio.more s2 = bio.more s" by blast
  have "homes_from 0 n s2 = insert x (homes_from 0 n s)"
    using same_more(7) [OF s(8)] True by (auto simp: homes_from_def)
  then have "if x \<in> homes_from 0 n s then homes_from 0 n s2 = insert x (homes_from 0 n s) else False" using True by simp
  then show ?thesis using s(1-7) True by (auto split: if_splits)
next
  case False
  from log_update_new [OF rd rm False x free, of d] False show ?thesis by simp blast
qed

theorem log_write_correct_witness:
  "\<exists>b s1 s2 s3 R'. bread 1 1 50 example_log = Ret (b, s1) \<and> log_write b (set_data b [1] s1) = Ret s2 \<and> brelse 1 b s2 = Ret s3 \<and>
    ready 1 1 R' 1 s3 \<and> homes_from 0 1 s3 = {50} \<and> block_view s3 1 50 = [1]"
proof -
  have x: "50 \<notin> log_region (lg_start example_log)" using region_2 example_fields(1) by simp
  from log_write_correct [OF example_log_ready example_log_room x example_fields(4), of "[1]"]
  show ?thesis unfolding example_fields(2) by fastforce
qed

section \<open>The limits of the cache\<close>

text \<open>
  The cache has as many buffers as the log has blocks (both are \<open>MAXOPBLOCKS * 3\<close>), and
  \<open>begin_op\<close> admits three operations of ten blocks each. If they fill the log with different
  blocks, every buffer is pinned and the commit panics when it asks for a buffer for a log block.
\<close>

lemma begin_op_admits: "begin_op s = Ret s' \<Longrightarrow> lg_committing s = 0 \<and> s' = s\<lparr>lg_outstanding := lg_outstanding s + 1\<rparr> \<and>
  sint (lh_n s + (lg_outstanding s + 1) * of_nat MAXOPBLOCKS) \<le> int LOGSIZE"
  by (auto simp: begin_op_def split: if_splits)

lemma commit_out_of_buffers:
  assumes c: "calm pid dev R {} s" and full: "\<forall>i < NBUF. 0 < R i" and n: "0 < sint (lh_n s)" and dev: "lg_dev s = dev"
    and miss: "\<forall>i < NBUF. \<not> holds_block dev (lg_start s + 1) (bufs s ! i)"
  shows "commit pid s = Panic ''bget: no buffers''"
proof -
  obtain ord where inv: "cache_inv s ord" using calmD(1) [OF c] by blast
  have "\<forall>i < NBUF. b_refcnt (bufs s ! i) \<noteq> 0" using calmD(4) [OF c] full by fastforce
  from bread_full [OF inv miss this] have "bread pid (lg_dev s) (lg_start s + of_nat 0 + 1) s = Panic ''bget: no buffers''"
    using dev by simp
  then have "write_log_block pid 0 s = Panic ''bget: no buffers''" by (simp add: write_log_block_def)
  moreover have "[0..<nat (sint (lh_n s))] = 0 # [1..<nat (sint (lh_n s))]" using n by (simp add: upt_rec)
  ultimately show ?thesis using n by (simp add: commit_def write_log_def)
qed

end
