(* ===== verification/Fs.thy ===== *)
theory Fs
  imports Log
begin

text \<open>
  The lower layers of \<^verbatim>\<open>kernel/fs.c\<close>: the allocator of disk blocks, the in-memory inode table and the
  block map of an inode, over the log and the buffer cache. An inode pointer is its index
  in \<open>itable.inode\<close>, the null pointer is \<^const>\<open>None\<close>. The spin lock of the table is held only
  around its leaf sections. The message printed when the disk is full is output only.
\<close>

section \<open>State\<close>

definition NINODE :: nat where "NINODE = 50"
definition FSMAGIC :: u32 where "FSMAGIC = 0x10203040"
definition NDIRECT :: nat where "NDIRECT = 12"
definition NINDIRECT :: nat where "NINDIRECT = BSIZE div 4"
definition MAXFILE :: nat where "MAXFILE = NDIRECT + NINDIRECT"
definition IPB :: nat where "IPB = BSIZE div 64"
definition BPB :: nat where "BPB = BSIZE * 8"

record inode =
  i_dev :: u32
  i_inum :: u32
  i_ref :: s32
  i_lock :: sleeplock
  i_valid :: s32
  i_type :: u16
  i_major :: u16
  i_minor :: u16
  i_nlink :: u16
  i_size :: u32
  i_addrs :: "u32 list"

record fsys = log +
  fs_sb :: superblock
  itable :: "inode list"

definition IBLOCK :: "u32 \<Rightarrow> superblock \<Rightarrow> u32" where
  "IBLOCK i sb = i div of_nat IPB + sb_inodestart sb"

definition BBLOCK :: "u32 \<Rightarrow> superblock \<Rightarrow> u32" where
  "BBLOCK b sb = b div of_nat BPB + sb_bmapstart sb"

definition upd_inode :: "nat \<Rightarrow> (inode \<Rightarrow> inode) \<Rightarrow> 'a fsys_scheme \<Rightarrow> 'a fsys_scheme" where
  "upd_inode ip f s = s\<lparr>itable := (itable s)[ip := f (itable s ! ip)]\<rparr>"

text \<open>The on-disk inode: where its fields are in the block that holds it.\<close>

definition dinode_off :: "u32 \<Rightarrow> nat" where
  "dinode_off inum = (unat inum mod IPB) * 64"

definition put_dinode :: "inode \<Rightarrow> nat \<Rightarrow> blk \<Rightarrow> blk" where
  "put_dinode ip off d =
     (let d = put16 off (i_type ip) d;
          d = put16 (off + 2) (i_major ip) d;
          d = put16 (off + 4) (i_minor ip) d;
          d = put16 (off + 6) (i_nlink ip) d;
          d = put32 (off + 8) (i_size ip) d
      in put_at (off + 12) (concat (map (le_bytes 4) (i_addrs ip))) d)"

definition get_dinode :: "blk \<Rightarrow> nat \<Rightarrow> inode \<Rightarrow> inode" where
  "get_dinode d off ip = ip\<lparr>i_type := get16 d off, i_major := get16 d (off + 2), i_minor := get16 d (off + 4),
     i_nlink := get16 d (off + 6), i_size := get32 d (off + 8),
     i_addrs := map (\<lambda>k. get32 d (off + 12 + 4 * k)) [0..<NDIRECT + 1]\<rparr>"

section \<open>The super block\<close>

definition readsb :: "s32 \<Rightarrow> u32 \<Rightarrow> 'a fsys_scheme \<Rightarrow> 'a fsys_scheme res" where
  "readsb pid dev s =
     bindR (bread pid dev 1 s) (\<lambda>(bp, s).
     let d = b_data (bufs s ! bp);
         sb = \<lparr>sb_magic = get32 d 0, sb_size = get32 d 4, sb_nblocks = get32 d 8, sb_ninodes = get32 d 12,
               sb_nlog = get32 d 16, sb_logstart = get32 d 20, sb_inodestart = get32 d 24, sb_bmapstart = get32 d 28\<rparr>
     in brelse pid bp (s\<lparr>fs_sb := sb\<rparr>))"

definition fsinit :: "s32 \<Rightarrow> u32 \<Rightarrow> 'a fsys_scheme \<Rightarrow> 'a fsys_scheme res" where
  "fsinit pid dev s =
     bindR (readsb pid dev s) (\<lambda>s.
     if sb_magic (fs_sb s) \<noteq> FSMAGIC then Panic ''invalid file system''
     else initlog pid dev (fs_sb s) s)"

section \<open>Blocks\<close>

definition bzero :: "s32 \<Rightarrow> u32 \<Rightarrow> u32 \<Rightarrow> 'a fsys_scheme \<Rightarrow> 'a fsys_scheme res" where
  "bzero pid dev bno s =
     bindR (bread pid dev bno s) (\<lambda>(bp, s).
     bindR (log_write bp (set_data bp (replicate BSIZE 0) s)) (\<lambda>s.
     brelse pid bp s))"

text \<open>The bit of the bitmap block that stands for block \<open>bi\<close> of its range.\<close>

definition bit_clear :: "blk \<Rightarrow> nat \<Rightarrow> bool" where
  "bit_clear d bi \<longleftrightarrow> d ! (bi div 8) AND push_bit (bi mod 8) 1 = 0"

definition mark_used :: "blk \<Rightarrow> nat \<Rightarrow> blk" where
  "mark_used d bi = d[bi div 8 := d ! (bi div 8) OR push_bit (bi mod 8) 1]"

definition mark_free :: "blk \<Rightarrow> nat \<Rightarrow> blk" where
  "mark_free d bi = d[bi div 8 := d ! (bi div 8) AND NOT (push_bit (bi mod 8) 1)]"

text \<open>The inner loop of \<open>balloc\<close>: the first clear bit of the block that covers \<open>b, b + 1, \<dots>\<close>.\<close>

definition free_bit :: "nat \<Rightarrow> nat \<Rightarrow> blk \<Rightarrow> nat option" where
  "free_bit size' b d = find (bit_clear d) [0..<min BPB (size' - b)]"

fun balloc_loop :: "s32 \<Rightarrow> u32 \<Rightarrow> nat list \<Rightarrow> 'a fsys_scheme \<Rightarrow> (u32 \<times> 'a fsys_scheme) res" where
  "balloc_loop pid dev [] s = Ret (0, s)"
| "balloc_loop pid dev (b # bs) s =
     bindR (bread pid dev (BBLOCK (of_nat b) (fs_sb s)) s) (\<lambda>(bp, s).
     case free_bit (unat (sb_size (fs_sb s))) b (b_data (bufs s ! bp)) of
       Some bi \<Rightarrow>
         bindR (log_write bp (set_data bp (mark_used (b_data (bufs s ! bp)) bi) s)) (\<lambda>s.
         bindR (brelse pid bp s) (\<lambda>s.
         bindR (bzero pid dev (of_nat (b + bi)) s) (\<lambda>s.
         Ret (of_nat (b + bi), s))))
     | None \<Rightarrow> bindR (brelse pid bp s) (balloc_loop pid dev bs))"

definition balloc :: "s32 \<Rightarrow> u32 \<Rightarrow> 'a fsys_scheme \<Rightarrow> (u32 \<times> 'a fsys_scheme) res" where
  "balloc pid dev s =
     balloc_loop pid dev (map (\<lambda>i. i * BPB) [0..<(unat (sb_size (fs_sb s)) + BPB - 1) div BPB]) s"

definition bfree :: "s32 \<Rightarrow> u32 \<Rightarrow> u32 \<Rightarrow> 'a fsys_scheme \<Rightarrow> 'a fsys_scheme res" where
  "bfree pid dev b s =
     bindR (bread pid dev (BBLOCK b (fs_sb s)) s) (\<lambda>(bp, s).
     let bi = unat b mod BPB;
         d = b_data (bufs s ! bp)
     in if bit_clear d bi then Panic ''freeing free block''
        else bindR (log_write bp (set_data bp (mark_free d bi) s)) (\<lambda>s. brelse pid bp s))"

section \<open>The inode table\<close>

definition iinit :: "'a fsys_scheme \<Rightarrow> 'a fsys_scheme" where
  "iinit s = s\<lparr>itable := map (\<lambda>ip. ip\<lparr>i_lock := initsleeplock ''inode'' (i_lock ip)\<rparr>) (itable s)\<rparr>"

text \<open>The loop of \<open>iget\<close>: a matching entry, or else the first empty one.\<close>

fun iget_scan :: "u32 \<Rightarrow> u32 \<Rightarrow> nat \<Rightarrow> nat option \<Rightarrow> inode list \<Rightarrow> nat + nat option" where
  "iget_scan dev inum i emp [] = Inr emp"
| "iget_scan dev inum i emp (ip # ips) =
     (if sint (i_ref ip) > 0 \<and> i_dev ip = dev \<and> i_inum ip = inum then Inl i
      else iget_scan dev inum (Suc i) (if emp = None \<and> i_ref ip = 0 then Some i else emp) ips)"

definition iget :: "u32 \<Rightarrow> u32 \<Rightarrow> 'a fsys_scheme \<Rightarrow> (nat \<times> 'a fsys_scheme) res" where
  "iget dev inum s =
     (case iget_scan dev inum 0 None (itable s) of
        Inl i \<Rightarrow> Ret (i, upd_inode i (\<lambda>ip. ip\<lparr>i_ref := i_ref ip + 1\<rparr>) s)
      | Inr None \<Rightarrow> Panic ''iget: no inodes''
      | Inr (Some i) \<Rightarrow> Ret (i, upd_inode i (\<lambda>ip. ip\<lparr>i_dev := dev, i_inum := inum, i_ref := 1, i_valid := 0\<rparr>) s))"

fun ialloc_loop :: "s32 \<Rightarrow> u32 \<Rightarrow> u16 \<Rightarrow> nat list \<Rightarrow> 'a fsys_scheme \<Rightarrow> (nat option \<times> 'a fsys_scheme) res" where
  "ialloc_loop pid dev type' [] s = Ret (None, s)"
| "ialloc_loop pid dev type' (inum # inums) s =
     bindR (bread pid dev (IBLOCK (of_nat inum) (fs_sb s)) s) (\<lambda>(bp, s).
     let d = b_data (bufs s ! bp);
         off = dinode_off (of_nat inum)
     in if get16 d off = 0 then
          let d = put16 off type' (put_at off (replicate 64 0) d) in
          bindR (log_write bp (set_data bp d s)) (\<lambda>s.
          bindR (brelse pid bp s) (\<lambda>s.
          bindR (iget dev (of_nat inum) s) (\<lambda>(ip, s).
          Ret (Some ip, s))))
        else bindR (brelse pid bp s) (ialloc_loop pid dev type' inums))"

definition ialloc :: "s32 \<Rightarrow> u32 \<Rightarrow> u16 \<Rightarrow> 'a fsys_scheme \<Rightarrow> (nat option \<times> 'a fsys_scheme) res" where
  "ialloc pid dev type' s = ialloc_loop pid dev type' [1..<unat (sb_ninodes (fs_sb s))] s"

definition iupdate :: "s32 \<Rightarrow> nat \<Rightarrow> 'a fsys_scheme \<Rightarrow> 'a fsys_scheme res" where
  "iupdate pid ip s =
     bindR (bread pid (i_dev (itable s ! ip)) (IBLOCK (i_inum (itable s ! ip)) (fs_sb s)) s) (\<lambda>(bp, s).
     let i = itable s ! ip;
         d = put_dinode i (dinode_off (i_inum i)) (b_data (bufs s ! bp))
     in bindR (log_write bp (set_data bp d s)) (\<lambda>s. brelse pid bp s))"

definition idup :: "nat \<Rightarrow> 'a fsys_scheme \<Rightarrow> 'a fsys_scheme" where
  "idup ip s = upd_inode ip (\<lambda>i. i\<lparr>i_ref := i_ref i + 1\<rparr>) s"

definition ilock :: "s32 \<Rightarrow> nat \<Rightarrow> 'a fsys_scheme \<Rightarrow> 'a fsys_scheme res" where
  "ilock pid ip s =
     (if sint (i_ref (itable s ! ip)) < 1 then Panic ''ilock''
      else case acquiresleep pid (i_lock (itable s ! ip)) of
        None \<Rightarrow> Block
      | Some lk \<Rightarrow>
          let s = upd_inode ip (\<lambda>i. i\<lparr>i_lock := lk\<rparr>) s in
          if i_valid (itable s ! ip) = 0 then
            bindR (bread pid (i_dev (itable s ! ip)) (IBLOCK (i_inum (itable s ! ip)) (fs_sb s)) s) (\<lambda>(bp, s).
            let s = upd_inode ip (\<lambda>i. get_dinode (b_data (bufs s ! bp)) (dinode_off (i_inum i)) i) s in
            bindR (brelse pid bp s) (\<lambda>s.
            let s = upd_inode ip (\<lambda>i. i\<lparr>i_valid := 1\<rparr>) s in
            if i_type (itable s ! ip) = 0 then Panic ''ilock: no type'' else Ret s))
          else Ret s)"

definition iunlock :: "s32 \<Rightarrow> nat \<Rightarrow> 'a fsys_scheme \<Rightarrow> 'a fsys_scheme res" where
  "iunlock pid ip s =
     (let i = itable s ! ip in
      if \<not> holdingsleep pid (i_lock i) \<or> sint (i_ref i) < 1 then Panic ''iunlock''
      else Ret (upd_inode ip (\<lambda>i. i\<lparr>i_lock := releasesleep (i_lock i)\<rparr>) s))"

section \<open>The blocks of an inode\<close>

definition bmap :: "s32 \<Rightarrow> nat \<Rightarrow> u32 \<Rightarrow> 'a fsys_scheme \<Rightarrow> (u32 \<times> 'a fsys_scheme) res" where
  "bmap pid ip bn s =
     (if unat bn < NDIRECT then
        let addr = i_addrs (itable s ! ip) ! unat bn in
        if addr = 0 then
          bindR (balloc pid (i_dev (itable s ! ip)) s) (\<lambda>(addr, s).
          if addr = 0 then Ret (0, s)
          else Ret (addr, upd_inode ip (\<lambda>i. i\<lparr>i_addrs := (i_addrs i)[unat bn := addr]\<rparr>) s))
        else Ret (addr, s)
      else
        let k = unat bn - NDIRECT in
        if k < NINDIRECT then
          bindR (let addr = i_addrs (itable s ! ip) ! NDIRECT in
                 if addr = 0 then
                   bindR (balloc pid (i_dev (itable s ! ip)) s) (\<lambda>(addr, s).
                   if addr = 0 then Ret (0, s)
                   else Ret (addr, upd_inode ip (\<lambda>i. i\<lparr>i_addrs := (i_addrs i)[NDIRECT := addr]\<rparr>) s))
                 else Ret (addr, s)) (\<lambda>(addr, s).
          if addr = 0 then Ret (0, s)
          else
            bindR (bread pid (i_dev (itable s ! ip)) addr s) (\<lambda>(bp, s).
            let a = get32 (b_data (bufs s ! bp)) (4 * k) in
            if a = 0 then
              bindR (balloc pid (i_dev (itable s ! ip)) s) (\<lambda>(addr, s).
              bindR (if addr \<noteq> 0 then log_write bp (set_data bp (put32 (4 * k) addr (b_data (bufs s ! bp))) s)
                     else Ret s) (\<lambda>s.
              bindR (brelse pid bp s) (\<lambda>s. Ret (addr, s))))
            else bindR (brelse pid bp s) (\<lambda>s. Ret (a, s))))
        else Panic ''bmap: out of range'')"

definition itrunc :: "s32 \<Rightarrow> nat \<Rightarrow> 'a fsys_scheme \<Rightarrow> 'a fsys_scheme res" where
  "itrunc pid ip s =
     bindR (foldR (\<lambda>i s.
        if i_addrs (itable s ! ip) ! i \<noteq> 0 then
          bindR (bfree pid (i_dev (itable s ! ip)) (i_addrs (itable s ! ip) ! i) s) (\<lambda>s.
          Ret (upd_inode ip (\<lambda>x. x\<lparr>i_addrs := (i_addrs x)[i := 0]\<rparr>) s))
        else Ret s) [0..<NDIRECT] s) (\<lambda>s.
     bindR (if i_addrs (itable s ! ip) ! NDIRECT \<noteq> 0 then
              bindR (bread pid (i_dev (itable s ! ip)) (i_addrs (itable s ! ip) ! NDIRECT) s) (\<lambda>(bp, s).
              bindR (foldR (\<lambda>j s.
                 let a = get32 (b_data (bufs s ! bp)) (4 * j) in
                 if a \<noteq> 0 then bfree pid (i_dev (itable s ! ip)) a s else Ret s) [0..<NINDIRECT] s) (\<lambda>s.
              bindR (brelse pid bp s) (\<lambda>s.
              bindR (bfree pid (i_dev (itable s ! ip)) (i_addrs (itable s ! ip) ! NDIRECT) s) (\<lambda>s.
              Ret (upd_inode ip (\<lambda>x. x\<lparr>i_addrs := (i_addrs x)[NDIRECT := 0]\<rparr>) s)))))
            else Ret s) (\<lambda>s.
     iupdate pid ip (upd_inode ip (\<lambda>x. x\<lparr>i_size := 0\<rparr>) s)))"

definition iput :: "s32 \<Rightarrow> nat \<Rightarrow> 'a fsys_scheme \<Rightarrow> 'a fsys_scheme res" where
  "iput pid ip s =
     bindR (let i = itable s ! ip in
        if i_ref i = 1 \<and> i_valid i \<noteq> 0 \<and> i_nlink i = 0 then
          (case acquiresleep pid (i_lock i) of None \<Rightarrow> Block
           | Some lk \<Rightarrow>
               bindR (itrunc pid ip (upd_inode ip (\<lambda>i. i\<lparr>i_lock := lk\<rparr>) s)) (\<lambda>s.
               bindR (iupdate pid ip (upd_inode ip (\<lambda>i. i\<lparr>i_type := 0\<rparr>) s)) (\<lambda>s.
               Ret (upd_inode ip (\<lambda>i. i\<lparr>i_valid := 0, i_lock := releasesleep (i_lock i)\<rparr>) s))))
        else Ret s) (\<lambda>s.
     Ret (upd_inode ip (\<lambda>i. i\<lparr>i_ref := i_ref i - 1\<rparr>) s))"

definition iunlockput :: "s32 \<Rightarrow> nat \<Rightarrow> 'a fsys_scheme \<Rightarrow> 'a fsys_scheme res" where
  "iunlockput pid ip s = bindR (iunlock pid ip s) (\<lambda>s. iput pid ip s)"

record stat =
  st_dev :: u32
  st_ino :: u32
  st_type :: u16
  st_nlink :: u16
  st_size :: u64

definition stati :: "nat \<Rightarrow> 'a fsys_scheme \<Rightarrow> stat" where
  "stati ip s =
     (let i = itable s ! ip
      in \<lparr>st_dev = i_dev i, st_ino = i_inum i, st_type = i_type i, st_nlink = i_nlink i, st_size = ucast (i_size i)\<rparr>)"

end
