(* ===== verification/Kstring.thy ===== *)
theory Kstring
  imports Prelude
begin

text \<open>
  \<^verbatim>\<open>kernel/string.c\<close>: the byte and string routines the rest of the kernel is built on. A
  pointer is a 64-bit address into a \<^typ>\<open>memory\<close>; each loop of the source is one recursive
  function that moves the same pointers in the same order, so the overlap behaviour of
  \<open>memmove\<close> and the terminator handling of the string copies are those of the code.
\<close>

section \<open>Definitions\<close>

text \<open>\<open>for(i = 0; i < n; i++) cdst[i] = c;\<close>\<close>

function memset_loop :: "memory \<Rightarrow> u64 \<Rightarrow> u8 \<Rightarrow> nat \<Rightarrow> nat \<Rightarrow> memory" where
  "memset_loop m cdst c i n =
     (if i < n then memset_loop (m(cdst + of_nat i := c)) cdst c (Suc i) n else m)"
  by pat_completeness auto
termination
  by (relation "measure (\<lambda>(m, cdst, c, i, n). n - i)") auto

declare memset_loop.simps [simp del]

definition memset :: "memory \<Rightarrow> u64 \<Rightarrow> u8 \<Rightarrow> nat \<Rightarrow> memory" where
  "memset m dst c n = memset_loop m dst c 0 n"

text \<open>\<open>uchar\<close> values are promoted to \<open>int\<close> before the subtraction.\<close>

fun memcmp :: "memory \<Rightarrow> u64 \<Rightarrow> u64 \<Rightarrow> nat \<Rightarrow> int" where
  "memcmp m s1 s2 0 = 0"
| "memcmp m s1 s2 (Suc n) =
     (if m s1 \<noteq> m s2 then uint (m s1) - uint (m s2) else memcmp m (s1 + 1) (s2 + 1) n)"

text \<open>\<open>while(n-- > 0) *--d = *--s;\<close> and \<open>while(n-- > 0) *d++ = *s++;\<close>\<close>

fun copy_down :: "memory \<Rightarrow> u64 \<Rightarrow> u64 \<Rightarrow> nat \<Rightarrow> memory" where
  "copy_down m d s 0 = m"
| "copy_down m d s (Suc n) = copy_down (m(d - 1 := m (s - 1))) (d - 1) (s - 1) n"

fun copy_up :: "memory \<Rightarrow> u64 \<Rightarrow> u64 \<Rightarrow> nat \<Rightarrow> memory" where
  "copy_up m d s 0 = m"
| "copy_up m d s (Suc n) = copy_up (m(d := m s)) (d + 1) (s + 1) n"

definition memmove :: "memory \<Rightarrow> u64 \<Rightarrow> u64 \<Rightarrow> nat \<Rightarrow> memory" where
  "memmove m dst src n =
     (if n = 0 then m
      else if src < dst \<and> src + of_nat n > dst
        then copy_down m (dst + of_nat n) (src + of_nat n) n
      else copy_up m dst src n)"

definition memcpy :: "memory \<Rightarrow> u64 \<Rightarrow> u64 \<Rightarrow> nat \<Rightarrow> memory" where
  "memcpy m dst src n = memmove m dst src n"

fun strncmp :: "memory \<Rightarrow> u64 \<Rightarrow> u64 \<Rightarrow> nat \<Rightarrow> int" where
  "strncmp m p q 0 = 0"
| "strncmp m p q (Suc n) =
     (if m p \<noteq> 0 \<and> m p = m q then strncmp m (p + 1) (q + 1) n
      else uint (m p) - uint (m q))"

text \<open>The second loop of \<open>strncpy\<close> pads what the first one left of \<open>n\<close>.\<close>

fun strncpy_pad :: "memory \<Rightarrow> u64 \<Rightarrow> nat \<Rightarrow> memory" where
  "strncpy_pad m s 0 = m"
| "strncpy_pad m s (Suc n) = strncpy_pad (m(s := 0)) (s + 1) n"

fun strncpy_copy :: "memory \<Rightarrow> u64 \<Rightarrow> u64 \<Rightarrow> nat \<Rightarrow> memory" where
  "strncpy_copy m s t 0 = m"
| "strncpy_copy m s t (Suc n) =
     (if m t \<noteq> 0 then strncpy_copy (m(s := m t)) (s + 1) (t + 1) n
      else strncpy_pad (m(s := m t)) (s + 1) n)"

definition strncpy :: "memory \<Rightarrow> u64 \<Rightarrow> u64 \<Rightarrow> int \<Rightarrow> memory" where
  "strncpy m s t n = strncpy_copy m s t (nat n)"

text \<open>
  \<open>while(--n > 0 && (*s++ = *t++) != 0); *s = 0;\<close> The argument counts how often \<open>--n > 0\<close>
  can still succeed.
\<close>

fun safestrcpy_loop :: "memory \<Rightarrow> u64 \<Rightarrow> u64 \<Rightarrow> nat \<Rightarrow> memory" where
  "safestrcpy_loop m s t 0 = m(s := 0)"
| "safestrcpy_loop m s t (Suc k) =
     (if m t \<noteq> 0 then safestrcpy_loop (m(s := m t)) (s + 1) (t + 1) k
      else (m(s := m t))(s + 1 := 0))"

definition safestrcpy :: "memory \<Rightarrow> u64 \<Rightarrow> u64 \<Rightarrow> int \<Rightarrow> memory" where
  "safestrcpy m s t n = (if n \<le> 0 then m else safestrcpy_loop m s t (nat (n - 1)))"

text \<open>A string without a terminator makes the loop of \<open>strlen\<close> run on: no value.\<close>

partial_function (option) strlen_loop :: "memory \<Rightarrow> u64 \<Rightarrow> nat \<Rightarrow> nat option" where
  "strlen_loop m s n = (if m (s + of_nat n) \<noteq> 0 then strlen_loop m s (Suc n) else Some n)"

definition strlen :: "memory \<Rightarrow> u64 \<Rightarrow> nat option" where
  "strlen m s = strlen_loop m s 0"

section \<open>Block operations\<close>

lemma memset_loop_eq:
  assumes "i \<le> n" and "n < 2 ^ 64"
  shows "memset_loop m d c i n =
    (\<lambda>x. if in_region d n x \<and> \<not> in_region d i x then c else m x)"
  using assms
proof (induction m d c i n rule: memset_loop.induct)
  case (1 m d c i n)
  show ?case
  proof (cases "i < n")
    case True
    with "1.prems" have "in_region d (Suc i) x \<longleftrightarrow> x = d + of_nat i \<or> in_region d i x" for x
      by (intro in_region_Suc) simp
    moreover have "in_region d n (d + of_nat i)" and "\<not> in_region d i (d + of_nat i)"
      using True "1.prems" by (simp_all add: in_region_offset)
    moreover have "memset_loop (m(d + of_nat i := c)) d c (Suc i) n =
        (\<lambda>x. if in_region d n x \<and> \<not> in_region d (Suc i) x then c else (m(d + of_nat i := c)) x)"
      using True "1.prems" by (intro "1.IH") auto
    ultimately show ?thesis
      using True by (subst memset_loop.simps) (auto simp: fun_eq_iff)
  next
    case False
    with "1.prems" have "i = n" by simp
    then show ?thesis by (subst memset_loop.simps) auto
  qed
qed

lemma memset_eq:
  "n < 2 ^ 64 \<Longrightarrow> memset m d c n = (\<lambda>x. if in_region d n x then c else m x)"
  by (simp add: memset_def memset_loop_eq)

lemma copy_up_eq:
  assumes "n \<le> unat (d - s) \<or> d = s" and "n < 2 ^ 64"
  shows "copy_up m d s n = (\<lambda>x. if in_region d n x then m (s + (x - d)) else m x)"
  using assms
proof (induction n arbitrary: m d s)
  case 0
  then show ?case by simp
next
  case (Suc n)
  let ?m = "m(d := m s)"
  have IH: "copy_up ?m (d + 1) (s + 1) n =
      (\<lambda>x. if in_region (d + 1) n x then ?m (s + 1 + (x - (d + 1))) else ?m x)"
    using Suc.prems by (intro Suc.IH) auto
  have read: "?m (s + 1 + (x - (d + 1))) = m (s + (x - d))" if "in_region (d + 1) n x" for x
  proof -
    from that obtain i where i: "i < n" and x: "x = d + 1 + of_nat i"
      by (rule in_regionE)
    show ?thesis
    proof (cases "d = s")
      case True
      then show ?thesis by (auto simp: fun_upd_def algebra_simps)
    next
      case False
      have "d \<noteq> s + of_nat (Suc i)"
      proof
        assume "d = s + of_nat (Suc i)"
        then have "d - s = of_nat (Suc i)" by simp
        then have "unat (d - s) = Suc i"
          using i Suc.prems False by (simp add: unat_of_nat_u64 del: of_nat_Suc)
        with False i Suc.prems show False by simp
      qed
      then show ?thesis by (simp add: x algebra_simps)
    qed
  qed
  show ?case
    using IH read Suc.prems by (auto simp: fun_eq_iff in_region_Suc_shift)
qed

lemma copy_down_eq:
  assumes "n \<le> unat (s - d) \<or> d = s" and "n < 2 ^ 64"
  shows "copy_down m (d + of_nat n) (s + of_nat n) n =
    (\<lambda>x. if in_region d n x then m (s + (x - d)) else m x)"
  using assms
proof (induction n arbitrary: m)
  case 0
  then show ?case by simp
next
  case (Suc n)
  let ?m = "m(d + of_nat n := m (s + of_nat n))"
  have IH: "copy_down ?m (d + of_nat n) (s + of_nat n) n =
      (\<lambda>x. if in_region d n x then ?m (s + (x - d)) else ?m x)"
    using Suc.prems by (intro Suc.IH) auto
  have read: "?m (s + (x - d)) = m (s + (x - d))" if "in_region d n x" for x
  proof -
    from that obtain j where j: "j < n" and x: "x = d + of_nat j"
      by (rule in_regionE)
    show ?thesis
    proof (cases "d = s")
      case True
      then show ?thesis by simp
    next
      case False
      have "s + of_nat j \<noteq> d + of_nat n"
      proof
        assume "s + of_nat j = d + of_nat n"
        then have "s - d = of_nat n - of_nat j" by (simp add: algebra_simps)
        also have "\<dots> = of_nat (n - j)" using j by (simp add: of_nat_diff)
        finally have "s - d = of_nat (n - j)" .
        moreover have "unat (of_nat (n - j) :: u64) = n - j"
          using Suc.prems by (intro unat_of_nat_u64) simp
        ultimately have "unat (s - d) = n - j" by simp
        with False j Suc.prems show False by simp
      qed
      then show ?thesis by (simp add: x)
    qed
  qed
  show ?case
    using IH read Suc.prems
    by (auto simp: fun_eq_iff in_region_Suc algebra_simps)
qed

lemma memmove_eq:
  assumes "unat src + n < 2 ^ 64" and "unat dst + n < 2 ^ 64"
  shows "memmove m dst src n =
    (\<lambda>x. if in_region dst n x then m (src + (x - dst)) else m x)"
proof (cases "n = 0")
  case True
  then show ?thesis by (simp add: memmove_def)
next
  case False
  have n: "n < 2 ^ 64" using assms by simp
  have add: "unat (src + of_nat n) = unat src + n"
    using assms(1) n by (simp add: unat_word_ariths unat_of_nat)
  show ?thesis
  proof (cases "src < dst \<and> src + of_nat n > dst")
    case True
    then have "unat src < unat dst" by (simp add: word_less_nat_alt)
    then have "n \<le> unat (src - dst)"
      using assms(2) by (simp add: unat_sub_if_size word_size)
    with True False n show ?thesis by (simp add: memmove_def copy_down_eq)
  next
    case overlap: False
    have "n \<le> unat (dst - src) \<or> dst = src"
    proof (cases "unat src < unat dst")
      case True
      with overlap add have "unat src + n \<le> unat dst"
        by (auto simp: word_less_nat_alt not_less)
      then have "n \<le> unat dst - unat src" by simp
      with True show ?thesis by (simp add: unat_sub_if_size)
    next
      case below: False
      then show ?thesis
        using assms by (cases "unat src = unat dst")
          (auto simp: unat_sub_if_size word_size word_unat_eq_iff)
    qed
    with overlap False n show ?thesis by (auto simp: memmove_def copy_up_eq)
  qed
qed

text \<open>
  C39 Block copy is correct for every overlap of the two regions: afterwards the
  destination holds what the source held before the call, and no other byte changed.
\<close>

theorem memmove_correct:
  assumes "unat src + n < 2 ^ 64" and "unat dst + n < 2 ^ 64"
  shows "memmove m dst src n =
    (\<lambda>x. if in_region dst n x then m (src + (x - dst)) else m x)"
  using assms by (rule memmove_eq)

theorem memmove_correct_witness:
  "memmove ucast 11 10 3 = (\<lambda>x. if in_region 11 3 x then ucast (10 + (x - 11)) else ucast x)"
  using memmove_correct [of 10 3 11 ucast] by simp

section \<open>Strings\<close>

text \<open>The string at address \<open>s\<close>: the bytes of \<open>xs\<close>, none of them 0, and the terminator.\<close>

fun cstr_at :: "memory \<Rightarrow> u64 \<Rightarrow> u8 list \<Rightarrow> bool" where
  "cstr_at m s [] \<longleftrightarrow> m s = 0"
| "cstr_at m s (x # xs) \<longleftrightarrow> x \<noteq> 0 \<and> m s = x \<and> cstr_at m (s + 1) xs"

lemma cstr_at_cong:
  assumes "\<And>i. i \<le> length xs \<Longrightarrow> m' (s + of_nat i) = m (s + of_nat i)"
  shows "cstr_at m' s xs \<longleftrightarrow> cstr_at m s xs"
  using assms
proof (induction xs arbitrary: s)
  case Nil
  from Nil [of 0] show ?case by simp
next
  case (Cons x xs)
  have "cstr_at m' (s + 1) xs \<longleftrightarrow> cstr_at m (s + 1) xs"
  proof (rule Cons.IH)
    fix i assume "i \<le> length xs"
    then show "m' (s + 1 + of_nat i) = m (s + 1 + of_nat i)"
      using Cons.prems [of "Suc i"] by (simp add: algebra_simps)
  qed
  with Cons.prems [of 0] show ?case by simp
qed

lemma strlen_loop_cstr:
  "cstr_at m (s + of_nat n) xs \<Longrightarrow> strlen_loop m s n = Some (n + length xs)"
proof (induction xs arbitrary: n)
  case Nil
  then show ?case by (simp add: strlen_loop.simps)
next
  case (Cons x xs)
  then have "strlen_loop m s (Suc n) = Some (Suc n + length xs)"
    by (intro Cons.IH) (simp add: algebra_simps)
  with Cons.prems show ?case by (subst strlen_loop.simps) simp
qed

text \<open>
  On a terminated string the loop of \<open>strlen\<close> stops, at the terminator.
\<close>

theorem strlen_correct: "cstr_at m s xs \<Longrightarrow> strlen m s = Some (length xs)"
  using strlen_loop_cstr [of m s 0 xs] by (simp add: strlen_def)

text \<open>A memory holding the string \<open>ab\<close> at address 100 and nothing else.\<close>

definition ab_at_100 :: memory where
  "ab_at_100 = (\<lambda>_. 0)(100 := 97, 101 := 98)"

theorem strlen_correct_witness:
  "cstr_at ab_at_100 100 [97, 98] \<and> strlen ab_at_100 100 = Some 2"
  using strlen_correct [of ab_at_100 100 "[97, 98]"] by (simp add: ab_at_100_def)

text \<open>
  \<open>strncmp\<close> returns 0 exactly when the two strings agree on their first \<open>n\<close>
  characters (a shorter string counts with its end).
\<close>

theorem strncmp_eq_0:
  "cstr_at m p xs \<Longrightarrow> cstr_at m q ys \<Longrightarrow> strncmp m p q n = 0 \<longleftrightarrow> take n xs = take n ys"
proof (induction n arbitrary: p q xs ys)
  case 0
  then show ?case by simp
next
  case (Suc n)
  then show ?case
    by (cases xs; cases ys) auto
qed

theorem strncmp_eq_0_witness: "strncmp ab_at_100 100 100 5 = 0 \<and> strncmp ab_at_100 100 101 1 \<noteq> 0"
  using strncmp_eq_0 [of ab_at_100 100 "[97, 98]" 100 "[97, 98]" 5]
    strncmp_eq_0 [of ab_at_100 100 "[97, 98]" 101 "[98]" 1]
  by (simp add: ab_at_100_def)

text \<open>
  \<open>memcmp\<close> returns 0 exactly when the two blocks hold the same bytes.
\<close>

theorem memcmp_eq_0:
  "memcmp m s1 s2 n = 0 \<longleftrightarrow> (\<forall>i < n. m (s1 + of_nat i) = m (s2 + of_nat i))"
proof (induction n arbitrary: s1 s2)
  case 0
  then show ?case by simp
next
  case (Suc n)
  have "(\<forall>i < Suc n. m (s1 + of_nat i) = m (s2 + of_nat i)) \<longleftrightarrow>
      m s1 = m s2 \<and> (\<forall>i < n. m (s1 + 1 + of_nat i) = m (s2 + 1 + of_nat i))"
    by (subst All_less_Suc2) (simp add: algebra_simps)
  then show ?case by (simp add: Suc.IH)
qed

lemma safestrcpy_loop_frame:
  assumes "\<not> in_region s (Suc k) x" and "k < 2 ^ 64 - 1"
  shows "safestrcpy_loop m s t k x = m x"
  using assms
proof (induction k arbitrary: m s t)
  case 0
  then show ?case by (auto simp: in_region_def)
next
  case (Suc k)
  then have "\<not> in_region (s + 1) (Suc k) x" and "x \<noteq> s"
    by (auto simp: in_region_Suc_shift)
  moreover from this have "x \<noteq> s + 1" by (auto simp: in_region_def)
  ultimately show ?case using Suc by auto
qed

lemma safestrcpy_loop_cstr:
  assumes "cstr_at m t xs" and "k < 2 ^ 64 - 1"
    and "\<And>i j. i \<le> k \<Longrightarrow> j \<le> length xs \<Longrightarrow> s + of_nat i \<noteq> t + of_nat j"
  shows "cstr_at (safestrcpy_loop m s t k) s (take k xs)"
  using assms
proof (induction k arbitrary: m s t xs)
  case 0
  then show ?case by simp
next
  case (Suc k)
  show ?case
  proof (cases xs)
    case Nil
    with Suc.prems(1) show ?thesis by (auto simp: fun_upd_def)
  next
    case (Cons x xs')
    let ?m = "m(s := m t)"
    have apart: "s + 1 + of_nat i \<noteq> t + 1 + of_nat j" if "i \<le> k" "j \<le> length xs'" for i j
      using Suc.prems(3) [of "Suc i" "Suc j"] that Cons by (simp add: algebra_simps)
    have "cstr_at ?m (t + 1) xs' \<longleftrightarrow> cstr_at m (t + 1) xs'"
    proof (rule cstr_at_cong)
      fix j assume "j \<le> length xs'"
      then show "?m (t + 1 + of_nat j) = m (t + 1 + of_nat j)"
        using Suc.prems(3) [of 0 "Suc j"] Cons by (auto simp: algebra_simps)
    qed
    with Suc.prems(1) Cons have "cstr_at ?m (t + 1) xs'" by simp
    have "cstr_at (safestrcpy_loop ?m (s + 1) (t + 1) k) (s + 1) (take k xs')"
    proof (rule Suc.IH)
      show "cstr_at ?m (t + 1) xs'" by fact
      show "k < 2 ^ 64 - 1" using Suc.prems(2) by simp
    qed (rule apart)
    moreover have "safestrcpy_loop ?m (s + 1) (t + 1) k s = ?m s"
    proof (rule safestrcpy_loop_frame)
      have "unat (s - (s + 1)) = 2 ^ 64 - 1"
        by (simp add: unsigned_minus_1_eq_mask mask_eq_exp_minus_1)
      then show "\<not> in_region (s + 1) (Suc k) s"
        using Suc.prems(2) by (simp add: in_region_def)
      show "k < 2 ^ 64 - 1" using Suc.prems(2) by simp
    qed
    ultimately show ?thesis using Suc.prems(1) Cons by simp
  qed
qed

text \<open>
  C40 \<open>safestrcpy\<close> always leaves a terminated string: the first \<open>n - 1\<close> characters of the
  source. It writes nothing outside the \<open>n\<close> bytes of the destination.
\<close>

theorem safestrcpy_correct:
  assumes "cstr_at m t xs" and "0 < n" and "n < 2 ^ 31"
    and "\<And>i j. i < nat n \<Longrightarrow> j \<le> length xs \<Longrightarrow> s + of_nat i \<noteq> t + of_nat j"
  shows "cstr_at (safestrcpy m s t n) s (take (nat n - 1) xs) \<and>
    (\<forall>x. \<not> in_region s (nat n) x \<longrightarrow> safestrcpy m s t n x = m x)"
proof (intro conjI allI impI)
  have k: "nat (n - 1) = nat n - 1" and bound: "nat n - 1 < 2 ^ 64 - 1"
    using assms(2,3) by auto
  show "cstr_at (safestrcpy m s t n) s (take (nat n - 1) xs)"
    using assms bound k by (simp add: safestrcpy_def) (rule safestrcpy_loop_cstr, auto)
  fix x assume "\<not> in_region s (nat n) x"
  then show "safestrcpy m s t n x = m x"
    using assms(2) bound k
    by (simp add: safestrcpy_def) (rule safestrcpy_loop_frame, auto)
qed

lemma of_nat_apart: "i < 2 ^ 20 \<Longrightarrow> j < 2 ^ 20 \<Longrightarrow> (200 + of_nat i :: u64) = 100 + of_nat j \<longleftrightarrow> 100 + i = j"
  using of_nat_u64_inj [of "200 + i" "100 + j"] by auto

theorem safestrcpy_correct_witness:
  "cstr_at (safestrcpy ab_at_100 200 100 2) 200 [97]"
proof -
  have "cstr_at (safestrcpy ab_at_100 200 100 2) 200 (take (nat 2 - 1) [97, 98])"
    using safestrcpy_correct [of ab_at_100 100 "[97, 98]" 2 200]
    by (auto simp: ab_at_100_def of_nat_apart)
  then show ?thesis by simp
qed

lemma strncpy_pad_eq:
  "n < 2 ^ 64 \<Longrightarrow> strncpy_pad m s n = (\<lambda>x. if in_region s n x then 0 else m x)"
  by (induction n arbitrary: m s) (auto simp: fun_eq_iff in_region_Suc_shift)

end
