(* ===== verification/Riscv.thy ===== *)
theory Riscv
  imports Prelude
begin

text \<open>
  The machine-level vocabulary of the kernel: the page and page-table macros of
  \<^verbatim>\<open>kernel/riscv.h\<close>, the physical layout of \<^verbatim>\<open>kernel/memlayout.h\<close>, the limits of
  \<^verbatim>\<open>kernel/param.h\<close>, and 64-bit loads and stores over the byte memory (RISC-V is little
  endian). The lemmas give each macro its arithmetic meaning once, so that no later proof
  reasons about the bit patterns again.
\<close>

section \<open>Constants\<close>

definition PGSIZE :: u64 where "PGSIZE = 4096"
definition PGSHIFT :: nat where "PGSHIFT = 12"
definition PTE_V :: u64 where "PTE_V = 1"
definition PTE_R :: u64 where "PTE_R = 2"
definition PTE_W :: u64 where "PTE_W = 4"
definition PTE_X :: u64 where "PTE_X = 8"
definition PTE_U :: u64 where "PTE_U = 16"
definition PTE_COW :: u64 where "PTE_COW = 256"
definition PXMASK :: u64 where "PXMASK = 0x1FF"

text \<open>\<open>1L << (9 + 9 + 9 + 12 - 1)\<close>\<close>

definition MAXVA :: u64 where "MAXVA = 0x4000000000"
definition KERNBASE :: u64 where "KERNBASE = 0x80000000"
definition PHYSTOP :: u64 where "PHYSTOP = 0x88000000"
definition TRAMPOLINE :: u64 where "TRAMPOLINE = MAXVA - PGSIZE"
definition TRAPFRAME :: u64 where "TRAPFRAME = TRAMPOLINE - PGSIZE"
definition KSTACK :: "u64 \<Rightarrow> u64" where "KSTACK p = TRAMPOLINE - (p + 1) * 2 * PGSIZE"

definition UART0 :: u64 where "UART0 = 0x10000000"
definition VIRTIO0 :: u64 where "VIRTIO0 = 0x10001000"
definition PLIC :: u64 where "PLIC = 0x0c000000"

lemmas [const_defs] =
  PGSIZE_def PGSHIFT_def PTE_V_def PTE_R_def PTE_W_def PTE_X_def PTE_U_def PTE_COW_def
  PXMASK_def MAXVA_def KERNBASE_def PHYSTOP_def TRAMPOLINE_def TRAPFRAME_def KSTACK_def
  UART0_def VIRTIO0_def PLIC_def

section \<open>Page and page-table macros\<close>

definition PGROUNDUP :: "u64 \<Rightarrow> u64" where
  "PGROUNDUP sz = (sz + PGSIZE - 1) AND NOT (PGSIZE - 1)"

definition PGROUNDDOWN :: "u64 \<Rightarrow> u64" where
  "PGROUNDDOWN a = a AND NOT (PGSIZE - 1)"

definition PA2PTE :: "u64 \<Rightarrow> u64" where
  "PA2PTE pa = push_bit 10 (drop_bit 12 pa)"

definition PTE2PA :: "u64 \<Rightarrow> u64" where
  "PTE2PA pte = push_bit 12 (drop_bit 10 pte)"

definition PTE_FLAGS :: "u64 \<Rightarrow> u64" where
  "PTE_FLAGS pte = pte AND 0x3FF"

definition PXSHIFT :: "nat \<Rightarrow> nat" where
  "PXSHIFT level = PGSHIFT + 9 * level"

definition PX :: "nat \<Rightarrow> u64 \<Rightarrow> u64" where
  "PX level va = drop_bit (PXSHIFT level) va AND PXMASK"

section \<open>64-bit loads and stores\<close>

definition ld64 :: "memory \<Rightarrow> u64 \<Rightarrow> u64" where
  "ld64 m a = word_rcat (rev (map (\<lambda>i. m (a + of_nat i)) [0..<8]))"

definition st64 :: "memory \<Rightarrow> u64 \<Rightarrow> u64 \<Rightarrow> memory" where
  "st64 m a v = (\<lambda>x. if in_region a 8 x then ucast (drop_bit (8 * unat (x - a)) v) else m x)"

lemma bit_ld64: "bit (ld64 m a) n \<longleftrightarrow> n < 64 \<and> bit (m (a + of_nat (n div 8))) (n mod 8)"
proof (cases "n < 64")
  case True
  then have "n div 8 < 8" by simp
  with True show ?thesis
    by (simp add: ld64_def word_rcat_def bit_word_of_int_iff
        bit_horner_sum_uint_exp_iff [where 'a = 8, simplified] del: upt_conv_Cons upt_rec_numeral)
qed (simp add: bit_word_of_int_iff ld64_def word_rcat_def)

lemma ld64_cong:
  assumes "\<And>i. i < 8 \<Longrightarrow> m' (a + of_nat i) = m (a + of_nat i)"
  shows "ld64 m' a = ld64 m a"
proof (rule bit_eqI)
  fix n
  show "bit (ld64 m' a) n \<longleftrightarrow> bit (ld64 m a) n"
    using assms [of "n div 8"] by (auto simp: bit_ld64)
qed

lemma ld64_st64_same [simp]: "ld64 (st64 m a v) a = v"
proof (rule bit_eqI)
  fix n assume n: "possible_bit TYPE(u64) n"
  then have "n < 64" by simp
  then have "n div 8 < 8" by simp
  then have "in_region a 8 (a + of_nat (n div 8))" and "unat (of_nat (n div 8) :: u64) = n div 8"
    by (simp_all add: in_region_offset unat_of_nat_u64)
  with \<open>n < 64\<close> show "bit (ld64 (st64 m a v) a) n \<longleftrightarrow> bit v n"
    by (simp add: bit_ld64 st64_def bit_simps)
qed

lemma st64_other: "\<not> in_region a 8 x \<Longrightarrow> st64 m a v x = m x"
  by (simp add: st64_def)

section \<open>Pages\<close>

definition pgno :: "u64 \<Rightarrow> nat" where
  "pgno a = unat a div 4096"

abbreviation pgoff :: "u64 \<Rightarrow> nat" where
  "pgoff a \<equiv> unat a mod 4096"

text \<open>
  Inside this theory page numbers are computed with; elsewhere they stay folded, so that
  arithmetic does not split the division.
\<close>

declare pgno_def [simp]

definition pg_aligned :: "u64 \<Rightarrow> bool" where
  "pg_aligned a \<longleftrightarrow> pgoff a = 0"

lemma u64_bound: "unat (a :: u64) < 2 ^ 64"
  using unsigned_less [of a] by simp

lemma PGROUNDDOWN_bits: "PGROUNDDOWN a = push_bit 12 (drop_bit 12 a)"
proof -
  have "PGSIZE - 1 = mask 12" by (simp add: PGSIZE_def mask_eq_exp_minus_1)
  then show ?thesis
    by (auto simp: PGROUNDDOWN_def bit_eq_iff bit_simps)
qed

lemma unat_push_bit_u64:
  "unat (a :: u64) * 2 ^ n < 2 ^ 64 \<Longrightarrow> unat (push_bit n a) = unat a * 2 ^ n"
  by (simp add: unsigned_push_bit_eq push_bit_nat_def take_bit_nat_def)

lemma unat_drop_bit_u64: "unat (drop_bit n (a :: u64)) = unat a div 2 ^ n"
  by (simp add: unat_drop_bit_eq drop_bit_nat_def)

lemma unat_PGROUNDDOWN: "unat (PGROUNDDOWN a) = pgno a * 4096"
proof -
  have "pgno a * 4096 < 2 ^ 64"
    using u64_bound [of a] unfolding pgno_def by (meson div_times_less_eq_dividend le_less_trans)
  then show ?thesis
    by (simp add: PGROUNDDOWN_bits unat_push_bit_u64 unat_drop_bit_u64)
qed

lemma unat_PGROUNDUP:
  assumes "unat a + 4095 < 2 ^ 64"
  shows "unat (PGROUNDUP a) = (unat a + 4095) div 4096 * 4096"
proof -
  have "PGROUNDUP a = PGROUNDDOWN (a + 4095)"
    by (simp add: PGROUNDUP_def PGROUNDDOWN_def PGSIZE_def add.commute)
  moreover have "unat (a + 4095) = unat a + 4095"
    using assms by (simp add: unat_word_ariths)
  ultimately show ?thesis by (simp add: unat_PGROUNDDOWN)
qed

lemma pg_aligned_PGROUNDDOWN [simp]: "pg_aligned (PGROUNDDOWN a)"
  by (simp add: pg_aligned_def unat_PGROUNDDOWN)

lemma pg_aligned_PTE2PA [simp]: "pg_aligned (PTE2PA pte)"
proof -
  have "PTE2PA pte = PGROUNDDOWN (PTE2PA pte)"
    by (auto simp: PTE2PA_def PGROUNDDOWN_bits bit_eq_iff bit_simps)
  then show ?thesis by (metis pg_aligned_PGROUNDDOWN)
qed

lemma PGROUNDDOWN_aligned [simp]: "pg_aligned a \<Longrightarrow> PGROUNDDOWN a = a"
  by (auto simp: pg_aligned_def word_unat_eq_iff unat_PGROUNDDOWN)

lemma PGROUNDUP_aligned [simp]: 
  assumes "pg_aligned a" shows "PGROUNDUP a = a"
proof -
  have "unat a + 4095 < 2 ^ 64" using assms u64_bound [of a] by (auto simp: pg_aligned_def)
  then show ?thesis using assms
    by (auto simp: pg_aligned_def word_unat_eq_iff unat_PGROUNDUP)
qed

lemma pg_aligned_iff_mod: "pg_aligned a \<longleftrightarrow> a mod PGSIZE = 0"
  by (simp add: pg_aligned_def PGSIZE_def word_unat_eq_iff unat_mod_distrib)

lemma unat_PX: "unat (PX level va) = unat va div 2 ^ (12 + 9 * level) mod 512"
proof -
  have "PXMASK = mask 9" by (simp add: PXMASK_def mask_eq_exp_minus_1)
  then have "PX level va = take_bit 9 (drop_bit (12 + 9 * level) va)"
    by (simp add: PX_def PXSHIFT_def PGSHIFT_def take_bit_eq_mask)
  then show ?thesis
    by (simp only: unsigned_take_bit_eq take_bit_nat_def unat_drop_bit_u64) simp
qed

lemma PX_bound: "unat (PX level va) < 512"
  by (simp add: unat_PX)

text \<open>The ten flag bits of a page-table entry.\<close>

definition is_flags :: "u64 \<Rightarrow> bool" where
  "is_flags f \<longleftrightarrow> PTE_FLAGS f = f"

lemma PTE_FLAGS_take_bit: "PTE_FLAGS pte = take_bit 10 pte"
proof -
  have "(0x3FF :: u64) = mask 10" by (simp add: mask_eq_exp_minus_1)
  then show ?thesis by (simp add: PTE_FLAGS_def take_bit_eq_mask)
qed

lemma is_flags_PTE_FLAGS [simp]: "is_flags (PTE_FLAGS pte)"
  by (simp add: is_flags_def PTE_FLAGS_take_bit)

lemma is_flags_OR [simp]: "is_flags f \<Longrightarrow> is_flags g \<Longrightarrow> is_flags (f OR g)"
  by (simp add: is_flags_def PTE_FLAGS_take_bit)

lemma is_flags_AND [simp]: "is_flags f \<Longrightarrow> is_flags (f AND g)"
  unfolding is_flags_def PTE_FLAGS_take_bit
  by (metis take_bit_and and.left_idem and.assoc and.commute take_bit_eq_mask)

lemma is_flags_consts [simp]:
  "is_flags PTE_V" "is_flags PTE_R" "is_flags PTE_W" "is_flags PTE_X" "is_flags PTE_U"
  "is_flags PTE_COW" "is_flags 0"
  by (simp_all add: is_flags_def PTE_FLAGS_def const_defs)

lemma is_flags_bit: "is_flags f \<Longrightarrow> bit f n \<Longrightarrow> n < 10"
  by (metis is_flags_def PTE_FLAGS_take_bit bit_take_bit_iff)

lemma PTE2PA_PA2PTE [simp]:
  assumes "pg_aligned pa" and "is_flags f"
  shows "PTE2PA (PA2PTE pa OR f) = pa"
proof -
  have "\<not> bit f n" if "10 \<le> n" for n
    using is_flags_bit [OF assms(2), of n] that by auto
  then have "PTE2PA (PA2PTE pa OR f) = PGROUNDDOWN pa"
    by (auto simp: PTE2PA_def PA2PTE_def PGROUNDDOWN_bits bit_eq_iff bit_simps)
  with assms(1) show ?thesis by simp
qed

lemma PTE_FLAGS_PA2PTE [simp]:
  assumes "is_flags f"
  shows "PTE_FLAGS (PA2PTE pa OR f) = f"
proof (rule bit_eqI)
  fix n
  show "bit (PTE_FLAGS (PA2PTE pa OR f)) n \<longleftrightarrow> bit f n"
    using is_flags_bit [OF assms, of n]
    by (auto simp: PTE_FLAGS_take_bit PA2PTE_def bit_simps)
qed

text \<open>Each C test \<open>x & FLAG\<close> looks at one bit.\<close>

lemma flag_bit [flag_simps]:
  "x AND PTE_V = 0 \<longleftrightarrow> \<not> bit x 0"
  "x AND PTE_R = 0 \<longleftrightarrow> \<not> bit x 1"
  "x AND PTE_W = 0 \<longleftrightarrow> \<not> bit x 2"
  "x AND PTE_X = 0 \<longleftrightarrow> \<not> bit x 3"
  "x AND PTE_U = 0 \<longleftrightarrow> \<not> bit x 4"
  "x AND PTE_COW = 0 \<longleftrightarrow> \<not> bit x 8"
  using and_exp_eq_0_iff_not_bit [of x 0] and_exp_eq_0_iff_not_bit [of x 1]
    and_exp_eq_0_iff_not_bit [of x 2] and_exp_eq_0_iff_not_bit [of x 3]
    and_exp_eq_0_iff_not_bit [of x 4] and_exp_eq_0_iff_not_bit [of x 8]
  by (simp_all add: const_defs)

lemma flag_powers:
  "PTE_V = 2 ^ 0" "PTE_R = 2 ^ 1" "PTE_W = 2 ^ 2" "PTE_X = 2 ^ 3" "PTE_U = 2 ^ 4"
  "PTE_COW = 2 ^ 8"
  by (simp_all add: const_defs)

lemma bit_power_u64: "k < 64 \<Longrightarrow> bit (2 ^ k :: u64) n \<longleftrightarrow> n = k"
  by (auto simp: bit_exp_iff)

lemma flag_value_bit [flag_simps]:
  "bit PTE_V n \<longleftrightarrow> n = 0"
  "bit PTE_R n \<longleftrightarrow> n = 1"
  "bit PTE_W n \<longleftrightarrow> n = 2"
  "bit PTE_X n \<longleftrightarrow> n = 3"
  "bit PTE_U n \<longleftrightarrow> n = 4"
  "bit PTE_COW n \<longleftrightarrow> n = 8"
  unfolding flag_powers by (subst bit_power_u64; simp)+

lemma bit_PTE_FLAGS [flag_simps]: "bit (PTE_FLAGS x) n \<longleftrightarrow> n < 10 \<and> bit x n"
  by (simp add: PTE_FLAGS_take_bit bit_take_bit_iff)

lemma bit_PA2PTE_low [flag_simps]: "n < 10 \<Longrightarrow> \<not> bit (PA2PTE pa) n"
  by (simp add: PA2PTE_def bit_simps)

lemma in_region_page:
  assumes "pg_aligned p"
  shows "in_region p 4096 x \<longleftrightarrow> PGROUNDDOWN x = p"
proof -
  obtain k where k: "unat p = k * 4096" using assms by (auto simp: pg_aligned_def)
  have "unat (x - p) < 4096 \<longleftrightarrow> pgno x * 4096 = k * 4096"
    using u64_bound [of x] u64_bound [of p] k
    by (auto simp: unat_sub_if_size word_size)
  then show ?thesis
    by (simp add: in_region_def word_unat_eq_iff unat_PGROUNDDOWN k)
qed

text \<open>
  A page is written as a whole or through 64-bit cells that do not cross its end.
  \<open>same_off_page\<close> says that two memories agree on every other page.
\<close>

definition same_off_page :: "u64 \<Rightarrow> memory \<Rightarrow> memory \<Rightarrow> bool" where
  "same_off_page p m m' \<longleftrightarrow> (\<forall>x. PGROUNDDOWN x \<noteq> p \<longrightarrow> m' x = m x)"

lemma same_off_page_refl [simp]: "same_off_page p m m"
  by (simp add: same_off_page_def)

lemma same_off_page_trans:
  "same_off_page p m m' \<Longrightarrow> same_off_page p m' m'' \<Longrightarrow> same_off_page p m m''"
  by (simp add: same_off_page_def)

lemma PGROUNDDOWN_cell:
  assumes "pgoff a \<le> 4088" and "i < 8"
  shows "PGROUNDDOWN (a + of_nat i) = PGROUNDDOWN a"
proof -
  have "unat a = pgno a * 4096 + pgoff a" by simp
  moreover have "pgno a \<le> 4503599627370495"
    using u64_bound [of a] by simp
  ultimately have "unat a + i < 18446744073709551616"
    using assms by linarith
  then have "unat (a + of_nat i) = unat a + i"
    using assms by (simp add: unat_word_ariths unat_of_nat)
  then have "pgno (a + of_nat i) = pgno a"
    using assms div_add1_eq [of "unat a" i 4096] by simp
  then show ?thesis by (simp add: word_unat_eq_iff unat_PGROUNDDOWN)
qed

lemma ld64_same_off_page:
  assumes "same_off_page p m m'" and "pgoff a \<le> 4088" and "PGROUNDDOWN a \<noteq> p"
  shows "ld64 m' a = ld64 m a"
  using assms by (intro ld64_cong) (simp add: same_off_page_def PGROUNDDOWN_cell)

lemma same_off_page_st64:
  assumes "pgoff a \<le> 4088"
  shows "same_off_page (PGROUNDDOWN a) m (st64 m a v)"
proof -
  have "\<not> in_region a 8 x" if "PGROUNDDOWN x \<noteq> PGROUNDDOWN a" for x
    using that PGROUNDDOWN_cell [OF assms] by (auto elim: in_regionE)
  then show ?thesis by (simp add: same_off_page_def st64_other)
qed

declare pgno_def [simp del]

end
