(* ===== verification/Kalloc.thy ===== *)
theory Kalloc
  imports Kstring Riscv
begin

text \<open>
  \<^verbatim>\<open>kernel/kalloc.c\<close>: the physical page allocator with the per-page reference counts that
  copy-on-write needs. The free list is the linked list of the source: \<open>freelist\<close> is a
  pointer, and the first eight bytes of a free page hold the next one, in the same byte
  memory that page tables and user pages live in. \<open>kmem.lock\<close> and \<open>page_ref.lock\<close> are
  leaf locks, and \<open>kalloc\<close> and \<open>kfree\<close> take one after the other. Between the two critical sections
  the page is on no list and has no other user, so the pair is one step here; the lock
  protocol itself is the subject of another theory.
\<close>

section \<open>State and operations\<close>

text \<open>
  \<open>page_ref_count\<close> is \<open>page_ref.count\<close>, indexed by \<open>pa >> 12\<close>. It stays a mathematical
  integer: a page-table page holds 512 entries and there are fewer than \<open>2 ^ 15\<close> pages, so
  no count reaches \<open>2 ^ 31\<close>. \<open>kend\<close> is the linker symbol \<open>end\<close>; nothing writes it. An
  index past the end of the array is \<^const>\<open>Undef\<close>.
\<close>

record kmem =
  mem :: memory
  freelist :: u64
  page_ref_count :: "u64 \<Rightarrow> int"
  kend :: u64

definition NPGREF :: u64 where
  "NPGREF = drop_bit 12 (PGROUNDUP PHYSTOP)"

definition decrease_pgreference :: "u64 \<Rightarrow> 'a kmem_scheme \<Rightarrow> (bool \<times> 'a kmem_scheme) res" where
  "decrease_pgreference pa s =
     (let i = drop_bit 12 pa; count = page_ref_count s in
      if i \<ge> NPGREF then Undef
      else if count i \<le> 0 then Panic ''decrease_pgreference''
      else let count' = count(i := count i - 1) in
        if count' i > 0 then Ret (False, s\<lparr>page_ref_count := count'\<rparr>)
        else Ret (True, s\<lparr>page_ref_count := count'\<rparr>))"

definition increase_pgreference :: "u64 \<Rightarrow> 'a kmem_scheme \<Rightarrow> 'a kmem_scheme res" where
  "increase_pgreference pa s =
     (let i = drop_bit 12 pa; count = page_ref_count s in
      if i \<ge> NPGREF then Undef
      else if count i < 0 then Panic ''increase_pgreference''
      else Ret (s\<lparr>page_ref_count := count(i := count i + 1)\<rparr>))"

definition kfree :: "u64 \<Rightarrow> 'a kmem_scheme \<Rightarrow> 'a kmem_scheme res" where
  "kfree pa s =
     (if pa mod PGSIZE \<noteq> 0 \<or> pa < kend s \<or> pa \<ge> PHYSTOP then Panic ''kfree''
      else bindR (decrease_pgreference pa s) (\<lambda>(last, s).
        if \<not> last then Ret s
        else let s = s\<lparr>mem := memset (mem s) pa 1 (unat PGSIZE)\<rparr>;
                 s = s\<lparr>mem := st64 (mem s) pa (freelist s)\<rparr>
             in Ret (s\<lparr>freelist := pa\<rparr>)))"

definition kalloc :: "'a kmem_scheme \<Rightarrow> (u64 \<times> 'a kmem_scheme) res" where
  "kalloc s =
     (let r = freelist s in
      if r \<noteq> 0 then
        let s = s\<lparr>freelist := ld64 (mem s) r\<rparr>;
            s = s\<lparr>mem := memset (mem s) r 5 (unat PGSIZE)\<rparr>
        in bindR (increase_pgreference r s) (\<lambda>s. Ret (r, s))
      else Ret (r, s))"

lemma kfree_Ret_less: "kfree pa s = Ret s' \<Longrightarrow> pa < PHYSTOP"
  by (auto simp: kfree_def split: if_splits)

text \<open>
  \<open>for(; p + PGSIZE <= pa_end; p += PGSIZE)\<close>. The pointer cannot wrap around, because
  \<open>kfree\<close> panics on an address at or above \<^const>\<open>PHYSTOP\<close>.
\<close>

function freerange_loop :: "u64 \<Rightarrow> u64 \<Rightarrow> 'a kmem_scheme \<Rightarrow> 'a kmem_scheme res" where
  "freerange_loop p pa_end s =
     (if p + PGSIZE \<le> pa_end
      then bindR (increase_pgreference p s) (\<lambda>s.
           bindR (kfree p s) (\<lambda>s. freerange_loop (p + PGSIZE) pa_end s))
      else Ret s)"
  by pat_completeness auto
termination
proof (relation "measure (\<lambda>(p, pa_end, s). 2 ^ 64 - unat p)", goal_cases)
  case (2 p pa_end s s' s'')
  then have "p < PHYSTOP" by (blast dest: kfree_Ret_less)
  then have "unat p < 0x88000000" by (simp add: word_less_nat_alt PHYSTOP_def)
  then show ?case by (simp add: PGSIZE_def unat_word_ariths)
qed simp

declare freerange_loop.simps [simp del]

definition freerange :: "u64 \<Rightarrow> u64 \<Rightarrow> 'a kmem_scheme \<Rightarrow> 'a kmem_scheme res" where
  "freerange pa_start pa_end s = freerange_loop (PGROUNDUP pa_start) pa_end s"

definition kinit :: "'a kmem_scheme \<Rightarrow> 'a kmem_scheme res" where
  "kinit s =
     freerange (kend s) PHYSTOP
       (s\<lparr>page_ref_count := (\<lambda>i. if i < NPGREF then 0 else page_ref_count s i)\<rparr>)"

section \<open>The free list and the allocator invariant\<close>

text \<open>\<open>chain m p qs\<close>: following the links from \<open>p\<close> visits the pages \<open>qs\<close> and ends at 0.\<close>

fun chain :: "memory \<Rightarrow> u64 \<Rightarrow> u64 list \<Rightarrow> bool" where
  "chain m p [] \<longleftrightarrow> p = 0"
| "chain m p (q # qs) \<longleftrightarrow> p = q \<and> q \<noteq> 0 \<and> chain m (ld64 m q) qs"

text \<open>The pages the allocator manages, and the number of references to one.\<close>

definition kpage :: "'a kmem_scheme \<Rightarrow> u64 \<Rightarrow> bool" where
  "kpage s p \<longleftrightarrow> pg_aligned p \<and> kend s \<le> p \<and> p < PHYSTOP"

definition refs :: "'a kmem_scheme \<Rightarrow> u64 \<Rightarrow> int" where
  "refs s p = page_ref_count s (drop_bit 12 p)"

definition kmem_inv :: "'a kmem_scheme \<Rightarrow> u64 list \<Rightarrow> bool" where
  "kmem_inv s fl \<longleftrightarrow>
     KERNBASE \<le> kend s \<and> (\<forall>i < NPGREF. 0 \<le> page_ref_count s i) \<and>
     chain (mem s) (freelist s) fl \<and> distinct fl \<and>
     (\<forall>p. p \<in> set fl \<longleftrightarrow> kpage s p \<and> refs s p = 0)"

lemma chain_cong:
  "(\<And>q. q \<in> set qs \<Longrightarrow> ld64 m' q = ld64 m q) \<Longrightarrow> chain m' p qs \<longleftrightarrow> chain m p qs"
  by (induction qs arbitrary: p) auto

lemma chain_same_off_page:
  assumes "same_off_page p m m'" and "\<And>q. q \<in> set qs \<Longrightarrow> pg_aligned q \<and> q \<noteq> p"
  shows "chain m' r qs \<longleftrightarrow> chain m r qs"
proof (rule chain_cong)
  fix q assume "q \<in> set qs"
  with assms(2) have "pg_aligned q" and "q \<noteq> p" by auto
  then show "ld64 m' q = ld64 m q"
    by (intro ld64_same_off_page [OF assms(1)]) (auto simp: pg_aligned_def)
qed

lemma NPGREF_eq: "NPGREF = 0x88000"
proof -
  have "pg_aligned PHYSTOP" by (simp add: pg_aligned_def PHYSTOP_def)
  then show ?thesis by (simp add: NPGREF_def PHYSTOP_def)
qed

lemma kpage_index: "kpage s p \<Longrightarrow> drop_bit 12 p < NPGREF"
  by (auto simp: kpage_def NPGREF_eq PHYSTOP_def word_less_nat_alt unat_drop_bit_u64)

lemma pg_aligned_index_inj:
  assumes "pg_aligned p" and "pg_aligned q" and "drop_bit 12 p = drop_bit 12 q"
  shows "p = q"
proof -
  have "PGROUNDDOWN p = PGROUNDDOWN q" using assms(3) by (simp add: PGROUNDDOWN_bits)
  with assms(1,2) show ?thesis by simp
qed

lemma kpage_not_0: "KERNBASE \<le> kend s \<Longrightarrow> kpage s p \<Longrightarrow> p \<noteq> 0"
  by (auto simp: kpage_def KERNBASE_def)

lemma same_off_page_memset:
  assumes "pg_aligned p" and "n \<le> 4096"
  shows "same_off_page p m (memset m p c n)"
proof -
  have "\<not> in_region p n x" if "PGROUNDDOWN x \<noteq> p" for x
    using that assms in_region_page [of p x] by (auto simp: in_region_def)
  then show ?thesis using assms by (simp add: same_off_page_def memset_eq)
qed

lemma memset_page:
  assumes "pg_aligned p" and "PGROUNDDOWN x = p"
  shows "memset m p c 4096 x = c"
  using assms by (simp add: memset_eq in_region_page)

section \<open>Allocation and release\<close>

lemma kmem_invD:
  assumes "kmem_inv s fl"
  shows "KERNBASE \<le> kend s" and "kpage s p \<Longrightarrow> 0 \<le> refs s p" and "chain (mem s) (freelist s) fl"
    and "distinct fl" and "q \<in> set fl \<longleftrightarrow> kpage s q \<and> refs s q = 0"
  using assms by (auto simp: kmem_inv_def refs_def kpage_index)

lemma refs_update:
  assumes "pg_aligned p" and "pg_aligned q"
  shows "refs (s\<lparr>page_ref_count := (page_ref_count s)(drop_bit 12 p := v)\<rparr>) q =
    (if q = p then v else refs s q)"
  using assms pg_aligned_index_inj [of q p] by (auto simp: refs_def)

lemma unat_PGSIZE [simp]: "unat PGSIZE = 4096"
  by (simp add: PGSIZE_def)

text \<open>What \<open>kalloc\<close> leaves behind when the free list starts with \<open>q\<close>.\<close>

definition alloc_state :: "u64 \<Rightarrow> 'a kmem_scheme \<Rightarrow> 'a kmem_scheme" where
  "alloc_state q s = s\<lparr>freelist := ld64 (mem s) q, mem := memset (mem s) q 5 4096,
     page_ref_count := (page_ref_count s)(drop_bit 12 q := 1)\<rparr>"

definition free_state :: "u64 \<Rightarrow> 'a kmem_scheme \<Rightarrow> 'a kmem_scheme" where
  "free_state q s = s\<lparr>mem := st64 (memset (mem s) q 1 4096) q (freelist s), freelist := q,
     page_ref_count := (page_ref_count s)(drop_bit 12 q := 0)\<rparr>"

definition set_refs :: "u64 \<Rightarrow> int \<Rightarrow> 'a kmem_scheme \<Rightarrow> 'a kmem_scheme" where
  "set_refs q v s = s\<lparr>page_ref_count := (page_ref_count s)(drop_bit 12 q := v)\<rparr>"

lemma kend_states [simp]:
  "kend (alloc_state q s) = kend s" "kend (free_state q s) = kend s" "kend (set_refs q v s) = kend s"
  by (simp_all add: alloc_state_def free_state_def set_refs_def)

lemma kpage_states [simp]:
  "kpage (alloc_state q s) p \<longleftrightarrow> kpage s p" "kpage (free_state q s) p \<longleftrightarrow> kpage s p"
  "kpage (set_refs q v s) p \<longleftrightarrow> kpage s p"
  by (simp_all add: kpage_def)

lemma kalloc_Nil: "kmem_inv s [] \<Longrightarrow> kalloc s = Ret (0, s)"
  by (simp add: kalloc_def kmem_inv_def)

lemma kalloc_Cons:
  assumes "kmem_inv s (q # fl)"
  shows "kalloc s = Ret (q, alloc_state q s)"
proof -
  have q: "freelist s = q" "q \<noteq> 0" "kpage s q" "refs s q = 0"
    using assms kmem_invD(5) [OF assms, of q] by (auto simp: kmem_inv_def)
  then have "\<not> drop_bit 12 q \<ge> NPGREF" by (simp add: kpage_index not_le)
  with q show ?thesis
    by (simp add: kalloc_def increase_pgreference_def alloc_state_def refs_def Let_def)
qed

lemma kmem_inv_alloc_state:
  assumes inv: "kmem_inv s (q # fl)"
  shows "kmem_inv (alloc_state q s) fl"
proof -
  note d = kmem_invD [OF inv]
  have q: "kpage s q" "pg_aligned q" using d(5) [of q] by (auto simp: kpage_def)
  have fl: "pg_aligned p \<and> p \<noteq> q" if "p \<in> set fl" for p
    using d(4) d(5) [of p] that by (auto simp: kpage_def)
  have "chain (mem (alloc_state q s)) (ld64 (mem s) q) fl \<longleftrightarrow> chain (mem s) (ld64 (mem s) q) fl"
    using fl q by (intro chain_same_off_page [of q]) (auto simp: alloc_state_def same_off_page_memset)
  moreover have "p \<in> set fl \<longleftrightarrow> kpage s p \<and> refs (alloc_state q s) p = 0" for p
  proof (cases "pg_aligned p")
    case True
    with q d(4) d(5) [of p] show ?thesis
      using pg_aligned_index_inj [of p q] by (auto simp: alloc_state_def refs_def)
  next
    case False
    with fl show ?thesis by (auto simp: kpage_def)
  qed
  ultimately show ?thesis
    using inv by (auto simp: kmem_inv_def alloc_state_def kpage_def)
qed

text \<open>
  C14 Allocation. With a non-empty free list \<open>kalloc\<close> returns its first page: a page in the
  managed range that had no reference and now has exactly one, filled with the junk byte 5;
  no other page changes in content or count, and the invariant holds for the rest of the
  list. With an empty list it returns the null pointer and changes nothing.
\<close>

theorem kalloc_correct:
  assumes "kmem_inv s fl"
  shows "case fl of
      [] \<Rightarrow> kalloc s = Ret (0, s)
    | q # fl' \<Rightarrow> \<exists>s'. kalloc s = Ret (q, s') \<and> kmem_inv s' fl' \<and> kpage s q \<and> q \<noteq> 0 \<and>
        refs s q = 0 \<and> refs s' q = 1 \<and>
        (\<forall>p. kpage s p \<and> p \<noteq> q \<longrightarrow> refs s' p = refs s p) \<and>
        (\<forall>x. PGROUNDDOWN x = q \<longrightarrow> mem s' x = 5) \<and> same_off_page q (mem s) (mem s')"
proof (cases fl)
  case Nil
  with assms show ?thesis by (simp add: kalloc_Nil)
next
  case (Cons q fl')
  with assms have inv: "kmem_inv s (q # fl')" by simp
  have q: "kpage s q" "refs s q = 0" "q \<noteq> 0"
    using kmem_invD(5) [OF inv, of q] kmem_invD(3) [OF inv] by auto
  then have "pg_aligned q" by (simp add: kpage_def)
  have "refs (alloc_state q s) p = refs s p" if "kpage s p" "p \<noteq> q" for p
    using that \<open>pg_aligned q\<close> pg_aligned_index_inj [of p q]
    by (auto simp: alloc_state_def refs_def kpage_def)
  moreover have "refs (alloc_state q s) q = 1" by (simp add: alloc_state_def refs_def)
  moreover have "same_off_page q (mem s) (mem (alloc_state q s))"
    using \<open>pg_aligned q\<close> by (simp add: alloc_state_def same_off_page_memset)
  moreover have "mem (alloc_state q s) x = 5" if "PGROUNDDOWN x = q" for x
    using \<open>pg_aligned q\<close> that by (simp add: alloc_state_def memset_page)
  ultimately show ?thesis
    using Cons q kalloc_Cons [OF inv] kmem_inv_alloc_state [OF inv] by auto
qed

text \<open>A machine with one managed page, the last one of RAM, on the free list.\<close>

definition kmem_one :: kmem where
  "kmem_one = \<lparr>mem = (\<lambda>_. 0), freelist = 0x87FFF000, page_ref_count = (\<lambda>_. 0), kend = 0x87FFF000\<rparr>"

lemma kpage_kmem_one: "kpage kmem_one p \<longleftrightarrow> p = 0x87FFF000"
proof
  assume "kpage kmem_one p"
  then have "pgoff p = 0" "0x87FFF000 \<le> unat p" "unat p < 0x88000000"
    by (auto simp: kpage_def kmem_one_def pg_aligned_def PHYSTOP_def word_le_nat_alt word_less_nat_alt)
  then have "unat p = 0x87FFF000" by (auto elim!: dvdE simp: mod_eq_0_iff_dvd)
  then show "p = 0x87FFF000" by (simp add: word_unat_eq_iff)
qed (simp add: kpage_def kmem_one_def pg_aligned_def PHYSTOP_def)

lemma ld64_zero: "ld64 (\<lambda>_. 0) a = 0"
  by (rule bit_eqI) (simp add: bit_ld64)

lemma kmem_inv_kmem_one: "kmem_inv kmem_one [0x87FFF000]"
  by (simp add: kmem_inv_def kpage_kmem_one)
    (auto simp: kmem_one_def refs_def KERNBASE_def ld64_zero)

theorem kalloc_correct_witness:
  "kmem_inv kmem_one [0x87FFF000] \<and>
   (\<exists>s'. kalloc kmem_one = Ret (0x87FFF000, s') \<and> refs s' 0x87FFF000 = 1 \<and> kmem_inv s' [])"
  using kalloc_correct [OF kmem_inv_kmem_one] kmem_inv_kmem_one by auto

lemma kfree_eq:
  assumes "kpage s pa \<Longrightarrow> 0 \<le> refs s pa"
  shows "kfree pa s =
    (if \<not> kpage s pa then Panic ''kfree''
     else if refs s pa = 0 then Panic ''decrease_pgreference''
     else if refs s pa = 1 then Ret (free_state pa s)
     else Ret (set_refs pa (refs s pa - 1) s))"
proof (cases "kpage s pa")
  case True
  then have "\<not> drop_bit 12 pa \<ge> NPGREF" by (simp add: kpage_index not_le)
  with True assms show ?thesis
    by (auto simp: kfree_def decrease_pgreference_def refs_def free_state_def set_refs_def
        kpage_def pg_aligned_iff_mod Let_def)
next
  case False
  then show ?thesis
    by (auto simp: kfree_def kpage_def pg_aligned_iff_mod not_less not_le)
qed

lemma kmem_inv_free_state:
  assumes inv: "kmem_inv s fl" and "kpage s pa" and "refs s pa = 1"
  shows "kmem_inv (free_state pa s) (pa # fl)"
proof -
  note d = kmem_invD [OF inv]
  have pa: "pg_aligned pa" "pa \<noteq> 0" "pa \<notin> set fl"
    using assms(2,3) d(1) d(5) [of pa] by (auto simp: kpage_def KERNBASE_def)
  have fl: "pg_aligned p \<and> p \<noteq> pa" if "p \<in> set fl" for p
    using d(5) [of p] that pa by (auto simp: kpage_def)
  have "same_off_page pa (memset (mem s) pa 1 4096) (mem (free_state pa s))"
    using same_off_page_st64 [of pa] pa by (simp add: free_state_def pg_aligned_def)
  with pa have "same_off_page pa (mem s) (mem (free_state pa s))"
    by (blast intro: same_off_page_trans same_off_page_memset order_refl)
  then have "chain (mem (free_state pa s)) (freelist s) fl"
    using fl d(3) by (simp add: chain_same_off_page)
  moreover have "ld64 (mem (free_state pa s)) pa = freelist s" by (simp add: free_state_def)
  moreover have "p \<in> set (pa # fl) \<longleftrightarrow> kpage s p \<and> refs (free_state pa s) p = 0" for p
    using pa assms(2) d(5) [of p] pg_aligned_index_inj [of p pa]
    by (auto simp: free_state_def refs_def kpage_def)
  ultimately show ?thesis
    using inv pa by (auto simp: kmem_inv_def free_state_def kpage_def)
qed

lemma kmem_inv_set_refs:
  assumes inv: "kmem_inv s fl" and "pg_aligned pa" and "refs s pa \<noteq> 0" and "0 < v"
  shows "kmem_inv (set_refs pa v s) fl"
proof -
  have "p \<in> set fl \<longleftrightarrow> kpage s p \<and> refs (set_refs pa v s) p = 0" for p
    using assms kmem_invD(5) [OF inv, of p] pg_aligned_index_inj [of p pa]
    by (auto simp: set_refs_def refs_def kpage_def)
  with inv assms(4) show ?thesis
    by (auto simp: kmem_inv_def set_refs_def kpage_def)
qed

lemma refs_states:
  assumes "pg_aligned p" and "pg_aligned q"
  shows "refs (alloc_state p s) q = (if q = p then 1 else refs s q)"
    and "refs (free_state p s) q = (if q = p then 0 else refs s q)"
    and "refs (set_refs p v s) q = (if q = p then v else refs s q)"
  using assms pg_aligned_index_inj [of q p]
  by (auto simp: alloc_state_def free_state_def set_refs_def refs_def)

lemma same_off_page_free_state:
  assumes "pg_aligned p"
  shows "same_off_page p (mem s) (mem (free_state p s))"
proof -
  have "same_off_page p (memset (mem s) p 1 4096) (mem (free_state p s))"
    using same_off_page_st64 [of p] assms by (simp add: free_state_def pg_aligned_def)
  with assms show ?thesis
    by (blast intro: same_off_page_trans same_off_page_memset order_refl)
qed

lemma kfree_spec:
  assumes "kmem_inv s fl"
  shows "if \<not> kpage s pa then kfree pa s = Panic ''kfree''
    else if refs s pa = 0 then kfree pa s = Panic ''decrease_pgreference''
    else \<exists>s'. kfree pa s = Ret s' \<and> refs s' pa = refs s pa - 1 \<and>
      (\<forall>p. kpage s p \<and> p \<noteq> pa \<longrightarrow> refs s' p = refs s p) \<and>
      (if refs s pa = 1
       then kmem_inv s' (pa # fl) \<and> same_off_page pa (mem s) (mem s')
       else kmem_inv s' fl \<and> mem s' = mem s)"
proof (cases "kpage s pa \<and> refs s pa \<noteq> 0")
  case True
  then have pos: "0 < refs s pa" and al: "pg_aligned pa"
    using kmem_invD(2) [OF assms, of pa] by (auto simp: kpage_def)
  have kp: "pg_aligned p" if "kpage s p" for p using that by (simp add: kpage_def)
  note eq = kfree_eq [OF kmem_invD(2) [OF assms], of pa]
  show ?thesis
  proof (cases "refs s pa = 1")
    case one: True
    with True al eq show ?thesis
      using kmem_inv_free_state [OF assms] same_off_page_free_state [OF al] kp
      by (auto simp: refs_states)
  next
    case False
    with True al eq pos show ?thesis
      using kmem_inv_set_refs [OF assms al, of "refs s pa - 1"] kp
      by (auto simp: refs_states) (auto simp: set_refs_def)
  qed
next
  case False
  then show ?thesis using kfree_eq [OF kmem_invD(2) [OF assms], of pa] by auto
qed

text \<open>
  C13 Release, on every branch. Freeing an address outside the managed pages panics;
  freeing a page without a reference (a double free) panics; with several references the
  count drops by one and neither memory nor the free list changes; with the last reference
  the page goes to the front of the free list. Content and count of other pages stay.
\<close>

theorem kfree_correct:
  assumes "kmem_inv s fl"
  shows "if \<not> kpage s pa then kfree pa s = Panic ''kfree''
    else if refs s pa = 0 then kfree pa s = Panic ''decrease_pgreference''
    else \<exists>s'. kfree pa s = Ret s' \<and> refs s' pa = refs s pa - 1 \<and>
      (\<forall>p. kpage s p \<and> p \<noteq> pa \<longrightarrow> refs s' p = refs s p) \<and>
      (if refs s pa = 1
       then kmem_inv s' (pa # fl) \<and> same_off_page pa (mem s) (mem s')
       else kmem_inv s' fl \<and> mem s' = mem s)"
  using assms by (rule kfree_spec)

theorem kfree_correct_witness:
  "kfree 0x87FFF000 kmem_one = Panic ''decrease_pgreference'' \<and>
   kfree 0x1000 kmem_one = Panic ''kfree'' \<and>
   (\<exists>s'. kfree 0x87FFF000 (alloc_state 0x87FFF000 kmem_one) = Ret s' \<and> kmem_inv s' [0x87FFF000])"
proof (intro conjI)
  have al: "pg_aligned 0x87FFF000" by (simp add: pg_aligned_def)
  show "kfree 0x87FFF000 kmem_one = Panic ''decrease_pgreference''"
    using kfree_correct [OF kmem_inv_kmem_one, of "0x87FFF000"]
    by (simp add: kpage_kmem_one) (simp add: kmem_one_def refs_def)
  show "kfree 0x1000 kmem_one = Panic ''kfree''"
    using kfree_correct [OF kmem_inv_kmem_one, of "0x1000"] by (simp add: kpage_kmem_one)
  have "kmem_inv (alloc_state 0x87FFF000 kmem_one) []"
    using kmem_inv_kmem_one by (rule kmem_inv_alloc_state)
  from kfree_correct [OF this, of "0x87FFF000"]
  show "\<exists>s'. kfree 0x87FFF000 (alloc_state 0x87FFF000 kmem_one) = Ret s' \<and> kmem_inv s' [0x87FFF000]"
    using al by (auto simp: kpage_kmem_one refs_states)
qed

lemma increase_pgreference_eq:
  assumes "kpage s p" and "0 \<le> refs s p"
  shows "increase_pgreference p s = Ret (set_refs p (refs s p + 1) s)"
proof -
  have "\<not> drop_bit 12 p \<ge> NPGREF" using kpage_index [OF assms(1)] by (simp add: not_le)
  with assms show ?thesis
    by (simp add: increase_pgreference_def set_refs_def refs_def Let_def)
qed

section \<open>Initialisation\<close>

lemma le_round_up: "n \<le> (n + 4095) div 4096 * (4096 :: nat)"
  using div_mult_mod_eq [of "n + 4095" 4096] mod_less_divisor [of 4096 "n + 4095"] by linarith

text \<open>The invariant of the loop of \<open>freerange\<close>: the pages below \<open>p\<close> are on the free list.\<close>

definition freed_below :: "u64 \<Rightarrow> 'a kmem_scheme \<Rightarrow> u64 list \<Rightarrow> bool" where
  "freed_below p s fl \<longleftrightarrow>
     KERNBASE \<le> kend s \<and> (\<forall>i < NPGREF. page_ref_count s i = 0) \<and>
     chain (mem s) (freelist s) fl \<and> distinct fl \<and>
     (\<forall>q. q \<in> set fl \<longleftrightarrow> kpage s q \<and> q < p)"

lemma free_after_increase:
  assumes "kpage s p" and "refs s p = 0"
  shows "bindR (increase_pgreference p s) (kfree p) = Ret (free_state p s)"
proof -
  have al: "pg_aligned p" using assms(1) by (simp add: kpage_def)
  have "kfree p (set_refs p 1 s) = Ret (free_state p (set_refs p 1 s))"
    using assms al kfree_eq [of "set_refs p 1 s" p] by (simp add: refs_states)
  then show ?thesis
    using assms by (simp add: increase_pgreference_eq) (simp add: free_state_def set_refs_def)
qed

lemma freed_below_step:
  assumes fb: "freed_below p s fl" and kp: "kpage s p"
  shows "freed_below (p + PGSIZE) (free_state p s) (p # fl)"
proof -
  have al: "pg_aligned p" and p: "p \<noteq> 0" "p \<notin> set fl"
    using assms by (auto simp: freed_below_def kpage_def KERNBASE_def)
  have p_bound: "unat p < 0x88000000" using kp by (simp add: kpage_def PHYSTOP_def word_less_nat_alt)
  have fl: "pg_aligned q \<and> q \<noteq> p" if "q \<in> set fl" for q
    using fb that by (auto simp: freed_below_def kpage_def)
  have "chain (mem s) (freelist s) fl" using fb by (simp add: freed_below_def)
  then have "chain (mem (free_state p s)) (freelist s) fl"
    using fl by (subst chain_same_off_page [OF same_off_page_free_state [OF al]])
  moreover have "ld64 (mem (free_state p s)) p = freelist s" by (simp add: free_state_def)
  moreover have "q < p + PGSIZE \<longleftrightarrow> q = p \<or> q < p" if "kpage s q" for q
  proof -
    have "unat (p + PGSIZE) = unat p + 4096"
      using p_bound by (simp add: PGSIZE_def unat_word_ariths)
    moreover obtain i where "unat p = i * 4096" using al by (auto simp: pg_aligned_def)
    moreover have "pg_aligned q" using that by (simp add: kpage_def)
    then obtain j where "unat q = j * 4096" by (auto simp: pg_aligned_def)
    ultimately show ?thesis
      by (auto simp: word_less_nat_alt word_unat_eq_iff)
  qed
  ultimately show ?thesis
    using fb p kp by (auto simp: freed_below_def free_state_def kpage_def)
qed

lemma freerange_loop_frees:
  assumes "freed_below p s fl" and "pg_aligned p" and "kend s \<le> p" and "p \<le> PHYSTOP"
  shows "\<exists>s' fl'. freerange_loop p PHYSTOP s = Ret s' \<and> freed_below PHYSTOP s' fl' \<and>
    kend s' = kend s"
  using assms
proof (induction "0x88000000 - unat p" arbitrary: p s fl rule: less_induct)
  case less
  have p_le: "unat p \<le> 0x88000000"
    using less.prems(4) by (simp add: word_le_nat_alt PHYSTOP_def)
  then have add: "unat (p + PGSIZE) = unat p + 4096"
    by (simp add: PGSIZE_def unat_word_ariths)
  obtain k where k: "unat p = k * 4096" using less.prems(2) by (auto simp: pg_aligned_def)
  show ?case
  proof (cases "p = PHYSTOP")
    case True
    then have "\<not> p + PGSIZE \<le> PHYSTOP" by (simp add: PHYSTOP_def PGSIZE_def)
    with True less.prems show ?thesis by (subst freerange_loop.simps) auto
  next
    case False
    then have lt: "unat p < 0x88000000"
      using p_le by (auto simp: word_unat_eq_iff PHYSTOP_def)
    have kp: "kpage s p" using less.prems lt by (simp add: kpage_def word_less_nat_alt PHYSTOP_def)
    have zero: "refs s p = 0"
      using less.prems(1) kpage_index [OF kp] by (simp add: freed_below_def refs_def)
    have le: "p + PGSIZE \<le> PHYSTOP"
      using lt k add by (simp add: word_le_nat_alt PHYSTOP_def)
    then have step: "freerange_loop p PHYSTOP s =
        freerange_loop (p + PGSIZE) PHYSTOP (free_state p s)"
      using free_after_increase [OF kp zero]
      by (subst freerange_loop.simps) (auto simp: bindR_assoc [symmetric])
    have "\<exists>s' fl'. freerange_loop (p + PGSIZE) PHYSTOP (free_state p s) = Ret s' \<and>
        freed_below PHYSTOP s' fl' \<and> kend s' = kend (free_state p s)"
    proof (rule less.hyps)
      show "0x88000000 - unat (p + PGSIZE) < 0x88000000 - unat p" using add lt by simp
      show "freed_below (p + PGSIZE) (free_state p s) (p # fl)"
        using less.prems(1) kp by (rule freed_below_step)
      show "pg_aligned (p + PGSIZE)" using add k by (simp add: pg_aligned_def)
      show "kend (free_state p s) \<le> p + PGSIZE"
        using less.prems(3) add by (simp add: free_state_def word_le_nat_alt)
    qed (rule le)
    with step show ?thesis by simp
  qed
qed

text \<open>
  C37 Boot. For every kernel image that ends inside RAM, \<open>kinit\<close> returns (its loop
  terminates without a panic) and establishes the invariant, with every managed page free.
\<close>

theorem kinit_correct:
  assumes "KERNBASE \<le> kend s" and "kend s \<le> PHYSTOP" and "freelist s = 0"
  shows "\<exists>s' fl. kinit s = Ret s' \<and> kmem_inv s' fl \<and> kend s' = kend s \<and>
    set fl = {p. kpage s p}"
proof -
  let ?s = "s\<lparr>page_ref_count := (\<lambda>i. if i < NPGREF then 0 else page_ref_count s i)\<rparr>"
  let ?p = "PGROUNDUP (kend s)"
  have b: "unat (kend s) \<le> 0x88000000" using assms(2) by (simp add: word_le_nat_alt PHYSTOP_def)
  have up: "unat ?p = (unat (kend s) + 4095) div 4096 * 4096"
    using b by (intro unat_PGROUNDUP) simp
  have ge: "unat (kend s) \<le> unat ?p" using up le_round_up by simp
  have "(unat (kend s) + 4095) div 4096 \<le> (0x88000000 + 4095) div 4096"
    using b by (intro div_le_mono) simp
  with up have le: "unat ?p \<le> 0x88000000" by simp
  have none: "\<not> (kpage ?s q \<and> q < ?p)" for q
  proof
    assume "kpage ?s q \<and> q < ?p"
    then obtain j where j: "unat q = j * 4096" "unat (kend s) \<le> unat q" "unat q < unat ?p"
      by (auto simp: kpage_def pg_aligned_def word_le_nat_alt word_less_nat_alt)
    then have "(unat (kend s) + 4095) div 4096 \<le> (j * 4096 + 4095) div 4096"
      by (intro div_le_mono) simp
    then show False using j up by simp
  qed
  have "freed_below ?p ?s []" using assms none by (auto simp: freed_below_def)
  moreover have "pg_aligned ?p" using up by (simp add: pg_aligned_def)
  moreover have "kend ?s \<le> ?p" using ge by (simp add: word_le_nat_alt)
  moreover have "?p \<le> PHYSTOP" using le by (simp add: word_le_nat_alt PHYSTOP_def)
  ultimately obtain s' fl where "freerange_loop ?p PHYSTOP ?s = Ret s'"
    and fb: "freed_below PHYSTOP s' fl" and ke: "kend s' = kend s"
    using freerange_loop_frees by fastforce
  then have "kinit s = Ret s'" by (simp add: kinit_def freerange_def)
  moreover have "kmem_inv s' fl"
    using fb by (auto simp: freed_below_def kmem_inv_def refs_def kpage_index) (auto simp: kpage_def)
  moreover have "set fl = {p. kpage s p}"
    using fb ke by (auto simp: freed_below_def kpage_def)
  ultimately show ?thesis using ke by blast
qed

theorem kinit_correct_witness:
  "\<exists>s' fl. kinit (kmem_one\<lparr>freelist := 0\<rparr>) = Ret s' \<and> kmem_inv s' fl \<and> set fl = {0x87FFF000}"
proof -
  have "KERNBASE \<le> kend (kmem_one\<lparr>freelist := 0\<rparr>)" "kend (kmem_one\<lparr>freelist := 0\<rparr>) \<le> PHYSTOP"
    "freelist (kmem_one\<lparr>freelist := 0\<rparr>) = 0"
    by (simp_all add: kmem_one_def KERNBASE_def PHYSTOP_def)
  moreover have "kpage (kmem_one\<lparr>freelist := 0\<rparr>) p \<longleftrightarrow> p = 0x87FFF000" for p
    using kpage_kmem_one [of p] by (simp add: kpage_def)
  ultimately show ?thesis using kinit_correct [of "kmem_one\<lparr>freelist := 0\<rparr>"] by auto
qed

section \<open>The contract clients rely on\<close>

text \<open>
  What \<^verbatim>\<open>vm.c\<close>, \<^verbatim>\<open>proc.c\<close> and \<^verbatim>\<open>pipe.c\<close> need of the allocator, without the free list: a page
  has a count, allocation returns a page nobody refers to, sharing and freeing move the
  count by one, and none of the operations touches the bytes of another referenced page.
\<close>

locale page_allocator =
  fixes inv :: "'s \<Rightarrow> bool"
    and page :: "'s \<Rightarrow> u64 \<Rightarrow> bool"
    and count :: "'s \<Rightarrow> u64 \<Rightarrow> int"
    and bytes :: "'s \<Rightarrow> memory"
    and alloc :: "'s \<Rightarrow> (u64 \<times> 's) res"
    and share :: "u64 \<Rightarrow> 's \<Rightarrow> 's res"
    and free :: "u64 \<Rightarrow> 's \<Rightarrow> 's res"
  assumes alloc_returns: "inv s \<Longrightarrow> \<exists>p s'. alloc s = Ret (p, s')"
    and alloc_null: "inv s \<Longrightarrow> alloc s = Ret (0, s') \<Longrightarrow> s' = s"
    and alloc_page: "inv s \<Longrightarrow> alloc s = Ret (p, s') \<Longrightarrow> p \<noteq> 0 \<Longrightarrow>
      inv s' \<and> page s p \<and> count s p = 0 \<and> count s' p = 1 \<and> page s' = page s"
    and alloc_frame: "inv s \<Longrightarrow> alloc s = Ret (p, s') \<Longrightarrow> p \<noteq> 0 \<Longrightarrow>
      same_off_page p (bytes s) (bytes s') \<and> (\<forall>q. page s q \<longrightarrow> q \<noteq> p \<longrightarrow> count s' q = count s q)"
    and share_page: "inv s \<Longrightarrow> page s p \<Longrightarrow> 0 < count s p \<Longrightarrow> \<exists>s'. share p s = Ret s' \<and>
      inv s' \<and> page s' = page s \<and> bytes s' = bytes s \<and> count s' p = count s p + 1 \<and>
      (\<forall>q. page s q \<longrightarrow> q \<noteq> p \<longrightarrow> count s' q = count s q)"
    and free_page: "inv s \<Longrightarrow> page s p \<Longrightarrow> 0 < count s p \<Longrightarrow> \<exists>s'. free p s = Ret s' \<and>
      inv s' \<and> page s' = page s \<and> count s' p = count s p - 1 \<and>
      same_off_page p (bytes s) (bytes s') \<and> (1 < count s p \<longrightarrow> bytes s' = bytes s) \<and>
      (\<forall>q. page s q \<longrightarrow> q \<noteq> p \<longrightarrow> count s' q = count s q)"
begin

lemma alloc_fresh:
  assumes "inv s" and "alloc s = Ret (p, s')" and "p \<noteq> 0" and "0 < count s q"
  shows "q \<noteq> p"
  using alloc_page [OF assms(1-3)] assms(4) by auto

lemma alloc_keeps_page:
  assumes "inv s" and "alloc s = Ret (p, s')" and "p \<noteq> 0" and "0 < count s (PGROUNDDOWN x)"
  shows "bytes s' x = bytes s x"
  using alloc_fresh [OF assms] alloc_frame [OF assms(1-3)] by (auto simp: same_off_page_def)

lemma share_then_free:
  assumes "inv s" and "page s p" and "0 < count s p" and "page s q"
  shows "\<exists>s'. bindR (share p s) (free p) = Ret s' \<and> inv s' \<and> bytes s' = bytes s \<and> count s' q = count s q"
proof -
  obtain t where t: "share p s = Ret t" "inv t" "page t = page s" "bytes t = bytes s"
      "count t p = count s p + 1" "\<forall>q. page s q \<longrightarrow> q \<noteq> p \<longrightarrow> count t q = count s q"
    using share_page [OF assms(1-3)] by blast
  with assms have "page t p" and "0 < count t p" by simp_all
  then obtain u where "free p t = Ret u" "inv u" "count u p = count t p - 1"
      "1 < count t p \<longrightarrow> bytes u = bytes t" "\<forall>q. page t q \<longrightarrow> q \<noteq> p \<longrightarrow> count u q = count t q"
    using free_page [OF t(2)] by blast
  with t assms show ?thesis by (cases "q = p") auto
qed

lemma alloc_then_free:
  assumes "inv s" and "alloc s = Ret (p, s')" and "p \<noteq> 0" and "page s q"
  shows "\<exists>s''. free p s' = Ret s'' \<and> inv s'' \<and> count s'' q = count s q"
proof -
  note ap = alloc_page [OF assms(1-3)] and af = alloc_frame [OF assms(1-3)]
  obtain u where "free p s' = Ret u" "inv u" "count u p = count s' p - 1"
      "\<forall>q. page s' q \<longrightarrow> q \<noteq> p \<longrightarrow> count u q = count s' q"
    using free_page [of s' p] ap by auto
  with ap af assms(4) show ?thesis by (cases "q = p") auto
qed

end

definition kmem_ok :: "'a kmem_scheme \<Rightarrow> bool" where
  "kmem_ok s \<longleftrightarrow> (\<exists>fl. kmem_inv s fl)"

lemma kalloc_cases:
  assumes "kmem_inv s fl" and "kalloc s = Ret (p, s')"
  obtains "p = 0" "s' = s" "fl = []" | fl' where "fl = p # fl'" "p \<noteq> 0" "s' = alloc_state p s" "kpage s p" "refs s p = 0"
proof (cases fl)
  case Nil
  with assms that(1) show ?thesis by (simp add: kalloc_Nil)
next
  case (Cons q fl')
  then have "kalloc s = Ret (q, alloc_state q s)" using assms(1) by (simp add: kalloc_Cons)
  with Cons assms that(2) [of fl'] show ?thesis
    using kmem_invD(3) [OF assms(1)] kmem_invD(5) [OF assms(1), of q] by auto
qed

interpretation ka: page_allocator kmem_ok kpage refs mem kalloc increase_pgreference kfree
proof (unfold_locales, goal_cases)
  case (1 s)
  then obtain fl where "kmem_inv s fl" by (auto simp: kmem_ok_def)
  then show ?case by (cases fl) (auto simp: kalloc_Nil kalloc_Cons)
next
  case (2 s s')
  then show ?case by (auto simp: kmem_ok_def elim: kalloc_cases)
next
  case (3 s p s')
  then obtain fl where inv: "kmem_inv s fl" by (auto simp: kmem_ok_def)
  from inv 3(2) show ?case
  proof (cases rule: kalloc_cases)
    case (2 fl')
    then show ?thesis
      using inv kmem_inv_alloc_state [of s p fl'] by (auto simp: kmem_ok_def refs_states kpage_def fun_eq_iff)
  qed (use 3 in simp)
next
  case (4 s p s')
  then obtain fl where inv: "kmem_inv s fl" by (auto simp: kmem_ok_def)
  from inv 4(2) show ?case
  proof (cases rule: kalloc_cases)
    case (2 fl')
    then have "pg_aligned p" by (simp add: kpage_def)
    with 2 show ?thesis
      by (auto simp: refs_states kpage_def) (simp add: alloc_state_def same_off_page_memset)
  qed (use 4 in simp)
next
  case (5 s p)
  then obtain fl where inv: "kmem_inv s fl" by (auto simp: kmem_ok_def)
  have al: "pg_aligned p" using 5 by (simp add: kpage_def)
  have "kmem_ok (set_refs p (refs s p + 1) s)"
    using kmem_inv_set_refs [OF inv al, of "refs s p + 1"] 5 by (auto simp: kmem_ok_def)
  moreover have "refs (set_refs p (refs s p + 1) s) q = refs s q" if "kpage s q" "q \<noteq> p" for q
    using that al by (simp add: refs_states kpage_def)
  ultimately show ?case
    using 5 al by (auto simp: increase_pgreference_eq refs_states fun_eq_iff) (simp add: set_refs_def)
next
  case (6 s p)
  then obtain fl where inv: "kmem_inv s fl" by (auto simp: kmem_ok_def)
  from 6 obtain s' where k: "kfree p s = Ret s'" "refs s' p = refs s p - 1"
      "\<forall>q. kpage s q \<and> q \<noteq> p \<longrightarrow> refs s' q = refs s q"
      "if refs s p = 1 then kmem_inv s' (p # fl) \<and> same_off_page p (mem s) (mem s')
       else kmem_inv s' fl \<and> mem s' = mem s"
    using kfree_spec [OF inv, of p] by auto
  moreover have "kpage s' = kpage s"
    using k(1) 6 by (auto simp: kfree_eq fun_eq_iff split: if_splits)
  ultimately show ?case by (auto simp: kmem_ok_def split: if_splits)
qed

end
