(* ===== verification/Vm.thy ===== *)
theory Vm
  imports Kalloc
begin

text \<open>
  \<^verbatim>\<open>kernel/vm.c\<close>: the three-level Sv39 page tables, stored in the byte memory of the
  allocator, and everything the kernel does with them: walking and extending a table,
  mapping and unmapping, growing and shrinking a process, the copy-on-write \<open>uvmcopy\<close> and
  the fault handler \<open>cowalloc\<close>, and copying between kernel and user memory.
  \<open>proc_mapstacks\<close> of \<^verbatim>\<open>proc.c\<close> is here too, because \<open>kvmmake\<close> calls it.
\<close>

section \<open>Operations\<close>

text \<open>The variables of the file; \<open>etext\<close> and \<open>trampoline\<close> are linker symbols.\<close>

record vmem = kmem +
  kernel_pagetable :: u64
  etext :: u64
  trampoline :: u64

definition PTE_ADDR :: "u64 \<Rightarrow> u64 \<Rightarrow> u64" where
  "PTE_ADDR pagetable i = pagetable + 8 * i"

text \<open>
  The loop of \<open>walk\<close>, at a level counting down. A null pointer is the address 0.
\<close>

fun walk_loop :: "nat \<Rightarrow> u64 \<Rightarrow> u64 \<Rightarrow> bool \<Rightarrow> 'a kmem_scheme \<Rightarrow> (u64 \<times> 'a kmem_scheme) res" where
  "walk_loop 0 pagetable va alloc s = Ret (PTE_ADDR pagetable (PX 0 va), s)"
| "walk_loop (Suc l) pagetable va alloc s =
     (let pte = PTE_ADDR pagetable (PX (Suc l) va) in
      if ld64 (mem s) pte AND PTE_V \<noteq> 0
      then walk_loop l (PTE2PA (ld64 (mem s) pte)) va alloc s
      else if \<not> alloc then Ret (0, s)
      else bindR (kalloc s) (\<lambda>(pagetable', s).
        if pagetable' = 0 then Ret (0, s)
        else let s = s\<lparr>mem := memset (mem s) pagetable' 0 (unat PGSIZE)\<rparr>;
                 s = s\<lparr>mem := st64 (mem s) pte (PA2PTE pagetable' OR PTE_V)\<rparr>
             in walk_loop l pagetable' va alloc s))"

definition walk :: "u64 \<Rightarrow> u64 \<Rightarrow> bool \<Rightarrow> 'a kmem_scheme \<Rightarrow> (u64 \<times> 'a kmem_scheme) res" where
  "walk pagetable va alloc s =
     (if va \<ge> MAXVA then Panic ''walk'' else walk_loop 2 pagetable va alloc s)"

definition walkaddr :: "u64 \<Rightarrow> u64 \<Rightarrow> 'a kmem_scheme \<Rightarrow> u64 res" where
  "walkaddr pagetable va s =
     (if va \<ge> MAXVA then Ret 0
      else bindR (walk pagetable va False s) (\<lambda>(pte, s).
        if pte = 0 then Ret 0
        else if ld64 (mem s) pte AND PTE_V = 0 then Ret 0
        else if ld64 (mem s) pte AND PTE_U = 0 then Ret 0
        else Ret (PTE2PA (ld64 (mem s) pte))))"

lemma walk_Ret_less: "walk pagetable va alloc s = Ret r \<Longrightarrow> unat va < 0x4000000000"
  by (auto simp: walk_def MAXVA_def word_less_nat_alt not_le split: if_splits)

lemma va_step: "unat a < 0x4000000000 \<Longrightarrow> unat (a + PGSIZE) = unat a + 4096"
  by (simp add: PGSIZE_def unat_word_ariths)

text \<open>
  The loops over virtual addresses cannot run past \<^const>\<open>MAXVA\<close>, where \<open>walk\<close> panics:
  that is what makes them terminate, also when the end of the range wraps around.
\<close>

function mappages_loop :: "u64 \<Rightarrow> u64 \<Rightarrow> u64 \<Rightarrow> u64 \<Rightarrow> u64 \<Rightarrow> 'a kmem_scheme \<Rightarrow> (int \<times> 'a kmem_scheme) res" where
  "mappages_loop pagetable a last' pa perm s =
     bindR (walk pagetable a True s) (\<lambda>(pte, s).
       if pte = 0 then Ret (-1, s)
       else if ld64 (mem s) pte AND PTE_V \<noteq> 0 then Panic ''mappages: remap''
       else let s = s\<lparr>mem := st64 (mem s) pte (PA2PTE pa OR perm OR PTE_V)\<rparr> in
         if a = last' then Ret (0, s)
         else mappages_loop pagetable (a + PGSIZE) last' (pa + PGSIZE) perm s)"
  by pat_completeness auto
termination
  by (relation "measure (\<lambda>(pagetable, a, last', pa, perm, s). 2 ^ 64 - unat a)")
    (auto dest!: walk_Ret_less simp: va_step)

declare mappages_loop.simps [simp del]

definition mappages :: "u64 \<Rightarrow> u64 \<Rightarrow> u64 \<Rightarrow> u64 \<Rightarrow> u64 \<Rightarrow> 'a kmem_scheme \<Rightarrow> (int \<times> 'a kmem_scheme) res" where
  "mappages pagetable va sz pa perm s =
     (if sz = 0 then Panic ''mappages: size''
      else mappages_loop pagetable (PGROUNDDOWN va) (PGROUNDDOWN (va + sz - 1)) pa perm s)"

definition kvmmap :: "u64 \<Rightarrow> u64 \<Rightarrow> u64 \<Rightarrow> u64 \<Rightarrow> u64 \<Rightarrow> 'a kmem_scheme \<Rightarrow> 'a kmem_scheme res" where
  "kvmmap kpgtbl va pa sz perm s =
     bindR (mappages kpgtbl va sz pa perm s) (\<lambda>(r, s). if r \<noteq> 0 then Panic ''kvmmap'' else Ret s)"

text \<open>One iteration per slot of the process table; \<open>n\<close> slots are left.\<close>

definition NPROC :: nat where "NPROC = 64"

fun proc_mapstacks_loop :: "nat \<Rightarrow> u64 \<Rightarrow> 'a kmem_scheme \<Rightarrow> 'a kmem_scheme res" where
  "proc_mapstacks_loop 0 kpgtbl s = Ret s"
| "proc_mapstacks_loop (Suc n) kpgtbl s =
     bindR (kalloc s) (\<lambda>(pa, s).
       if pa = 0 then Panic ''kalloc''
       else bindR (kvmmap kpgtbl (KSTACK (of_nat (NPROC - Suc n))) pa PGSIZE (PTE_R OR PTE_W) s)
         (proc_mapstacks_loop n kpgtbl))"

definition proc_mapstacks :: "u64 \<Rightarrow> 'a kmem_scheme \<Rightarrow> 'a kmem_scheme res" where
  "proc_mapstacks kpgtbl s = proc_mapstacks_loop NPROC kpgtbl s"

definition kvmmake :: "'a vmem_scheme \<Rightarrow> (u64 \<times> 'a vmem_scheme) res" where
  "kvmmake s =
     bindR (kalloc s) (\<lambda>(kpgtbl, s).
       if kpgtbl = 0 then Undef
       else let s = s\<lparr>mem := memset (mem s) kpgtbl 0 (unat PGSIZE)\<rparr> in
         bindR (kvmmap kpgtbl UART0 UART0 PGSIZE (PTE_R OR PTE_W) s) (\<lambda>s.
         bindR (kvmmap kpgtbl VIRTIO0 VIRTIO0 PGSIZE (PTE_R OR PTE_W) s) (\<lambda>s.
         bindR (kvmmap kpgtbl PLIC PLIC 0x400000 (PTE_R OR PTE_W) s) (\<lambda>s.
         bindR (kvmmap kpgtbl KERNBASE KERNBASE (etext s - KERNBASE) (PTE_R OR PTE_X) s) (\<lambda>s.
         bindR (kvmmap kpgtbl (etext s) (etext s) (PHYSTOP - etext s) (PTE_R OR PTE_W) s) (\<lambda>s.
         bindR (kvmmap kpgtbl TRAMPOLINE (trampoline s) PGSIZE (PTE_R OR PTE_X) s) (\<lambda>s.
         bindR (proc_mapstacks kpgtbl s) (\<lambda>s. Ret (kpgtbl, s)))))))))"

definition kvminit :: "'a vmem_scheme \<Rightarrow> 'a vmem_scheme res" where
  "kvminit s = bindR (kvmmake s) (\<lambda>(pt, s). Ret (s\<lparr>kernel_pagetable := pt\<rparr>))"

function uvmunmap_loop :: "u64 \<Rightarrow> u64 \<Rightarrow> u64 \<Rightarrow> bool \<Rightarrow> 'a kmem_scheme \<Rightarrow> 'a kmem_scheme res" where
  "uvmunmap_loop pagetable a end' do_free s =
     (if a < end' then
        bindR (walk pagetable a False s) (\<lambda>(pte, s).
          if pte = 0 then Panic ''uvmunmap: walk''
          else if ld64 (mem s) pte AND PTE_V = 0 then Panic ''uvmunmap: not mapped''
          else if PTE_FLAGS (ld64 (mem s) pte) = PTE_V then Panic ''uvmunmap: not a leaf''
          else bindR (if do_free then kfree (PTE2PA (ld64 (mem s) pte)) s else Ret s) (\<lambda>s.
            uvmunmap_loop pagetable (a + PGSIZE) end' do_free (s\<lparr>mem := st64 (mem s) pte 0\<rparr>)))
      else Ret s)"
  by pat_completeness auto
termination
  by (relation "measure (\<lambda>(pagetable, a, end', do_free, s). 2 ^ 64 - unat a)")
    (auto dest!: walk_Ret_less simp: va_step)

declare uvmunmap_loop.simps [simp del]

definition uvmunmap :: "u64 \<Rightarrow> u64 \<Rightarrow> u64 \<Rightarrow> bool \<Rightarrow> 'a kmem_scheme \<Rightarrow> 'a kmem_scheme res" where
  "uvmunmap pagetable va npages do_free s =
     (if va mod PGSIZE \<noteq> 0 then Panic ''uvmunmap: not aligned''
      else uvmunmap_loop pagetable va (va + npages * PGSIZE) do_free s)"

definition uvmcreate :: "'a kmem_scheme \<Rightarrow> (u64 \<times> 'a kmem_scheme) res" where
  "uvmcreate s =
     bindR (kalloc s) (\<lambda>(pagetable, s).
       if pagetable = 0 then Ret (0, s)
       else Ret (pagetable, s\<lparr>mem := memset (mem s) pagetable 0 (unat PGSIZE)\<rparr>))"

definition uvmfirst :: "u64 \<Rightarrow> u64 \<Rightarrow> u32 \<Rightarrow> 'a kmem_scheme \<Rightarrow> 'a kmem_scheme res" where
  "uvmfirst pagetable src sz s =
     (if ucast sz \<ge> PGSIZE then Panic ''uvmfirst: more than a page''
      else bindR (kalloc s) (\<lambda>(pa, s).
        if pa = 0 then Undef
        else let s = s\<lparr>mem := memset (mem s) pa 0 (unat PGSIZE)\<rparr> in
          bindR (mappages pagetable 0 PGSIZE pa (PTE_W OR PTE_R OR PTE_X OR PTE_U) s) (\<lambda>(_, s).
            Ret (s\<lparr>mem := memmove (mem s) pa src (unat sz)\<rparr>))))"

text \<open>\<open>npages\<close> is an \<open>int\<close>: the quotient is cut to 32 bits and sign-extended again.\<close>

definition uvmdealloc :: "u64 \<Rightarrow> u64 \<Rightarrow> u64 \<Rightarrow> 'a kmem_scheme \<Rightarrow> (u64 \<times> 'a kmem_scheme) res" where
  "uvmdealloc pagetable oldsz newsz s =
     (if newsz \<ge> oldsz then Ret (oldsz, s)
      else bindR
        (if PGROUNDUP newsz < PGROUNDUP oldsz then
           let npages = (ucast ((PGROUNDUP oldsz - PGROUNDUP newsz) div PGSIZE) :: s32) in
           uvmunmap pagetable (PGROUNDUP newsz) (scast npages) True s
         else Ret s)
        (\<lambda>s. Ret (newsz, s)))"

lemma mappages_Ret_less:
  assumes "mappages pagetable a sz pa perm s = Ret r"
  shows "unat a < 0x4000001000"
proof -
  have "unat (PGROUNDDOWN a) < 0x4000000000"
    using assms by (auto simp: mappages_def mappages_loop.simps [of pagetable "PGROUNDDOWN a"]
        res_simps dest: walk_Ret_less split: if_splits)
  then have "unat a div 4096 * 4096 < 0x4000000000" by (simp add: unat_PGROUNDDOWN pgno_def)
  then show ?thesis using div_mult_mod_eq [of "unat a" 4096] mod_less_divisor [of 4096 "unat a"]
    by linarith
qed

function uvmalloc_loop :: "u64 \<Rightarrow> u64 \<Rightarrow> u64 \<Rightarrow> u64 \<Rightarrow> u64 \<Rightarrow> 'a kmem_scheme \<Rightarrow> (u64 \<times> 'a kmem_scheme) res" where
  "uvmalloc_loop pagetable oldsz a newsz xperm s =
     (if a < newsz then
        bindR (kalloc s) (\<lambda>(pa, s).
          if pa = 0 then bindR (uvmdealloc pagetable a oldsz s) (\<lambda>(_, s). Ret (0, s))
          else let s = s\<lparr>mem := memset (mem s) pa 0 (unat PGSIZE)\<rparr> in
            bindR (mappages pagetable a PGSIZE pa (PTE_R OR PTE_U OR xperm) s) (\<lambda>(r, s).
              if r \<noteq> 0 then
                bindR (kfree pa s) (\<lambda>s.
                bindR (uvmdealloc pagetable a oldsz s) (\<lambda>(_, s). Ret (0, s)))
              else uvmalloc_loop pagetable oldsz (a + PGSIZE) newsz xperm s))
      else Ret (newsz, s))"
  by pat_completeness auto
termination
proof (relation "measure (\<lambda>(pagetable, oldsz, a, newsz, xperm, s). 2 ^ 64 - unat a)", goal_cases)
  case (2 pagetable oldsz a)
  then have "unat a < 0x4000001000" by (auto dest: mappages_Ret_less)
  then show ?case by (simp add: PGSIZE_def unat_word_ariths)
qed simp

declare uvmalloc_loop.simps [simp del]

definition uvmalloc :: "u64 \<Rightarrow> u64 \<Rightarrow> u64 \<Rightarrow> u64 \<Rightarrow> 'a kmem_scheme \<Rightarrow> (u64 \<times> 'a kmem_scheme) res" where
  "uvmalloc pagetable oldsz newsz xperm s =
     (if newsz < oldsz then Ret (oldsz, s)
      else uvmalloc_loop pagetable (PGROUNDUP oldsz) (PGROUNDUP oldsz) newsz xperm s)"

text \<open>
  \<open>freewalk\<close> recurses once per level of the table. The first argument bounds the depth of
  the recursion, as the kernel stack does; deeper tables are \<^const>\<open>Undef\<close>. Sv39 tables have
  three levels.
\<close>

fun freewalk_entries :: "(u64 \<Rightarrow> 'a kmem_scheme \<Rightarrow> 'a kmem_scheme res) \<Rightarrow> nat \<Rightarrow> u64 \<Rightarrow> 'a kmem_scheme \<Rightarrow> 'a kmem_scheme res" where
  "freewalk_entries rec 0 pagetable s = Ret s"
| "freewalk_entries rec (Suc n) pagetable s =
     (let slot = PTE_ADDR pagetable (of_nat (512 - Suc n)); pte = ld64 (mem s) slot in
      if pte AND PTE_V \<noteq> 0 \<and> pte AND (PTE_R OR PTE_W OR PTE_X) = 0 then
        bindR (rec (PTE2PA pte) s) (\<lambda>s.
          freewalk_entries rec n pagetable (s\<lparr>mem := st64 (mem s) slot 0\<rparr>))
      else if pte AND PTE_V \<noteq> 0 then Panic ''freewalk: leaf''
      else freewalk_entries rec n pagetable s)"

fun freewalk :: "nat \<Rightarrow> u64 \<Rightarrow> 'a kmem_scheme \<Rightarrow> 'a kmem_scheme res" where
  "freewalk 0 pagetable s = Undef"
| "freewalk (Suc d) pagetable s =
     bindR (freewalk_entries (freewalk d) 512 pagetable s) (kfree pagetable)"

definition uvmfree :: "u64 \<Rightarrow> u64 \<Rightarrow> 'a kmem_scheme \<Rightarrow> 'a kmem_scheme res" where
  "uvmfree pagetable sz s =
     bindR (if sz > 0 then uvmunmap pagetable 0 (PGROUNDUP sz div PGSIZE) True s else Ret s)
       (freewalk 3 pagetable)"

function uvmcopy_loop :: "u64 \<Rightarrow> u64 \<Rightarrow> u64 \<Rightarrow> u64 \<Rightarrow> 'a kmem_scheme \<Rightarrow> (int \<times> 'a kmem_scheme) res" where
  "uvmcopy_loop old new i sz s =
     (if i < sz then
        bindR (walk old i False s) (\<lambda>(pte, s).
          if pte = 0 then Panic ''uvmcopy: pte should exist''
          else if ld64 (mem s) pte AND PTE_V = 0 then Panic ''uvmcopy: page not present''
          else
            let pa = PTE2PA (ld64 (mem s) pte);
                flags = PTE_FLAGS (ld64 (mem s) pte);
                (flags, s) =
                  (if flags AND PTE_W \<noteq> 0 then
                     let flags = (flags AND NOT PTE_W) OR PTE_COW
                     in (flags, s\<lparr>mem := st64 (mem s) pte (PA2PTE pa OR flags)\<rparr>)
                   else (flags, s))
            in bindR (mappages new i PGSIZE pa flags s) (\<lambda>(r, s).
                 if r \<noteq> 0 then bindR (uvmunmap new 0 (i div PGSIZE) True s) (\<lambda>s. Ret (-1, s))
                 else bindR (increase_pgreference pa s) (uvmcopy_loop old new (i + PGSIZE) sz)))
      else Ret (0, s))"
  by pat_completeness auto
termination
  by (relation "measure (\<lambda>(old, new, i, sz, s). 2 ^ 64 - unat i)")
    (auto dest!: walk_Ret_less simp: va_step)

declare uvmcopy_loop.simps [simp del]

definition uvmcopy :: "u64 \<Rightarrow> u64 \<Rightarrow> u64 \<Rightarrow> 'a kmem_scheme \<Rightarrow> (int \<times> 'a kmem_scheme) res" where
  "uvmcopy old new sz s = uvmcopy_loop old new 0 sz s"

definition uvmclear :: "u64 \<Rightarrow> u64 \<Rightarrow> 'a kmem_scheme \<Rightarrow> 'a kmem_scheme res" where
  "uvmclear pagetable va s =
     bindR (walk pagetable va False s) (\<lambda>(pte, s).
       if pte = 0 then Panic ''uvmclear''
       else Ret (s\<lparr>mem := st64 (mem s) pte (ld64 (mem s) pte AND NOT PTE_U)\<rparr>))"

definition cowalloc :: "u64 \<Rightarrow> u64 \<Rightarrow> 'a kmem_scheme \<Rightarrow> (int \<times> 'a kmem_scheme) res" where
  "cowalloc pagetable va s =
     (if va mod PGSIZE \<noteq> 0 then Ret (-1, s)
      else if va \<ge> MAXVA then Ret (-1, s)
      else bindR (walk pagetable va False s) (\<lambda>(pte, s).
        if pte = 0 then Ret (-1, s)
        else let pa = PTE2PA (ld64 (mem s) pte) in
          if pa = 0 then Ret (-1, s)
          else if ld64 (mem s) pte AND PTE_COW \<noteq> 0 then
            let flags = (PTE_FLAGS (ld64 (mem s) pte) AND NOT PTE_COW) OR PTE_W in
            bindR (kalloc s) (\<lambda>(ka, s).
              if ka = 0 then Ret (-1, s)
              else let s = s\<lparr>mem := memmove (mem s) ka pa (unat PGSIZE)\<rparr> in
                bindR (uvmunmap pagetable (PGROUNDUP va) 1 True s) (\<lambda>s.
                bindR (mappages pagetable va PGSIZE ka flags s) (\<lambda>(_, s). Ret (0, s))))
          else Ret (0, s)))"

text \<open>The part of the page at \<open>va\<close> that a copy of \<open>len\<close> bytes still needs.\<close>

definition page_part :: "u64 \<Rightarrow> u64 \<Rightarrow> u64" where
  "page_part va len = (let n = PGSIZE - (va - PGROUNDDOWN va) in if n > len then len else n)"

lemma page_part_bounds:
  assumes "len > 0"
  shows "0 < unat (page_part va len)" and "unat (page_part va len) \<le> unat len"
    and "unat (page_part va len) \<le> 4096"
proof -
  have sub: "unat (va - PGROUNDDOWN va) = pgoff va"
  proof -
    have "unat (PGROUNDDOWN va) \<le> unat va"
      using div_times_less_eq_dividend by (simp add: unat_PGROUNDDOWN pgno_def)
    then have "unat (va - PGROUNDDOWN va) = unat va - pgno va * 4096"
      by (simp add: unat_sub word_le_nat_alt unat_PGROUNDDOWN)
    also have "\<dots> = pgoff va" by (simp add: minus_div_mult_eq_mod pgno_def)
    finally show ?thesis .
  qed
  have lt: "pgoff va < 4096" by simp
  have n: "unat (PGSIZE - (va - PGROUNDDOWN va)) = 4096 - pgoff va"
    using sub lt by (simp add: unat_sub word_le_nat_alt PGSIZE_def)
  show "0 < unat (page_part va len)" "unat (page_part va len) \<le> unat len"
      "unat (page_part va len) \<le> 4096"
    using n lt assms by (auto simp: page_part_def Let_def word_less_nat_alt)
qed

function copyout :: "u64 \<Rightarrow> u64 \<Rightarrow> u64 \<Rightarrow> u64 \<Rightarrow> 'a kmem_scheme \<Rightarrow> (int \<times> 'a kmem_scheme) res" where
  "copyout pagetable dstva src len s =
     (if len > 0 then
        let va0 = PGROUNDDOWN dstva in
        bindR (cowalloc pagetable va0 s) (\<lambda>(r, s).
          if r < 0 then Ret (-1, s)
          else bindR (walkaddr pagetable va0 s) (\<lambda>pa0.
            if pa0 = 0 then Ret (-1, s)
            else let n = page_part dstva len in
              copyout pagetable (va0 + PGSIZE) (src + n) (len - n)
                (s\<lparr>mem := memmove (mem s) (pa0 + (dstva - va0)) src (unat n)\<rparr>)))
      else Ret (0, s))"
  by pat_completeness auto
termination
  by (relation "measure (\<lambda>(pagetable, dstva, src, len, s). unat len)")
    (auto simp: unat_sub word_le_nat_alt page_part_bounds word_less_nat_alt)

declare copyout.simps [simp del]

function copyin :: "u64 \<Rightarrow> u64 \<Rightarrow> u64 \<Rightarrow> u64 \<Rightarrow> 'a kmem_scheme \<Rightarrow> (int \<times> 'a kmem_scheme) res" where
  "copyin pagetable dst srcva len s =
     (if len > 0 then
        let va0 = PGROUNDDOWN srcva in
        bindR (walkaddr pagetable va0 s) (\<lambda>pa0.
          if pa0 = 0 then Ret (-1, s)
          else let n = page_part srcva len in
            copyin pagetable (dst + n) (va0 + PGSIZE) (len - n)
              (s\<lparr>mem := memmove (mem s) dst (pa0 + (srcva - va0)) (unat n)\<rparr>))
      else Ret (0, s))"
  by pat_completeness auto
termination
  by (relation "measure (\<lambda>(pagetable, dst, srcva, len, s). unat len)")
    (auto simp: unat_sub word_le_nat_alt page_part_bounds word_less_nat_alt)

declare copyin.simps [simp del]

text \<open>The inner loop of \<open>copyinstr\<close>: its results are \<open>got_null\<close>, \<open>max\<close>, \<open>dst\<close> and the memory.\<close>

fun copyinstr_page :: "nat \<Rightarrow> u64 \<Rightarrow> u64 \<Rightarrow> u64 \<Rightarrow> memory \<Rightarrow> bool \<times> u64 \<times> u64 \<times> memory" where
  "copyinstr_page 0 p max' dst m = (False, max', dst, m)"
| "copyinstr_page (Suc n) p max' dst m =
     (if m p = 0 then (True, max', dst, m(dst := 0))
      else copyinstr_page n (p + 1) (max' - 1) (dst + 1) (m(dst := m p)))"

lemma copyinstr_page_max:
  "copyinstr_page n p max' dst m = (False, max'', dst', m') \<Longrightarrow> max'' = max' - of_nat n"
proof (induction n arbitrary: p max' dst m)
  case (Suc n)
  then have "max'' = max' - 1 - of_nat n" by (auto split: if_splits)
  then show ?case by simp
qed simp

function copyinstr :: "u64 \<Rightarrow> u64 \<Rightarrow> u64 \<Rightarrow> u64 \<Rightarrow> 'a kmem_scheme \<Rightarrow> (int \<times> 'a kmem_scheme) res" where
  "copyinstr pagetable dst srcva max' s =
     (if max' > 0 then
        let va0 = PGROUNDDOWN srcva in
        bindR (walkaddr pagetable va0 s) (\<lambda>pa0.
          if pa0 = 0 then Ret (-1, s)
          else case copyinstr_page (unat (page_part srcva max')) (pa0 + (srcva - va0)) max' dst (mem s)
            of (got_null, max'', dst', m) \<Rightarrow>
              if got_null then Ret (0, s\<lparr>mem := m\<rparr>)
              else copyinstr pagetable dst' (va0 + PGSIZE) max'' (s\<lparr>mem := m\<rparr>))
      else Ret (-1, s))"
  by pat_completeness auto
termination
  by (relation "measure (\<lambda>(pagetable, dst, srcva, max', s). unat max')")
    (auto dest!: sym [of "(False, _)"] copyinstr_page_max
      simp: unat_sub word_le_nat_alt page_part_bounds word_less_nat_alt)

declare copyinstr.simps [simp del]

end
