(* ===== verification/Proc.thy ===== *)
theory Proc
  imports Spinlock Vm
begin

text \<open>
  \<^verbatim>\<open>kernel/proc.h\<close> and the part of \<^verbatim>\<open>kernel/proc.c\<close> that works on the process table alone:
  identifiers, sleeping and waking, killing, the clock's accounting and \<open>set_priority\<close>.
  A process is its index in \<open>proc[NPROC]\<close>, a null \<open>struct proc *\<close> is \<^const>\<open>None\<close>. A loop over
  the table takes and releases one \<open>p->lock\<close> at a time around each entry; as no other
  lock is involved these sections commute with those of other CPUs on other entries, and
  the loop is written as one pass.
\<close>

section \<open>The process table\<close>

datatype procstate = UNUSED | USED | SLEEPING | RUNNABLE | RUNNING | ZOMBIE

text \<open>
  A sleep channel is the address of a kernel object; the constructors name the objects the
  kernel sleeps on. \<open>Chan0\<close> is the null pointer.
\<close>

datatype chan = Chan0 | Chan_proc nat | Chan_ticks | Chan_log | Chan_buf nat | Chan_inode nat
  | Chan_nread u64 | Chan_nwrite u64 | Chan_cons | Chan_uart | Chan_disk

text \<open>\<open>struct context\<close>; the callee-saved registers \<open>s0\<close> to \<open>s11\<close> are a list.\<close>

record kcontext =
  ctx_ra :: u64
  ctx_sp :: u64
  ctx_s :: "u64 list"

text \<open>
  \<open>ofile\<close> holds indices into the file table and \<open>cwd\<close> one into the inode table; \<open>name\<close> is
  the characters before the terminator. \<open>trapframe\<close> is the physical address of the page.
\<close>

record proc =
  p_lock :: spinlock
  p_state :: procstate
  p_chan :: chan
  p_killed :: bool
  p_xstate :: s32
  p_pid :: s32
  p_parent :: "nat option"
  p_kstack :: u64
  p_sz :: u64
  p_pagetable :: u64
  p_trapframe :: u64
  p_context :: kcontext
  p_ofile :: "nat option list"
  p_cwd :: "nat option"
  p_name :: string
  p_rtime :: u32
  p_ctime :: u32
  p_etime :: u32
  p_my_wtime :: u32
  p_my_rtime :: u32
  p_my_stime :: u32
  p_static_pri :: u32
  p_rbi :: s32
  p_tot_sche :: s32
  p_curr_rbi :: s32

type_synonym ptable = "proc list"

definition NOFILE :: nat where "NOFILE = 16"

text \<open>One pass over the table, each entry treated under its lock.\<close>

definition upd_entry :: "nat \<Rightarrow> (proc \<Rightarrow> proc) \<Rightarrow> ptable \<Rightarrow> ptable" where
  "upd_entry i f ps = ps[i := f (ps ! i)]"

definition procinit_entry :: "nat \<Rightarrow> proc \<Rightarrow> proc" where
  "procinit_entry i p =
     p\<lparr>p_lock := initlock ''proc'' (p_lock p), p_state := UNUSED, p_kstack := KSTACK (of_nat i)\<rparr>"

definition procinit :: "ptable \<Rightarrow> ptable" where
  "procinit ps = map (\<lambda>(i, p). procinit_entry i p) (enumerate 0 ps)"

definition allocpid :: "s32 \<Rightarrow> s32 \<times> s32" where
  "allocpid nextpid = (nextpid, nextpid + 1)"

definition wakeup :: "nat option \<Rightarrow> chan \<Rightarrow> ptable \<Rightarrow> ptable" where
  "wakeup me ch ps = map (\<lambda>(i, p).
     if Some i \<noteq> me \<and> p_state p = SLEEPING \<and> p_chan p = ch then p\<lparr>p_state := RUNNABLE\<rparr> else p)
     (enumerate 0 ps)"

fun kill :: "s32 \<Rightarrow> ptable \<Rightarrow> int \<times> ptable" where
  "kill pid [] = (-1, [])"
| "kill pid (p # ps) =
     (if p_pid p = pid
      then let p = p\<lparr>p_killed := True\<rparr>;
               p = (if p_state p = SLEEPING then p\<lparr>p_state := RUNNABLE\<rparr> else p)
           in (0, p # ps)
      else let (r, ps) = kill pid ps in (r, p # ps))"

definition setkilled :: "nat \<Rightarrow> ptable \<Rightarrow> ptable" where
  "setkilled i ps = upd_entry i (p_killed_update (\<lambda>_. True)) ps"

definition killed :: "nat \<Rightarrow> ptable \<Rightarrow> bool" where
  "killed i ps = p_killed (ps ! i)"

abbreviation proc_chan :: "nat option \<Rightarrow> chan" where
  "proc_chan p \<equiv> (case p of None \<Rightarrow> Chan0 | Some i \<Rightarrow> Chan_proc i)"

definition reparent :: "nat option \<Rightarrow> nat \<Rightarrow> nat option \<Rightarrow> ptable \<Rightarrow> ptable" where
  "reparent me p initproc ps =
     fold (\<lambda>i ps. if p_parent (ps ! i) = Some p
                  then wakeup me (proc_chan initproc) (upd_entry i (p_parent_update (\<lambda>_. initproc)) ps)
                  else ps) [0..<length ps] ps"

section \<open>The clock\<close>

definition update_time :: "ptable \<Rightarrow> ptable" where
  "update_time ps = map (\<lambda>p. if p_state p = RUNNING then p\<lparr>p_rtime := p_rtime p + 1\<rparr> else p) ps"

definition clock_entry :: "proc \<Rightarrow> proc" where
  "clock_entry p =
     (let p = (if p_state p = RUNNING then p\<lparr>p_my_rtime := p_my_rtime p + 1\<rparr> else p);
          p = (if p_state p = SLEEPING then p\<lparr>p_my_stime := p_my_stime p + 1\<rparr> else p)
      in if p_state p = RUNNABLE then p\<lparr>p_my_wtime := p_my_wtime p + 1\<rparr> else p)"

definition clockintr :: "nat option \<Rightarrow> u32 \<times> ptable \<Rightarrow> u32 \<times> ptable" where
  "clockintr me = (\<lambda>(ticks, ps).
     (ticks + 1, wakeup me Chan_ticks (map clock_entry (update_time ps))))"

section \<open>\<open>set_priority\<close>\<close>

text \<open>
  The loop of \<open>sys_set_priority\<close>: it visits every entry and keeps the priority of the last
  match. The flag \<open>do_yield\<close> and the old priority are C \<open>int\<close>s.
\<close>

fun set_priority_loop :: "s32 \<Rightarrow> s32 \<Rightarrow> bool \<times> s32 \<Rightarrow> ptable \<Rightarrow> (bool \<times> s32) \<times> ptable" where
  "set_priority_loop pid pri (do_yield, old) [] = ((do_yield, old), [])"
| "set_priority_loop pid pri (do_yield, old) (p # ps) =
     (if p_pid p = pid then
        let old = p_static_pri p;
            p = p\<lparr>p_rbi := 25, p_static_pri := pri\<rparr>;
            do_yield = (if sint old > sint pri then True else do_yield);
            (r, ps) = set_priority_loop pid pri (do_yield, old) ps
        in (r, p # ps)
      else let (r, ps) = set_priority_loop pid pri (do_yield, old) ps in (r, p # ps))"

text \<open>The result, whether the caller then yields, and the table.\<close>

definition set_priority :: "s32 \<Rightarrow> s32 \<Rightarrow> ptable \<Rightarrow> s32 \<times> bool \<times> ptable" where
  "set_priority pid new_priority ps =
     (if sint new_priority < 0 \<or> sint new_priority > 100 then (-1, False, ps)
      else let ((do_yield, old), ps) = set_priority_loop pid new_priority (False, -1) ps
           in (old, do_yield, ps))"

section \<open>What the operations do\<close>

lemma nth_enumerate_map: "i < length ps \<Longrightarrow> map (\<lambda>(i, p). f i p) (enumerate 0 ps) ! i = f i (ps ! i)"
  by (simp add: nth_enumerate_eq)

lemma length_wakeup [simp]: "length (wakeup me ch ps) = length ps"
  by (simp add: wakeup_def)

lemma wakeup_nth:
  "i < length ps \<Longrightarrow> wakeup me ch ps ! i =
    (if Some i \<noteq> me \<and> p_state (ps ! i) = SLEEPING \<and> p_chan (ps ! i) = ch
     then (ps ! i)\<lparr>p_state := RUNNABLE\<rparr> else ps ! i)"
  unfolding wakeup_def by (subst nth_enumerate_map) auto

lemma length_kill: "kill pid ps = (r, ps') \<Longrightarrow> length ps' = length ps"
  by (induction ps arbitrary: r ps') (auto simp: Let_def split: if_splits prod.splits)

lemma length_upd_entry [simp]: "length (upd_entry i f ps) = length ps"
  by (simp add: upd_entry_def)

lemma upd_entry_nth:
  "j < length ps \<Longrightarrow> upd_entry i f ps ! j = (if i = j then f (ps ! j) else ps ! j)"
  by (simp add: upd_entry_def)

text \<open>The first entry with a given pid.\<close>

definition first_pid :: "s32 \<Rightarrow> ptable \<Rightarrow> nat \<Rightarrow> bool" where
  "first_pid pid ps i \<longleftrightarrow> i < length ps \<and> p_pid (ps ! i) = pid \<and> (\<forall>j < i. p_pid (ps ! j) \<noteq> pid)"

lemma first_pid_Cons:
  "first_pid pid (p # ps) i \<longleftrightarrow>
     (if p_pid p = pid then i = 0 else \<exists>j. i = Suc j \<and> first_pid pid ps j)"
proof (cases i)
  case (Suc j)
  then show ?thesis by (auto simp: first_pid_def All_less_Suc2)
qed (auto simp: first_pid_def)

lemma kill_spec:
  shows "first_pid pid ps i \<Longrightarrow> kill pid ps = (0, upd_entry i (\<lambda>p. p\<lparr>p_killed := True,
      p_state := if p_state p = SLEEPING then RUNNABLE else p_state p\<rparr>) ps)"
    and "\<forall>i. \<not> first_pid pid ps i \<Longrightarrow> kill pid ps = (-1, ps)"
proof -
  show "first_pid pid ps i \<Longrightarrow> kill pid ps = (0, upd_entry i (\<lambda>p. p\<lparr>p_killed := True,
      p_state := if p_state p = SLEEPING then RUNNABLE else p_state p\<rparr>) ps)"
  proof (induction ps arbitrary: i)
    case (Cons p ps)
    then show ?case by (cases i) (auto simp: first_pid_Cons upd_entry_def Let_def split: if_splits)
  qed (simp add: first_pid_def)
  show "\<forall>i. \<not> first_pid pid ps i \<Longrightarrow> kill pid ps = (-1, ps)"
    by (induction ps) (auto simp: first_pid_Cons split: if_splits)
qed

lemma first_pid_exists: "(\<exists>i. first_pid pid ps i) \<longleftrightarrow> pid \<in> p_pid ` set ps"
  by (induction ps) (auto simp: first_pid_Cons first_pid_def [of _ "[]"])

text \<open>
  C31 \<open>kill\<close> reports failure, changing nothing, exactly when no entry has the pid; otherwise
  it marks the first such entry, makes it runnable when it slept (so that it can notice),
  and touches no other entry.
\<close>

theorem kill_correct:
  "(pid \<notin> p_pid ` set ps \<longrightarrow> kill pid ps = (-1, ps)) \<and>
   (pid \<in> p_pid ` set ps \<longrightarrow> (\<exists>i. first_pid pid ps i \<and> fst (kill pid ps) = 0 \<and>
     (\<forall>j < length ps. snd (kill pid ps) ! j =
       (if j = i then (ps ! j)\<lparr>p_killed := True,
          p_state := if p_state (ps ! j) = SLEEPING then RUNNABLE else p_state (ps ! j)\<rparr>
        else ps ! j))))"
proof (intro conjI impI)
  assume "pid \<notin> p_pid ` set ps"
  then show "kill pid ps = (-1, ps)" using kill_spec(2) [of pid ps] first_pid_exists [of pid ps] by blast
next
  assume "pid \<in> p_pid ` set ps"
  then obtain i where "first_pid pid ps i" using first_pid_exists [of pid ps] by blast
  then show "\<exists>i. first_pid pid ps i \<and> fst (kill pid ps) = 0 \<and>
     (\<forall>j < length ps. snd (kill pid ps) ! j =
       (if j = i then (ps ! j)\<lparr>p_killed := True,
          p_state := if p_state (ps ! j) = SLEEPING then RUNNABLE else p_state (ps ! j)\<rparr>
        else ps ! j))"
    using kill_spec(1) [of pid ps i] by (intro exI [of _ i]) (auto simp: upd_entry_nth)
qed

text \<open>One clock tick, per entry.\<close>

lemma clockintr_nth:
  assumes "clockintr me (t, ps) = (t', ps')" and "i < length ps"
  shows "t' = t + 1" and "length ps' = length ps"
    and "p_rtime (ps' ! i) = p_rtime (ps ! i) + (if p_state (ps ! i) = RUNNING then 1 else 0)"
    and "p_my_rtime (ps' ! i) = p_my_rtime (ps ! i) + (if p_state (ps ! i) = RUNNING then 1 else 0)"
    and "p_my_stime (ps' ! i) = p_my_stime (ps ! i) + (if p_state (ps ! i) = SLEEPING then 1 else 0)"
    and "p_my_wtime (ps' ! i) = p_my_wtime (ps ! i) + (if p_state (ps ! i) = RUNNABLE then 1 else 0)"
    and "p_state (ps' ! i) =
      (if p_state (ps ! i) = SLEEPING \<and> p_chan (ps ! i) = Chan_ticks \<and> me \<noteq> Some i
       then RUNNABLE else p_state (ps ! i))"
  using assms by (auto simp: clockintr_def wakeup_nth update_time_def clock_entry_def Let_def)

text \<open>
  The three counters of the scheduler together count the clock ticks a process has been
  alive for, in every state but the short-lived \<open>USED\<close>.
\<close>

definition accounted :: "u32 \<Rightarrow> proc \<Rightarrow> bool" where
  "accounted t p \<longleftrightarrow> p_my_rtime p + p_my_stime p + p_my_wtime p = t - p_ctime p \<and> p_rtime p = p_my_rtime p"


lemma set_priority_loop_spec:
  "set_priority_loop pid pri (y, old) ps =
    ((y \<or> (\<exists>p \<in> set ps. p_pid p = pid \<and> sint (p_static_pri p) > sint pri),
      last (old # map p_static_pri (filter (\<lambda>p. p_pid p = pid) ps))),
     map (\<lambda>p. if p_pid p = pid then p\<lparr>p_rbi := 25, p_static_pri := pri\<rparr> else p) ps)"
  by (induction ps arbitrary: y old) (auto simp: Let_def)

text \<open>
  C32 \<open>set_priority\<close> rejects a priority outside 0 to 100 and otherwise gives every process
  with the pid the new priority and a fresh recent-behaviour index of 25, leaving the
  rest of the table alone; it returns the old priority, or \<open>-1\<close> when there is no such
  process, and asks for a reschedule exactly when some priority value went down.
\<close>

theorem set_priority_correct:
  "set_priority pid pri ps =
    (if sint pri \<in> {0..100} then
       (last ((-1) # map p_static_pri (filter (\<lambda>p. p_pid p = pid) ps)),
        (\<exists>p \<in> set ps. p_pid p = pid \<and> sint (p_static_pri p) > sint pri),
        map (\<lambda>p. if p_pid p = pid then p\<lparr>p_rbi := 25, p_static_pri := pri\<rparr> else p) ps)
     else (-1, False, ps))"
  by (auto simp: set_priority_def set_priority_loop_spec)

text \<open>The parent of every former child of \<open>p\<close> is \<open>init\<close>, and \<open>init\<close> is awake if there was one.\<close>

lemma reparent_step_keeps:
  assumes "i < length ps"
  shows "p_parent (fold (\<lambda>i ps. if p_parent (ps ! i) = Some p
      then wakeup me ch (upd_entry i (p_parent_update (\<lambda>_. q)) ps) else ps) is ps ! i) =
    (if i \<in> set is \<and> p_parent (ps ! i) = Some p then q else p_parent (ps ! i))"
  using assms
proof (induction "is" arbitrary: ps)
  case (Cons j "is")
  show ?case
  proof (cases "p_parent (ps ! j) = Some p")
    case True
    let ?ps = "wakeup me ch (upd_entry j (p_parent_update (\<lambda>_. q)) ps)"
    have i: "i < length ?ps" using Cons.prems by simp
    have "p_parent (?ps ! i) = (if i = j then q else p_parent (ps ! i))"
      using Cons.prems by (simp add: wakeup_nth upd_entry_nth)
    then show ?thesis using Cons.IH [OF i] True by auto
  next
    case False
    then show ?thesis using Cons.IH [OF Cons.prems] by auto
  qed
qed simp

lemma reparent_parent:
  "i < length ps \<Longrightarrow> p_parent (reparent me p q ps ! i) =
     (if p_parent (ps ! i) = Some p then q else p_parent (ps ! i))"
  by (simp add: reparent_def reparent_step_keeps)

end
