(* ===== verification/Frame.thy ===== *)
theory Frame
  imports Vm
begin

text \<open>
  What the memory functions leave alone. The functions of \<^verbatim>\<open>kalloc.c\<close> and \<^verbatim>\<open>vm.c\<close> are written
  for any extension of their state; \<open>keeps\<close> says that a function does not touch the
  extension, so that every field another component adds is unchanged.
\<close>

definition keeps :: "'a kmem_scheme \<Rightarrow> 'a kmem_scheme \<Rightarrow> bool" where
  "keeps s s' \<longleftrightarrow> kmem.more s' = kmem.more s \<and> kend s' = kend s"

lemma keeps_refl [simp]: "keeps s s"
  by (simp add: keeps_def)

lemma keeps_mem [simp]: "keeps s (s'\<lparr>mem := m\<rparr>) = keeps s s'" "keeps (s\<lparr>mem := m\<rparr>) s' = keeps s s'"
  by (simp_all add: keeps_def)

lemma keeps_freelist [simp]: "keeps s (s'\<lparr>freelist := m\<rparr>) = keeps s s'"
  by (simp add: keeps_def)

lemma keeps_page_ref [simp]: "keeps s (s'\<lparr>page_ref_count := m\<rparr>) = keeps s s'"
  by (simp add: keeps_def)

text \<open>One rule per function: from a state that agrees with \<open>s0\<close> to one that agrees with \<open>s0\<close>.\<close>

lemma keeps_increase: "keeps s0 s \<Longrightarrow> holdsR (keeps s0) (increase_pgreference pa s)"
  by (simp add: increase_pgreference_def Let_def)

lemma keeps_decrease: "keeps s0 s \<Longrightarrow> holdsR (\<lambda>(b, s). keeps s0 s) (decrease_pgreference pa s)"
  by (simp add: decrease_pgreference_def Let_def)

lemma keeps_kalloc: "keeps s0 s \<Longrightarrow> holdsR (\<lambda>(pa, s). keeps s0 s) (kalloc s)"
  by (auto simp: kalloc_def Let_def intro!: holdsR_bind [OF keeps_increase])

lemma keeps_kfree: "keeps s0 s \<Longrightarrow> holdsR (keeps s0) (kfree pa s)"
  by (auto simp: kfree_def Let_def intro!: holdsR_bind [OF keeps_decrease])

lemma keeps_walk_loop: "keeps s0 s \<Longrightarrow> holdsR (\<lambda>(pte, s). keeps s0 s) (walk_loop l pt va al s)"
proof (induction l arbitrary: pt s)
  case (Suc l)
  then show ?case by (auto simp: Let_def intro!: holdsR_bind [OF keeps_kalloc])
qed auto

lemma keeps_walk: "keeps s0 s \<Longrightarrow> holdsR (\<lambda>(pte, s). keeps s0 s) (walk pt va al s)"
  by (simp add: walk_def keeps_walk_loop)

lemma keeps_mappages_loop: "keeps s0 s \<Longrightarrow> holdsR (\<lambda>(r, s). keeps s0 s) (mappages_loop pt a b pa perm s)"
proof (induction pt a b pa perm s rule: mappages_loop.induct)
  case (1 pt a b pa perm s)
  then show ?case
    by (subst mappages_loop.simps) (auto simp: Let_def intro!: holdsR_bind [OF keeps_walk] "1.IH")
qed

lemma keeps_mappages: "keeps s0 s \<Longrightarrow> holdsR (\<lambda>(r, s). keeps s0 s) (mappages pt va n pa perm s)"
  by (simp add: mappages_def Let_def keeps_mappages_loop)

lemma keeps_uvmunmap_loop: "keeps s0 s \<Longrightarrow> holdsR (keeps s0) (uvmunmap_loop pt a b fr s)"
proof (induction pt a b fr s rule: uvmunmap_loop.induct)
  case (1 pt a b fr s)
  then show ?case
    by (subst uvmunmap_loop.simps)
      (auto simp: Let_def intro!: holdsR_bind [OF keeps_walk] holdsR_bind [OF keeps_kfree] "1.IH")
qed

lemma keeps_uvmunmap: "keeps s0 s \<Longrightarrow> holdsR (keeps s0) (uvmunmap pt va n fr s)"
  by (simp add: uvmunmap_def keeps_uvmunmap_loop)

lemma keeps_cowalloc: "keeps s0 s \<Longrightarrow> holdsR (\<lambda>(r, s). keeps s0 s) (cowalloc pt va s)"
  by (auto simp: cowalloc_def Let_def intro!: holdsR_bind [OF keeps_walk] holdsR_bind [OF keeps_kalloc]
      holdsR_bind [OF keeps_uvmunmap] holdsR_bind [OF keeps_mappages])

lemma holdsR_bind_any: "(\<And>x. m = Ret x \<Longrightarrow> holdsR P (f x)) \<Longrightarrow> holdsR P (bindR m f)"
  by (rule holdsR_bind [where Q = "\<lambda>_. True"]) (auto simp: holdsR_def)

lemma keeps_copyout: "keeps s0 s \<Longrightarrow> holdsR (\<lambda>(r, s). keeps s0 s) (copyout pt dst src n s)"
proof (induction pt dst src n s rule: copyout.induct)
  case (1 pt dst src n s)
  then show ?case
    by (subst copyout.simps)
      (auto simp: Let_def intro!: holdsR_bind [OF keeps_cowalloc] holdsR_bind_any [of "walkaddr pt va s" for va s] "1.IH")
qed

text \<open>\<open>copyin\<close> and \<open>copyinstr\<close> change memory only.\<close>

definition only_mem :: "'a kmem_scheme \<Rightarrow> 'a kmem_scheme \<Rightarrow> bool" where
  "only_mem s s' \<longleftrightarrow> s'\<lparr>mem := mem s\<rparr> = s"

lemma only_mem_simps [simp]: "only_mem s s" "only_mem s (s'\<lparr>mem := m\<rparr>) = only_mem s s'"
  by (simp_all add: only_mem_def)

lemma only_mem_keeps: "only_mem s s' \<Longrightarrow> keeps s s'"
  unfolding only_mem_def keeps_def by (metis kmem.simps(5) kmem.select_convs(5) kmem.select_convs(4) kmem.surjective kmem.update_convs(1))

lemma only_mem_copyin: "only_mem s0 s \<Longrightarrow> holdsR (\<lambda>(r, s). only_mem s0 s) (copyin pt dst src n s)"
proof (induction pt dst src n s rule: copyin.induct)
  case (1 pt dst src n s)
  then show ?case
    by (subst copyin.simps) (auto simp: Let_def intro!: holdsR_bind_any "1.IH")
qed

lemma only_mem_copyinstr: "only_mem s0 s \<Longrightarrow> holdsR (\<lambda>(r, s). only_mem s0 s) (copyinstr pt dst src n s)"
proof (induction pt dst src n s rule: copyinstr.induct)
  case (1 pt dst src n s)
  then show ?case
    by (subst copyinstr.simps) (auto simp: Let_def split: prod.splits intro!: holdsR_bind_any "1.IH")
qed

end
