(* ===== verification/Kernel.thy ===== *)
theory Kernel
  imports Proc Frame Bytes
begin

text \<open>
  The process side of the kernel state and the copying between kernel objects and user
  memory (\<open>either_copyout\<close>, \<open>either_copyin\<close> of \<^verbatim>\<open>proc.c\<close>, \<^verbatim>\<open>syscall.c\<close>). Kernel variables that are
  not in allocated pages are fields of records; \<open>kbuf\<close> is the address of the kernel object
  or stack variable that is being copied, so that \<open>copyout\<close> and \<open>copyin\<close> of \<^verbatim>\<open>vm.c\<close>, which work
  on addresses, apply to them: the object's bytes are laid out there before they are copied
  out and read from there after they were copied in.
\<close>

record kproc = vmem +
  procs :: ptable
  nextpid :: s32
  initproc :: "nat option"
  kticks :: u32
  kbuf :: u64

definition put_bytes :: "memory \<Rightarrow> u64 \<Rightarrow> u8 list \<Rightarrow> memory" where
  "put_bytes m a bs = (\<lambda>x. if unat (x - a) < length bs then bs ! unat (x - a) else m x)"

definition get_bytes :: "memory \<Rightarrow> u64 \<Rightarrow> nat \<Rightarrow> u8 list" where
  "get_bytes m a n = map (\<lambda>i. m (a + of_nat i)) [0..<n]"

lemma length_get_bytes [simp]: "length (get_bytes m a n) = n"
  by (simp add: get_bytes_def)

lemma get_put_bytes:
  assumes "length bs < 2 ^ 64"
  shows "get_bytes (put_bytes m a bs) a (length bs) = bs"
  using assms by (intro nth_equalityI) (auto simp: get_bytes_def put_bytes_def unat_of_nat)

section \<open>Copying kernel objects\<close>

definition copyout_obj :: "u64 \<Rightarrow> u64 \<Rightarrow> u8 list \<Rightarrow> 'a kproc_scheme \<Rightarrow> (int \<times> 'a kproc_scheme) res" where
  "copyout_obj pagetable dst bs s =
     copyout pagetable dst (kbuf s) (of_nat (length bs)) (s\<lparr>mem := put_bytes (mem s) (kbuf s) bs\<rparr>)"

definition copyin_obj :: "u64 \<Rightarrow> u64 \<Rightarrow> nat \<Rightarrow> 'a kproc_scheme \<Rightarrow> (int \<times> u8 list \<times> 'a kproc_scheme) res" where
  "copyin_obj pagetable src n s =
     bindR (copyin pagetable (kbuf s) src (of_nat n) s) (\<lambda>(r, s).
       Ret (r, get_bytes (mem s) (kbuf s) n, s))"

definition either_copyout :: "nat \<Rightarrow> bool \<Rightarrow> u64 \<Rightarrow> u8 list \<Rightarrow> 'a kproc_scheme \<Rightarrow> (int \<times> 'a kproc_scheme) res" where
  "either_copyout me user_dst dst bs s =
     (if user_dst then copyout_obj (p_pagetable (procs s ! me)) dst bs s
      else Ret (0, s\<lparr>mem := put_bytes (mem s) dst bs\<rparr>))"

definition either_copyin :: "nat \<Rightarrow> bool \<Rightarrow> u64 \<Rightarrow> nat \<Rightarrow> 'a kproc_scheme \<Rightarrow> (int \<times> u8 list \<times> 'a kproc_scheme) res" where
  "either_copyin me user_src src n s =
     (if user_src then copyin_obj (p_pagetable (procs s ! me)) src n s
      else Ret (0, get_bytes (mem s) src n, s))"

lemma keeps_kproc:
  fixes s s' :: "'a kproc_scheme"
  assumes "keeps s s'"
  shows "procs s' = procs s" and "kbuf s' = kbuf s" and "nextpid s' = nextpid s" and "initproc s' = initproc s"
    and "kticks s' = kticks s" and "kproc.more s' = kproc.more s"
  using assms by (cases s; cases s'; simp add: keeps_def)+

lemma keeps_copyout_obj: "keeps s0 s \<Longrightarrow> holdsR (\<lambda>(r, s). keeps s0 s) (copyout_obj pt dst bs s)"
  by (simp add: copyout_obj_def keeps_copyout)

lemma keeps_copyin_obj: "keeps s0 s \<Longrightarrow> holdsR (\<lambda>(r, bs, s). keeps s0 s \<and> length bs = n) (copyin_obj pt src n s)"
proof -
  assume k: "keeps s0 s"
  have "only_mem s s" by simp
  from only_mem_copyin [OF this] show ?thesis
    unfolding copyin_obj_def
    by (rule holdsR_bind) (use k in \<open>auto dest!: only_mem_keeps simp: keeps_def\<close>)
qed

section \<open>Process table operations on the whole state\<close>

definition k_wakeup :: "nat option \<Rightarrow> chan \<Rightarrow> 'a kproc_scheme \<Rightarrow> 'a kproc_scheme" where
  "k_wakeup me ch s = s\<lparr>procs := wakeup me ch (procs s)\<rparr>"

definition upd_proc :: "nat \<Rightarrow> (proc \<Rightarrow> proc) \<Rightarrow> 'a kproc_scheme \<Rightarrow> 'a kproc_scheme" where
  "upd_proc i f s = s\<lparr>procs := upd_entry i f (procs s)\<rparr>"

section \<open>System call arguments\<close>

text \<open>The saved user registers, at their offsets in the trapframe page.\<close>


definition tf_get :: "nat \<Rightarrow> u64 \<Rightarrow> 'a kproc_scheme \<Rightarrow> u64" where
  "tf_get me off s = ld64 (mem s) (p_trapframe (procs s ! me) + off)"

definition tf_set :: "nat \<Rightarrow> u64 \<Rightarrow> u64 \<Rightarrow> 'a kproc_scheme \<Rightarrow> 'a kproc_scheme" where
  "tf_set me off v s = s\<lparr>mem := st64 (mem s) (p_trapframe (procs s ! me) + off) v\<rparr>"

definition argraw :: "nat \<Rightarrow> nat \<Rightarrow> 'a kproc_scheme \<Rightarrow> u64 res" where
  "argraw me n s =
     (if n = 0 then Ret (tf_get me 112 s)
      else if n = 1 then Ret (tf_get me 120 s)
      else if n = 2 then Ret (tf_get me 128 s)
      else if n = 3 then Ret (tf_get me 136 s)
      else if n = 4 then Ret (tf_get me 144 s)
      else if n = 5 then Ret (tf_get me 152 s)
      else Panic ''argraw'')"

definition argint :: "nat \<Rightarrow> nat \<Rightarrow> 'a kproc_scheme \<Rightarrow> s32 res" where
  "argint me n s = bindR (argraw me n s) (\<lambda>v. Ret (ucast v))"

definition argaddr :: "nat \<Rightarrow> nat \<Rightarrow> 'a kproc_scheme \<Rightarrow> u64 res" where
  "argaddr me n s = argraw me n s"

definition fetchaddr :: "nat \<Rightarrow> u64 \<Rightarrow> 'a kproc_scheme \<Rightarrow> (int \<times> u64 \<times> 'a kproc_scheme) res" where
  "fetchaddr me addr s =
     (let p = procs s ! me in
      if addr \<ge> p_sz p \<or> addr + 8 > p_sz p then Ret (-1, 0, s)
      else bindR (copyin_obj (p_pagetable p) addr 8 s) (\<lambda>(r, bs, s).
        if r \<noteq> 0 then Ret (-1, 0, s) else Ret (0, le_word bs, s)))"

text \<open>The buffer of \<open>fetchstr\<close> is a kernel object too; the result is its characters.\<close>

definition fetchstr :: "nat \<Rightarrow> u64 \<Rightarrow> nat \<Rightarrow> 'a kproc_scheme \<Rightarrow> (int \<times> u8 list \<times> 'a kproc_scheme) res" where
  "fetchstr me addr max' s =
     bindR (copyinstr (p_pagetable (procs s ! me)) (kbuf s) addr (of_nat max') s) (\<lambda>(r, s).
       if r < 0 then Ret (-1, [], s)
       else let bs = takeWhile (\<lambda>b. b \<noteq> 0) (get_bytes (mem s) (kbuf s) max')
            in Ret (int (length bs), bs, s))"

definition argstr :: "nat \<Rightarrow> nat \<Rightarrow> nat \<Rightarrow> 'a kproc_scheme \<Rightarrow> (int \<times> u8 list \<times> 'a kproc_scheme) res" where
  "argstr me n max' s = bindR (argaddr me n s) (\<lambda>addr. fetchstr me addr max' s)"

end
