(* ===== verification/Ring.thy ===== *)
theory Ring
  imports Prelude
begin

text \<open>
  The circular buffers of the kernel (\<^verbatim>\<open>pipe.c\<close>, \<^verbatim>\<open>console.c\<close>, \<^verbatim>\<open>uart.c\<close>) count the bytes put in and
  taken out with indices that are never reset: \<open>buf[w++ % N]\<close> and \<open>buf[r++ % N]\<close>. The indices
  wrap around at the width of their type. That this is harmless rests on \<open>N\<close> being a power
  of two; the locale states it and gives the queue the buffer implements.
\<close>

text \<open>The bytes between the indices \<open>r\<close> and \<open>w\<close>, oldest first.\<close>

definition ring_list :: "'a::len word \<Rightarrow> 'b list \<Rightarrow> 'a word \<Rightarrow> 'a word \<Rightarrow> 'b list" where
  "ring_list N data r w = map (\<lambda>i. data ! unat ((r + of_nat i) mod N)) [0..<unat (w - r)]"

locale ring_buffer =
  fixes N :: "'a::len word" and k :: nat
  assumes size: "N = 2 ^ k" and width: "k < LENGTH('a)"
begin

lemma N_bound: "(2::nat) ^ k < 2 ^ LENGTH('a)"
  using width by simp

lemma unat_N: "unat N = 2 ^ k"
proof -
  have "unat (of_nat (2 ^ k) :: 'a word) = 2 ^ k" using N_bound by (simp only: unat_of_nat) simp
  then show ?thesis by (simp add: size)
qed

lemma unat_mod_N: "unat (x mod N) = unat x mod 2 ^ k"
  by (simp add: unat_mod unat_N)

lemma index_less: "length data = unat N \<Longrightarrow> unat (x mod N) < length data"
  by (simp add: unat_mod_N unat_N)

lemma unat_add_mod: "unat (x + y :: 'a word) mod 2 ^ k = (unat x + unat y) mod 2 ^ k"
proof -
  have "(2::nat) ^ k dvd 2 ^ LENGTH('a)" using width by (simp add: le_imp_power_dvd)
  then show ?thesis by (simp add: unat_word_ariths mod_mod_cancel)
qed

lemma length_ring_list [simp]: "length (ring_list N data r w) = unat (w - r)"
  by (simp add: ring_list_def)

lemma ring_list_empty [simp]: "ring_list N data r r = []"
  by (simp add: ring_list_def)

lemma ring_list_eq_Nil: "ring_list N data r w = [] \<longleftrightarrow> r = w"
  by (auto simp: ring_list_def unat_eq_0)

lemma unat_Suc_diff:
  assumes "unat (w - r) < 2 ^ k"
  shows "unat (w + 1 - r :: 'a word) = Suc (unat (w - r))"
proof -
  have "unat (w - r) + 1 < 2 ^ LENGTH('a)" using assms N_bound by linarith
  then have "unat (w - r + 1) = unat (w - r) + 1" by (simp add: unat_word_ariths)
  then show ?thesis by (simp add: algebra_simps)
qed

lemma ring_push:
  assumes "unat (w - r) < unat N" and "length data = unat N"
  shows "ring_list N (data[unat (w mod N) := c]) r (w + 1) = ring_list N data r w @ [c]"
proof -
  let ?d = "unat (w - r)"
  have d: "?d < 2 ^ k" using assms(1) by (simp add: unat_N)
  have same: "(r + of_nat ?d) mod N = w mod N" by simp
  have other: "unat ((r + of_nat i) mod N) \<noteq> unat (w mod N)" if "i < ?d" for i
  proof
    assume "unat ((r + of_nat i) mod N) = unat (w mod N)"
    then have "unat (r + of_nat i) mod 2 ^ k = unat (r + of_nat ?d) mod 2 ^ k"
      unfolding unat_mod_N [symmetric] same by simp
    moreover have "unat (of_nat i :: 'a word) = i"
    proof -
      have "i < 2 ^ LENGTH('a)" using that d N_bound by linarith
      then show ?thesis by (simp add: unat_of_nat)
    qed
    ultimately have "(unat r + i) mod 2 ^ k = (unat r + ?d) mod 2 ^ k"
      unfolding unat_add_mod by simp
    then have "2 ^ k dvd (unat r + ?d) - (unat r + i)"
      using that by (subst mod_eq_dvd_iff_nat [symmetric]) simp_all
    then show False using that d nat_dvd_not_less [of "?d - i" "2 ^ k"] by simp
  qed
  have "ring_list N (data[unat (w mod N) := c]) r (w + 1) =
      map (\<lambda>i. data[unat (w mod N) := c] ! unat ((r + of_nat i) mod N)) [0..<?d] @
      [data[unat (w mod N) := c] ! unat ((r + of_nat ?d) mod N)]"
    by (simp add: ring_list_def unat_Suc_diff [OF d])
  also have "\<dots> = ring_list N data r w @ [c]"
    using other [symmetric] index_less [OF assms(2)] unfolding ring_list_def same by simp
  finally show ?thesis .
qed

lemma ring_pop:
  assumes "r \<noteq> w"
  shows "ring_list N data r w = data ! unat (r mod N) # ring_list N data (r + 1) w"
proof -
  have "unat (w - r) \<noteq> 0" using assms by (simp add: unat_eq_0)
  moreover have "unat (w - (r + 1)) = unat (w - r) - 1"
    using unat_minus_one [of "w - r"] assms by (simp add: algebra_simps)
  ultimately obtain n where n: "unat (w - r) = Suc n" "unat (w - (r + 1)) = n"
    by (cases "unat (w - r)") auto
  show ?thesis unfolding ring_list_def n
    by (simp add: upt_conv_Cons map_Suc_upt [symmetric] algebra_simps del: upt_Suc)
qed

lemma ring_drop_last:
  assumes "r \<noteq> w"
  shows "ring_list N data r (w - 1) = butlast (ring_list N data r w)"
proof -
  have "unat (w - 1 - r) = unat (w - r) - 1"
    using unat_minus_one [of "w - r"] assms by (simp add: algebra_simps)
  moreover obtain n where "unat (w - r) = Suc n"
    using assms by (cases "unat (w - r)") (auto simp: unat_eq_0)
  ultimately show ?thesis by (simp add: ring_list_def butlast_append)
qed

lemma ring_last:
  assumes "r \<noteq> w"
  shows "last (ring_list N data r w) = data ! unat ((w - 1) mod N)"
proof -
  obtain n where n: "unat (w - r) = Suc n"
    using assms by (cases "unat (w - r)") (auto simp: unat_eq_0)
  have "r + of_nat n = w - 1"
  proof -
    have "of_nat (Suc n) = w - r" unfolding n [symmetric] by simp
    then show ?thesis by (simp add: algebra_simps)
  qed
  then show ?thesis using n by (simp add: ring_list_def)
qed

end

end
