(* ===== verification/Pipe.thy ===== *)
theory Pipe
  imports Kernel Ring
begin

text \<open>
  \<^verbatim>\<open>kernel/pipe.c\<close>, the part on one open pipe. A pipe lives in a page of its own; it is named
  by that page's address, and \<open>pipes\<close> gives its contents. \<open>pipewrite\<close> and \<open>piperead\<close> run under
  the pipe's lock until they return or sleep; a pass that ends in \<open>sleep\<close> says so, with the
  number of bytes done, and the process calls the function again from there when it wakes.
\<close>

definition PIPESIZE :: u32 where "PIPESIZE = 512"

record pipe =
  pi_data :: "u8 list"
  nread :: u32
  nwrite :: u32
  readopen :: bool
  writeopen :: bool

record kpipe = kproc +
  pipes :: "u64 \<Rightarrow> pipe"

definition upd_pipe :: "u64 \<Rightarrow> (pipe \<Rightarrow> pipe) \<Rightarrow> 'a kpipe_scheme \<Rightarrow> 'a kpipe_scheme" where
  "upd_pipe pi f s = s\<lparr>pipes := (pipes s)(pi := f (pipes s pi))\<rparr>"

text \<open>How a pass of a function that may sleep ends: a result, or asleep with some bytes done.\<close>

datatype io = Done int | Asleep chan int

definition pipeinit :: "u64 \<Rightarrow> 'a kpipe_scheme \<Rightarrow> 'a kpipe_scheme" where
  "pipeinit pi s = s\<lparr>pipes := (pipes s)(pi :=
     \<lparr>pi_data = get_bytes (mem s) pi (unat PIPESIZE), nread = 0, nwrite = 0, readopen = True, writeopen = True\<rparr>)\<rparr>"

definition pipeclose :: "nat \<Rightarrow> u64 \<Rightarrow> bool \<Rightarrow> 'a kpipe_scheme \<Rightarrow> 'a kpipe_scheme res" where
  "pipeclose me pi writable s =
     (let s = (if writable
               then k_wakeup (Some me) (Chan_nread pi) (upd_pipe pi (writeopen_update (\<lambda>_. False)) s)
               else k_wakeup (Some me) (Chan_nwrite pi) (upd_pipe pi (readopen_update (\<lambda>_. False)) s))
      in if \<not> readopen (pipes s pi) \<and> \<not> writeopen (pipes s pi) then kfree pi s else Ret s)"

text \<open>\<open>data[nwrite++ % PIPESIZE] = ch\<close> and its counterpart.\<close>

definition pipe_put :: "u8 \<Rightarrow> pipe \<Rightarrow> pipe" where
  "pipe_put ch p = p\<lparr>pi_data := (pi_data p)[unat (nwrite p mod PIPESIZE) := ch], nwrite := nwrite p + 1\<rparr>"

definition pipe_get :: "pipe \<Rightarrow> u8 \<times> pipe" where
  "pipe_get p = (pi_data p ! unat (nread p mod PIPESIZE), p\<lparr>nread := nread p + 1\<rparr>)"

function pipewrite :: "nat \<Rightarrow> u64 \<Rightarrow> u64 \<Rightarrow> int \<Rightarrow> int \<Rightarrow> 'a kpipe_scheme \<Rightarrow> (io \<times> 'a kpipe_scheme) res" where
  "pipewrite me pi addr n i s =
     (if i < n then
        if \<not> readopen (pipes s pi) \<or> killed me (procs s) then Ret (Done (-1), s)
        else if nwrite (pipes s pi) = nread (pipes s pi) + PIPESIZE
        then Ret (Asleep (Chan_nwrite pi) i, k_wakeup (Some me) (Chan_nread pi) s)
        else bindR (copyin_obj (p_pagetable (procs s ! me)) (addr + word_of_int i) 1 s) (\<lambda>(r, bs, s).
          if r = -1 then Ret (Done i, k_wakeup (Some me) (Chan_nread pi) s)
          else pipewrite me pi addr n (i + 1) (upd_pipe pi (pipe_put (hd bs)) s))
      else Ret (Done i, k_wakeup (Some me) (Chan_nread pi) s))"
  by pat_completeness auto
termination by (relation "measure (\<lambda>(me, pi, addr, n, i, s). nat (n - i))") auto

declare pipewrite.simps [simp del]

function piperead_loop :: "nat \<Rightarrow> u64 \<Rightarrow> u64 \<Rightarrow> int \<Rightarrow> int \<Rightarrow> 'a kpipe_scheme \<Rightarrow> (int \<times> 'a kpipe_scheme) res" where
  "piperead_loop me pi addr n i s =
     (if i < n then
        if nread (pipes s pi) = nwrite (pipes s pi) then Ret (i, s)
        else let (ch, p) = pipe_get (pipes s pi); s = upd_pipe pi (\<lambda>_. p) s in
          bindR (copyout_obj (p_pagetable (procs s ! me)) (addr + word_of_int i) [ch] s) (\<lambda>(r, s).
            if r = -1 then Ret (i, s) else piperead_loop me pi addr n (i + 1) s)
      else Ret (i, s))"
  by pat_completeness auto
termination by (relation "measure (\<lambda>(me, pi, addr, n, i, s). nat (n - i))") auto

declare piperead_loop.simps [simp del]

definition piperead :: "nat \<Rightarrow> u64 \<Rightarrow> u64 \<Rightarrow> int \<Rightarrow> 'a kpipe_scheme \<Rightarrow> (io \<times> 'a kpipe_scheme) res" where
  "piperead me pi addr n s =
     (if nread (pipes s pi) = nwrite (pipes s pi) \<and> writeopen (pipes s pi)
      then if killed me (procs s) then Ret (Done (-1), s) else Ret (Asleep (Chan_nread pi) 0, s)
      else bindR (piperead_loop me pi addr n 0 s) (\<lambda>(i, s).
        Ret (Done i, k_wakeup (Some me) (Chan_nwrite pi) s)))"

section \<open>A pipe is a bounded queue\<close>

interpretation pr: ring_buffer PIPESIZE 9
  by unfold_locales (simp_all add: PIPESIZE_def)

lemma unat_PIPESIZE [simp]: "unat PIPESIZE = 512"
  by (simp add: PIPESIZE_def)

definition pipe_queue :: "pipe \<Rightarrow> u8 list" where
  "pipe_queue p = ring_list PIPESIZE (pi_data p) (nread p) (nwrite p)"

definition pipe_ok :: "pipe \<Rightarrow> bool" where
  "pipe_ok p \<longleftrightarrow> length (pi_data p) = 512 \<and> length (pipe_queue p) \<le> 512"

lemma pipe_full_iff:
  assumes "pipe_ok p"
  shows "nwrite p = nread p + PIPESIZE \<longleftrightarrow> length (pipe_queue p) = 512"
proof -
  have "nwrite p = nread p + PIPESIZE \<longleftrightarrow> nwrite p - nread p = PIPESIZE" by (auto simp: algebra_simps)
  also have "\<dots> \<longleftrightarrow> unat (nwrite p - nread p) = unat PIPESIZE" by (auto simp: word_unat_eq_iff)
  finally show ?thesis by (simp add: pipe_queue_def)
qed

lemma pipe_empty_iff: "nread p = nwrite p \<longleftrightarrow> pipe_queue p = []"
  by (simp add: pipe_queue_def pr.ring_list_eq_Nil)

lemma pipe_put_queue:
  assumes "pipe_ok p" and "length (pipe_queue p) \<noteq> 512"
  shows "pipe_queue (pipe_put ch p) = pipe_queue p @ [ch]" and "pipe_ok (pipe_put ch p)"
proof -
  have "unat (nwrite p - nread p) < unat PIPESIZE" "length (pi_data p) = unat PIPESIZE"
    using assms by (auto simp: pipe_ok_def pipe_queue_def)
  from pr.ring_push [OF this, of ch] show q: "pipe_queue (pipe_put ch p) = pipe_queue p @ [ch]"
    by (simp add: pipe_queue_def pipe_put_def)
  show "pipe_ok (pipe_put ch p)" using assms q unfolding pipe_ok_def by (simp add: pipe_put_def)
qed

lemma pipe_get_queue:
  assumes "pipe_ok p" and "pipe_queue p \<noteq> []" and "pipe_get p = (ch, p')"
  shows "pipe_queue p = ch # pipe_queue p'" and "pipe_ok p'"
proof -
  have "nread p \<noteq> nwrite p" using assms(2) pipe_empty_iff by blast
  from pr.ring_pop [OF this, of "pi_data p"] assms(3) show q: "pipe_queue p = ch # pipe_queue p'"
    by (auto simp: pipe_queue_def pipe_get_def)
  have "pi_data p' = pi_data p" using assms(3) by (auto simp: pipe_get_def)
  moreover have "length (pipe_queue p') \<le> 512" using assms(1) q by (simp add: pipe_ok_def)
  ultimately show "pipe_ok p'" using assms(1) by (simp add: pipe_ok_def)
qed

lemma keeps_kpipe:
  fixes s s' :: "'a kpipe_scheme"
  assumes "keeps s s'"
  shows "pipes s' = pipes s"
  using assms by (cases s; cases s'; simp add: keeps_def)

lemma upd_pipe_simps [simp]:
  "pipes (upd_pipe pi f s) pi = f (pipes s pi)" "procs (upd_pipe pi f s) = procs s"
  "pi \<noteq> pi' \<Longrightarrow> pipes (upd_pipe pi f s) pi' = pipes s pi'"
  by (simp_all add: upd_pipe_def)

lemma k_wakeup_pipes [simp]: "pipes (k_wakeup me ch s) = pipes s"
  by (simp add: k_wakeup_def)

text \<open>The state of the other processes and pipes: what a pass may not touch.\<close>

definition others_kept :: "u64 \<Rightarrow> 'a kpipe_scheme \<Rightarrow> 'a kpipe_scheme \<Rightarrow> bool" where
  "others_kept pi s s' \<longleftrightarrow> (\<forall>pi'. pi' \<noteq> pi \<longrightarrow> pipes s' pi' = pipes s pi')"

lemma pipewrite_spec:
  assumes "pipewrite me pi addr n i s = Ret (out, s')" and "pipe_ok (pipes s pi)"
  shows "\<exists>bs. pipe_queue (pipes s' pi) = pipe_queue (pipes s pi) @ bs \<and> pipe_ok (pipes s' pi) \<and>
    others_kept pi s s' \<and> int (length bs) \<le> max 0 (n - i) \<and>
    (case out of Done r \<Rightarrow> r = -1 \<or> r = i + int (length bs)
     | Asleep ch j \<Rightarrow> ch = Chan_nwrite pi \<and> j = i + int (length bs) \<and> j < n \<and> length (pipe_queue (pipes s' pi)) = 512)"
  using assms
proof (induction me pi addr n i s arbitrary: out s' rule: pipewrite.induct)
  case (1 me pi addr n i s)
  let ?P = "\<lambda>s i s' out. \<exists>bs. pipe_queue (pipes s' pi) = pipe_queue (pipes s pi) @ bs \<and> pipe_ok (pipes s' pi) \<and>
    others_kept pi s s' \<and> int (length bs) \<le> max 0 (n - i) \<and>
    (case out of Done r \<Rightarrow> r = -1 \<or> r = i + int (length bs)
     | Asleep ch j \<Rightarrow> ch = Chan_nwrite pi \<and> j = i + int (length bs) \<and> j < n \<and> length (pipe_queue (pipes s' pi)) = 512)"
  note ok = "1.prems"(2)
  note step = "1.prems"(1) [unfolded pipewrite.simps [of me pi addr n i s]]
  show ?case
  proof (cases "i < n \<and> readopen (pipes s pi) \<and> \<not> killed me (procs s) \<and>
      nwrite (pipes s pi) \<noteq> nread (pipes s pi) + PIPESIZE")
    case False
    then show ?thesis using step ok pipe_full_iff [OF ok]
      by (intro exI [of _ "[]"]) (auto simp: others_kept_def split: if_splits)
  next
    case True
    note run = True
    obtain r bs s1 where c: "copyin_obj (p_pagetable (procs s ! me)) (addr + word_of_int i) 1 s = Ret (r, bs, s1)"
      using step run by (auto simp: res_simps)
    have "keeps s s1" using holdsR_D [OF keeps_copyin_obj [of s s] c] by simp
    then have s1: "pipes s1 = pipes s" by (rule keeps_kpipe)
    show ?thesis
    proof (cases "r = -1")
      case True
      then show ?thesis using step run c s1 ok
        by (intro exI [of _ "[]"]) (auto simp: others_kept_def)
    next
      case False
      let ?s2 = "upd_pipe pi (pipe_put (hd bs)) s1"
      have nf: "length (pipe_queue (pipes s pi)) \<noteq> 512" using run pipe_full_iff [OF ok] by simp
      note put = pipe_put_queue [OF ok nf, of "hd bs"]
      have rec: "pipewrite me pi addr n (i + 1) ?s2 = Ret (out, s')" using step run c False by simp
      have ok2: "pipe_ok (pipes ?s2 pi)" using put s1 by simp
      have "?P ?s2 (i + 1) s' out"
        using "1.IH" [OF _ _ _ c refl refl False rec ok2] run by simp
      then obtain bs' where bs': "pipe_queue (pipes s' pi) = pipe_queue (pipes ?s2 pi) @ bs'" "pipe_ok (pipes s' pi)"
        "others_kept pi ?s2 s'" "int (length bs') \<le> max 0 (n - (i + 1))"
        "case out of Done r \<Rightarrow> r = -1 \<or> r = i + 1 + int (length bs')
         | Asleep ch j \<Rightarrow> ch = Chan_nwrite pi \<and> j = i + 1 + int (length bs') \<and> j < n \<and> length (pipe_queue (pipes s' pi)) = 512"
        by blast
      show ?thesis
      proof (intro exI [of _ "hd bs # bs'"] conjI)
        show "pipe_queue (pipes s' pi) = pipe_queue (pipes s pi) @ hd bs # bs'" using bs'(1) put s1 by simp
        show "others_kept pi s s'" using bs'(3) s1 by (simp add: others_kept_def)
        show "int (length (hd bs # bs')) \<le> max 0 (n - i)" using bs'(4) run by simp
        show "case out of Done r \<Rightarrow> r = -1 \<or> r = i + int (length (hd bs # bs'))
          | Asleep ch j \<Rightarrow> ch = Chan_nwrite pi \<and> j = i + int (length (hd bs # bs')) \<and> j < n \<and>
            length (pipe_queue (pipes s' pi)) = 512"
          using bs'(5) by (cases out) auto
      qed (rule bs'(2))
    qed
  qed
qed

lemma piperead_loop_spec:
  assumes "piperead_loop me pi addr n i s = Ret (j, s')" and "pipe_ok (pipes s pi)"
  shows "\<exists>bs lost. pipe_queue (pipes s pi) = bs @ lost @ pipe_queue (pipes s' pi) \<and> pipe_ok (pipes s' pi) \<and>
    others_kept pi s s' \<and> j = i + int (length bs) \<and> length lost \<le> 1 \<and> (i \<le> n \<longrightarrow> j \<le> n) \<and>
    (lost = [] \<longrightarrow> j \<ge> n \<or> pipe_queue (pipes s' pi) = [])"
  using assms
proof (induction me pi addr n i s arbitrary: j s' rule: piperead_loop.induct)
  case (1 me pi addr n i s)
  note ok = "1.prems"(2)
  note step = "1.prems"(1) [unfolded piperead_loop.simps [of me pi addr n i s]]
  show ?case
  proof (cases "i < n \<and> nread (pipes s pi) \<noteq> nwrite (pipes s pi)")
    case False
    then have "s' = s" "j = i" "j \<ge> n \<or> pipe_queue (pipes s' pi) = []"
      using step pipe_empty_iff [of "pipes s pi"] by (auto split: if_splits)
    then show ?thesis using ok by (intro exI [of _ "[]"]) (auto simp: others_kept_def)
  next
    case True
    note run = True
    obtain ch p where get: "pipe_get (pipes s pi) = (ch, p)" by fastforce
    have "pipe_queue (pipes s pi) \<noteq> []" using run pipe_empty_iff by blast
    note q = pipe_get_queue [OF ok this get]
    let ?s1 = "upd_pipe pi (\<lambda>_. p) s"
    obtain r s2 where c: "copyout_obj (p_pagetable (procs ?s1 ! me)) (addr + word_of_int i) [ch] ?s1 = Ret (r, s2)"
      using step run get by (auto simp: res_simps)
    have "keeps ?s1 s2" using holdsR_D [OF keeps_copyout_obj [of ?s1 ?s1] c] by simp
    then have s2: "pipes s2 = pipes ?s1" by (rule keeps_kpipe)
    show ?thesis
    proof (cases "r = -1")
      case True
      then have e: "s' = s2" "j = i" using step run get c by auto
      show ?thesis
        by (rule exI [of _ "[]"], rule exI [of _ "[ch]"])
          (use e q s2 run in \<open>auto simp: others_kept_def\<close>)
    next
      case False
      have rec: "piperead_loop me pi addr n (i + 1) s2 = Ret (j, s')" using step run get c False by simp
      have ok2: "pipe_ok (pipes s2 pi)" using q s2 by simp
      obtain bs lost where b: "pipe_queue (pipes s2 pi) = bs @ lost @ pipe_queue (pipes s' pi)" "pipe_ok (pipes s' pi)"
        "others_kept pi s2 s'" "j = i + 1 + int (length bs)" "length lost \<le> 1" "i + 1 \<le> n \<longrightarrow> j \<le> n"
        "lost = [] \<longrightarrow> j \<ge> n \<or> pipe_queue (pipes s' pi) = []"
        using "1.IH" [OF _ _ get [symmetric] refl refl c refl False rec ok2] run by auto
      show ?thesis
      proof (rule exI [of _ "ch # bs"], rule exI [of _ lost], intro conjI)
        show "pipe_queue (pipes s pi) = (ch # bs) @ lost @ pipe_queue (pipes s' pi)" using q(1) b(1) s2 by simp
        show "others_kept pi s s'" using b(3) s2 by (simp add: others_kept_def)
        show "i \<le> n \<longrightarrow> j \<le> n" using b(6) run by simp
      qed (use b in simp_all)
    qed
  qed
qed


end
