(* ===== verification/Console.thy ===== *)
theory Console
  imports Pipe
begin

text \<open>
  \<^verbatim>\<open>kernel/uart.c\<close> and \<^verbatim>\<open>kernel/console.c\<close>. The serial device is what it has sent (\<open>tx_out\<close>), the
  bytes that have arrived (\<open>rx_in\<close>), and how many more bytes it takes before it is busy
  (\<open>tx_room\<close>, the meaning of \<open>LSR_TX_IDLE\<close>). A function that busy-waits for the device goes on
  when the device is ready. Functions that sleep return the state at the sleep, as in
  the pipe component.
\<close>

definition UART_TX_BUF_SIZE :: u64 where "UART_TX_BUF_SIZE = 32"
definition INPUT_BUF_SIZE :: u32 where "INPUT_BUF_SIZE = 128"
definition BACKSPACE :: u32 where "BACKSPACE = 0x100"

record kcons = kpipe +
  uart_tx_buf :: "u8 list"
  uart_tx_w :: u64
  uart_tx_r :: u64
  panicked :: bool
  tx_out :: "u8 list"
  tx_room :: nat
  rx_in :: "u8 list"
  cons_buf :: "u8 list"
  cons_r :: u32
  cons_w :: u32
  cons_e :: u32
  dumped :: "(s32 \<times> int \<times> u32) list"

section \<open>The serial line\<close>

function uartstart :: "nat option \<Rightarrow> 'a kcons_scheme \<Rightarrow> 'a kcons_scheme" where
  "uartstart me s =
     (if uart_tx_w s = uart_tx_r s then s
      else if tx_room s = 0 then s
      else let c = uart_tx_buf s ! unat (uart_tx_r s mod UART_TX_BUF_SIZE);
               s = s\<lparr>uart_tx_r := uart_tx_r s + 1\<rparr>;
               s = k_wakeup me Chan_uart s
           in uartstart me (s\<lparr>tx_out := tx_out s @ [c], tx_room := tx_room s - 1\<rparr>))"
  by pat_completeness auto
termination by (relation "measure (\<lambda>(me, s). tx_room s)") (auto simp: k_wakeup_def)

declare uartstart.simps [simp del]

text \<open>\<open>uartputc\<close>: the flag is true when the pass ended in \<open>sleep(&uart_tx_r, ...)\<close>.\<close>

definition uartputc :: "nat \<Rightarrow> u8 \<Rightarrow> 'a kcons_scheme \<Rightarrow> (bool \<times> 'a kcons_scheme) res" where
  "uartputc me c s =
     (if panicked s then Block
      else if uart_tx_w s = uart_tx_r s + UART_TX_BUF_SIZE then Ret (True, s)
      else let s = s\<lparr>uart_tx_buf := (uart_tx_buf s)[unat (uart_tx_w s mod UART_TX_BUF_SIZE) := c]\<rparr>;
               s = s\<lparr>uart_tx_w := uart_tx_w s + 1\<rparr>
           in Ret (False, uartstart (Some me) s))"

definition uartputc_sync :: "u8 \<Rightarrow> 'a kcons_scheme \<Rightarrow> 'a kcons_scheme res" where
  "uartputc_sync c s = (if panicked s then Block else Ret (s\<lparr>tx_out := tx_out s @ [c]\<rparr>))"

definition uartgetc :: "'a kcons_scheme \<Rightarrow> int \<times> 'a kcons_scheme" where
  "uartgetc s = (case rx_in s of [] \<Rightarrow> (-1, s) | c # cs \<Rightarrow> (uint c, s\<lparr>rx_in := cs\<rparr>))"

section \<open>The console\<close>

definition consputc :: "u32 \<Rightarrow> 'a kcons_scheme \<Rightarrow> 'a kcons_scheme res" where
  "consputc c s =
     (if c = BACKSPACE
      then bindR (uartputc_sync 8 s) (\<lambda>s. bindR (uartputc_sync 32 s) (uartputc_sync 8))
      else uartputc_sync (ucast c) s)"

function consolewrite :: "nat \<Rightarrow> bool \<Rightarrow> u64 \<Rightarrow> int \<Rightarrow> int \<Rightarrow> 'a kcons_scheme \<Rightarrow> (io \<times> 'a kcons_scheme) res" where
  "consolewrite me user_src src n i s =
     (if i < n then
        bindR (either_copyin me user_src (src + word_of_int i) 1 s) (\<lambda>(r, bs, s).
          if r = -1 then Ret (Done i, s)
          else bindR (uartputc me (hd bs) s) (\<lambda>(asleep, s).
            if asleep then Ret (Asleep Chan_uart i, s)
            else consolewrite me user_src src n (i + 1) s))
      else Ret (Done i, s))"
  by pat_completeness auto
termination by (relation "measure (\<lambda>(me, user_src, src, n, i, s). nat (n - i))") auto

declare consolewrite.simps [simp del]

text \<open>The loop of \<open>consoleread\<close>, with \<open>n\<close> bytes still wanted; asleep it remembers that number.\<close>

function consoleread_loop :: "nat \<Rightarrow> bool \<Rightarrow> u64 \<Rightarrow> int \<Rightarrow> int \<Rightarrow> 'a kcons_scheme \<Rightarrow> (io \<times> 'a kcons_scheme) res" where
  "consoleread_loop me user_dst dst target n s =
     (if n > 0 then
        if cons_r s = cons_w s
        then if killed me (procs s) then Ret (Done (-1), s) else Ret (Asleep Chan_cons n, s)
        else let c = cons_buf s ! unat (cons_r s mod INPUT_BUF_SIZE);
                 s = s\<lparr>cons_r := cons_r s + 1\<rparr> in
          if c = 4 then Ret (Done (target - n), if n < target then s\<lparr>cons_r := cons_r s - 1\<rparr> else s)
          else bindR (either_copyout me user_dst dst [c] s) (\<lambda>(r, s).
            if r = -1 then Ret (Done (target - n), s)
            else if c = 10 then Ret (Done (target - (n - 1)), s)
            else consoleread_loop me user_dst (dst + 1) target (n - 1) s)
      else Ret (Done (target - n), s))"
  by pat_completeness auto
termination by (relation "measure (\<lambda>(me, user_dst, dst, target, n, s). nat n)") auto

declare consoleread_loop.simps [simp del]

definition consoleread :: "nat \<Rightarrow> bool \<Rightarrow> u64 \<Rightarrow> int \<Rightarrow> 'a kcons_scheme \<Rightarrow> (io \<times> 'a kcons_scheme) res" where
  "consoleread me user_dst dst n s = consoleread_loop me user_dst dst n n s"

text \<open>The loop of control-U.\<close>

function kill_line :: "'a kcons_scheme \<Rightarrow> 'a kcons_scheme res" where
  "kill_line s =
     (if cons_e s \<noteq> cons_w s \<and> cons_buf s ! unat ((cons_e s - 1) mod INPUT_BUF_SIZE) \<noteq> 10
      then bindR (consputc BACKSPACE (s\<lparr>cons_e := cons_e s - 1\<rparr>)) kill_line
      else Ret s)"
  by pat_completeness auto
termination
proof (relation "measure (\<lambda>s. unat (cons_e s - cons_w s))", goal_cases)
  case (2 s s')
  have "cons_e s' = cons_e s - 1" "cons_w s' = cons_w s"
    using 2(2) by (auto simp: consputc_def uartputc_sync_def res_simps split: if_splits)
  then have "cons_e s' - cons_w s' = cons_e s - cons_w s - 1" by simp
  moreover have "unat (cons_e s - cons_w s - 1) < unat (cons_e s - cons_w s)"
    using 2(1) unat_minus_one [of "cons_e s - cons_w s"] by (simp add: unat_gt_0)
  ultimately show ?case by simp
qed simp

declare kill_line.simps [simp del]

text \<open>\<open>procdump\<close> prints a line per live process: the pid, the dynamic priority, the time.\<close>

definition procdump :: "'a kcons_scheme \<Rightarrow> 'a kcons_scheme" where
  "procdump s = s\<lparr>dumped := dumped s @ map (\<lambda>p.
      (p_pid p, min (sint (p_static_pri p + p_curr_rbi p)) 100, kticks s))
     (filter (\<lambda>p. p_state p \<noteq> UNUSED) (procs s))\<rparr>"

definition consoleintr :: "nat option \<Rightarrow> u32 \<Rightarrow> 'a kcons_scheme \<Rightarrow> 'a kcons_scheme res" where
  "consoleintr me c s =
     (if c = 16 then Ret (procdump s)
      else if c = 21 then kill_line s
      else if c = 8 \<or> c = 127 then
        if cons_e s \<noteq> cons_w s then consputc BACKSPACE (s\<lparr>cons_e := cons_e s - 1\<rparr>) else Ret s
      else if c \<noteq> 0 \<and> cons_e s - cons_r s < INPUT_BUF_SIZE then
        let c = (if c = 13 then 10 else c) in
        bindR (consputc c s) (\<lambda>s.
          let s = s\<lparr>cons_buf := (cons_buf s)[unat (cons_e s mod INPUT_BUF_SIZE) := ucast c]\<rparr>;
              s = s\<lparr>cons_e := cons_e s + 1\<rparr>
          in Ret (if c = 10 \<or> c = 4 \<or> cons_e s - cons_r s = INPUT_BUF_SIZE
                  then k_wakeup me Chan_cons (s\<lparr>cons_w := cons_e s\<rparr>) else s))
      else Ret s)"

text \<open>\<open>while((c = uartgetc()) != -1) consoleintr(c)\<close>; nothing in it adds to \<open>rx_in\<close>.\<close>

fun uartintr_loop :: "nat option \<Rightarrow> u8 list \<Rightarrow> 'a kcons_scheme \<Rightarrow> 'a kcons_scheme res" where
  "uartintr_loop me [] s = Ret s"
| "uartintr_loop me (c # cs) s =
     bindR (consoleintr me (ucast c) (snd (uartgetc s))) (uartintr_loop me cs)"

definition uartintr :: "nat option \<Rightarrow> 'a kcons_scheme \<Rightarrow> 'a kcons_scheme res" where
  "uartintr me s = bindR (uartintr_loop me (rx_in s) s) (\<lambda>s. Ret (uartstart me s))"

section \<open>Output keeps its order\<close>

interpretation ur: ring_buffer UART_TX_BUF_SIZE 5
  by unfold_locales (simp_all add: UART_TX_BUF_SIZE_def)

interpretation cr: ring_buffer INPUT_BUF_SIZE 7
  by unfold_locales (simp_all add: INPUT_BUF_SIZE_def)

text \<open>The bytes waiting for the device, and all that were ever put out.\<close>

definition uart_queue :: "'a kcons_scheme \<Rightarrow> u8 list" where
  "uart_queue s = ring_list UART_TX_BUF_SIZE (uart_tx_buf s) (uart_tx_r s) (uart_tx_w s)"

definition uart_ok :: "'a kcons_scheme \<Rightarrow> bool" where
  "uart_ok s \<longleftrightarrow> length (uart_tx_buf s) = 32 \<and> length (uart_queue s) \<le> 32"

lemma uartstart_order:
  assumes "uart_ok s"
  shows "uart_ok (uartstart me s) \<and>
    tx_out (uartstart me s) @ uart_queue (uartstart me s) = tx_out s @ uart_queue s \<and>
    (tx_room (uartstart me s) = 0 \<or> uart_queue (uartstart me s) = [])"
  using assms
proof (induction me s rule: uartstart.induct)
  case (1 me s)
  show ?case
  proof (cases "uart_tx_w s = uart_tx_r s \<or> tx_room s = 0")
    case True
    then have "uartstart me s = s" by (subst uartstart.simps) auto
    then show ?thesis using True "1.prems" by (auto simp: uart_queue_def ur.ring_list_eq_Nil)
  next
    case False
    let ?c = "uart_tx_buf s ! unat (uart_tx_r s mod UART_TX_BUF_SIZE)"
    let ?s1 = "k_wakeup me Chan_uart (s\<lparr>uart_tx_r := uart_tx_r s + 1\<rparr>)"
    let ?s2 = "?s1\<lparr>tx_out := tx_out ?s1 @ [?c], tx_room := tx_room ?s1 - 1\<rparr>"
    have e: "uartstart me s = uartstart me ?s2"
      using False by (subst uartstart.simps) (simp add: Let_def)
    have q: "uart_queue s = ?c # uart_queue ?s2"
      using ur.ring_pop [of "uart_tx_r s" "uart_tx_w s" "uart_tx_buf s"] False
      by (auto simp: uart_queue_def k_wakeup_def)
    then have ok2: "uart_ok ?s2" using "1.prems" by (simp add: uart_ok_def) (simp add: k_wakeup_def)
    have "tx_out ?s2 = tx_out s @ [?c]" by (simp add: k_wakeup_def)
    then show ?thesis using "1.IH" [OF _ _ refl refl refl ok2] False e q by simp
  qed
qed

text \<open>
  C28 The serial output keeps its order: a byte given to \<open>uartputc\<close> joins the end of what was
  sent and what waits, nothing is lost or reordered, whatever the 64-bit counters, and the
  call sleeps, changing nothing, exactly when 32 bytes wait. Afterwards the device is busy
  or the buffer is empty, so a waiting byte is never forgotten.
\<close>

theorem uartputc_order:
  assumes "uart_ok s" and "\<not> panicked s"
  shows "\<exists>asleep s'. uartputc me c s = Ret (asleep, s') \<and> uart_ok s' \<and>
    (asleep \<longleftrightarrow> length (uart_queue s) = 32) \<and> (asleep \<longrightarrow> s' = s) \<and>
    (\<not> asleep \<longrightarrow> tx_out s' @ uart_queue s' = tx_out s @ uart_queue s @ [c] \<and>
       (tx_room s' = 0 \<or> uart_queue s' = []))"
proof -
  have sz: "unat UART_TX_BUF_SIZE = 32" by (simp add: UART_TX_BUF_SIZE_def)
  have full: "uart_tx_w s = uart_tx_r s + UART_TX_BUF_SIZE \<longleftrightarrow> length (uart_queue s) = 32"
  proof -
    have "uart_tx_w s = uart_tx_r s + UART_TX_BUF_SIZE \<longleftrightarrow> uart_tx_w s - uart_tx_r s = UART_TX_BUF_SIZE"
      by (auto simp: algebra_simps)
    then show ?thesis using sz by (simp add: uart_queue_def word_unat_eq_iff)
  qed
  let ?s = "s\<lparr>uart_tx_buf := (uart_tx_buf s)[unat (uart_tx_w s mod UART_TX_BUF_SIZE) := c],
    uart_tx_w := uart_tx_w s + 1\<rparr>"
  show ?thesis
  proof (cases "length (uart_queue s) = 32")
    case True
    then show ?thesis using assms full by (intro exI [of _ True] exI [of _ s]) (simp add: uartputc_def)
  next
    case False
    then have lt: "unat (uart_tx_w s - uart_tx_r s) < unat UART_TX_BUF_SIZE" "length (uart_tx_buf s) = unat UART_TX_BUF_SIZE"
      using assms(1) sz by (auto simp: uart_ok_def uart_queue_def)
    have q: "uart_queue ?s = uart_queue s @ [c]"
      using ur.ring_push [OF lt, of c] by (simp add: uart_queue_def)
    then have "uart_ok ?s" using assms(1) False by (simp add: uart_ok_def)
    from uartstart_order [OF this, of "Some me"] q show ?thesis
      using assms(2) False full
      by (intro exI [of _ False] exI [of _ "uartstart (Some me) ?s"]) (simp add: uartputc_def Let_def)
  qed
qed

section \<open>The line discipline\<close>

text \<open>
  What has been typed and not yet read is the bytes from \<open>cons.r\<close> to \<open>cons.e\<close>: first the
  lines that are complete, up to \<open>cons.w\<close>, then the line being edited.
\<close>

definition typed :: "'a kcons_scheme \<Rightarrow> u8 list" where
  "typed s = ring_list INPUT_BUF_SIZE (cons_buf s) (cons_r s) (cons_e s)"

definition ncommitted :: "'a kcons_scheme \<Rightarrow> nat" where
  "ncommitted s = unat (cons_w s - cons_r s)"

definition committed :: "'a kcons_scheme \<Rightarrow> u8 list" where
  "committed s = take (ncommitted s) (typed s)"

definition editing :: "'a kcons_scheme \<Rightarrow> u8 list" where
  "editing s = drop (ncommitted s) (typed s)"

definition cons_ok :: "'a kcons_scheme \<Rightarrow> bool" where
  "cons_ok s \<longleftrightarrow> length (cons_buf s) = 128 \<and> length (typed s) \<le> 128 \<and> ncommitted s \<le> length (typed s)"

lemma unat_INPUT_BUF_SIZE [simp]: "unat INPUT_BUF_SIZE = 128"
  by (simp add: INPUT_BUF_SIZE_def)

lemma consputc_Ret:
  assumes "\<not> panicked s"
  shows "\<exists>bs. consputc c s = Ret (s\<lparr>tx_out := tx_out s @ bs\<rparr>) \<and> (c \<noteq> BACKSPACE \<longrightarrow> bs = [ucast c])"
  using assms by (auto simp: consputc_def uartputc_sync_def)

lemma typed_tx_out [simp]:
  "typed (s\<lparr>tx_out := x\<rparr>) = typed s" "ncommitted (s\<lparr>tx_out := x\<rparr>) = ncommitted s"
  by (simp_all add: typed_def ncommitted_def)

lemma typed_wakeup [simp]:
  "typed (k_wakeup me ch s) = typed s" "ncommitted (k_wakeup me ch s) = ncommitted s"
  "cons_buf (k_wakeup me ch s) = cons_buf s" "panicked (k_wakeup me ch s) = panicked s"
  by (simp_all add: typed_def ncommitted_def k_wakeup_def)

lemma editing_empty_iff:
  assumes "cons_ok s"
  shows "cons_e s = cons_w s \<longleftrightarrow> editing s = []"
proof -
  have "editing s = [] \<longleftrightarrow> unat (cons_e s - cons_r s) \<le> unat (cons_w s - cons_r s)"
    by (simp add: editing_def typed_def ncommitted_def)
  also have "\<dots> \<longleftrightarrow> unat (cons_e s - cons_r s) = unat (cons_w s - cons_r s)"
    using assms by (auto simp: cons_ok_def typed_def ncommitted_def)
  also have "\<dots> \<longleftrightarrow> cons_e s = cons_w s" by (simp add: word_unat_eq_iff [symmetric])
  finally show ?thesis by blast
qed

lemma erase_one:
  assumes ok: "cons_ok s" and "editing s \<noteq> []"
  defines "s' \<equiv> s\<lparr>cons_e := cons_e s - 1\<rparr>"
  shows "committed s' = committed s" and "editing s' = butlast (editing s)" and "cons_ok s'"
    and "last (editing s) = cons_buf s ! unat ((cons_e s - 1) mod INPUT_BUF_SIZE)"
proof -
  have lt: "ncommitted s < length (typed s)" using assms(2) by (simp add: editing_def)
  then have ne: "cons_r s \<noteq> cons_e s" by (auto simp: typed_def)
  have t: "typed s' = butlast (typed s)" unfolding s'_def typed_def using cr.ring_drop_last [OF ne] by simp
  have n: "ncommitted s' = ncommitted s" by (simp add: s'_def ncommitted_def)
  show "committed s' = committed s" using lt by (simp add: committed_def t n take_butlast)
  show "editing s' = butlast (editing s)" by (simp add: editing_def t n drop_butlast)
  show "cons_ok s'" using ok lt unfolding cons_ok_def t n by (auto simp: s'_def)
  show "last (editing s) = cons_buf s ! unat ((cons_e s - 1) mod INPUT_BUF_SIZE)"
    using cr.ring_last [OF ne, of "cons_buf s"] lt by (simp add: editing_def last_drop typed_def)
qed

lemma kill_line_erases:
  assumes "cons_ok s" and "\<not> panicked s" and "10 \<notin> set (editing s)"
  shows "\<exists>s'. kill_line s = Ret s' \<and> committed s' = committed s \<and> editing s' = [] \<and> cons_ok s'"
  using assms
proof (induction "length (editing s)" arbitrary: s)
  case 0
  then have "cons_e s = cons_w s" using editing_empty_iff by auto
  then show ?case using 0 by (subst kill_line.simps) simp
next
  case (Suc n)
  then have ne: "editing s \<noteq> []" by auto
  note E = erase_one [OF Suc.prems(1) ne]
  let ?s = "s\<lparr>cons_e := cons_e s - 1\<rparr>"
  have "cons_buf s ! unat ((cons_e s - 1) mod INPUT_BUF_SIZE) \<noteq> 10"
    using E(4) Suc.prems(3) last_in_set [OF ne] by metis
  moreover have "cons_e s \<noteq> cons_w s" using editing_empty_iff [OF Suc.prems(1)] ne by blast
  moreover obtain bs where p: "consputc BACKSPACE ?s = Ret (?s\<lparr>tx_out := tx_out ?s @ bs\<rparr>)"
    using consputc_Ret [of ?s BACKSPACE] Suc.prems(2) by auto
  ultimately have k: "kill_line s = kill_line (?s\<lparr>tx_out := tx_out ?s @ bs\<rparr>)"
    by (subst kill_line.simps) simp
  let ?t = "?s\<lparr>tx_out := tx_out ?s @ bs\<rparr>"
  have et: "editing ?t = butlast (editing s)" "committed ?t = committed s" "cons_ok ?t"
    using E(1-3) by (simp_all add: editing_def committed_def cons_ok_def)
  have "\<exists>s'. kill_line ?t = Ret s' \<and> committed s' = committed ?t \<and> editing s' = [] \<and> cons_ok s'"
    using Suc.hyps(2) Suc.prems et by (intro Suc.hyps(1)) (auto dest: in_set_butlastD)
  then show ?case using k et by simp
qed

lemma type_one:
  fixes s :: "'a kcons_scheme" and b :: u8
  assumes ok: "cons_ok s" and lt: "length (typed s) < 128"
  defines "s' \<equiv> s\<lparr>cons_buf := (cons_buf s)[unat (cons_e s mod INPUT_BUF_SIZE) := b], cons_e := cons_e s + 1\<rparr>"
  shows "typed s' = typed s @ [b]" and "ncommitted s' = ncommitted s" and "cons_ok s'"
    and "typed (s'\<lparr>cons_w := cons_e s'\<rparr>) = typed s @ [b]"
    and "ncommitted (s'\<lparr>cons_w := cons_e s'\<rparr>) = length (typed s @ [b])"
    and "cons_ok (s'\<lparr>cons_w := cons_e s'\<rparr>)"
proof -
  have "unat (cons_e s - cons_r s) < unat INPUT_BUF_SIZE" "length (cons_buf s) = unat INPUT_BUF_SIZE"
    using lt ok by (simp_all add: typed_def cons_ok_def)
  from cr.ring_push [OF this, of b] show t: "typed s' = typed s @ [b]" by (simp add: typed_def s'_def)
  show n: "ncommitted s' = ncommitted s" by (simp add: ncommitted_def s'_def)
  show "cons_ok s'" using ok lt unfolding cons_ok_def t n by (simp add: s'_def)
  show t2: "typed (s'\<lparr>cons_w := cons_e s'\<rparr>) = typed s @ [b]" using t by (simp add: typed_def)
  have "length (typed s') = unat (cons_e s' - cons_r s')" by (simp add: typed_def)
  then show n2: "ncommitted (s'\<lparr>cons_w := cons_e s'\<rparr>) = length (typed s @ [b])"
    using t by (simp add: ncommitted_def)
  show "cons_ok (s'\<lparr>cons_w := cons_e s'\<rparr>)"
    using ok lt n2 unfolding cons_ok_def t2 by (simp add: s'_def)
qed

text \<open>
  The abstract line editor: what one input character does to the finished input and to the
  line being edited.
\<close>

definition edit :: "u32 \<Rightarrow> u8 list \<times> u8 list \<Rightarrow> u8 list \<times> u8 list" where
  "edit c = (\<lambda>(fin, cur).
     if c = 16 then (fin, cur)
     else if c = 21 then (fin, [])
     else if c = 8 \<or> c = 127 then (fin, butlast cur)
     else if c \<noteq> 0 \<and> length (fin @ cur) < 128 then
       let b = (if c = 13 then 10 else c) in
       if b = 10 \<or> b = 4 \<or> length (fin @ cur) = 127 then (fin @ cur @ [ucast b], [])
       else (fin, cur @ [ucast b])
     else (fin, cur))"

lemma committed_editing: "committed s @ editing s = typed s"
  by (simp add: committed_def editing_def)

lemma committed_editing_append: "committed s @ editing s @ xs = typed s @ xs"
  using committed_editing [of s] by (metis append_assoc)

lemma length_committed_editing: "length (committed s) + length (editing s) = length (typed s)"
  using arg_cong [OF committed_editing [of s], of length] by simp

lemma consoleintr_type:
  assumes ok: "cons_ok s" and np: "\<not> panicked s" and c: "c \<notin> {16, 21, 8, 127, 0}" and lt: "length (typed s) < 128"
  shows "\<exists>s'. consoleintr me c s = Ret s' \<and> cons_ok s' \<and> (committed s', editing s') = edit c (committed s, editing s)"
proof -
  let ?b = "if c = 13 then 10 else c"
  obtain bs where put: "consputc ?b s = Ret (s\<lparr>tx_out := tx_out s @ bs\<rparr>)" using consputc_Ret [OF np] by blast
  let ?s0 = "s\<lparr>tx_out := tx_out s @ bs\<rparr>"
  let ?s1 = "?s0\<lparr>cons_buf := (cons_buf ?s0)[unat (cons_e ?s0 mod INPUT_BUF_SIZE) := ucast ?b], cons_e := cons_e ?s0 + 1\<rparr>"
  have ok0: "cons_ok ?s0" "length (typed ?s0) < 128" using ok lt by (simp_all add: cons_ok_def)
  note T = type_one [OF ok0, of "ucast ?b"]
  have room: "cons_e s - cons_r s < INPUT_BUF_SIZE" using lt by (simp add: typed_def word_less_nat_alt)
  have "length (typed ?s1) = unat (cons_e ?s1 - cons_r ?s1)" by (simp add: typed_def)
  then have "unat (cons_e ?s1 - cons_r ?s1) = Suc (length (typed s))" using T(1) by simp
  then have full: "cons_e ?s1 - cons_r ?s1 = INPUT_BUF_SIZE \<longleftrightarrow> length (typed s) = 127"
    unfolding word_unat_eq_iff [of "cons_e ?s1 - cons_r ?s1" INPUT_BUF_SIZE] unat_INPUT_BUF_SIZE by linarith
  let ?done = "?b = 10 \<or> ?b = 4 \<or> length (typed s) = 127"
  have step: "consoleintr me c s =
      Ret (if ?done then k_wakeup me Chan_cons (?s1\<lparr>cons_w := cons_e ?s1\<rparr>) else ?s1)"
    using c room put full by (simp add: consoleintr_def Let_def)
  note len = length_committed_editing [of s]
  show ?thesis
  proof (cases ?done)
    case True
    have "edit c (committed s, editing s) = (typed s @ [ucast ?b], [])"
      using c True lt len by (simp add: edit_def Let_def committed_editing_append)
    then show ?thesis using step True T(4-6) by (simp add: committed_def editing_def cons_ok_def)
  next
    case False
    have "edit c (committed s, editing s) = (committed s, editing s @ [ucast ?b])"
      using c False lt len by (simp add: edit_def Let_def)
    moreover have "ncommitted s \<le> length (typed s)" using ok by (simp add: cons_ok_def)
    ultimately show ?thesis using step False T(1-3) by (simp add: committed_def editing_def)
  qed
qed

text \<open>
  C27 The console refines the abstract line editor: for every character the interrupt handler
  does to the finished input and to the current line what \<open>edit\<close> says. Finished input is
  never altered, erasing stops at it, carriage return counts as newline, the buffer never
  holds more than 128 bytes, and a full buffer ends the line.
\<close>

theorem consoleintr_refines_edit:
  assumes "cons_ok s" and "\<not> panicked s" and "10 \<notin> set (editing s)"
  shows "\<exists>s'. consoleintr me c s = Ret s' \<and> cons_ok s' \<and>
    (committed s', editing s') = edit c (committed s, editing s)"
proof -
  note ok = assms(1)
  have "length (typed s) < 128 \<or> length (typed s) = 128" using ok by (auto simp: cons_ok_def)
  then consider "c = 16" | "c = 21" | "c = 8 \<or> c = 127" | "c \<notin> {16, 21, 8, 127, 0}" "length (typed s) < 128"
    | "c \<notin> {16, 21, 8, 127}" "c = 0 \<or> length (typed s) = 128"
    by blast
  then show ?thesis
  proof cases
    case 1
    then show ?thesis using ok
      by (simp add: consoleintr_def edit_def procdump_def committed_def editing_def typed_def ncommitted_def cons_ok_def)
  next
    case 2
    then show ?thesis using kill_line_erases [OF assms] by (auto simp: consoleintr_def edit_def)
  next
    case 3
    show ?thesis
    proof (cases "editing s = []")
      case True
      then have "consoleintr me c s = Ret s" "edit c (committed s, editing s) = (committed s, editing s)"
        using 3 editing_empty_iff [OF ok] by (auto simp: consoleintr_def edit_def)
      then show ?thesis using ok by simp
    next
      case False
      note E = erase_one [OF ok False]
      let ?s = "s\<lparr>cons_e := cons_e s - 1\<rparr>"
      obtain bs where p: "consputc BACKSPACE ?s = Ret (?s\<lparr>tx_out := tx_out ?s @ bs\<rparr>)"
        using consputc_Ret [of ?s BACKSPACE] assms(2) by auto
      have "cons_e s \<noteq> cons_w s" using editing_empty_iff [OF ok] False by blast
      then have "consoleintr me c s = Ret (?s\<lparr>tx_out := tx_out ?s @ bs\<rparr>)"
        using 3 p by (auto simp: consoleintr_def)
      moreover have "edit c (committed s, editing s) = (committed s, butlast (editing s))"
        using 3 by (auto simp: edit_def)
      ultimately show ?thesis using E(1-3) by (simp add: editing_def committed_def cons_ok_def)
    qed
  next
    case 4
    then show ?thesis using consoleintr_type [OF ok assms(2)] by simp
  next
    case 5
    note len = length_committed_editing [of s]
    have "\<not> (c \<noteq> 0 \<and> cons_e s - cons_r s < INPUT_BUF_SIZE)"
      using 5(2) by (auto simp: typed_def word_less_nat_alt)
    then have "consoleintr me c s = Ret s" using 5(1) by (auto simp: consoleintr_def)
    moreover have "edit c (committed s, editing s) = (committed s, editing s)"
      using 5 len by (auto simp: edit_def)
    ultimately show ?thesis using ok by simp
  qed
qed

section \<open>A concrete console\<close>

text \<open>An idle machine with one process and a console that has seen one character.\<close>

definition demo_cons :: kcons where
  "demo_cons = \<lparr>mem = (\<lambda>_. 0), freelist = 0, page_ref_count = (\<lambda>_. 0), kend = 0x80030000,
     kernel_pagetable = 0, etext = 0, trampoline = 0, procs = [], nextpid = 1, initproc = None,
     kticks = 0, kbuf = 0x80000000,
     pipes = (\<lambda>_. \<lparr>pi_data = replicate 512 0, nread = 7, nwrite = 7, readopen = True, writeopen = True\<rparr>),
     uart_tx_buf = replicate 32 0, uart_tx_w = 0, uart_tx_r = 0, panicked = False, tx_out = [],
     tx_room = 1, rx_in = [], cons_buf = 97 # replicate 127 0, cons_r = 0, cons_w = 0, cons_e = 1, dumped = []\<rparr>"

lemma demo_cons_ok: "cons_ok demo_cons" "editing demo_cons = [97]" "committed demo_cons = []" "\<not> panicked demo_cons"
  "uart_ok demo_cons" "uart_queue demo_cons = []"
  by (simp_all add: cons_ok_def editing_def committed_def typed_def ncommitted_def uart_ok_def uart_queue_def
      demo_cons_def ring_list_def INPUT_BUF_SIZE_def UART_TX_BUF_SIZE_def)

theorem consoleintr_refines_edit_witness:
  "\<exists>s'. consoleintr None 13 demo_cons = Ret s' \<and> committed s' = [97, 10] \<and> editing s' = []"
  using consoleintr_refines_edit [of demo_cons None 13] demo_cons_ok by (auto simp: edit_def)

theorem uartputc_order_witness:
  "\<exists>s'. uartputc 0 65 demo_cons = Ret (False, s') \<and> tx_out s' @ uart_queue s' = [65]"
proof -
  have "tx_out demo_cons = []" by (simp add: demo_cons_def)
  with uartputc_order [of demo_cons 0 65] demo_cons_ok show ?thesis by auto
qed

lemma demo_pipe_ok: "pipe_ok (pipes demo_cons 0)" "pipe_queue (pipes demo_cons 0) = []"
  by (simp_all add: pipe_ok_def pipe_queue_def demo_cons_def)


end
