(* ===== verification/Files.thy ===== *)
theory Files
  imports Fs Console Kstring
begin

text \<open>
  The upper layers of \<^verbatim>\<open>kernel/fs.c\<close> (contents of inodes, directories, path names) and \<^verbatim>\<open>kernel/file.c\<close>.
  They copy to and from user memory, so the state is the whole kernel state, of which the
  file system is the field \<open>fs\<close>. A directory entry that is read or written lives on the kernel
  stack; its address is \<open>kbuf\<close>. \<open>me\<close> is the index of the calling process.
\<close>

section \<open>State\<close>

definition NFILE :: nat where "NFILE = 100"
definition NDEV :: nat where "NDEV = 10"
definition ROOTDEV :: u32 where "ROOTDEV = 1"
definition ROOTINO :: u32 where "ROOTINO = 1"
definition DIRSIZ :: nat where "DIRSIZ = 14"
definition T_DIR :: u16 where "T_DIR = 1"
definition T_FILE :: u16 where "T_FILE = 2"
definition T_DEVICE :: u16 where "T_DEVICE = 3"
definition CONSOLE :: nat where "CONSOLE = 1"

datatype filetype = FD_NONE | FD_PIPE | FD_INODE | FD_DEVICE

record kfile =
  f_type :: filetype
  f_ref :: s32
  f_readable :: bool
  f_writable :: bool
  f_pipe :: u64
  f_ip :: nat
  f_off :: u32
  f_major :: u16

text \<open>An entry of \<open>devsw\<close>: the console is the only driver there is.\<close>

datatype devfn = No_dev | Console_dev

record kfs = kcons +
  fs :: fsys
  ftable :: "kfile list"
  devsw :: "devfn list"
  readCount :: s32

definition on_fs :: "(fsys \<Rightarrow> ('r \<times> fsys) res) \<Rightarrow> 'a kfs_scheme \<Rightarrow> ('r \<times> 'a kfs_scheme) res" where
  "on_fs f s = bindR (f (fs s)) (\<lambda>(r, x). Ret (r, s\<lparr>fs := x\<rparr>))"

definition do_fs :: "(fsys \<Rightarrow> fsys res) \<Rightarrow> 'a kfs_scheme \<Rightarrow> 'a kfs_scheme res" where
  "do_fs f s = bindR (f (fs s)) (\<lambda>x. Ret (s\<lparr>fs := x\<rparr>))"

abbreviation my_pid :: "nat \<Rightarrow> 'a kfs_scheme \<Rightarrow> s32" where
  "my_pid me s \<equiv> p_pid (procs s ! me)"

abbreviation the_inode :: "nat \<Rightarrow> 'a kfs_scheme \<Rightarrow> inode" where
  "the_inode ip s \<equiv> itable (fs s) ! ip"

section \<open>The contents of an inode\<close>

text \<open>The number of bytes of a step: to the end of the block or of the request.\<close>

definition step_bytes :: "u32 \<Rightarrow> u32 \<Rightarrow> u32" where
  "step_bytes off rest = min rest (of_nat BSIZE - off mod of_nat BSIZE)"

lemma step_bytes_decreases:
  assumes "tot < n"
  shows "unat (n - (tot + step_bytes off (n - tot))) < unat (n - tot)"
proof -
  have b: "off mod of_nat BSIZE < of_nat BSIZE" by (simp add: BSIZE_def word_mod_less_divisor)
  define m where "m = step_bytes off (n - tot)"
  have "0 < of_nat BSIZE - off mod of_nat BSIZE" using b by (simp add: word_gt_0)
  moreover have "0 < n - tot" using assms by (simp add: word_gt_0)
  ultimately have m: "0 < m" "m \<le> n - tot" by (auto simp: m_def step_bytes_def min_def)
  have "n - (tot + m) = (n - tot) - m" by (simp add: algebra_simps)
  then have "unat (n - (tot + m)) = unat (n - tot) - unat m" using unat_sub [OF m(2)] by metis
  moreover have "0 < unat m" "unat m \<le> unat (n - tot)" using m by (simp_all add: word_less_nat_alt word_le_nat_alt)
  ultimately show ?thesis unfolding m_def by linarith
qed

function readi_loop :: "nat \<Rightarrow> nat \<Rightarrow> bool \<Rightarrow> u64 \<Rightarrow> u32 \<Rightarrow> u32 \<Rightarrow> u32 \<Rightarrow> 'a kfs_scheme \<Rightarrow> (u32 \<times> 'a kfs_scheme) res" where
  "readi_loop me ip user_dst dst off n tot s =
     (if tot < n then
        bindR (on_fs (bmap (my_pid me s) ip (off div of_nat BSIZE)) s) (\<lambda>(addr, s).
        if addr = 0 then Ret (tot, s)
        else
          bindR (on_fs (bread (my_pid me s) (i_dev (the_inode ip s)) addr) s) (\<lambda>(bp, s).
          let m = step_bytes off (n - tot);
              bs = take (unat m) (drop (unat (off mod of_nat BSIZE)) (b_data (bufs (fs s) ! bp))) in
          bindR (either_copyout me user_dst dst bs s) (\<lambda>(r, s).
          bindR (do_fs (brelse (my_pid me s) bp) s) (\<lambda>s.
          if r = -1 then Ret (-1, s)
          else readi_loop me ip user_dst (dst + ucast m) (off + m) n (tot + m) s))))
      else Ret (tot, s))"
  by pat_completeness auto
termination
  by (relation "measure (\<lambda>(me, ip, user_dst, dst, off, n, tot, s). unat (n - tot))") (auto intro: step_bytes_decreases)

declare readi_loop.simps [simp del]

text \<open>The result is the number of bytes, all ones for -1.\<close>

definition readi :: "nat \<Rightarrow> nat \<Rightarrow> bool \<Rightarrow> u64 \<Rightarrow> u32 \<Rightarrow> u32 \<Rightarrow> 'a kfs_scheme \<Rightarrow> (u32 \<times> 'a kfs_scheme) res" where
  "readi me ip user_dst dst off n s =
     (let size' = i_size (the_inode ip s) in
      if off > size' \<or> off + n < off then Ret (0, s)
      else readi_loop me ip user_dst dst off (if off + n > size' then size' - off else n) 0 s)"

text \<open>
  \<open>either_copyin\<close> copies straight into the buffer, so a copy that fails in the middle leaves
  what it has copied there.
\<close>

function writei_loop :: "nat \<Rightarrow> nat \<Rightarrow> bool \<Rightarrow> u64 \<Rightarrow> u32 \<Rightarrow> u32 \<Rightarrow> u32 \<Rightarrow> 'a kfs_scheme \<Rightarrow> (u32 \<times> u32 \<times> 'a kfs_scheme) res" where
  "writei_loop me ip user_src src off n tot s =
     (if tot < n then
        bindR (on_fs (bmap (my_pid me s) ip (off div of_nat BSIZE)) s) (\<lambda>(addr, s).
        if addr = 0 then Ret (tot, off, s)
        else
          bindR (on_fs (bread (my_pid me s) (i_dev (the_inode ip s)) addr) s) (\<lambda>(bp, s).
          let m = step_bytes off (n - tot);
              at = unat (off mod of_nat BSIZE);
              d = b_data (bufs (fs s) ! bp);
              old = take (unat m) (drop at d) in
          bindR (either_copyin me user_src src (unat m)
                   (if user_src then s\<lparr>mem := put_bytes (mem s) (kbuf s) old\<rparr> else s)) (\<lambda>(r, bs, s).
          let s = s\<lparr>fs := set_data bp (put_at at bs d) (fs s)\<rparr> in
          if r = -1 then bindR (do_fs (brelse (my_pid me s) bp) s) (\<lambda>s. Ret (tot, off, s))
          else
            bindR (do_fs (log_write bp) s) (\<lambda>s.
            bindR (do_fs (brelse (my_pid me s) bp) s) (\<lambda>s.
            writei_loop me ip user_src (src + ucast m) (off + m) n (tot + m) s)))))
      else Ret (tot, off, s))"
  by pat_completeness auto
termination
  by (relation "measure (\<lambda>(me, ip, user_src, src, off, n, tot, s). unat (n - tot))") (auto intro: step_bytes_decreases)

declare writei_loop.simps [simp del]

definition writei :: "nat \<Rightarrow> nat \<Rightarrow> bool \<Rightarrow> u64 \<Rightarrow> u32 \<Rightarrow> u32 \<Rightarrow> 'a kfs_scheme \<Rightarrow> (u32 \<times> 'a kfs_scheme) res" where
  "writei me ip user_src src off n s =
     (if off > i_size (the_inode ip s) \<or> off + n < off then Ret (-1, s)
      else if off + n > of_nat (MAXFILE * BSIZE) then Ret (-1, s)
      else
        bindR (writei_loop me ip user_src src off n 0 s) (\<lambda>(tot, off, s).
        let s = (if off > i_size (the_inode ip s) then s\<lparr>fs := upd_inode ip (\<lambda>i. i\<lparr>i_size := off\<rparr>) (fs s)\<rparr> else s) in
        bindR (do_fs (iupdate (my_pid me s) ip) s) (\<lambda>s. Ret (tot, s))))"

section \<open>Directories\<close>

text \<open>
  \<open>namecmp\<close> compares two name buffers with \<open>strncmp\<close>, here in a memory that holds just the two.
\<close>

definition namecmp :: "u8 list \<Rightarrow> u8 list \<Rightarrow> int" where
  "namecmp s t = strncmp (put_bytes (put_bytes (\<lambda>_. 0) 0 s) 64 t) 0 64 DIRSIZ"

text \<open>A directory entry at \<open>kbuf\<close>: the inode number and the name.\<close>

definition de_inum :: "'a kfs_scheme \<Rightarrow> u16" where
  "de_inum s = get16 (get_bytes (mem s) (kbuf s) 16) 0"

definition de_name :: "'a kfs_scheme \<Rightarrow> u8 list" where
  "de_name s = drop 2 (get_bytes (mem s) (kbuf s) 16)"

fun dirlookup_loop :: "nat \<Rightarrow> nat \<Rightarrow> u8 list \<Rightarrow> nat list \<Rightarrow> 'a kfs_scheme \<Rightarrow> ((nat \<times> u32) option \<times> 'a kfs_scheme) res" where
  "dirlookup_loop me dp name [] s = Ret (None, s)"
| "dirlookup_loop me dp name (off # offs) s =
     bindR (readi me dp False (kbuf s) (of_nat off) 16 s) (\<lambda>(r, s).
     if r \<noteq> 16 then Panic ''dirlookup read''
     else if de_inum s = 0 then dirlookup_loop me dp name offs s
     else if namecmp name (de_name s) = 0 then
       bindR (on_fs (iget (i_dev (the_inode dp s)) (ucast (de_inum s))) s) (\<lambda>(ip, s).
       Ret (Some (ip, of_nat off), s))
     else dirlookup_loop me dp name offs s)"

text \<open>The offsets \<open>from, from + 16, \<dots>\<close> below the size.\<close>

definition dir_offsets :: "nat \<Rightarrow> u32 \<Rightarrow> nat list" where
  "dir_offsets from' size' = map (\<lambda>i. from' + i * 16) [0..<(unat size' - from' + 15) div 16]"

definition dirlookup :: "nat \<Rightarrow> nat \<Rightarrow> u8 list \<Rightarrow> 'a kfs_scheme \<Rightarrow> ((nat \<times> u32) option \<times> 'a kfs_scheme) res" where
  "dirlookup me dp name s =
     (if i_type (the_inode dp s) \<noteq> T_DIR then Panic ''dirlookup not DIR''
      else dirlookup_loop me dp name (dir_offsets 0 (i_size (the_inode dp s))) s)"

text \<open>The first offset with an empty entry, or the size when there is none.\<close>

fun dirlink_slot :: "nat \<Rightarrow> nat \<Rightarrow> u32 \<Rightarrow> nat list \<Rightarrow> 'a kfs_scheme \<Rightarrow> (u32 \<times> 'a kfs_scheme) res" where
  "dirlink_slot me dp off [] s = Ret (off, s)"
| "dirlink_slot me dp _ (off # offs) s =
     bindR (readi me dp False (kbuf s) (of_nat off) 16 s) (\<lambda>(r, s).
     if r \<noteq> 16 then Panic ''dirlink read''
     else if de_inum s = 0 then Ret (of_nat off, s)
     else dirlink_slot me dp (of_nat (off + 16)) offs s)"

text \<open>\<open>strncpy(de.name, name, DIRSIZ)\<close>: the characters up to the terminator, then zeros.\<close>

definition padded_name :: "u8 list \<Rightarrow> u8 list" where
  "padded_name name = get_bytes (strncpy (put_bytes (\<lambda>_. 0) 64 name) 0 64 (int DIRSIZ)) 0 DIRSIZ"

definition dirlink :: "nat \<Rightarrow> nat \<Rightarrow> u8 list \<Rightarrow> u32 \<Rightarrow> 'a kfs_scheme \<Rightarrow> (int \<times> 'a kfs_scheme) res" where
  "dirlink me dp name inum s =
     bindR (dirlookup me dp name s) (\<lambda>(r, s). case r of
       Some (ip, _) \<Rightarrow> bindR (do_fs (iput (my_pid me s) ip) s) (\<lambda>s. Ret (-1, s))
     | None \<Rightarrow>
         bindR (dirlink_slot me dp 0 (dir_offsets 0 (i_size (the_inode dp s))) s) (\<lambda>(off, s).
         let de = le_bytes 2 (ucast inum :: u16) @ padded_name name;
             s = s\<lparr>mem := put_bytes (mem s) (kbuf s) de\<rparr> in
         bindR (writei me dp False (kbuf s) off 16 s) (\<lambda>(r, s).
         if r \<noteq> 16 then Ret (-1, s) else Ret (0, s))))"

section \<open>Path names\<close>

text \<open>
  A path is the characters before its terminator, \<open>name\<close> is the buffer of \<open>DIRSIZ\<close> bytes the element is copied
  into; the bytes after the element keep their contents. 47 is the slash.
\<close>

definition skipelem :: "u8 list \<Rightarrow> u8 list \<Rightarrow> (u8 list \<times> u8 list) option" where
  "skipelem path name =
     (let path = dropWhile (\<lambda>c. c = 47) path in
      if path = [] then None
      else
        let elem = takeWhile (\<lambda>c. c \<noteq> 47) path;
            path = dropWhile (\<lambda>c. c \<noteq> 47) path;
            len = length elem;
            name = (if len \<ge> DIRSIZ then put_at 0 (take DIRSIZ elem) name
                    else (put_at 0 elem name)[len := 0])
        in Some (dropWhile (\<lambda>c. c = 47) path, name))"

lemma skipelem_shorter: "skipelem path name = Some (path', name') \<Longrightarrow> length path' < length path"
proof -
  assume s: "skipelem path name = Some (path', name')"
  define p where "p = dropWhile (\<lambda>c. c = 47) path"
  have p: "p \<noteq> []" and e: "path' = dropWhile (\<lambda>c. c = 47) (dropWhile (\<lambda>c. c \<noteq> 47) p)"
    using s by (auto simp: skipelem_def Let_def p_def split: if_splits)
  then obtain c cs where c: "p = c # cs" by (cases p) auto
  have "c \<noteq> 47" using c hd_dropWhile [of "\<lambda>c. c = 47" path] p by (auto simp: p_def)
  then have "length (dropWhile (\<lambda>c. c \<noteq> 47) p) \<le> length cs" using c length_dropWhile_le [of _ cs] by simp
  moreover have "length path' \<le> length (dropWhile (\<lambda>c. c \<noteq> 47) p)" unfolding e by (rule length_dropWhile_le)
  moreover have "length p \<le> length path" unfolding p_def by (rule length_dropWhile_le)
  ultimately show ?thesis using c by simp
qed

function namex_loop :: "nat \<Rightarrow> bool \<Rightarrow> nat \<Rightarrow> u8 list \<Rightarrow> u8 list \<Rightarrow> 'a kfs_scheme \<Rightarrow> (nat option \<times> u8 list \<times> 'a kfs_scheme) res" where
  "namex_loop me nameiparent' ip path name s =
     (case skipelem path name of
        None \<Rightarrow>
          if nameiparent' then bindR (do_fs (iput (my_pid me s) ip) s) (\<lambda>s. Ret (None, name, s))
          else Ret (Some ip, name, s)
      | Some (path', name') \<Rightarrow>
          bindR (do_fs (ilock (my_pid me s) ip) s) (\<lambda>s.
          if i_type (the_inode ip s) \<noteq> T_DIR then
            bindR (do_fs (iunlockput (my_pid me s) ip) s) (\<lambda>s. Ret (None, name', s))
          else if nameiparent' \<and> path' = [] then
            bindR (do_fs (iunlock (my_pid me s) ip) s) (\<lambda>s. Ret (Some ip, name', s))
          else
            bindR (dirlookup me ip name' s) (\<lambda>(next, s).
            bindR (do_fs (iunlockput (my_pid me s) ip) s) (\<lambda>s.
            case next of
              None \<Rightarrow> Ret (None, name', s)
            | Some (ip', _) \<Rightarrow> namex_loop me nameiparent' ip' path' name' s))))"
  by pat_completeness auto
termination
  by (relation "measure (\<lambda>(me, np, ip, path, name, s). length path)") (auto dest: skipelem_shorter)

declare namex_loop.simps [simp del]

definition namex :: "nat \<Rightarrow> u8 list \<Rightarrow> bool \<Rightarrow> u8 list \<Rightarrow> 'a kfs_scheme \<Rightarrow> (nat option \<times> u8 list \<times> 'a kfs_scheme) res" where
  "namex me path nameiparent' name s =
     bindR (if path \<noteq> [] \<and> hd path = 47 then on_fs (iget ROOTDEV ROOTINO) s
            else case p_cwd (procs s ! me) of
                None \<Rightarrow> Undef
              | Some ip \<Rightarrow> Ret (ip, s\<lparr>fs := idup ip (fs s)\<rparr>)) (\<lambda>(ip, s).
     namex_loop me nameiparent' ip path name s)"

definition namei :: "nat \<Rightarrow> u8 list \<Rightarrow> 'a kfs_scheme \<Rightarrow> (nat option \<times> 'a kfs_scheme) res" where
  "namei me path s = bindR (namex me path False (replicate DIRSIZ 0) s) (\<lambda>(ip, _, s). Ret (ip, s))"

definition nameiparent :: "nat \<Rightarrow> u8 list \<Rightarrow> u8 list \<Rightarrow> 'a kfs_scheme \<Rightarrow> (nat option \<times> u8 list \<times> 'a kfs_scheme) res" where
  "nameiparent me path name s = namex me path True name s"

section \<open>Open files\<close>

definition upd_file :: "nat \<Rightarrow> (kfile \<Rightarrow> kfile) \<Rightarrow> 'a kfs_scheme \<Rightarrow> 'a kfs_scheme" where
  "upd_file f g s = s\<lparr>ftable := (ftable s)[f := g (ftable s ! f)]\<rparr>"

definition filealloc :: "'a kfs_scheme \<Rightarrow> nat option \<times> 'a kfs_scheme" where
  "filealloc s =
     (case find (\<lambda>f. f_ref (ftable s ! f) = 0) [0..<NFILE] of
        None \<Rightarrow> (None, s)
      | Some f \<Rightarrow> (Some f, upd_file f (\<lambda>x. x\<lparr>f_ref := 1\<rparr>) s))"

definition filedup :: "nat \<Rightarrow> 'a kfs_scheme \<Rightarrow> 'a kfs_scheme res" where
  "filedup f s =
     (if sint (f_ref (ftable s ! f)) < 1 then Panic ''filedup''
      else Ret (upd_file f (\<lambda>x. x\<lparr>f_ref := f_ref x + 1\<rparr>) s))"

definition fileclose :: "nat \<Rightarrow> nat \<Rightarrow> 'a kfs_scheme \<Rightarrow> 'a kfs_scheme res" where
  "fileclose me f s =
     (if sint (f_ref (ftable s ! f)) < 1 then Panic ''fileclose''
      else
        let s = upd_file f (\<lambda>x. x\<lparr>f_ref := f_ref x - 1\<rparr>) s in
        if sint (f_ref (ftable s ! f)) > 0 then Ret s
        else
          let ff = ftable s ! f;
              s = upd_file f (\<lambda>x. x\<lparr>f_ref := 0, f_type := FD_NONE\<rparr>) s in
          if f_type ff = FD_PIPE then pipeclose me (f_pipe ff) (f_writable ff) s
          else if f_type ff = FD_INODE \<or> f_type ff = FD_DEVICE then
            bindR (do_fs begin_op s) (\<lambda>s.
            bindR (do_fs (iput (my_pid me s) (f_ip ff)) s) (\<lambda>s.
            do_fs (end_op (my_pid me s)) s))
          else Ret s)"

text \<open>\<open>struct stat\<close> in memory: the size is aligned to eight bytes.\<close>

definition stat_bytes :: "stat \<Rightarrow> u8 list" where
  "stat_bytes st = le_bytes 4 (st_dev st) @ le_bytes 4 (st_ino st) @ le_bytes 2 (st_type st) @ le_bytes 2 (st_nlink st) @
     replicate 4 0 @ le_bytes 8 (st_size st)"

definition filestat :: "nat \<Rightarrow> nat \<Rightarrow> u64 \<Rightarrow> 'a kfs_scheme \<Rightarrow> (int \<times> 'a kfs_scheme) res" where
  "filestat me f addr s =
     (let x = ftable s ! f in
      if f_type x = FD_INODE \<or> f_type x = FD_DEVICE then
        bindR (do_fs (ilock (my_pid me s) (f_ip x)) s) (\<lambda>s.
        let st = stati (f_ip x) (fs s) in
        bindR (do_fs (iunlock (my_pid me s) (f_ip x)) s) (\<lambda>s.
        bindR (copyout_obj (p_pagetable (procs s ! me)) addr (stat_bytes st) s) (\<lambda>(r, s).
        Ret (if r < 0 then -1 else 0, s))))
      else Ret (-1, s))"

text \<open>The driver a device file of this major number has.\<close>

definition dev_of :: "u16 \<Rightarrow> 'a kfs_scheme \<Rightarrow> devfn" where
  "dev_of major s = (if sint major < 0 \<or> sint major \<ge> int NDEV then No_dev else devsw s ! unat major)"

definition fileread :: "nat \<Rightarrow> nat \<Rightarrow> u64 \<Rightarrow> s32 \<Rightarrow> 'a kfs_scheme \<Rightarrow> (io \<times> 'a kfs_scheme) res" where
  "fileread me f addr n s =
     (let x = ftable s ! f in
      if \<not> f_readable x then Ret (Done (-1), s)
      else case f_type x of
        FD_PIPE \<Rightarrow> piperead me (f_pipe x) addr (sint n) s
      | FD_DEVICE \<Rightarrow>
          (case dev_of (f_major x) s of
             No_dev \<Rightarrow> Ret (Done (-1), s)
           | Console_dev \<Rightarrow> consoleread me True addr (sint n) s)
      | FD_INODE \<Rightarrow>
          bindR (do_fs (ilock (my_pid me s) (f_ip x)) s) (\<lambda>s.
          bindR (readi me (f_ip x) True addr (f_off x) n s) (\<lambda>(r, s).
          let s = (if sint r > 0 then upd_file f (\<lambda>x. x\<lparr>f_off := f_off x + r\<rparr>) s else s) in
          bindR (do_fs (iunlock (my_pid me s) (f_ip x)) s) (\<lambda>s.
          Ret (Done (sint r), s))))
      | FD_NONE \<Rightarrow> Panic ''fileread'')"

text \<open>A write to an inode goes in transactions of at most this many bytes.\<close>

definition write_max :: int where
  "write_max = int (((MAXOPBLOCKS - 1 - 1 - 2) div 2) * BSIZE)"

function filewrite_loop :: "nat \<Rightarrow> nat \<Rightarrow> u64 \<Rightarrow> int \<Rightarrow> int \<Rightarrow> 'a kfs_scheme \<Rightarrow> (int \<times> 'a kfs_scheme) res" where
  "filewrite_loop me f addr n i s =
     (if i < n then
        let n1 = (if n - i > write_max then write_max else n - i);
            ip = f_ip (ftable s ! f) in
        bindR (do_fs begin_op s) (\<lambda>s.
        bindR (do_fs (ilock (my_pid me s) ip) s) (\<lambda>s.
        bindR (writei me ip True (addr + word_of_int i) (f_off (ftable s ! f)) (word_of_int n1) s) (\<lambda>(r, s).
        let s = (if sint r > 0 then upd_file f (\<lambda>x. x\<lparr>f_off := f_off x + r\<rparr>) s else s) in
        bindR (do_fs (iunlock (my_pid me s) ip) s) (\<lambda>s.
        bindR (do_fs (end_op (my_pid me s)) s) (\<lambda>s.
        if sint r \<noteq> n1 then Ret (i, s)
        else filewrite_loop me f addr n (i + n1) s)))))
      else Ret (i, s))"
  by pat_completeness auto
termination
  by (relation "measure (\<lambda>(me, f, addr, n, i, s). nat (n - i))")
    (auto simp: write_max_def MAXOPBLOCKS_def BSIZE_def)

declare filewrite_loop.simps [simp del]

definition filewrite :: "nat \<Rightarrow> nat \<Rightarrow> u64 \<Rightarrow> s32 \<Rightarrow> 'a kfs_scheme \<Rightarrow> (io \<times> 'a kfs_scheme) res" where
  "filewrite me f addr n s =
     (let x = ftable s ! f in
      if \<not> f_writable x then Ret (Done (-1), s)
      else case f_type x of
        FD_PIPE \<Rightarrow> pipewrite me (f_pipe x) addr (sint n) 0 s
      | FD_DEVICE \<Rightarrow>
          (case dev_of (f_major x) s of
             No_dev \<Rightarrow> Ret (Done (-1), s)
           | Console_dev \<Rightarrow> consolewrite me True addr (sint n) 0 s)
      | FD_INODE \<Rightarrow>
          bindR (filewrite_loop me f addr (sint n) 0 s) (\<lambda>(i, s).
          Ret (Done (if i = sint n then sint n else -1), s))
      | FD_NONE \<Rightarrow> Panic ''filewrite'')"

section \<open>Pipes as files\<close>

definition pipealloc :: "nat \<Rightarrow> 'a kfs_scheme \<Rightarrow> ((nat \<times> nat) option \<times> 'a kfs_scheme) res" where
  "pipealloc me s =
     (let (f0, s) = filealloc s in
      case f0 of
        None \<Rightarrow> Ret (None, s)
      | Some f0 \<Rightarrow>
          let (f1, s) = filealloc s in
          (case f1 of
             None \<Rightarrow> bindR (fileclose me f0 s) (\<lambda>s. Ret (None, s))
           | Some f1 \<Rightarrow>
               bindR (kalloc s) (\<lambda>(pi, s).
               if pi = 0 then
                 bindR (fileclose me f0 s) (\<lambda>s.
                 bindR (fileclose me f1 s) (\<lambda>s. Ret (None, s)))
               else
                 let s = pipeinit pi s;
                     s = upd_file f0 (\<lambda>x. x\<lparr>f_type := FD_PIPE, f_readable := True, f_writable := False, f_pipe := pi\<rparr>) s;
                     s = upd_file f1 (\<lambda>x. x\<lparr>f_type := FD_PIPE, f_readable := False, f_writable := True, f_pipe := pi\<rparr>) s
                 in Ret (Some (f0, f1), s))))"

text \<open>\<open>consoleinit\<close>, but for the registers of the device.\<close>

definition consoleinit :: "'a kfs_scheme \<Rightarrow> 'a kfs_scheme" where
  "consoleinit s = s\<lparr>devsw := (devsw s)[CONSOLE := Console_dev]\<rparr>"

section \<open>Path elements\<close>

text \<open>The reference definition: the nonempty pieces between slashes.\<close>

fun pieces :: "u8 list \<Rightarrow> u8 list \<Rightarrow> u8 list list" where
  "pieces cur [] = (if cur = [] then [] else [cur])"
| "pieces cur (c # cs) =
     (if c = 47 then (if cur = [] then pieces [] cs else cur # pieces [] cs) else pieces (cur @ [c]) cs)"

lemma pieces_slashes: "pieces [] (dropWhile (\<lambda>c. c = 47) path) = pieces [] path"
  by (induction path) auto

lemma pieces_elem:
  "pieces cur path = (if cur @ takeWhile (\<lambda>c. c \<noteq> 47) path = [] then pieces [] (dropWhile (\<lambda>c. c \<noteq> 47) path)
     else (cur @ takeWhile (\<lambda>c. c \<noteq> 47) path) # pieces [] (dropWhile (\<lambda>c. c \<noteq> 47) path))"
  by (induction cur path rule: pieces.induct) auto

lemma pieces_Nil: "dropWhile (\<lambda>c. c = 47) path = path \<Longrightarrow> pieces [] path = [] \<longleftrightarrow> path = []"
proof (cases path)
  case (Cons c cs)
  assume "dropWhile (\<lambda>c. c = 47) path = path"
  then have "c \<noteq> 47" using Cons length_dropWhile_le [of "\<lambda>c. c = 47" cs] by (auto dest: arg_cong [where f = length])
  then show ?thesis using Cons by (simp add: pieces_elem [of "[c]"])
qed simp

text \<open>
  C38 Path names are taken apart as written in the examples above the function: \<open>skipelem\<close> fails exactly for a path with no
  element, and otherwise removes the first element. The rest of the path has the remaining elements and no leading slash,
  so that it is empty exactly for the last one. The name buffer holds the element, cut off at \<open>DIRSIZ\<close> characters,
  and a terminator when there is room for one.
\<close>

theorem skipelem_correct:
  assumes "length name = DIRSIZ"
  shows "case pieces [] path of
      [] \<Rightarrow> skipelem path name = None
    | e # es \<Rightarrow> \<exists>path' name'. skipelem path name = Some (path', name') \<and> pieces [] path' = es \<and> (path' = [] \<longleftrightarrow> es = []) \<and>
        length name' = DIRSIZ \<and> take (length e) name' = take DIRSIZ e \<and> (length e < DIRSIZ \<longrightarrow> name' ! length e = 0)"
proof -
  define p where "p = dropWhile (\<lambda>c. c = 47) path"
  have pp: "pieces [] path = pieces [] p" by (simp add: p_def pieces_slashes)
  show ?thesis
  proof (cases "p = []")
    case True
    then show ?thesis unfolding pp by (simp add: skipelem_def p_def [symmetric])
  next
    case False
    define e where "e = takeWhile (\<lambda>c. c \<noteq> 47) p"
    define q where "q = dropWhile (\<lambda>c. c = 47) (dropWhile (\<lambda>c. c \<noteq> 47) p)"
    define nm where "nm = (if length e \<ge> DIRSIZ then put_at 0 (take DIRSIZ e) name else (put_at 0 e name)[length e := 0])"
    have "hd p \<noteq> 47" using hd_dropWhile [of "\<lambda>c. c = 47" path] False by (auto simp: p_def)
    then have ne: "e \<noteq> []" using False by (cases p) (auto simp: e_def)
    have ps: "pieces [] p = e # pieces [] q"
      using pieces_elem [of "[]" p] ne pieces_slashes by (simp add: e_def q_def)
    have sk: "skipelem path name = Some (q, nm)"
      using False by (simp add: skipelem_def Let_def p_def [symmetric] e_def q_def nm_def)
    have l: "length nm = DIRSIZ" using assms by (simp add: nm_def)
    have "take (length e) nm = take DIRSIZ e" "length e < DIRSIZ \<longrightarrow> nm ! length e = 0"
      using assms by (auto simp: nm_def put_at_def nth_append)
    moreover have "q = [] \<longleftrightarrow> pieces [] q = []" using pieces_Nil [of q] by (simp add: q_def)
    ultimately show ?thesis unfolding pp ps using sk l by simp
  qed
qed

theorem skipelem_correct_witness:
  "\<exists>path' name'. skipelem [47, 97, 47, 47, 98] (replicate DIRSIZ 0) = Some (path', name') \<and> pieces [] path' = [[98]] \<and> name' ! 0 = 97"
  using skipelem_correct [of "replicate DIRSIZ 0" "[47, 97, 47, 47, 98]"]
  by (auto simp: take_Suc_conv_app_nth DIRSIZ_def)

end
