(* ===== verification/Txn.thy ===== *)
theory Txn
  imports Fs
begin

text \<open>
  Transactions as the layers above the log use them. \<open>txn pid dev k s\<close> says that process \<open>pid\<close> is
  inside a transaction on device \<open>dev\<close>, holds no buffer, and may still change \<open>k\<close> blocks. Reading a
  block and releasing it changes nothing that can be observed; changing a block through the
  log changes the contents of exactly that block and uses up one of the \<open>k\<close>.
\<close>

definition txn :: "s32 \<Rightarrow> u32 \<Rightarrow> nat \<Rightarrow> 'a log_scheme \<Rightarrow> bool" where
  "txn pid dev k s \<longleftrightarrow> (\<exists>R n. ready pid dev R n s \<and> sint (lh_n s) = int n \<and> n + k \<le> LOGSIZE \<and>
     int (n + k) \<le> sint (lg_size s - 1) \<and> 1 \<le> sint (lg_outstanding s) \<and> length (lh_block s) = LOGSIZE \<and>
     k + 2 \<le> card (free_bufs R))"

lemma txn_mono: "txn pid dev k s \<Longrightarrow> j \<le> k \<Longrightarrow> txn pid dev j s"
  unfolding txn_def by (elim exE, rule exI, rule exI) auto

text \<open>What reading a block and releasing it does.\<close>

definition observed :: "s32 \<Rightarrow> u32 \<Rightarrow> nat \<Rightarrow> 'a log_scheme \<Rightarrow> 'a log_scheme \<Rightarrow> bool" where
  "observed pid dev k s s' \<longleftrightarrow> txn pid dev k s' \<and> block_view s' dev = block_view s dev \<and> disk s' = disk s \<and>
     lg_start s' = lg_start s \<and> log.more s' = log.more s"

definition updated :: "s32 \<Rightarrow> u32 \<Rightarrow> nat \<Rightarrow> u32 \<Rightarrow> blk \<Rightarrow> 'a log_scheme \<Rightarrow> 'a log_scheme \<Rightarrow> bool" where
  "updated pid dev k x d s s' \<longleftrightarrow> txn pid dev k s' \<and> block_view s' dev = (block_view s dev)(x := d) \<and> disk s' = disk s \<and>
     lg_start s' = lg_start s \<and> log.more s' = log.more s"

lemma txn_read:
  assumes t: "txn pid dev k s"
  shows "\<exists>b s1 s2. bread pid dev x s = Ret (b, s1) \<and> b_data (bufs s1 ! b) = block_view s dev x \<and> bio.more s1 = bio.more s \<and>
    brelse pid b s1 = Ret s2 \<and> observed pid dev k s s2"
proof -
  obtain R n where rd: "ready pid dev R n s" and n: "sint (lh_n s) = int n" "n + k \<le> LOGSIZE"
    "int (n + k) \<le> sint (lg_size s - 1)" "1 \<le> sint (lg_outstanding s)" "length (lh_block s) = LOGSIZE" "k + 2 \<le> card (free_bufs R)"
    using t by (auto simp: txn_def)
  have c: "calm pid dev R {} s" and dev: "dev \<noteq> 0" and len: "length (block_view s dev (lg_start s)) = BSIZE"
    using rd by (simp_all add: ready_def)
  obtain i where "i < NBUF" "R i = 0" using ready_free [OF rd] by metis
  from calm_bread1 [OF c dev this, of x] obtain b s1 where r: "bread pid dev x s = Ret (b, s1)" "calm pid dev R {b} s1"
      "holds_block dev x (bufs s1 ! b)" "b_data (bufs s1 ! b) = block_view s dev x" "\<And>n. block_view s1 dev n = block_view s dev n"
      "disk s1 = disk s" "bio.more s1 = bio.more s" "R b = 0 \<Longrightarrow> block_view s dev x = disk s x" "same_pins R s s1" by metis
  have "R b = 0 \<Longrightarrow> b_data (bufs s1 ! b) = disk s1 (b_blockno (bufs s1 ! b))"
    using r(3,4,6,8) by (simp add: holds_block_def)
  from calm_brelse [OF r(2) singletonI this] obtain s2 where s2: "brelse pid b s1 = Ret s2" "calm pid dev R ({b} - {b}) s2"
      "\<And>n. block_view s2 dev n = block_view s1 dev n" "disk s2 = disk s1" "bio.more s2 = bio.more s1" "\<And>Q. same_pins Q s1 s2"
    by metis
  have more: "bio.more s2 = bio.more s" using s2(5) r(7) by simp
  note M = same_more [OF more]
  have v: "block_view s2 dev = block_view s dev" using s2(3) r(5) by (simp add: fun_eq_iff)
  have "ready pid dev R n s2"
    by (rule ready_more_log [OF rd _ more]) (use s2 r v len same_pins_trans [OF r(9) s2(6)] in auto)
  then have "txn pid dev k s2" unfolding txn_def M using n by blast
  then have "observed pid dev k s s2" using v s2(4) r(6) M more_log [OF more] by (simp add: observed_def)
  then show ?thesis using r(1,4,7) s2(1) by blast
qed

lemma txn_update:
  assumes t: "txn pid dev (Suc k) s" and x: "x \<notin> log_region (lg_start s)"
  shows "\<exists>b s1 s2 s3. bread pid dev x s = Ret (b, s1) \<and> b_data (bufs s1 ! b) = block_view s dev x \<and> bio.more s1 = bio.more s \<and>
    log_write b (set_data b d s1) = Ret s2 \<and> brelse pid b s2 = Ret s3 \<and> updated pid dev k x d s s3"
proof -
  obtain R n where rd: "ready pid dev R n s" and n: "sint (lh_n s) = int n" "n + Suc k \<le> LOGSIZE"
    "int (n + Suc k) \<le> sint (lg_size s - 1)" "1 \<le> sint (lg_outstanding s)" "length (lh_block s) = LOGSIZE"
    "Suc k + 2 \<le> card (free_bufs R)"
    using t by (auto simp: txn_def)
  have rm: "room n s" using n by (simp add: room_def)
  show ?thesis
  proof (cases "x \<in> homes_from 0 n s")
    case True
    from log_update_absorbed [OF rd rm True, of d] obtain b s1 s2 where
      s: "bread pid dev x s = Ret (b, s1)" "log_write b (set_data b d s1) = Ret (set_data b d s1)"
        "brelse pid b (set_data b d s1) = Ret s2" "ready pid dev R n s2" "block_view s2 dev = (block_view s dev)(x := d)"
        "disk s2 = disk s" "bio.more s2 = bio.more s" "b_data (bufs s1 ! b) = block_view s dev x" "bio.more s1 = bio.more s"
      by blast
    note M = same_more [OF s(7)]
    have "n + k \<le> LOGSIZE" "int (n + k) \<le> sint (lg_size s - 1)" "k + 2 \<le> card (free_bufs R)" using n by simp_all
    then have "txn pid dev k s2" unfolding txn_def M using s(4) n(1,4,5) by blast
    then have "updated pid dev k x d s s2" using s(5,6) M more_log [OF s(7)] by (simp add: updated_def)
    then show ?thesis using s by blast
  next
    case False
    have f3: "3 \<le> card (free_bufs R)" using n(6) by simp
    from log_update_new [OF rd rm False x f3, of d] obtain b s1 s2 s3 where
      s: "bread pid dev x s = Ret (b, s1)" "log_write b (set_data b d s1) = Ret s2" "brelse pid b s2 = Ret s3"
        "ready pid dev (R(b := 1)) (n + 1) s3" "block_view s3 dev = (block_view s dev)(x := d)" "disk s3 = disk s"
        "lg_start s3 = lg_start s" "lh_n s3 = lh_n s + 1" "length (lh_block s3) = length (lh_block s)"
        "lg_size s3 = lg_size s" "lg_outstanding s3 = lg_outstanding s" "log.more s3 = log.more s"
        "b_data (bufs s1 ! b) = block_view s dev x" "bio.more s1 = bio.more s" by blast
    have sn: "sint (lh_n s3) = int (n + 1)" using sint_Suc_small [OF n(1)] n(2) s(8) by simp
    have sub: "free_bufs R - {b} \<subseteq> free_bufs (R(b := 1))" by (auto simp: free_bufs_def)
    have "card (free_bufs R) - 1 \<le> card (free_bufs R - {b})" by (simp add: card_Diff_singleton_if)
    also have "\<dots> \<le> card (free_bufs (R(b := 1)))" by (rule card_mono [OF _ sub]) simp
    finally have "k + 2 \<le> card (free_bufs (R(b := 1)))" using n(6) by simp
    moreover have "n + 1 + k \<le> LOGSIZE" "int (n + 1 + k) \<le> sint (lg_size s3 - 1)" "1 \<le> sint (lg_outstanding s3)"
      "length (lh_block s3) = LOGSIZE" using n s(9-11) by simp_all
    ultimately have "txn pid dev k s3" unfolding txn_def using s(4) sn by blast
    then have "updated pid dev k x d s s3" using s by (simp add: updated_def)
    then show ?thesis using s by blast
  qed
qed

section \<open>The block allocator\<close>

lemma same_fs:
  fixes s s' :: "'a fsys_scheme"
  assumes "log.more s' = log.more s"
  shows "fs_sb s' = fs_sb s" "itable s' = itable s" "fsys.more s' = fsys.more s"
  using assms by (cases s; cases s'; simp)+

lemma bzero_updated:
  assumes t: "txn pid dev (Suc k) s" and x: "x \<notin> log_region (lg_start s)"
  shows "\<exists>s'. bzero pid dev x s = Ret s' \<and> updated pid dev k x (replicate BSIZE 0) s s'"
  using txn_update [OF t x, of "replicate BSIZE 0"] by (auto simp: bzero_def)

text \<open>Block \<open>b\<close> is in use according to the bitmap.\<close>

definition in_use :: "superblock \<Rightarrow> (u32 \<Rightarrow> blk) \<Rightarrow> nat \<Rightarrow> bool" where
  "in_use sb v b \<longleftrightarrow> \<not> bit_clear (v (BBLOCK (of_nat b) sb)) (b mod BPB)"

lemma bit_clear_iff: "bit_clear d bi \<longleftrightarrow> \<not> bit (d ! (bi div 8)) (bi mod 8)"
proof -
  have "x AND push_bit n 1 = 0 \<longleftrightarrow> \<not> bit x n" if "n < 8" for x :: u8 and n
    using that by (auto simp: bit_eq_iff [where ?'a = "8 word"] bit_and_iff bit_push_bit_iff bit_1_iff bit_exp_iff)
  then show ?thesis by (simp add: bit_clear_def)
qed

lemma bit_clear_mark_used:
  assumes "bi div 8 < length d"
  shows "bit_clear (mark_used d bi) j \<longleftrightarrow> bit_clear d j \<and> j \<noteq> bi"
proof -
  have e: "j = bi \<longleftrightarrow> j div 8 = bi div 8 \<and> j mod 8 = bi mod 8" by (metis div_mult_mod_eq)
  show ?thesis
    using assms e by (auto simp: bit_clear_iff mark_used_def nth_list_update bit_or_iff bit_push_bit_iff bit_1_iff bit_exp_iff)
qed

lemma bit_clear_mark_free:
  assumes "bi div 8 < length d"
  shows "bit_clear (mark_free d bi) j \<longleftrightarrow> bit_clear d j \<or> j = bi"
proof -
  have e: "j = bi \<longleftrightarrow> j div 8 = bi div 8 \<and> j mod 8 = bi mod 8" by (metis div_mult_mod_eq)
  show ?thesis
    using assms e by (auto simp: bit_clear_iff mark_free_def nth_list_update bit_and_iff bit_not_iff bit_push_bit_iff bit_1_iff bit_exp_iff)
qed

lemma length_mark [simp]: "length (mark_used d bi) = length d" "length (mark_free d bi) = length d"
  by (simp_all add: mark_used_def mark_free_def)

lemma free_bit_Some:
  assumes "free_bit n b d = Some bi"
  shows "bi < BPB" and "b + bi < n" and "bit_clear d bi" and "\<forall>j < bi. \<not> bit_clear d j"
  using assms by (auto simp: free_bit_def find_Some_iff)

lemma free_bit_None: "free_bit n b d = None \<Longrightarrow> j < BPB \<Longrightarrow> b + j < n \<Longrightarrow> \<not> bit_clear d j"
  by (auto simp: free_bit_def find_None_iff)

text \<open>
  The layout the allocator relies on: the bitmap lies outside the log and has whole blocks, and a block
  that is not in use is neither in the log nor part of the bitmap.
\<close>

definition bitmap_ok :: "u32 \<Rightarrow> superblock \<Rightarrow> (u32 \<Rightarrow> blk) \<Rightarrow> bool" where
  "bitmap_ok start sb v \<longleftrightarrow>
     (\<forall>b < unat (sb_size sb). BBLOCK (of_nat b) sb \<notin> log_region start \<and> length (v (BBLOCK (of_nat b) sb)) = BSIZE) \<and>
     (\<forall>b < unat (sb_size sb). \<not> in_use sb v b \<longrightarrow> of_nat b \<notin> log_region start \<and>
        (\<forall>c < unat (sb_size sb). BBLOCK (of_nat c) sb \<noteq> of_nat b))"

definition alloc_result :: "superblock \<Rightarrow> (u32 \<Rightarrow> blk) \<Rightarrow> nat \<Rightarrow> u32 \<Rightarrow> blk" where
  "alloc_result sb v x =
     v(BBLOCK (of_nat x) sb := mark_used (v (BBLOCK (of_nat x) sb)) (x mod BPB), of_nat x := replicate BSIZE 0)"

lemma unat_of_nat_u32: "b < 2 ^ 32 \<Longrightarrow> unat (of_nat b :: u32) = b"
  by (simp add: unat_of_nat)

lemma BBLOCK_same:
  assumes "b mod BPB = 0" and "bi < BPB" and "b + bi < 2 ^ 32"
  shows "BBLOCK (of_nat (b + bi)) sb = BBLOCK (of_nat b) sb"
proof -
  have "(b + bi) div BPB = b div BPB" using assms(1,2) by (auto simp: BPB_def BSIZE_def)
  moreover have "unat (of_nat BPB :: u32) = BPB" by (simp add: BPB_def BSIZE_def)
  ultimately have "unat (of_nat (b + bi) div of_nat BPB :: u32) = unat (of_nat b div of_nat BPB :: u32)"
    using assms(3) by (simp add: unat_div unat_of_nat_u32 del: of_nat_add)
  then have "of_nat (b + bi) div of_nat BPB = (of_nat b div of_nat BPB :: u32)" by (simp only: word_unat_eq_iff)
  then show ?thesis by (simp only: BBLOCK_def)
qed

lemma balloc_loop_correct:
  assumes "txn pid dev 2 s" and ok: "bitmap_ok (lg_start s) (fs_sb s) (block_view s dev)"
    and "\<forall>b \<in> set bs. b mod BPB = 0 \<and> b < unat (sb_size (fs_sb s))"
  shows "\<exists>r s'. balloc_loop pid dev bs s = Ret (r, s') \<and> disk s' = disk s \<and> lg_start s' = lg_start s \<and>
    log.more s' = log.more s \<and> txn pid dev 0 s' \<and>
    (case find (\<lambda>b. free_bit (unat (sb_size (fs_sb s))) b (block_view s dev (BBLOCK (of_nat b) (fs_sb s))) \<noteq> None) bs of
       None \<Rightarrow> r = 0 \<and> block_view s' dev = block_view s dev
     | Some b \<Rightarrow> \<exists>bi. free_bit (unat (sb_size (fs_sb s))) b (block_view s dev (BBLOCK (of_nat b) (fs_sb s))) = Some bi \<and>
         r = of_nat (b + bi) \<and> block_view s' dev = alloc_result (fs_sb s) (block_view s dev) (b + bi))"
  using assms
proof (induction bs arbitrary: s)
  case Nil
  then show ?case using txn_mono [of pid dev 2 s 0] by simp
next
  case (Cons b bs)
  define sb where "sb = fs_sb s"
  define n where "n = unat (sb_size sb)"
  define x where "x = BBLOCK (of_nat b) sb"
  define v where "v = block_view s dev"
  have b: "b mod BPB = 0" "b < n" using Cons.prems(3) by (simp_all add: n_def sb_def)
  have x: "x \<notin> log_region (lg_start s)" "length (v x) = BSIZE"
    using Cons.prems(2) b(2) unfolding bitmap_ok_def by (auto simp: x_def n_def sb_def v_def)
  show ?case
  proof (cases "free_bit n b (v x)")
    case None
    from txn_read [OF Cons.prems(1), of x] obtain bp s1 s2 where
      r: "bread pid dev x s = Ret (bp, s1)" "b_data (bufs s1 ! bp) = v x" "bio.more s1 = bio.more s"
        "brelse pid bp s1 = Ret s2" "observed pid dev 2 s s2" unfolding v_def by blast
    note O = r(5) [unfolded observed_def] and F1 = same_fs [OF more_log [OF r(3)]]
    have F: "fs_sb s2 = fs_sb s" using O same_fs by blast
    have e: "balloc_loop pid dev (b # bs) s = balloc_loop pid dev bs s2"
      using r(1,2,4) None F1 by (simp add: x_def sb_def n_def)
    have hd: "find (\<lambda>b. free_bit (unat (sb_size (fs_sb s))) b (block_view s dev (BBLOCK (of_nat b) (fs_sb s))) \<noteq> None) (b # bs) =
        find (\<lambda>b. free_bit (unat (sb_size (fs_sb s))) b (block_view s dev (BBLOCK (of_nat b) (fs_sb s))) \<noteq> None) bs"
      using None by (simp add: n_def sb_def x_def v_def)
    have "txn pid dev 2 s2" "bitmap_ok (lg_start s2) (fs_sb s2) (block_view s2 dev)"
      "\<forall>b \<in> set bs. b mod BPB = 0 \<and> b < unat (sb_size (fs_sb s2))" using O F Cons.prems by simp_all
    note IH = Cons.IH [OF this]
    have "block_view s2 dev = block_view s dev" "disk s2 = disk s" "lg_start s2 = lg_start s" "log.more s2 = log.more s"
      using O by simp_all
    with IH F show ?thesis unfolding e hd by (simp only:)
  next
    case (Some bi)
    note B = free_bit_Some [OF Some]
    have "unat (sb_size sb) < 2 ^ 32" by (rule order_less_le_trans [OF unsigned_less]) simp
    then have lt: "b + bi < 2 ^ 32" using B(2) by (simp add: n_def)
    have same: "BBLOCK (of_nat (b + bi)) sb = x" unfolding x_def by (rule BBLOCK_same [OF b(1) B(1) lt])
    have mod: "(b + bi) mod BPB = bi" using b(1) B(1) by (metis mod_add_left_eq add_0 mod_less)
    have free: "\<not> in_use sb v (b + bi)" using B(3) same mod by (simp add: in_use_def)
    have y: "of_nat (b + bi) \<notin> log_region (lg_start s)"
      using Cons.prems(2) free B(2) unfolding bitmap_ok_def by (simp add: n_def sb_def v_def del: of_nat_add)
    have t: "txn pid dev (Suc 1) s" using Cons.prems(1) by (simp add: numeral_2_eq_2)
    from txn_update [OF t x(1), of "mark_used (v x) bi"] obtain bp s1 s2 s3 where
      r: "bread pid dev x s = Ret (bp, s1)" "b_data (bufs s1 ! bp) = v x" "bio.more s1 = bio.more s"
        "log_write bp (set_data bp (mark_used (v x) bi) s1) = Ret s2" "brelse pid bp s2 = Ret s3"
        "updated pid dev 1 x (mark_used (v x) bi) s s3" unfolding v_def by blast
    note F1 = same_fs [OF more_log [OF r(3)]] and U = r(6) [unfolded updated_def]
    have t3: "txn pid dev (Suc 0) s3" and y3: "of_nat (b + bi) \<notin> log_region (lg_start s3)" using U y by (simp_all del: of_nat_add)
    from bzero_updated [OF t3 y3] obtain s4 where
      s4: "bzero pid dev (of_nat (b + bi)) s3 = Ret s4" "updated pid dev 0 (of_nat (b + bi)) (replicate BSIZE 0) s3 s4" by blast
    have e: "balloc_loop pid dev (b # bs) s = Ret (of_nat (b + bi), s4)"
      using r Some s4(1) F1 by (simp add: x_def sb_def n_def del: of_nat_add)
    have "block_view s4 dev = alloc_result sb v (b + bi)"
      using s4(2) U same mod by (simp add: updated_def alloc_result_def v_def del: of_nat_add)
    then show ?thesis unfolding e using Some s4(2) U by (simp add: updated_def n_def sb_def v_def x_def del: of_nat_add)
  qed
qed

lemma BBLOCK_inj:
  assumes "x < 2 ^ 32" and "y < 2 ^ 32"
  shows "BBLOCK (of_nat x) sb = BBLOCK (of_nat y) sb \<longleftrightarrow> x div BPB = y div BPB"
proof -
  have "unat (of_nat BPB :: u32) = BPB" by (simp add: BPB_def BSIZE_def)
  then have "(of_nat x div of_nat BPB = (of_nat y div of_nat BPB :: u32)) \<longleftrightarrow> x div BPB = y div BPB"
    using assms by (simp add: word_unat_eq_iff unat_div unat_of_nat_u32)
  then show ?thesis by (simp add: BBLOCK_def)
qed

lemma in_use_alloc_result:
  assumes ok: "bitmap_ok start sb v" and x: "x < unat (sb_size sb)" "\<not> in_use sb v x" and y: "y < unat (sb_size sb)"
  shows "in_use sb (alloc_result sb v x) y \<longleftrightarrow> y = x \<or> in_use sb v y"
proof -
  have u: "unat (sb_size sb) < 2 ^ 32" by (rule order_less_le_trans [OF unsigned_less]) simp
  have ne: "BBLOCK (of_nat y) sb \<noteq> of_nat x" and l: "length (v (BBLOCK (of_nat x) sb)) = BSIZE"
    using ok x y unfolding bitmap_ok_def by blast+
  have "(x mod BPB) div 8 < length (v (BBLOCK (of_nat x) sb))"
    unfolding l by (simp add: BPB_def BSIZE_def less_mult_imp_div_less)
  note M = bit_clear_mark_used [OF this]
  have e: "y = x \<longleftrightarrow> y div BPB = x div BPB \<and> y mod BPB = x mod BPB" by (metis div_mult_mod_eq)
  show ?thesis
  proof (cases "y div BPB = x div BPB")
    case True
    then have "BBLOCK (of_nat y) sb = BBLOCK (of_nat x) sb" using BBLOCK_inj [of y x sb] x(1) y u by simp
    then show ?thesis using True M e ne by (auto simp: in_use_def alloc_result_def)
  next
    case False
    then have "BBLOCK (of_nat y) sb \<noteq> BBLOCK (of_nat x) sb" using BBLOCK_inj [of y x sb] x(1) y u by simp
    then show ?thesis using False e ne by (auto simp: in_use_def alloc_result_def)
  qed
qed

definition bitmap_starts :: "nat \<Rightarrow> nat list" where
  "bitmap_starts n = map (\<lambda>i. i * BPB) [0..<(n + BPB - 1) div BPB]"

lemma bitmap_starts: "b \<in> set (bitmap_starts n) \<Longrightarrow> b mod BPB = 0 \<and> b < n"
proof -
  assume "b \<in> set (bitmap_starts n)"
  then obtain i where i: "b = i * BPB" "i < (n + BPB - 1) div BPB"
    unfolding bitmap_starts_def set_map set_upt by (metis (no_types, lifting) atLeastLessThan_iff imageE)
  then have "Suc i * BPB \<le> n + BPB - 1" by (metis Suc_leI div_times_less_eq_dividend le_trans mult_le_mono1)
  moreover have "0 < BPB" by (simp add: BPB_def BSIZE_def)
  ultimately show ?thesis using i(1) by simp
qed

lemma first_free_block:
  assumes f: "find (\<lambda>b. free_bit n b (v (BBLOCK (of_nat b) sb)) \<noteq> None) (bitmap_starts n) = r" and n: "n < 2 ^ 32"
  shows "r = None \<Longrightarrow> \<forall>y < n. in_use sb v y"
    and "r = Some b \<Longrightarrow> free_bit n b (v (BBLOCK (of_nat b) sb)) = Some bi \<Longrightarrow>
      b + bi < n \<and> \<not> in_use sb v (b + bi) \<and> (\<forall>y < b + bi. in_use sb v y)"
proof -
  have p: "0 < BPB" by (simp add: BPB_def BSIZE_def)
  have key: "in_use sb v y" if "y < n" "free_bit n (y div BPB * BPB) (v (BBLOCK (of_nat (y div BPB * BPB)) sb)) = None" for y
  proof -
    have "BBLOCK (of_nat (y div BPB * BPB)) sb = BBLOCK (of_nat y) sb"
      using BBLOCK_same [of "y div BPB * BPB" "y mod BPB" sb] p that(1) n by simp
    then show ?thesis using free_bit_None [OF that(2), of "y mod BPB"] p that(1) by (simp add: in_use_def)
  qed
  have idx: "y div BPB < (n + BPB - 1) div BPB" if "y < n" for y
  proof -
    have "Suc (y div BPB) * BPB \<le> n + BPB - 1"
      using that p div_times_less_eq_dividend [of y BPB] unfolding mult_Suc by linarith
    then have "Suc (y div BPB) \<le> (n + BPB - 1) div BPB" using p by (simp only: less_eq_div_iff_mult_less_eq)
    then show ?thesis by simp
  qed
  show "\<forall>y < n. in_use sb v y" if "r = None"
  proof (intro allI impI)
    fix y assume y: "y < n"
    then have "y div BPB * BPB \<in> set (bitmap_starts n)" using idx [OF y] by (auto simp: bitmap_starts_def)
    then have "free_bit n (y div BPB * BPB) (v (BBLOCK (of_nat (y div BPB * BPB)) sb)) = None"
      using f [unfolded that find_None_iff] by blast
    then show "in_use sb v y" by (rule key [OF y])
  qed
  show "b + bi < n \<and> \<not> in_use sb v (b + bi) \<and> (\<forall>y < b + bi. in_use sb v y)"
    if r: "r = Some b" and bi: "free_bit n b (v (BBLOCK (of_nat b) sb)) = Some bi"
  proof -
    note B = free_bit_Some [OF bi]
    from f r obtain i where i: "i < (n + BPB - 1) div BPB" "b = i * BPB"
        "\<forall>j < i. free_bit n (j * BPB) (v (BBLOCK (of_nat (j * BPB)) sb)) = None"
      by (auto simp: find_Some_iff bitmap_starts_def)
    have same: "BBLOCK (of_nat (b + c)) sb = BBLOCK (of_nat b) sb" "(b + c) mod BPB = c" if "c < BPB" "b + c < n" for c
      using BBLOCK_same [of b c sb] that i(2) n by simp_all
    have "in_use sb v y" if y: "y < b + bi" for y
    proof (cases "y div BPB < i")
      case True
      then have "free_bit n (y div BPB * BPB) (v (BBLOCK (of_nat (y div BPB * BPB)) sb)) = None" using i(3) by blast
      then show ?thesis using key [of y] y B(2) by simp
    next
      case False
      have "b \<le> y" using False i(2) p by (simp add: less_eq_div_iff_mult_less_eq not_less)
      then obtain c where c: "y = b + c" using le_Suc_ex by blast
      then have "c < bi" using y by simp
      then show ?thesis using same [of c] c B by (simp add: in_use_def del: of_nat_add)
    qed
    moreover have "\<not> in_use sb v (b + bi)" using same [of bi] B by (simp add: in_use_def del: of_nat_add)
    ultimately show ?thesis using B(2) by blast
  qed
qed

text \<open>
  C18 The block allocator. Inside a transaction that may still change two blocks, \<open>balloc\<close> returns
  the first block the bitmap has free, marks it, and leaves it zeroed;
  every other bit of the bitmap and every other block is as before. If no block is free it
  returns 0 and changes nothing. The disk itself is only changed by the commit.
\<close>

theorem balloc_correct:
  assumes t: "txn pid dev 2 s" and ok: "bitmap_ok (lg_start s) (fs_sb s) (block_view s dev)"
  defines "used \<equiv> \<lambda>s :: 'a fsys_scheme. in_use (fs_sb s) (block_view s dev)" and "size' \<equiv> unat (sb_size (fs_sb s))"
  shows "\<exists>r s'. balloc pid dev s = Ret (r, s') \<and> disk s' = disk s \<and> fs_sb s' = fs_sb s \<and> itable s' = itable s \<and>
    (if \<forall>y < size'. used s y then r = 0 \<and> block_view s' dev = block_view s dev
     else \<exists>x < size'. r = of_nat x \<and> \<not> used s x \<and> (\<forall>y < x. used s y) \<and>
       (\<forall>y < size'. used s' y \<longleftrightarrow> y = x \<or> used s y) \<and> block_view s' dev r = replicate BSIZE 0 \<and>
       (\<forall>n. n \<noteq> r \<and> n \<noteq> BBLOCK r (fs_sb s) \<longrightarrow> block_view s' dev n = block_view s dev n))"
proof -
  define sb v where "sb = fs_sb s" and "v = block_view s dev"
  have u: "size' < 2 ^ 32" unfolding size'_def by (rule order_less_le_trans [OF unsigned_less]) simp
  let ?f = "find (\<lambda>b. free_bit size' b (v (BBLOCK (of_nat b) sb)) \<noteq> None) (bitmap_starts size')"
  have "\<forall>b \<in> set (bitmap_starts size'). b mod BPB = 0 \<and> b < unat (sb_size (fs_sb s))" using bitmap_starts by (simp add: size'_def)
  from balloc_loop_correct [OF t ok this, folded size'_def sb_def v_def] obtain r s' where
    r: "balloc pid dev s = Ret (r, s')" "disk s' = disk s" "log.more s' = log.more s"
      "case ?f of None \<Rightarrow> r = 0 \<and> block_view s' dev = v
       | Some b \<Rightarrow> \<exists>bi. free_bit size' b (v (BBLOCK (of_nat b) sb)) = Some bi \<and> r = of_nat (b + bi) \<and>
           block_view s' dev = alloc_result sb v (b + bi)"
    unfolding balloc_def size'_def [symmetric] bitmap_starts_def [symmetric] by blast
  note F = same_fs [OF r(3)] and FF = first_free_block [OF refl u, of v sb]
  show ?thesis
  proof (cases ?f)
    case None
    then show ?thesis using r F FF(1) [OF None] by (simp add: used_def sb_def v_def)
  next
    case (Some b)
    with r(4) obtain bi where bi: "free_bit size' b (v (BBLOCK (of_nat b) sb)) = Some bi" "r = of_nat (b + bi)"
      "block_view s' dev = alloc_result sb v (b + bi)" by auto
    define x where "x = b + bi"
    have x: "x < size'" "\<not> used s x" "\<forall>y < x. used s y"
      using FF(2) [OF Some bi(1)] by (simp_all add: used_def sb_def v_def x_def)
    have "used s' y \<longleftrightarrow> y = x \<or> used s y" if "y < size'" for y
      using in_use_alloc_result [OF ok, of x y] x that bi(3) F by (simp add: used_def size'_def sb_def v_def x_def)
    moreover have "block_view s' dev r = replicate BSIZE 0"
      "n \<noteq> r \<and> n \<noteq> BBLOCK r (fs_sb s) \<longrightarrow> block_view s' dev n = block_view s dev n" for n
      using bi(2,3) by (simp_all add: alloc_result_def sb_def v_def del: of_nat_add)
    moreover have "\<not> (\<forall>y < size'. used s y)" using x by blast
    ultimately show ?thesis using r(1,2) F x bi(2) by (simp add: x_def [symmetric]) blast
  qed
qed

text \<open>A fresh transaction after boot.\<close>

lemma booted_txn:
  assumes b: "booted d s" and dev: "dev \<noteq> 0" "lg_dev s = dev" and n: "lh_n s = 0" and k: "k \<le> 28"
    "int k \<le> sint (lg_size s - 1)" "1 \<le> sint (lg_outstanding s)" and len: "length (d (lg_start s)) = BSIZE"
  shows "txn pid dev k s" and "block_view s dev = d"
proof -
  note C = booted_calm [OF b dev(1)]
  have e: "disk s = d" "length (lh_block s) = LOGSIZE" using b by (simp_all add: booted_def)
  then show "block_view s dev = d" using C by simp
  have "free_bufs (\<lambda>_. 0) = {..<NBUF}" by (auto simp: free_bufs_def)
  then have c: "k + 2 \<le> card (free_bufs (\<lambda>_. 0))" using k(1) by (simp add: NBUF_def)
  have "ready pid dev (\<lambda>_. 0) 0 s"
    using C dev n e len c by (simp add: ready_def log_wf_def pinned_def pins_exact_def homes_from_def)
  then show "txn pid dev k s" unfolding txn_def
    using n k e c by (intro exI [of _ "\<lambda>_. 0"] exI [of _ "0 :: nat"]) (simp add: LOGSIZE_def MAXOPBLOCKS_def)
qed

text \<open>A disk of 60 blocks with block 50 free: bit 2 of byte 6 of the bitmap is clear.\<close>

definition example_bitmap :: blk where
  "example_bitmap = (replicate BSIZE 255)[6 := 251]"

definition example_disk :: "u32 \<Rightarrow> blk" where
  "example_disk n = (if n = 45 then example_bitmap else replicate BSIZE 0)"

definition example_fs :: fsys where
  "example_fs = \<lparr>bufs = bufs (boot_bio example_disk), disk = example_disk, dtrace = [],
     lg_start = 2, lg_size = 30, lg_outstanding = 1, lg_committing = 0, lg_dev = 1, lh_n = 0, lh_block = replicate LOGSIZE 0,
     fs_sb = example_sb\<lparr>sb_size := 60\<rparr>, itable = []\<rparr>"

lemma example_fs_txn: "txn 1 1 2 example_fs" and example_fs_view: "block_view example_fs 1 = example_disk"
proof -
  have b: "booted example_disk example_fs" by (simp add: booted_def example_fs_def)
  have s: "2 \<le> sint (30 - 1 :: s32)" by simp
  show "txn 1 1 2 example_fs" by (rule booted_txn(1) [OF b]) (simp_all add: example_fs_def example_disk_def s)
  show "block_view example_fs 1 = example_disk"
    by (rule booted_txn(2) [OF b, of _ 2]) (simp_all add: example_fs_def example_disk_def s)
qed

lemma example_bitmap_clear: "b < 60 \<Longrightarrow> bit_clear example_bitmap b \<longleftrightarrow> b = 50"
proof -
  assume b: "b < 60"
  have lt8: "n = 0 \<or> n = 1 \<or> n = 2 \<or> n = 3 \<or> n = 4 \<or> n = 5 \<or> n = 6 \<or> n = 7" if "n < 8" for n :: nat
    using that by linarith
  have full: "bit (255 :: u8) n" if "n < 8" for n using lt8 [OF that] by (elim disjE) simp_all
  have holes: "bit (251 :: u8) n \<longleftrightarrow> n \<noteq> 2" if "n < 8" for n using lt8 [OF that] by (elim disjE) simp_all
  have e: "b = 50 \<longleftrightarrow> b div 8 = 6 \<and> b mod 8 = 2" by presburger
  have "b div 8 < BSIZE" using b by (simp add: BSIZE_def)
  then show ?thesis using full [of "b mod 8"] holes [of "b mod 8"] e
    by (cases "b div 8 = 6") (simp_all add: bit_clear_iff example_bitmap_def BSIZE_def)
qed

lemma example_BBLOCK: "b < 60 \<Longrightarrow> BBLOCK (of_nat b) (example_sb\<lparr>sb_size := 60\<rparr>) = 45"
  using BBLOCK_same [of 0 b] by (simp add: BBLOCK_def example_sb_def BPB_def BSIZE_def)

lemma example_in_use: "b < 60 \<Longrightarrow> in_use (example_sb\<lparr>sb_size := 60\<rparr>) example_disk b \<longleftrightarrow> b \<noteq> 50"
  using example_BBLOCK [of b] example_bitmap_clear [of b] by (simp add: in_use_def example_disk_def BPB_def BSIZE_def)

lemma region_45: "45 \<notin> log_region 2"
proof
  assume "45 \<in> log_region 2"
  then obtain t where t: "t < LOGSIZE" "(45 :: u32) = log_block 2 t" by (auto simp: log_region_def)
  then have "(of_nat t :: u32) = of_nat 42" by (simp add: log_block_def algebra_simps)
  then show False using t(1) of_nat_u32_inj [of t 42] by (simp add: LOGSIZE_def MAXOPBLOCKS_def)
qed

lemma example_bitmap_ok: "bitmap_ok (lg_start example_fs) (fs_sb example_fs) (block_view example_fs 1)"
proof -
  have f: "lg_start example_fs = 2" "fs_sb example_fs = example_sb\<lparr>sb_size := 60\<rparr>" by (simp_all add: example_fs_def)
  show ?thesis unfolding f example_fs_view bitmap_ok_def
    using example_BBLOCK example_in_use region_45 region_2 by (auto simp: example_disk_def example_bitmap_def)
qed

theorem balloc_correct_witness:
  "\<exists>s'. balloc 1 1 example_fs = Ret (50, s') \<and> block_view s' 1 50 = replicate BSIZE 0 \<and> disk s' = example_disk"
proof -
  have f: "unat (sb_size (example_sb\<lparr>sb_size := 60\<rparr>)) = 60" "fs_sb example_fs = example_sb\<lparr>sb_size := 60\<rparr>" "disk example_fs = example_disk"
    by (simp_all add: example_fs_def)
  have nf: "\<not> (\<forall>y < 60. in_use (example_sb\<lparr>sb_size := 60\<rparr>) example_disk y)"
    using example_in_use [of 50] by (auto intro!: exI [of _ 50])
  from balloc_correct [OF example_fs_txn example_bitmap_ok, unfolded f example_fs_view if_not_P [OF nf]]
  obtain r s' x where r: "balloc 1 1 example_fs = Ret (r, s')" "disk s' = example_disk" "x < 60" "r = of_nat x"
      "\<not> in_use (example_sb\<lparr>sb_size := 60\<rparr>) example_disk x" "block_view s' 1 r = replicate BSIZE 0" by blast
  then show ?thesis using example_in_use [of x] by auto
qed

end
