(* ===== verification/Sysfile.thy ===== *)
theory Sysfile
  imports Files Txn
begin

text \<open>
  \<^verbatim>\<open>kernel/sysfile.c\<close>: the system calls on files. A call returns the value that \<open>syscall\<close> puts
  into \<open>a0\<close>, as an integer; \<open>sys_read\<close> and \<open>sys_write\<close> may end asleep, as the functions they call.
\<close>

definition MAXPATH :: nat where "MAXPATH = 128"
definition MAXARG :: nat where "MAXARG = 32"
definition O_RDONLY :: s32 where "O_RDONLY = 0"
definition O_WRONLY :: s32 where "O_WRONLY = 1"
definition O_RDWR :: s32 where "O_RDWR = 2"
definition O_CREATE :: s32 where "O_CREATE = 0x200"
definition O_TRUNC :: s32 where "O_TRUNC = 0x400"

section \<open>File descriptors\<close>

definition argfd :: "nat \<Rightarrow> nat \<Rightarrow> 'a kfs_scheme \<Rightarrow> (nat \<times> nat) option res" where
  "argfd me n s =
     bindR (argint me n s) (\<lambda>fd.
     if sint fd < 0 \<or> sint fd \<ge> int NOFILE then Ret None
     else case p_ofile (procs s ! me) ! nat (sint fd) of
        None \<Rightarrow> Ret None
      | Some f \<Rightarrow> Ret (Some (nat (sint fd), f)))"

definition set_ofile :: "nat \<Rightarrow> nat \<Rightarrow> nat option \<Rightarrow> 'a kfs_scheme \<Rightarrow> 'a kfs_scheme" where
  "set_ofile me fd f s = upd_proc me (\<lambda>p. p\<lparr>p_ofile := (p_ofile p)[fd := f]\<rparr>) s"

definition fdalloc :: "nat \<Rightarrow> nat \<Rightarrow> 'a kfs_scheme \<Rightarrow> nat option \<times> 'a kfs_scheme" where
  "fdalloc me f s =
     (case find (\<lambda>fd. p_ofile (procs s ! me) ! fd = None) [0..<NOFILE] of
        None \<Rightarrow> (None, s)
      | Some fd \<Rightarrow> (Some fd, set_ofile me fd (Some f) s))"

definition sys_dup :: "nat \<Rightarrow> 'a kfs_scheme \<Rightarrow> (int \<times> 'a kfs_scheme) res" where
  "sys_dup me s =
     bindR (argfd me 0 s) (\<lambda>r. case r of
       None \<Rightarrow> Ret (-1, s)
     | Some (_, f) \<Rightarrow>
         let (fd, s) = fdalloc me f s in
         (case fd of None \<Rightarrow> Ret (-1, s)
          | Some fd \<Rightarrow> bindR (filedup f s) (\<lambda>s. Ret (int fd, s))))"

definition sys_getreadcount :: "'a kfs_scheme \<Rightarrow> int \<times> 'a kfs_scheme" where
  "sys_getreadcount s = (sint (readCount s), s)"

definition sys_read :: "nat \<Rightarrow> 'a kfs_scheme \<Rightarrow> (io \<times> 'a kfs_scheme) res" where
  "sys_read me s =
     (let s = s\<lparr>readCount := readCount s + 1\<rparr> in
      bindR (argaddr me 1 s) (\<lambda>p.
      bindR (argint me 2 s) (\<lambda>n.
      bindR (argfd me 0 s) (\<lambda>r. case r of
        None \<Rightarrow> Ret (Done (-1), s)
      | Some (_, f) \<Rightarrow> fileread me f p n s))))"

definition sys_write :: "nat \<Rightarrow> 'a kfs_scheme \<Rightarrow> (io \<times> 'a kfs_scheme) res" where
  "sys_write me s =
     bindR (argaddr me 1 s) (\<lambda>p.
     bindR (argint me 2 s) (\<lambda>n.
     bindR (argfd me 0 s) (\<lambda>r. case r of
       None \<Rightarrow> Ret (Done (-1), s)
     | Some (_, f) \<Rightarrow> filewrite me f p n s)))"

definition sys_close :: "nat \<Rightarrow> 'a kfs_scheme \<Rightarrow> (int \<times> 'a kfs_scheme) res" where
  "sys_close me s =
     bindR (argfd me 0 s) (\<lambda>r. case r of
       None \<Rightarrow> Ret (-1, s)
     | Some (fd, f) \<Rightarrow> bindR (fileclose me f (set_ofile me fd None s)) (\<lambda>s. Ret (0, s)))"

definition sys_fstat :: "nat \<Rightarrow> 'a kfs_scheme \<Rightarrow> (int \<times> 'a kfs_scheme) res" where
  "sys_fstat me s =
     bindR (argaddr me 1 s) (\<lambda>st.
     bindR (argfd me 0 s) (\<lambda>r. case r of
       None \<Rightarrow> Ret (-1, s)
     | Some (_, f) \<Rightarrow> filestat me f st s))"

section \<open>Links\<close>

text \<open>The exits of the calls below, that end the transaction.\<close>

definition end_with :: "nat \<Rightarrow> int \<Rightarrow> 'a kfs_scheme \<Rightarrow> (int \<times> 'a kfs_scheme) res" where
  "end_with me r s = bindR (do_fs (end_op (my_pid me s)) s) (\<lambda>s. Ret (r, s))"

definition upd_nlink :: "nat \<Rightarrow> (u16 \<Rightarrow> u16) \<Rightarrow> 'a kfs_scheme \<Rightarrow> 'a kfs_scheme" where
  "upd_nlink ip f s = s\<lparr>fs := upd_inode ip (\<lambda>i. i\<lparr>i_nlink := f (i_nlink i)\<rparr>) (fs s)\<rparr>"

definition link_bad :: "nat \<Rightarrow> nat \<Rightarrow> 'a kfs_scheme \<Rightarrow> (int \<times> 'a kfs_scheme) res" where
  "link_bad me ip s =
     bindR (do_fs (ilock (my_pid me s) ip) s) (\<lambda>s.
     bindR (do_fs (iupdate (my_pid me s) ip) (upd_nlink ip (\<lambda>n. n - 1) s)) (\<lambda>s.
     bindR (do_fs (iunlockput (my_pid me s) ip) s) (\<lambda>s.
     end_with me (-1) s)))"

definition sys_link :: "nat \<Rightarrow> 'a kfs_scheme \<Rightarrow> (int \<times> 'a kfs_scheme) res" where
  "sys_link me s =
     bindR (argstr me 0 MAXPATH s) (\<lambda>(r0, old, s).
     if r0 < 0 then Ret (-1, s)
     else bindR (argstr me 1 MAXPATH s) (\<lambda>(r1, new, s).
     if r1 < 0 then Ret (-1, s)
     else bindR (do_fs begin_op s) (\<lambda>s.
     bindR (namei me old s) (\<lambda>(r, s). case r of
       None \<Rightarrow> end_with me (-1) s
     | Some ip \<Rightarrow>
         bindR (do_fs (ilock (my_pid me s) ip) s) (\<lambda>s.
         if i_type (the_inode ip s) = T_DIR then
           bindR (do_fs (iunlockput (my_pid me s) ip) s) (\<lambda>s. end_with me (-1) s)
         else
           bindR (do_fs (iupdate (my_pid me s) ip) (upd_nlink ip (\<lambda>n. n + 1) s)) (\<lambda>s.
           bindR (do_fs (iunlock (my_pid me s) ip) s) (\<lambda>s.
           bindR (nameiparent me new (replicate DIRSIZ 0) s) (\<lambda>(r, name, s). case r of
             None \<Rightarrow> link_bad me ip s
           | Some dp \<Rightarrow>
               bindR (do_fs (ilock (my_pid me s) dp) s) (\<lambda>s.
               bindR (if i_dev (the_inode dp s) \<noteq> i_dev (the_inode ip s) then Ret (-1, s)
                      else dirlink me dp name (i_inum (the_inode ip s)) s) (\<lambda>(r, s).
               bindR (do_fs (iunlockput (my_pid me s) dp) s) (\<lambda>s.
               if r < 0 then link_bad me ip s
               else bindR (do_fs (iput (my_pid me s) ip) s) (\<lambda>s. end_with me 0 s))))))))))))"

fun isdirempty_loop :: "nat \<Rightarrow> nat \<Rightarrow> nat list \<Rightarrow> 'a kfs_scheme \<Rightarrow> (bool \<times> 'a kfs_scheme) res" where
  "isdirempty_loop me dp [] s = Ret (True, s)"
| "isdirempty_loop me dp (off # offs) s =
     bindR (readi me dp False (kbuf s) (of_nat off) 16 s) (\<lambda>(r, s).
     if r \<noteq> 16 then Panic ''isdirempty: readi''
     else if de_inum s \<noteq> 0 then Ret (False, s)
     else isdirempty_loop me dp offs s)"

definition isdirempty :: "nat \<Rightarrow> nat \<Rightarrow> 'a kfs_scheme \<Rightarrow> (bool \<times> 'a kfs_scheme) res" where
  "isdirempty me dp s = isdirempty_loop me dp (dir_offsets 32 (i_size (the_inode dp s))) s"

text \<open>The error exit of \<open>sys_unlink\<close>.\<close>

definition unlink_bad :: "nat \<Rightarrow> nat \<Rightarrow> 'a kfs_scheme \<Rightarrow> (int \<times> 'a kfs_scheme) res" where
  "unlink_bad me dp s = bindR (do_fs (iunlockput (my_pid me s) dp) s) (\<lambda>s. end_with me (-1) s)"

text \<open>Removing the entry at \<open>off\<close> of \<open>dp\<close> that names \<open>ip\<close>, both locked.\<close>

definition unlink_entry :: "nat \<Rightarrow> nat \<Rightarrow> nat \<Rightarrow> u32 \<Rightarrow> 'a kfs_scheme \<Rightarrow> (int \<times> 'a kfs_scheme) res" where
  "unlink_entry me dp ip off s =
     bindR (writei me dp False (kbuf s) off 16 (s\<lparr>mem := put_bytes (mem s) (kbuf s) (replicate 16 0)\<rparr>)) (\<lambda>(r, s).
     if r \<noteq> 16 then Panic ''unlink: writei''
     else
       bindR (if i_type (the_inode ip s) = T_DIR
              then do_fs (iupdate (my_pid me s) dp) (upd_nlink dp (\<lambda>n. n - 1) s) else Ret s) (\<lambda>s.
       bindR (do_fs (iunlockput (my_pid me s) dp) s) (\<lambda>s.
       bindR (do_fs (iupdate (my_pid me s) ip) (upd_nlink ip (\<lambda>n. n - 1) s)) (\<lambda>s.
       bindR (do_fs (iunlockput (my_pid me s) ip) s) (\<lambda>s.
       end_with me 0 s)))))"

definition sys_unlink :: "nat \<Rightarrow> 'a kfs_scheme \<Rightarrow> (int \<times> 'a kfs_scheme) res" where
  "sys_unlink me s =
     bindR (argstr me 0 MAXPATH s) (\<lambda>(r0, path, s).
     if r0 < 0 then Ret (-1, s)
     else bindR (do_fs begin_op s) (\<lambda>s.
     bindR (nameiparent me path (replicate DIRSIZ 0) s) (\<lambda>(r, name, s). case r of
       None \<Rightarrow> end_with me (-1) s
     | Some dp \<Rightarrow>
         bindR (do_fs (ilock (my_pid me s) dp) s) (\<lambda>s.
         if namecmp name [46, 0] = 0 \<or> namecmp name [46, 46, 0] = 0 then unlink_bad me dp s
         else
           bindR (dirlookup me dp name s) (\<lambda>(r, s). case r of
             None \<Rightarrow> unlink_bad me dp s
           | Some (ip, off) \<Rightarrow>
               bindR (do_fs (ilock (my_pid me s) ip) s) (\<lambda>s.
               if sint (i_nlink (the_inode ip s)) < 1 then Panic ''unlink: nlink < 1''
               else
                 bindR (if i_type (the_inode ip s) = T_DIR then isdirempty me ip s else Ret (True, s)) (\<lambda>(emp, s).
                 if \<not> emp then bindR (do_fs (iunlockput (my_pid me s) ip) s) (\<lambda>s. unlink_bad me dp s)
                 else unlink_entry me dp ip off s)))))))"

section \<open>Creating and opening\<close>

definition create_fail :: "nat \<Rightarrow> nat \<Rightarrow> nat \<Rightarrow> 'a kfs_scheme \<Rightarrow> (nat option \<times> 'a kfs_scheme) res" where
  "create_fail me dp ip s =
     bindR (do_fs (iupdate (my_pid me s) ip) (upd_nlink ip (\<lambda>_. 0) s)) (\<lambda>s.
     bindR (do_fs (iunlockput (my_pid me s) ip) s) (\<lambda>s.
     bindR (do_fs (iunlockput (my_pid me s) dp) s) (\<lambda>s. Ret (None, s))))"

definition create :: "nat \<Rightarrow> u8 list \<Rightarrow> u16 \<Rightarrow> u16 \<Rightarrow> u16 \<Rightarrow> 'a kfs_scheme \<Rightarrow> (nat option \<times> 'a kfs_scheme) res" where
  "create me path type' major minor s =
     bindR (nameiparent me path (replicate DIRSIZ 0) s) (\<lambda>(r, name, s). case r of
       None \<Rightarrow> Ret (None, s)
     | Some dp \<Rightarrow>
         bindR (do_fs (ilock (my_pid me s) dp) s) (\<lambda>s.
         bindR (dirlookup me dp name s) (\<lambda>(r, s). case r of
           Some (ip, _) \<Rightarrow>
             bindR (do_fs (iunlockput (my_pid me s) dp) s) (\<lambda>s.
             bindR (do_fs (ilock (my_pid me s) ip) s) (\<lambda>s.
             if type' = T_FILE \<and> (i_type (the_inode ip s) = T_FILE \<or> i_type (the_inode ip s) = T_DEVICE)
             then Ret (Some ip, s)
             else bindR (do_fs (iunlockput (my_pid me s) ip) s) (\<lambda>s. Ret (None, s))))
         | None \<Rightarrow>
             bindR (on_fs (ialloc (my_pid me s) (i_dev (the_inode dp s)) type') s) (\<lambda>(r, s). case r of
               None \<Rightarrow> bindR (do_fs (iunlockput (my_pid me s) dp) s) (\<lambda>s. Ret (None, s))
             | Some ip \<Rightarrow>
                 bindR (do_fs (ilock (my_pid me s) ip) s) (\<lambda>s.
                 let s = s\<lparr>fs := upd_inode ip (\<lambda>i. i\<lparr>i_major := major, i_minor := minor, i_nlink := 1\<rparr>) (fs s)\<rparr> in
                 bindR (do_fs (iupdate (my_pid me s) ip) s) (\<lambda>s.
                 bindR (if type' = T_DIR then
                          bindR (dirlink me ip [46, 0] (i_inum (the_inode ip s)) s) (\<lambda>(r, s).
                          if r < 0 then Ret (r, s) else dirlink me ip [46, 46, 0] (i_inum (the_inode dp s)) s)
                        else Ret (0, s)) (\<lambda>(r, s).
                 if r < 0 then create_fail me dp ip s
                 else
                   bindR (dirlink me dp name (i_inum (the_inode ip s)) s) (\<lambda>(r, s).
                   if r < 0 then create_fail me dp ip s
                   else
                     bindR (if type' = T_DIR then do_fs (iupdate (my_pid me s) dp) (upd_nlink dp (\<lambda>n. n + 1) s) else Ret s) (\<lambda>s.
                     bindR (do_fs (iunlockput (my_pid me s) dp) s) (\<lambda>s. Ret (Some ip, s)))))))))))"

text \<open>The part of \<open>sys_open\<close> that follows once the inode is found and locked.\<close>

definition open_inode :: "nat \<Rightarrow> s32 \<Rightarrow> nat \<Rightarrow> 'a kfs_scheme \<Rightarrow> (int \<times> 'a kfs_scheme) res" where
  "open_inode me omode ip s =
     (let fail = (\<lambda>s. bindR (do_fs (iunlockput (my_pid me s) ip) s) (\<lambda>s. end_with me (-1) s));
          i = the_inode ip s in
      if i_type i = T_DEVICE \<and> (sint (i_major i) < 0 \<or> sint (i_major i) \<ge> int NDEV) then fail s
      else
        let (r, s) = filealloc s in
        (case r of
           None \<Rightarrow> fail s
         | Some f \<Rightarrow>
             let (r, s) = fdalloc me f s in
             (case r of
                None \<Rightarrow> bindR (fileclose me f s) fail
              | Some fd \<Rightarrow>
                  let s = (if i_type i = T_DEVICE
                           then upd_file f (\<lambda>x. x\<lparr>f_type := FD_DEVICE, f_major := i_major i\<rparr>) s
                           else upd_file f (\<lambda>x. x\<lparr>f_type := FD_INODE, f_off := 0\<rparr>) s);
                      s = upd_file f (\<lambda>x. x\<lparr>f_ip := ip, f_readable := (omode AND O_WRONLY = 0),
                            f_writable := (omode AND O_WRONLY \<noteq> 0 \<or> omode AND O_RDWR \<noteq> 0)\<rparr>) s in
                  bindR (if omode AND O_TRUNC \<noteq> 0 \<and> i_type i = T_FILE then do_fs (itrunc (my_pid me s) ip) s else Ret s) (\<lambda>s.
                  bindR (do_fs (iunlock (my_pid me s) ip) s) (\<lambda>s. end_with me (int fd) s)))))"

definition sys_open :: "nat \<Rightarrow> 'a kfs_scheme \<Rightarrow> (int \<times> 'a kfs_scheme) res" where
  "sys_open me s =
     bindR (argint me 1 s) (\<lambda>omode.
     bindR (argstr me 0 MAXPATH s) (\<lambda>(n, path, s).
     if n < 0 then Ret (-1, s)
     else bindR (do_fs begin_op s) (\<lambda>s.
     if omode AND O_CREATE \<noteq> 0 then
       bindR (create me path T_FILE 0 0 s) (\<lambda>(r, s). case r of
         None \<Rightarrow> end_with me (-1) s
       | Some ip \<Rightarrow> open_inode me omode ip s)
     else
       bindR (namei me path s) (\<lambda>(r, s). case r of
         None \<Rightarrow> end_with me (-1) s
       | Some ip \<Rightarrow>
           bindR (do_fs (ilock (my_pid me s) ip) s) (\<lambda>s.
           if i_type (the_inode ip s) = T_DIR \<and> omode \<noteq> O_RDONLY then
             bindR (do_fs (iunlockput (my_pid me s) ip) s) (\<lambda>s. end_with me (-1) s)
           else open_inode me omode ip s)))))"

definition sys_mkdir :: "nat \<Rightarrow> 'a kfs_scheme \<Rightarrow> (int \<times> 'a kfs_scheme) res" where
  "sys_mkdir me s =
     bindR (do_fs begin_op s) (\<lambda>s.
     bindR (argstr me 0 MAXPATH s) (\<lambda>(n, path, s).
     if n < 0 then end_with me (-1) s
     else
       bindR (create me path T_DIR 0 0 s) (\<lambda>(r, s). case r of
         None \<Rightarrow> end_with me (-1) s
       | Some ip \<Rightarrow> bindR (do_fs (iunlockput (my_pid me s) ip) s) (\<lambda>s. end_with me 0 s))))"

definition sys_mknod :: "nat \<Rightarrow> 'a kfs_scheme \<Rightarrow> (int \<times> 'a kfs_scheme) res" where
  "sys_mknod me s =
     bindR (do_fs begin_op s) (\<lambda>s.
     bindR (argint me 1 s) (\<lambda>major.
     bindR (argint me 2 s) (\<lambda>minor.
     bindR (argstr me 0 MAXPATH s) (\<lambda>(n, path, s).
     if n < 0 then end_with me (-1) s
     else
       bindR (create me path T_DEVICE (ucast major) (ucast minor) s) (\<lambda>(r, s). case r of
         None \<Rightarrow> end_with me (-1) s
       | Some ip \<Rightarrow> bindR (do_fs (iunlockput (my_pid me s) ip) s) (\<lambda>s. end_with me 0 s))))))"

definition sys_chdir :: "nat \<Rightarrow> 'a kfs_scheme \<Rightarrow> (int \<times> 'a kfs_scheme) res" where
  "sys_chdir me s =
     bindR (do_fs begin_op s) (\<lambda>s.
     bindR (argstr me 0 MAXPATH s) (\<lambda>(n, path, s).
     if n < 0 then end_with me (-1) s
     else
       bindR (namei me path s) (\<lambda>(r, s). case r of
         None \<Rightarrow> end_with me (-1) s
       | Some ip \<Rightarrow>
           bindR (do_fs (ilock (my_pid me s) ip) s) (\<lambda>s.
           if i_type (the_inode ip s) \<noteq> T_DIR then
             bindR (do_fs (iunlockput (my_pid me s) ip) s) (\<lambda>s. end_with me (-1) s)
           else
             bindR (do_fs (iunlock (my_pid me s) ip) s) (\<lambda>s.
             bindR (case p_cwd (procs s ! me) of None \<Rightarrow> Undef | Some cwd \<Rightarrow> do_fs (iput (my_pid me s) cwd) s) (\<lambda>s.
             bindR (do_fs (end_op (my_pid me s)) s) (\<lambda>s.
             Ret (0, upd_proc me (\<lambda>p. p\<lparr>p_cwd := Some ip\<rparr>) s))))))))"

section \<open>Pipes\<close>

definition sys_pipe :: "nat \<Rightarrow> 'a kfs_scheme \<Rightarrow> (int \<times> 'a kfs_scheme) res" where
  "sys_pipe me s =
     bindR (argaddr me 0 s) (\<lambda>fdarray.
     bindR (pipealloc me s) (\<lambda>(r, s). case r of
       None \<Rightarrow> Ret (-1, s)
     | Some (rfile, wfile) \<Rightarrow>
         let close2 = (\<lambda>s. bindR (fileclose me rfile s) (\<lambda>s. bindR (fileclose me wfile s) (\<lambda>s. Ret (-1, s))));
             (r0, s) = fdalloc me rfile s in
         (case r0 of
            None \<Rightarrow> close2 s
          | Some fd0 \<Rightarrow>
              let (r1, s) = fdalloc me wfile s in
              (case r1 of
                 None \<Rightarrow> close2 (set_ofile me fd0 None s)
               | Some fd1 \<Rightarrow>
                   let pt = p_pagetable (procs s ! me) in
                   bindR (copyout_obj pt fdarray (le_bytes 4 (of_nat fd0 :: u32)) s) (\<lambda>(r, s).
                   bindR (if r < 0 then Ret (r, s) else copyout_obj pt (fdarray + 4) (le_bytes 4 (of_nat fd1 :: u32)) s) (\<lambda>(r, s).
                   if r < 0 then close2 (set_ofile me fd1 None (set_ofile me fd0 None s))
                   else Ret (0, s)))))))"

section \<open>References to open files\<close>

text \<open>
  The reference count of every open file is the number of descriptors of all processes
  that refer to it.
\<close>

definition fd_count :: "nat \<Rightarrow> proc \<Rightarrow> int" where
  "fd_count f p = int (count_list (p_ofile p) (Some f))"

definition fd_refs :: "nat \<Rightarrow> ptable \<Rightarrow> int" where
  "fd_refs f ps = sum_list (map (fd_count f) ps)"

definition refs_ok :: "'a kfs_scheme \<Rightarrow> bool" where
  "refs_ok s \<longleftrightarrow> length (procs s) \<le> 64 \<and> length (ftable s) = NFILE \<and>
     (\<forall>p \<in> set (procs s). length (p_ofile p) = NOFILE \<and> (\<forall>f. Some f \<in> set (p_ofile p) \<longrightarrow> f < NFILE)) \<and>
     (\<forall>f < NFILE. sint (f_ref (ftable s ! f)) = fd_refs f (procs s))"

lemma fd_refs_update:
  "i < length ps \<Longrightarrow> fd_refs f (ps[i := p]) = fd_refs f ps - fd_count f (ps ! i) + fd_count f p"
proof (induction ps arbitrary: i)
  case (Cons q ps)
  then show ?case by (cases i) (auto simp: fd_refs_def)
qed simp

lemma count_list_update:
  "i < length xs \<Longrightarrow> int (count_list (xs[i := y]) x) = int (count_list xs x) - of_bool (xs ! i = x) + of_bool (y = x)"
proof (induction xs arbitrary: i)
  case (Cons a xs)
  then show ?case by (cases i) auto
qed simp

lemma fd_refs_bound:
  assumes "length ps \<le> 64" and "\<forall>p \<in> set ps. length (p_ofile p) = NOFILE"
  shows "0 \<le> fd_refs f ps" and "fd_refs f ps \<le> 1024"
proof -
  have "0 \<le> fd_refs f qs" for qs by (induction qs) (auto simp: fd_refs_def fd_count_def)
  then show "0 \<le> fd_refs f ps" .
  have "fd_refs f qs \<le> 16 * int (length qs)" if "\<forall>p \<in> set qs. length (p_ofile p) = NOFILE" for qs
    using that
  proof (induction qs)
    case (Cons q qs)
    moreover have "count_list (p_ofile q) (Some f) \<le> 16" using Cons.prems count_le_length [of "p_ofile q"] by (simp add: NOFILE_def)
    ultimately show ?case by (auto simp: fd_refs_def fd_count_def)
  qed (simp add: fd_refs_def)
  from this [OF assms(2)] assms(1) show "fd_refs f ps \<le> 1024" by simp
qed

text \<open>Changing one descriptor.\<close>

lemma fd_refs_set_ofile:
  assumes "me < length (procs s)" and "fd < length (p_ofile (procs s ! me))"
  shows "fd_refs f (procs (set_ofile me fd x s)) =
    fd_refs f (procs s) - of_bool (p_ofile (procs s ! me) ! fd = Some f) + of_bool (x = Some f)"
  using assms by (simp add: set_ofile_def upd_proc_def upd_entry_def fd_refs_update fd_count_def count_list_update)

lemma ofile_set_ofile:
  assumes "me < length (procs s)" and "p \<in> set (procs (set_ofile me fd x s))"
  shows "p \<in> set (procs s) \<or> p_ofile p = (p_ofile (procs s ! me))[fd := x]"
  using assms by (auto simp: set_ofile_def upd_proc_def upd_entry_def set_update_distinct dest!: set_update_subset_insert [THEN subsetD])

lemma argfd_cases:
  obtains "argfd me 0 s = Ret None"
  | fd f where "argfd me 0 s = Ret (Some (fd, f))" and "fd < NOFILE" and "p_ofile (procs s ! me) ! fd = Some f"
proof -
  define fd where "fd = (ucast (tf_get me 112 s) :: s32)"
  have e: "argint me 0 s = Ret fd" by (simp add: argint_def argraw_def fd_def)
  show thesis
  proof (cases "sint fd < 0 \<or> sint fd \<ge> int NOFILE \<or> p_ofile (procs s ! me) ! nat (sint fd) = None")
    case True
    then show ?thesis using that(1) e by (auto simp: argfd_def split: option.splits)
  next
    case False
    then obtain f where f: "p_ofile (procs s ! me) ! nat (sint fd) = Some f" by auto
    then have "argfd me 0 s = Ret (Some (nat (sint fd), f))" using e False by (auto simp: argfd_def)
    moreover have "nat (sint fd) < NOFILE" using False by auto
    ultimately show ?thesis using that(2) f by blast
  qed
qed

lemma refs_okD:
  assumes "refs_ok s" and "me < length (procs s)"
  shows "length (p_ofile (procs s ! me)) = NOFILE" and "fd < NOFILE \<Longrightarrow> p_ofile (procs s ! me) ! fd = Some f \<Longrightarrow> f < NFILE"
    and "f < NFILE \<Longrightarrow> sint (f_ref (ftable s ! f)) = fd_refs f (procs s)" and "length (ftable s) = NFILE"
    and "0 \<le> fd_refs f (procs s)" and "fd_refs f (procs s) \<le> 1024"
    and "fd < NOFILE \<Longrightarrow> p_ofile (procs s ! me) ! fd = Some f \<Longrightarrow> 1 \<le> fd_refs f (procs s)"
proof -
  let ?p = "procs s ! me"
  have p: "?p \<in> set (procs s)" using assms(2) by simp
  show l: "length (p_ofile ?p) = NOFILE" using assms(1) p by (auto simp: refs_ok_def)
  show "fd < NOFILE \<Longrightarrow> p_ofile ?p ! fd = Some f \<Longrightarrow> f < NFILE"
    using assms(1) p l unfolding refs_ok_def by (metis nth_mem)
  show "f < NFILE \<Longrightarrow> sint (f_ref (ftable s ! f)) = fd_refs f (procs s)" "length (ftable s) = NFILE"
    using assms(1) by (simp_all add: refs_ok_def)
  show "0 \<le> fd_refs f (procs s)" "fd_refs f (procs s) \<le> 1024"
    using fd_refs_bound [of "procs s" f] assms(1) by (simp_all add: refs_ok_def)
  show "1 \<le> fd_refs f (procs s)" if "fd < NOFILE" "p_ofile ?p ! fd = Some f"
  proof -
    have "fd_refs f (procs (set_ofile me fd None s)) = fd_refs f (procs s) - 1"
      using fd_refs_set_ofile [OF assms(2), of fd f None] that l by simp
    moreover have "0 \<le> fd_refs f qs" for qs by (induction qs) (auto simp: fd_refs_def fd_count_def)
    ultimately show ?thesis by (metis diff_ge_0_iff_ge)
  qed
qed

text \<open>One descriptor changes from one file to another, and the counts with it.\<close>

lemma refs_ok_move:
  assumes ok: "refs_ok s" and me: "me < length (procs s)" and fd: "fd < NOFILE" and x: "\<And>f. x = Some f \<Longrightarrow> f < NFILE"
    and p: "procs s' = procs (set_ofile me fd x s)" and l: "length (ftable s') = NFILE"
    and r: "\<And>f. f < NFILE \<Longrightarrow> sint (f_ref (ftable s' ! f)) =
      sint (f_ref (ftable s ! f)) - of_bool (p_ofile (procs s ! me) ! fd = Some f) + of_bool (x = Some f)"
  shows "refs_ok s'"
proof -
  note D = refs_okD [OF ok me]
  have "length (p_ofile q) = NOFILE \<and> (\<forall>f. Some f \<in> set (p_ofile q) \<longrightarrow> f < NFILE)" if "q \<in> set (procs s')" for q
    using ofile_set_ofile [OF me, of q fd x] that p ok x me D(1)
    by (auto simp: refs_ok_def dest!: set_update_subset_insert [THEN subsetD] nth_mem)
  moreover have "sint (f_ref (ftable s' ! f)) = fd_refs f (procs s')" if "f < NFILE" for f
    using r [OF that] D(3) [OF that] fd_refs_set_ofile [OF me, of fd f x] D(1) fd p by simp
  ultimately show ?thesis using ok l p by (simp add: refs_ok_def set_ofile_def upd_proc_def upd_entry_def)
qed

lemma sint_step:
  fixes x :: s32 assumes "0 \<le> sint x" and "sint x \<le> 2000"
  shows "sint (x + 1) = sint x + 1" and "sint (x - 1) = sint x - 1"
  using assms sint_word_ariths(1) [of x 1] sint_word_ariths(2) [of x 1]
  by (simp_all add: signed_take_bit_int_eq_self)

text \<open>What the operations below leave alone: the table of open files and the descriptors.\<close>

definition same_files :: "'a kfs_scheme \<Rightarrow> 'a kfs_scheme \<Rightarrow> bool" where
  "same_files s s' \<longleftrightarrow> ftable s' = ftable s \<and> map p_ofile (procs s') = map p_ofile (procs s)"

lemma refs_ok_same: "same_files s s' \<Longrightarrow> refs_ok s' = refs_ok s"
proof -
  assume a: "same_files s s'"
  have "fd_refs f ps = sum_list (map (\<lambda>o'. int (count_list o' (Some f))) (map p_ofile ps))" for f ps
    by (simp add: fd_refs_def fd_count_def [abs_def] comp_def)
  then have "fd_refs f (procs s') = fd_refs f (procs s)" for f using a by (simp only: same_files_def)
  moreover have "length (procs s') = length (procs s)" using a map_eq_imp_length_eq by (auto simp: same_files_def)
  moreover have "p_ofile ` set (procs s') = p_ofile ` set (procs s)" using a by (metis same_files_def set_map)
  then have "(\<forall>x \<in> p_ofile ` set (procs s'). P x) \<longleftrightarrow> (\<forall>x \<in> p_ofile ` set (procs s). P x)" for P by simp
  from this [of "\<lambda>x. length x = NOFILE \<and> (\<forall>f. Some f \<in> set x \<longrightarrow> f < NFILE)"]
  have "(\<forall>p \<in> set (procs s'). length (p_ofile p) = NOFILE \<and> (\<forall>f. Some f \<in> set (p_ofile p) \<longrightarrow> f < NFILE)) \<longleftrightarrow>
      (\<forall>p \<in> set (procs s). length (p_ofile p) = NOFILE \<and> (\<forall>f. Some f \<in> set (p_ofile p) \<longrightarrow> f < NFILE))" by simp
  ultimately show ?thesis using a unfolding refs_ok_def same_files_def by simp
qed

lemma same_files_refl [simp]: "same_files s s"
  by (simp add: same_files_def)

lemma do_fs_same: "same_files s0 s \<Longrightarrow> holdsR (same_files s0) (do_fs f s)"
  by (auto simp: do_fs_def holdsR_def res_simps same_files_def)

lemma wakeup_ofile: "map p_ofile (wakeup me ch ps) = map p_ofile ps"
  by (rule nth_equalityI) (auto simp: wakeup_def nth_enumerate_eq)

lemma keeps_kfs:
  fixes s s' :: "'a kfs_scheme"
  assumes "keeps s s'" shows "procs s' = procs s" "ftable s' = ftable s"
  using assms by (cases s; cases s'; simp add: keeps_def)+

lemma pipeclose_same:
  assumes "same_files s0 s" shows "holdsR (same_files s0) (pipeclose me pi w s)"
proof -
  have k: "holdsR (same_files s0) (kfree pa s')" if "same_files s0 s'" for s' :: "'a kfs_scheme" and pa
    unfolding holdsR_def
  proof (intro allI impI)
    fix t assume "kfree pa s' = Ret t"
    then have "keeps s' t" using keeps_kfree [OF keeps_refl, of s' pa] by (simp add: holdsR_def)
    from keeps_kfs [OF this] that show "same_files s0 t" by (simp add: same_files_def)
  qed
  have "same_files s0 (k_wakeup (Some me) ch (upd_pipe pi g s))" for ch g
    using assms by (simp add: same_files_def k_wakeup_def upd_pipe_def wakeup_ofile)
  then show ?thesis using k by (auto simp: pipeclose_def Let_def)
qed

lemma upd_file_simps [simp]: "procs (upd_file f g s) = procs s" "length (ftable (upd_file f g s)) = length (ftable s)"
  by (simp_all add: upd_file_def)

lemma sys_dup_refs:
  assumes ok: "refs_ok s" and me: "me < length (procs s)"
  shows "\<exists>r s'. sys_dup me s = Ret (r, s') \<and> refs_ok s' \<and>
    (r = -1 \<and> s' = s \<or> (\<exists>fd < NOFILE. r = int fd \<and> p_ofile (procs s ! me) ! fd = None \<and> (\<forall>j < fd. p_ofile (procs s ! me) ! j \<noteq> None) \<and>
      argfd me 0 s \<noteq> Ret None \<and> (\<forall>k f. argfd me 0 s = Ret (Some (k, f)) \<longrightarrow> p_ofile (procs s' ! me) ! fd = Some f)))"
proof (cases rule: argfd_cases [of me s])
  case 1
  then show ?thesis using ok by (auto simp: sys_dup_def)
next
  case (2 k f)
  note D = refs_okD [OF ok me]
  show ?thesis
  proof (cases "find (\<lambda>fd. p_ofile (procs s ! me) ! fd = None) [0..<NOFILE]")
    case None
    then show ?thesis using 2 ok by (auto simp: sys_dup_def fdalloc_def)
  next
    case (Some fd)
    then have fd: "fd < NOFILE" "p_ofile (procs s ! me) ! fd = None" "\<forall>j < fd. p_ofile (procs s ! me) ! j \<noteq> None"
      by (auto simp: find_Some_iff)
    define s1 where "s1 = set_ofile me fd (Some f) s"
    have f: "f < NFILE" "1 \<le> sint (f_ref (ftable s ! f))" "sint (f_ref (ftable s ! f)) \<le> 1024"
      using D(2) [OF 2(2,3)] D(3) [of f] D(6) [of f] D(7) [OF 2(2,3)] by simp_all
    have e1: "ftable s1 = ftable s" by (simp add: s1_def set_ofile_def upd_proc_def)
    define s' where "s' = upd_file f (\<lambda>x. x\<lparr>f_ref := f_ref x + 1\<rparr>) s1"
    have r: "sys_dup me s = Ret (int fd, s')"
      using 2 Some f(2) e1 by (simp add: sys_dup_def fdalloc_def filedup_def s1_def s'_def)
    have "refs_ok s'"
    proof (rule refs_ok_move [OF ok me fd(1), of "Some f"])
      show "sint (f_ref (ftable s' ! g)) = sint (f_ref (ftable s ! g)) - of_bool (p_ofile (procs s ! me) ! fd = Some g) +
          of_bool (Some f = Some g)" if "g < NFILE" for g
        using f sint_step [of "f_ref (ftable s ! f)"] fd(2) e1 D(4) that by (auto simp: s'_def upd_file_def nth_list_update)
    qed (use f e1 D(4) in \<open>auto simp: s'_def s1_def\<close>)
    moreover have "p_ofile (procs s' ! me) ! fd = Some f"
      using me fd(1) D(1) by (simp add: s'_def s1_def set_ofile_def upd_proc_def upd_entry_def)
    ultimately show ?thesis using r fd 2 by auto
  qed
qed

lemma fileclose_last:
  assumes "fileclose me f s = Ret s'" and "1 \<le> sint (f_ref (ftable s ! f))"
  defines "s2 \<equiv> upd_file f (\<lambda>x. x\<lparr>f_ref := f_ref x - 1\<rparr>) s"
  assumes "\<not> sint (f_ref (ftable s2 ! f)) > 0"
  shows "same_files (upd_file f (\<lambda>x. x\<lparr>f_ref := 0, f_type := FD_NONE\<rparr>) s2) s'"
proof -
  define s3 where "s3 = upd_file f (\<lambda>x. x\<lparr>f_ref := 0, f_type := FD_NONE\<rparr>) s2"
  define ff where "ff = ftable s2 ! f"
  have e: "fileclose me f s = (if f_type ff = FD_PIPE then pipeclose me (f_pipe ff) (f_writable ff) s3
      else if f_type ff = FD_INODE \<or> f_type ff = FD_DEVICE then
        bindR (do_fs begin_op s3) (\<lambda>s. bindR (do_fs (iput (my_pid me s) (f_ip ff)) s) (\<lambda>s. do_fs (end_op (my_pid me s)) s))
      else Ret s3)"
    using assms(2,4) unfolding fileclose_def Let_def by (simp add: s3_def ff_def s2_def)
  have "holdsR (same_files s3) (fileclose me f s)"
    unfolding e by (auto intro!: pipeclose_same holdsR_bind [OF do_fs_same] do_fs_same)
  then show ?thesis using assms(1) by (simp add: holdsR_def s3_def)
qed

lemma sys_close_refs:
  assumes ok: "refs_ok s" and me: "me < length (procs s)" and r: "sys_close me s = Ret (r, s')"
  shows "refs_ok s'"
proof (cases rule: argfd_cases [of me s])
  case 1
  then show ?thesis using ok r by (auto simp: sys_close_def)
next
  case (2 fd f)
  note D = refs_okD [OF ok me]
  define s1 where "s1 = set_ofile me fd None s"
  have f: "f < NFILE" "1 \<le> sint (f_ref (ftable s ! f))" "sint (f_ref (ftable s ! f)) \<le> 1024"
    using D(2) [OF 2(2,3)] D(3) [of f] D(6) [of f] D(7) [OF 2(2,3)] by simp_all
  have e1: "ftable s1 = ftable s" by (simp add: s1_def set_ofile_def upd_proc_def)
  define n where "n = f_ref (ftable s ! f) - 1"
  have n: "sint n = sint (f_ref (ftable s ! f)) - 1" unfolding n_def using sint_step(2) f by simp
  have key: "refs_ok t" if t: "procs t = procs s1" "ftable t = (ftable s)[f := y]" "f_ref y = n" for t y
  proof (rule refs_ok_move [OF ok me 2(2), of None])
    show "sint (f_ref (ftable t ! g)) = sint (f_ref (ftable s ! g)) - of_bool (p_ofile (procs s ! me) ! fd = Some g) +
        of_bool (None = Some g)" if "g < NFILE" for g
      using t n 2(3) D(4) that f by (auto simp: nth_list_update)
  qed (use t D(4) in \<open>auto simp: s1_def\<close>)
  have rc: "fileclose me f s1 = Ret s'" using r 2 by (auto simp: sys_close_def s1_def res_simps)
  define s2 where "s2 = upd_file f (\<lambda>x. x\<lparr>f_ref := f_ref x - 1\<rparr>) s1"
  have fn: "f < length (ftable s)" using f D(4) by simp
  have ref2: "f_ref (ftable s2 ! f) = n" using e1 fn by (simp add: s2_def upd_file_def n_def)
  show ?thesis
  proof (cases "sint n > 0")
    case True
    then have "s' = s2" using rc f(2) e1 ref2 by (simp add: fileclose_def s2_def Let_def)
    then show ?thesis using key [of s2] e1 by (simp add: s2_def upd_file_def n_def)
  next
    case False
    then have n0: "n = 0" using n f(2) sint_eq_iff [of n 0] by (simp del: sint_eq_iff)
    define s3 where "s3 = upd_file f (\<lambda>x. x\<lparr>f_ref := 0, f_type := FD_NONE\<rparr>) s2"
    have "refs_ok s3" by (rule key [of s3 "(ftable s ! f)\<lparr>f_ref := 0, f_type := FD_NONE\<rparr>"])
        (use e1 fn n0 in \<open>simp_all add: s3_def s2_def upd_file_def\<close>)
    moreover have "same_files s3 s'" using fileclose_last [OF rc] f(2) e1 ref2 False unfolding s3_def s2_def by simp
    ultimately show ?thesis using refs_ok_same by blast
  qed
qed

definition demo_proc :: proc where
  "demo_proc = \<lparr>p_lock = \<lparr>lk_name = [], lk_locked = 0, lk_cpu = None\<rparr>, p_state = RUNNING, p_chan = Chan0, p_killed = False,
     p_xstate = 0, p_pid = 1, p_parent = None, p_kstack = 0, p_sz = 0, p_pagetable = 0, p_trapframe = 0x1000,
     p_context = \<lparr>ctx_ra = 0, ctx_sp = 0, ctx_s = []\<rparr>, p_ofile = Some 0 # replicate 15 None, p_cwd = None, p_name = [],
     p_rtime = 0, p_ctime = 0, p_etime = 0, p_my_wtime = 0, p_my_rtime = 0, p_my_stime = 0, p_static_pri = 50,
     p_rbi = 25, p_tot_sche = 0, p_curr_rbi = 25\<rparr>"

text \<open>A process with one open file, the console.\<close>

definition demo_kfs :: kfs where
  "demo_kfs = kcons.extend (demo_cons\<lparr>procs := [demo_proc]\<rparr>)
     \<lparr>fs = example_fs, ftable = (replicate NFILE \<lparr>f_type = FD_NONE, f_ref = 0, f_readable = False, f_writable = False,
        f_pipe = 0, f_ip = 0, f_off = 0, f_major = 0\<rparr>)[0 := \<lparr>f_type = FD_DEVICE, f_ref = 1, f_readable = True,
        f_writable = True, f_pipe = 0, f_ip = 0, f_off = 0, f_major = 1\<rparr>], devsw = replicate NDEV No_dev, readCount = 0\<rparr>"

lemma demo_kfs_refs: "refs_ok demo_kfs" and demo_kfs_procs: "procs demo_kfs = [demo_proc]"
  and demo_kfs_fd: "argfd 0 0 demo_kfs = Ret (Some (0, 0))"
proof -
  show p: "procs demo_kfs = [demo_proc]" by (simp add: demo_kfs_def kcons.defs demo_cons_def)
  have "tf_get 0 112 demo_kfs = 0"
    by (simp add: tf_get_def demo_kfs_def kcons.defs demo_cons_def ld64_zero)
  then show "argfd 0 0 demo_kfs = Ret (Some (0, 0))"
    using p by (simp add: argfd_def argint_def argraw_def demo_proc_def NOFILE_def)
  have f: "ftable demo_kfs ! f = \<lparr>f_type = (if f = 0 then FD_DEVICE else FD_NONE), f_ref = of_bool (f = 0), f_readable = (f = 0),
      f_writable = (f = 0), f_pipe = 0, f_ip = 0, f_off = 0, f_major = of_bool (f = 0)\<rparr>" if "f < NFILE" for f
    using that by (auto simp: demo_kfs_def kcons.defs demo_cons_def nth_list_update)
  have "length (ftable demo_kfs) = NFILE" by (simp add: demo_kfs_def kcons.defs demo_cons_def)
  moreover have "set (p_ofile demo_proc) = {Some 0, None}" "length (p_ofile demo_proc) = NOFILE" by (auto simp: demo_proc_def NOFILE_def)
  moreover have "0 < NFILE" by (simp add: NFILE_def)
  moreover have "fd_refs f [demo_proc] = of_bool (f = 0)" for f
    by (simp add: fd_refs_def fd_count_def demo_proc_def numeral_eq_Suc)
  ultimately show "refs_ok demo_kfs" using f p by (auto simp: refs_ok_def)
qed

text \<open>
  C17 The reference count of an open file is the number of descriptors that refer to it, in all processes.
  \<open>sys_dup\<close> and \<open>sys_close\<close> keep this; \<open>sys_dup\<close> always returns, without a panic, and gives the lowest
  free descriptor, which then refers to the same file, or -1 with nothing changed.
\<close>

theorem descriptor_references:
  assumes ok: "refs_ok s" and me: "me < length (procs s)"
  shows "(\<exists>r s'. sys_dup me s = Ret (r, s') \<and> refs_ok s' \<and>
      (r = -1 \<and> s' = s \<or> (\<exists>fd < NOFILE. r = int fd \<and> p_ofile (procs s ! me) ! fd = None \<and> (\<forall>j < fd. p_ofile (procs s ! me) ! j \<noteq> None) \<and>
        argfd me 0 s \<noteq> Ret None \<and> (\<forall>k f. argfd me 0 s = Ret (Some (k, f)) \<longrightarrow> p_ofile (procs s' ! me) ! fd = Some f)))) \<and>
    (\<forall>r s'. sys_close me s = Ret (r, s') \<longrightarrow> refs_ok s')"
  using sys_dup_refs [OF assms] sys_close_refs [OF assms] by blast

theorem descriptor_references_witness:
  "\<exists>s'. sys_dup 0 demo_kfs = Ret (1, s') \<and> refs_ok s' \<and> p_ofile (procs s' ! 0) ! 1 = Some 0"
proof -
  have find: "find (\<lambda>fd. p_ofile demo_proc ! fd = None) [0..<NOFILE] = Some 1"
    by (simp add: NOFILE_def demo_proc_def upt_rec)
  have "0 < length (procs demo_kfs)" by (simp add: demo_kfs_procs)
  from descriptor_references [OF demo_kfs_refs this] obtain r s' where
    r: "sys_dup 0 demo_kfs = Ret (r, s')" "refs_ok s'" and
    alt: "r = -1 \<and> s' = demo_kfs \<or> (\<exists>fd < NOFILE. r = int fd \<and> p_ofile (procs s' ! 0) ! fd = Some 0)"
    using demo_kfs_fd by blast
  have "r = 1" using r(1) find demo_kfs_fd demo_kfs_procs by (auto simp: sys_dup_def fdalloc_def res_simps)
  then show ?thesis using r alt by auto
qed

end
