(* ===== verification/PageTable.thy ===== *)
theory PageTable
  imports Vm
begin

text \<open>
  What the tables of \<^verbatim>\<open>kernel/vm.c\<close> mean. A table is a tree of pages in memory;
  \<open>leaf\<close> reads it as a function from virtual addresses to page-table entries, \<open>tree\<close> is the
  well-formedness every operation keeps: all pages of the tree are different pages of the
  allocator. The lemmas turn \<open>walk\<close> into that function and a store through the pointer
  \<open>walk\<close> returns into an update of it.
\<close>

section \<open>Cells of a page\<close>

definition agree_on :: "u64 set \<Rightarrow> memory \<Rightarrow> memory \<Rightarrow> bool" where
  "agree_on P m m' \<longleftrightarrow> (\<forall>x. PGROUNDDOWN x \<in> P \<longrightarrow> m' x = m x)"

abbreviation entry :: "memory \<Rightarrow> u64 \<Rightarrow> u64 \<Rightarrow> u64" where
  "entry m pt i \<equiv> ld64 m (PTE_ADDR pt i)"

lemma agree_on_refl [simp]: "agree_on P m m"
  by (simp add: agree_on_def)

lemma agree_on_trans: "agree_on P m m' \<Longrightarrow> agree_on P m' m'' \<Longrightarrow> agree_on P m m''"
  by (simp add: agree_on_def)

lemma agree_on_subset: "agree_on P m m' \<Longrightarrow> Q \<subseteq> P \<Longrightarrow> agree_on Q m m'"
  by (auto simp: agree_on_def)

lemma agree_on_Un: "agree_on (P \<union> Q) m m' \<longleftrightarrow> agree_on P m m' \<and> agree_on Q m m'"
  by (auto simp: agree_on_def)

lemma same_off_page_agree: "same_off_page p m m' \<Longrightarrow> p \<notin> P \<Longrightarrow> agree_on P m m'"
  by (auto simp: agree_on_def same_off_page_def)

lemma page_cell:
  assumes "pg_aligned p" and "i < 512"
  shows "unat (PTE_ADDR p i) = unat p + 8 * unat i" and "pgoff (PTE_ADDR p i) \<le> 4088"
    and "PGROUNDDOWN (PTE_ADDR p i) = p"
proof -
  obtain k where k: "unat p = k * 4096" using assms(1) by (auto simp: pg_aligned_def)
  have i: "unat i \<le> 511" using assms(2) by (simp add: word_less_nat_alt)
  have "k \<le> 4503599627370495" using u64_bound [of p] k by simp
  then have sum: "unat p + 8 * unat i < 18446744073709551616" using i k by linarith
  have "unat (8 * i) = 8 * unat i" using i by (simp add: unat_word_ariths)
  then show a: "unat (PTE_ADDR p i) = unat p + 8 * unat i"
    using sum by (simp add: PTE_ADDR_def unat_word_ariths)
  have "pgoff (PTE_ADDR p i) = 8 * unat i" using i by (simp add: a k)
  with i show "pgoff (PTE_ADDR p i) \<le> 4088" by simp
  show "PGROUNDDOWN (PTE_ADDR p i) = p"
    using i by (simp add: word_unat_eq_iff unat_PGROUNDDOWN a k pgno_def)
qed

lemma entry_agree:
  assumes "agree_on P m m'" and "p \<in> P" and "pg_aligned p" and "i < 512"
  shows "entry m' p i = entry m p i"
  using assms page_cell [of p i]
  by (intro ld64_cong) (simp add: agree_on_def PGROUNDDOWN_cell)

lemma same_off_page_entry:
  assumes "pg_aligned p" and "i < 512"
  shows "same_off_page p m (st64 m (PTE_ADDR p i) v)"
  using same_off_page_st64 [of "PTE_ADDR p i" m v] page_cell [OF assms] by simp

lemma entry_st64:
  assumes "pg_aligned p" and "i < 512" and "j < 512"
  shows "entry (st64 m (PTE_ADDR p i) v) p j = (if j = i then v else entry m p j)"
proof (cases "j = i")
  case False
  have "\<not> in_region (PTE_ADDR p i) 8 (PTE_ADDR p j + of_nat k)" if "k < 8" for k
  proof
    assume "in_region (PTE_ADDR p i) 8 (PTE_ADDR p j + of_nat k)"
    then obtain l where l: "l < 8" "PTE_ADDR p j + of_nat k = PTE_ADDR p i + of_nat l"
      by (rule in_regionE) auto
    then have "(of_nat (8 * unat j + k) :: u64) = of_nat (8 * unat i + l)"
      by (simp add: PTE_ADDR_def)
    moreover have "unat i < 512" "unat j < 512" using assms by (simp_all add: word_less_nat_alt)
    ultimately have "8 * unat j + k = 8 * unat i + l"
      using \<open>l < 8\<close> \<open>k < 8\<close> by (subst (asm) of_nat_u64_inj) auto
    with \<open>l < 8\<close> \<open>k < 8\<close> have "unat j = unat i" by linarith
    with False show False by (simp add: word_unat_eq_iff)
  qed
  then show ?thesis using False by (auto intro!: ld64_cong simp: st64_other)
qed simp

lemma PX_less [simp]: "PX l va < 512"
  using PX_bound [of l va] by (simp add: word_less_nat_alt)

section \<open>Tables as trees of pages\<close>

text \<open>The page of level 0 that holds the entry for \<open>va\<close>, from a page at level \<open>l\<close>.\<close>

fun lookup :: "memory \<Rightarrow> nat \<Rightarrow> u64 \<Rightarrow> u64 \<Rightarrow> u64 option" where
  "lookup m 0 pt va = Some pt"
| "lookup m (Suc l) pt va =
     (let pte = entry m pt (PX (Suc l) va) in
      if bit pte 0 then lookup m l (PTE2PA pte) va else None)"

definition leaf :: "memory \<Rightarrow> nat \<Rightarrow> u64 \<Rightarrow> u64 \<Rightarrow> u64" where
  "leaf m l pt va = (case lookup m l pt va of None \<Rightarrow> 0 | Some p \<Rightarrow> entry m p (PX 0 va))"

text \<open>The indices of the valid entries of a page, and the pages they point to.\<close>

definition valid_at :: "memory \<Rightarrow> u64 \<Rightarrow> u64 \<Rightarrow> bool" where
  "valid_at m pt i \<longleftrightarrow> i < 512 \<and> bit (entry m pt i) 0"

abbreviation child :: "memory \<Rightarrow> u64 \<Rightarrow> u64 \<Rightarrow> u64" where
  "child m pt i \<equiv> PTE2PA (entry m pt i)"

fun tbl_pages :: "memory \<Rightarrow> nat \<Rightarrow> u64 \<Rightarrow> u64 set" where
  "tbl_pages m 0 pt = {pt}"
| "tbl_pages m (Suc l) pt = insert pt (\<Union>i \<in> Collect (valid_at m pt). tbl_pages m l (child m pt i))"

fun tree :: "memory \<Rightarrow> nat \<Rightarrow> u64 \<Rightarrow> bool" where
  "tree m 0 pt \<longleftrightarrow> pg_aligned pt \<and> pt \<noteq> 0"
| "tree m (Suc l) pt \<longleftrightarrow> pg_aligned pt \<and> pt \<noteq> 0 \<and>
     (\<forall>i. valid_at m pt i \<longrightarrow> PTE_FLAGS (entry m pt i) = PTE_V \<and> tree m l (child m pt i) \<and>
        pt \<notin> tbl_pages m l (child m pt i)) \<and>
     (\<forall>i j. valid_at m pt i \<longrightarrow> valid_at m pt j \<longrightarrow> i \<noteq> j \<longrightarrow>
        tbl_pages m l (child m pt i) \<inter> tbl_pages m l (child m pt j) = {})"

lemma root_in_tbl_pages [simp]: "pt \<in> tbl_pages m l pt"
  by (cases l) auto

lemma tree_root: "tree m l pt \<Longrightarrow> pg_aligned pt \<and> pt \<noteq> 0"
  by (cases l) auto

lemma lookup_in_tbl_pages: "lookup m l pt va = Some p \<Longrightarrow> p \<in> tbl_pages m l pt"
  by (induction l arbitrary: pt) (fastforce simp: Let_def valid_at_def split: if_splits)+

lemma tbl_pages_aligned: "tree m l pt \<Longrightarrow> p \<in> tbl_pages m l pt \<Longrightarrow> pg_aligned p \<and> p \<noteq> 0"
  by (induction l arbitrary: pt) auto

lemma lookup_aligned:
  "tree m l pt \<Longrightarrow> lookup m l pt va = Some p \<Longrightarrow> pg_aligned p \<and> p \<noteq> 0"
  using lookup_in_tbl_pages tbl_pages_aligned by blast

text \<open>A table only depends on the bytes of its own pages.\<close>

lemma table_agree:
  assumes "agree_on (tbl_pages m l pt) m m'" and "tree m l pt"
  shows "tbl_pages m' l pt = tbl_pages m l pt" and "tree m' l pt"
    and "lookup m' l pt va = lookup m l pt va" and "leaf m' l pt va = leaf m l pt va"
proof -
  have "tbl_pages m' l pt = tbl_pages m l pt \<and> tree m' l pt \<and> (\<forall>va. lookup m' l pt va = lookup m l pt va)"
    using assms
  proof (induction l arbitrary: pt)
    case (Suc l)
    have e: "entry m' pt i = entry m pt i" if "i < 512" for i
      using Suc.prems that by (intro entry_agree [of "tbl_pages m (Suc l) pt"]) auto
    then have v: "valid_at m' pt = valid_at m pt" by (auto simp: valid_at_def fun_eq_iff)
    have ch: "child m' pt i = child m pt i \<and> PTE_FLAGS (entry m' pt i) = PTE_FLAGS (entry m pt i)"
      if "valid_at m pt i" for i
      using that e [of i] by (simp add: valid_at_def)
    have IH: "tbl_pages m' l (child m pt i) = tbl_pages m l (child m pt i) \<and>
        tree m' l (child m pt i) \<and> (\<forall>va. lookup m' l (child m pt i) va = lookup m l (child m pt i) va)"
      if "valid_at m pt i" for i
      using Suc.prems that
      by (intro Suc.IH) (auto elim!: agree_on_subset)
    have "tbl_pages m' (Suc l) pt = tbl_pages m (Suc l) pt"
      using IH ch by (auto simp: v)
    moreover have "tree m' (Suc l) pt"
      using Suc.prems(2) IH ch by (simp add: v)
    moreover have "lookup m' (Suc l) pt va = lookup m (Suc l) pt va" for va
      using IH [of "PX (Suc l) va"] e [of "PX (Suc l) va"]
      by (auto simp: Let_def valid_at_def)
    ultimately show ?case by blast
  qed simp
  then show "tbl_pages m' l pt = tbl_pages m l pt" "tree m' l pt"
      and lk: "lookup m' l pt va = lookup m l pt va"
    by auto
  have "entry m' p (PX 0 va) = entry m p (PX 0 va)" if "lookup m l pt va = Some p" for p
    using assms lookup_in_tbl_pages [OF that] lookup_aligned [OF assms(2) that]
    by (intro entry_agree [of "tbl_pages m l pt"]) auto
  with lk show "leaf m' l pt va = leaf m l pt va"
    by (auto simp: leaf_def split: option.splits)
qed

text \<open>Two addresses share a page of level 0 only when their upper indices agree.\<close>

lemma lookup_inj:
  assumes "tree m l pt" and "lookup m l pt va = Some p" and "lookup m l pt va' = Some p"
    and "0 < k" and "k \<le> l"
  shows "PX k va = PX k va'"
  using assms
proof (induction l arbitrary: pt)
  case (Suc l)
  let ?i = "PX (Suc l) va" and ?j = "PX (Suc l) va'"
  have v: "valid_at m pt ?i" "valid_at m pt ?j"
    and lk: "lookup m l (child m pt ?i) va = Some p" "lookup m l (child m pt ?j) va' = Some p"
    using Suc.prems(2,3) by (auto simp: Let_def valid_at_def split: if_splits)
  have "p \<in> tbl_pages m l (child m pt ?i)" "p \<in> tbl_pages m l (child m pt ?j)"
    using lk by (auto intro: lookup_in_tbl_pages)
  then have ij: "?i = ?j" using Suc.prems(1) v by auto
  show ?case
  proof (cases "k = Suc l")
    case False
    then show ?thesis using Suc.prems Suc.IH [of "child m pt ?i"] v lk ij by auto
  qed (use ij in simp)
qed simp

text \<open>Changing a page of level 0 changes no structure.\<close>

lemma lookup_write_leaf:
  assumes "tree m l pt" and "lookup m l pt va = Some p" and "same_off_page p m m'"
  shows "tbl_pages m' l pt = tbl_pages m l pt \<and> tree m' l pt \<and>
    (\<forall>va. lookup m' l pt va = lookup m l pt va)"
  using assms
proof (induction l arbitrary: pt)
  case (Suc l)
  let ?i = "PX (Suc l) va"
  have v: "valid_at m pt ?i" and lk: "lookup m l (child m pt ?i) va = Some p"
    using Suc.prems(2) by (auto simp: Let_def valid_at_def split: if_splits)
  have p: "p \<in> tbl_pages m l (child m pt ?i)" using lk by (rule lookup_in_tbl_pages)
  then have "pt \<noteq> p" and al: "pg_aligned pt" using Suc.prems(1) v by auto
  then have e: "entry m' pt i = entry m pt i" if "i < 512" for i
    using that Suc.prems(3) by (intro entry_agree [of "{pt}"] same_off_page_agree) auto
  then have vv: "valid_at m' pt = valid_at m pt" by (auto simp: valid_at_def fun_eq_iff)
  have ch: "child m' pt i = child m pt i \<and> PTE_FLAGS (entry m' pt i) = PTE_FLAGS (entry m pt i)"
    if "valid_at m pt i" for i
    using that e [of i] by (simp add: valid_at_def)
  have IH: "tbl_pages m' l (child m pt i) = tbl_pages m l (child m pt i) \<and>
      tree m' l (child m pt i) \<and> (\<forall>va. lookup m' l (child m pt i) va = lookup m l (child m pt i) va)"
    if "valid_at m pt i" for i
  proof (cases "i = ?i")
    case True
    then show ?thesis using Suc.IH [of "child m pt ?i"] Suc.prems lk v by simp
  next
    case False
    then have "p \<notin> tbl_pages m l (child m pt i)" and t: "tree m l (child m pt i)"
      using Suc.prems(1) v that p by auto
    then have "agree_on (tbl_pages m l (child m pt i)) m m'"
      using Suc.prems(3) by (intro same_off_page_agree)
    from table_agree [OF this t] show ?thesis by blast
  qed
  have "tbl_pages m' (Suc l) pt = tbl_pages m (Suc l) pt"
    using IH ch by (auto simp: vv)
  moreover have "tree m' (Suc l) pt"
    using Suc.prems(1) IH ch by (simp add: vv)
  moreover have "lookup m' (Suc l) pt va' = lookup m (Suc l) pt va'" for va'
    using IH [of "PX (Suc l) va'"] e [of "PX (Suc l) va'"] by (auto simp: Let_def valid_at_def)
  ultimately show ?case by blast
qed (auto simp: same_off_page_def)

text \<open>Replacing the subtree behind one entry, in place or from an empty entry.\<close>

lemma tree_replace_child:
  assumes t: "tree m (Suc l) pt" and i: "i < 512"
    and e: "\<And>j. j < 512 \<Longrightarrow> j \<noteq> i \<Longrightarrow> entry m' pt j = entry m pt j"
    and ei: "PTE_FLAGS (entry m' pt i) = PTE_V" and c: "tree m' l (child m' pt i)"
    and d: "pt \<notin> tbl_pages m' l (child m' pt i)"
      "\<And>j. valid_at m pt j \<Longrightarrow> j \<noteq> i \<Longrightarrow> tbl_pages m l (child m pt j) \<inter> tbl_pages m' l (child m' pt i) = {}"
    and ag: "\<And>j. valid_at m pt j \<Longrightarrow> j \<noteq> i \<Longrightarrow> agree_on (tbl_pages m l (child m pt j)) m m'"
  shows "tree m' (Suc l) pt"
    and "tbl_pages m' (Suc l) pt = insert pt (tbl_pages m' l (child m' pt i) \<union>
      (\<Union>j \<in> {j. valid_at m pt j \<and> j \<noteq> i}. tbl_pages m l (child m pt j)))"
    and "lookup m' (Suc l) pt va =
      (if PX (Suc l) va = i then lookup m' l (child m' pt i) va else lookup m (Suc l) pt va)"
    and "leaf m' (Suc l) pt va =
      (if PX (Suc l) va = i then leaf m' l (child m' pt i) va else leaf m (Suc l) pt va)"
proof -
  have bi: "bit (entry m' pt i) 0"
    using ei bit_PTE_FLAGS [of "entry m' pt i" 0] by (simp add: flag_simps)
  have v: "valid_at m' pt j \<longleftrightarrow> j = i \<or> valid_at m pt j \<and> j \<noteq> i" for j
    using e [of j] bi i by (auto simp: valid_at_def)
  have same: "child m' pt j = child m pt j" "PTE_FLAGS (entry m' pt j) = PTE_FLAGS (entry m pt j)"
      "tbl_pages m' l (child m pt j) = tbl_pages m l (child m pt j)" "tree m' l (child m pt j)"
      "lookup m' l (child m pt j) va = lookup m l (child m pt j) va"
      "leaf m' l (child m pt j) va = leaf m l (child m pt j) va"
    if "valid_at m pt j" "j \<noteq> i" for j va
    using that t e [of j] table_agree [OF ag [OF that]] by (auto simp: valid_at_def)
  show "tbl_pages m' (Suc l) pt = insert pt (tbl_pages m' l (child m' pt i) \<union>
      (\<Union>j \<in> {j. valid_at m pt j \<and> j \<noteq> i}. tbl_pages m l (child m pt j)))"
  proof -
    have "Collect (valid_at m' pt) = insert i {j. valid_at m pt j \<and> j \<noteq> i}" using v by auto
    moreover have "(\<Union>j \<in> {j. valid_at m pt j \<and> j \<noteq> i}. tbl_pages m' l (child m' pt j)) =
        (\<Union>j \<in> {j. valid_at m pt j \<and> j \<noteq> i}. tbl_pages m l (child m pt j))"
      using same(1,3) by (intro SUP_cong) auto
    ultimately show ?thesis by simp
  qed
  show "tree m' (Suc l) pt"
  proof -
    have "PTE_FLAGS (entry m' pt j) = PTE_V \<and> tree m' l (child m' pt j) \<and>
        pt \<notin> tbl_pages m' l (child m' pt j)" if "valid_at m' pt j" for j
      using t that ei c d(1) same by (cases "j = i") (auto simp: v)
    moreover have "tbl_pages m' l (child m' pt j) \<inter> tbl_pages m' l (child m' pt k) = {}"
      if "valid_at m' pt j" "valid_at m' pt k" "j \<noteq> k" for j k
      using t that d(2) [of j] d(2) [of k] same(1,3) by (cases "j = i"; cases "k = i") (auto simp: v)
    ultimately show ?thesis using t by simp
  qed
  show lk: "lookup m' (Suc l) pt va =
      (if PX (Suc l) va = i then lookup m' l (child m' pt i) va else lookup m (Suc l) pt va)" for va
    using bi e [of "PX (Suc l) va"] same(5) [of "PX (Suc l) va"]
    by (auto simp: Let_def valid_at_def)
  have "entry m' p (PX 0 va) = entry m p (PX 0 va)"
    if "lookup m (Suc l) pt va = Some p" "PX (Suc l) va \<noteq> i" for p
  proof -
    let ?j = "PX (Suc l) va"
    have j: "valid_at m pt ?j" and lk: "lookup m l (child m pt ?j) va = Some p"
      using that by (auto simp: Let_def valid_at_def split: if_splits)
    then have "p \<in> tbl_pages m l (child m pt ?j)" "pg_aligned p"
      using t lookup_in_tbl_pages [OF lk] lookup_aligned [OF _ lk] by auto
    then show ?thesis using ag [OF j that(2)] by (intro entry_agree) auto
  qed
  then show "leaf m' (Suc l) pt va =
      (if PX (Suc l) va = i then leaf m' l (child m' pt i) va else leaf m (Suc l) pt va)"
    by (auto simp: leaf_def lk simp del: lookup.simps split: option.splits)
qed

lemma zero_page:
  assumes "pg_aligned pt" and "pt \<noteq> 0" and "\<And>x. PGROUNDDOWN x = pt \<Longrightarrow> m x = 0"
  shows "tree m l pt" and "tbl_pages m l pt = {pt}" and "leaf m l pt va = 0"
proof -
  have z: "entry m pt i = 0" if "i < 512" for i
  proof -
    have "agree_on {pt} m (\<lambda>_. 0)" using assms(3) by (auto simp: agree_on_def)
    from entry_agree [OF this, of pt i] have "entry m pt i = entry (\<lambda>_. 0) pt i"
      using assms(1) that by simp
    then show ?thesis by (simp only: ld64_zero)
  qed
  then have "\<not> valid_at m pt i" for i by (auto simp: valid_at_def)
  with assms(1,2) show "tree m l pt" by (cases l) simp_all
  from \<open>\<And>i. \<not> valid_at m pt i\<close> show "tbl_pages m l pt = {pt}" by (cases l) auto
  show "leaf m l pt va = 0" using z by (cases l) (auto simp: leaf_def)
qed

section \<open>Storing through a pointer to an entry\<close>

lemma PX_pgno:
  assumes "pgno va = pgno va'"
  shows "PX k va = PX k va'"
proof -
  have "unat va div 2 ^ (12 + 9 * k) = unat va' div 2 ^ (12 + 9 * k)"
    using assms by (simp add: power_add div_mult2_eq pgno_def)
  then show ?thesis by (simp add: word_unat_eq_iff unat_PX)
qed

text \<open>
  The addresses a table of three levels translates; \<open>MAXVA\<close> is half of that, and \<open>walk\<close> only
  ever reaches the entries below it.
\<close>

definition SV39 :: u64 where
  "SV39 = 0x8000000000"

lemma maxva_sv39 [simp, intro]: "va < MAXVA \<Longrightarrow> va < SV39"
  by (simp add: SV39_def MAXVA_def word_less_nat_alt)

lemma pgno_PX:
  assumes "va < SV39"
  shows "pgno va = unat (PX 0 va) + 512 * unat (PX 1 va) + 262144 * unat (PX 2 va)"
proof -
  have "unat va < 0x8000000000" using assms by (simp add: SV39_def word_less_nat_alt)
  then have "pgno va < 134217728" by (simp add: pgno_def less_mult_imp_div_less)
  then have "pgno va div 262144 < 512" by (simp add: less_mult_imp_div_less)
  moreover have "unat (PX 2 va) = pgno va div 262144 mod 512"
    by (simp add: pgno_def unat_PX div_mult2_eq [of "unat va" 4096 262144, simplified])
  moreover have "pgno va div 262144 = pgno va div 512 div 512"
    using div_mult2_eq [of "pgno va" 512 512] by simp
  ultimately have "unat (PX 2 va) = pgno va div 512 div 512" by simp
  moreover have "unat (PX 0 va) = pgno va mod 512" by (simp add: unat_PX pgno_def)
  moreover have "unat (PX 1 va) = pgno va div 512 mod 512"
    by (simp add: pgno_def unat_PX div_mult2_eq [of "unat va" 4096 512, simplified])
  ultimately show ?thesis
    using div_mult_mod_eq [of "pgno va" 512] div_mult_mod_eq [of "pgno va div 512" 512] by linarith
qed

text \<open>Two addresses have the same indices exactly when they lie on the same page.\<close>

lemma PX_eq_page:
  assumes "va < SV39" and "va' < SV39"
  shows "(\<forall>k \<le> 2. PX k va = PX k va') \<longleftrightarrow> PGROUNDDOWN va = PGROUNDDOWN va'"
proof -
  have page: "PGROUNDDOWN va = PGROUNDDOWN va' \<longleftrightarrow> pgno va = pgno va'"
    by (simp add: word_unat_eq_iff unat_PGROUNDDOWN)
  show ?thesis
  proof
    assume "\<forall>k \<le> 2. PX k va = PX k va'"
    then have "PX 0 va = PX 0 va'" "PX 1 va = PX 1 va'" "PX 2 va = PX 2 va'" by simp_all
    then have "pgno va = pgno va'" by (simp only: pgno_PX [OF assms(1)] pgno_PX [OF assms(2)])
    then show "PGROUNDDOWN va = PGROUNDDOWN va'" by (simp only: page)
  next
    assume "PGROUNDDOWN va = PGROUNDDOWN va'"
    then have "pgno va = pgno va'" by (simp only: page)
    then show "\<forall>k \<le> 2. PX k va = PX k va'" by (blast intro: PX_pgno)
  qed
qed

lemma leaf_store:
  assumes t: "tree m l pt" and p: "lookup m l pt va = Some p"
  shows "leaf (st64 m (PTE_ADDR p (PX 0 va)) v) l pt va' =
    (if \<forall>k \<le> l. PX k va = PX k va' then v else leaf m l pt va')"
proof -
  have al: "pg_aligned p" using lookup_aligned [OF t p] by simp
  let ?m = "st64 m (PTE_ADDR p (PX 0 va)) v"
  have off: "same_off_page p m ?m" using al by (simp add: same_off_page_entry)
  have lk: "lookup ?m l pt va' = lookup m l pt va'" using lookup_write_leaf [OF t p off] by simp
  show ?thesis
  proof (cases "lookup m l pt va' = Some p")
    case True
    then have "PX k va = PX k va'" if "0 < k" "k \<le> l" for k
      using lookup_inj [OF t p] that by blast
    then have "(\<forall>k \<le> l. PX k va = PX k va') \<longleftrightarrow> PX 0 va = PX 0 va'" by (metis gr0I le0)
    then show ?thesis using True lk al by (auto simp: leaf_def entry_st64)
  next
    case False
    have "lookup m l pt va' = lookup m l pt va" if "\<forall>k \<le> l. PX k va = PX k va'"
      using that by (induction l arbitrary: pt) (auto simp: Let_def)
    then have "\<not> (\<forall>k \<le> l. PX k va = PX k va')" using False p by auto
    moreover have "leaf ?m l pt va' = leaf m l pt va'"
    proof (cases "lookup m l pt va'")
      case (Some q)
      then have "entry ?m q (PX 0 va') = entry m q (PX 0 va')"
        using False off lookup_aligned [OF t Some]
        by (intro entry_agree [of "{q}"] same_off_page_agree) auto
      with Some lk show ?thesis by (simp add: leaf_def)
    qed (simp add: leaf_def lk)
    ultimately show ?thesis by auto
  qed
qed

section \<open>Walking and extending a table\<close>

definition slot :: "memory \<Rightarrow> nat \<Rightarrow> u64 \<Rightarrow> u64 \<Rightarrow> u64" where
  "slot m l pt va = (case lookup m l pt va of None \<Rightarrow> 0 | Some p \<Rightarrow> PTE_ADDR p (PX 0 va))"

lemma walk_loop_find: "walk_loop l pt va False s = Ret (slot (mem s) l pt va, s)"
  by (induction l arbitrary: pt) (auto simp: slot_def Let_def flag_simps)

lemma walk_find: "va < MAXVA \<Longrightarrow> walk pt va False s = Ret (slot (mem s) 2 pt va, s)"
  by (simp add: walk_def walk_loop_find not_le)

lemma cell_not_null: "pg_aligned p \<Longrightarrow> p \<noteq> 0 \<Longrightarrow> i < 512 \<Longrightarrow> PTE_ADDR p i \<noteq> 0"
  using page_cell(1) [of p i] by (auto simp: word_unat_eq_iff)

lemma slot_eq_0:
  assumes "tree m l pt"
  shows "slot m l pt va = 0 \<longleftrightarrow> lookup m l pt va = None"
  using lookup_aligned [OF assms] cell_not_null by (auto simp: slot_def split: option.splits)

lemma leaf_slot: "slot m l pt va \<noteq> 0 \<Longrightarrow> leaf m l pt va = ld64 m (slot m l pt va)"
  by (auto simp: slot_def leaf_def split: option.splits)

lemma leaf_no_slot: "tree m l pt \<Longrightarrow> slot m l pt va = 0 \<Longrightarrow> leaf m l pt va = 0"
  by (simp add: slot_eq_0 leaf_def)

text \<open>A table whose pages are referenced pages of the allocator.\<close>

definition owned :: "'a kmem_scheme \<Rightarrow> nat \<Rightarrow> u64 \<Rightarrow> bool" where
  "owned s l pt \<longleftrightarrow> tree (mem s) l pt \<and> (\<forall>p \<in> tbl_pages (mem s) l pt. kpage s p \<and> 0 < refs s p)"

text \<open>
  \<open>grown s T N s'\<close>: from \<open>s\<close> to \<open>s'\<close> the free pages \<open>N\<close> were allocated, no other count
  changed, and at most the bytes of \<open>T\<close> and \<open>N\<close> were written.
\<close>

definition grown :: "'a kmem_scheme \<Rightarrow> u64 set \<Rightarrow> u64 set \<Rightarrow> 'a kmem_scheme \<Rightarrow> bool" where
  "grown s T N s' \<longleftrightarrow> kmem_ok s' \<and> kend s' = kend s \<and> kmem.more s' = kmem.more s \<and>
     (\<forall>p \<in> N. kpage s p \<and> refs s p = 0 \<and> refs s' p = 1) \<and>
     (\<forall>p. kpage s p \<and> p \<notin> N \<longrightarrow> refs s' p = refs s p) \<and>
     agree_on (- (T \<union> N)) (mem s) (mem s')"

lemma grown_refl: "kmem_ok s \<Longrightarrow> grown s T {} s"
  by (simp add: grown_def)

lemma grown_mono: "grown s T N s' \<Longrightarrow> T \<subseteq> T' \<Longrightarrow> grown s T' N s'"
  by (auto simp: grown_def elim: agree_on_subset)

lemma grown_kpage: "grown s T N s' \<Longrightarrow> kpage s' = kpage s"
  by (simp add: grown_def kpage_def fun_eq_iff)

lemma grown_trans:
  assumes 1: "grown s T N s1" and 2: "grown s1 T' N' s2" and T': "T' \<subseteq> T \<union> N"
  shows "grown s T (N \<union> N') s2"
proof -
  have "N \<inter> N' = {}" using 1 2 by (auto simp: grown_def)
  moreover have "agree_on (- (T \<union> (N \<union> N'))) (mem s) (mem s2)"
    using 1 2 T' by (auto simp: grown_def intro: agree_on_trans elim!: agree_on_subset)
  ultimately show ?thesis
    using 1 2 grown_kpage [OF 1] by (auto simp: grown_def)
qed

lemma grown_pos:
  "grown s T N s' \<Longrightarrow> kpage s p \<Longrightarrow> 0 < refs s p \<Longrightarrow> p \<notin> N \<and> refs s' p = refs s p"
  by (auto simp: grown_def)

lemma grown_agree:
  assumes "grown s T N s'" and "P \<inter> T = {}" and "\<And>p. p \<in> P \<Longrightarrow> kpage s p \<and> 0 < refs s p"
  shows "agree_on P (mem s) (mem s')"
proof -
  have "P \<inter> N = {}" using grown_pos [OF assms(1)] assms(3) by blast
  with assms(1,2) show ?thesis by (auto simp: grown_def elim!: agree_on_subset)
qed

lemma owned_grown:
  assumes "grown s T N s'" and "tree (mem s') l pt"
    and "tbl_pages (mem s') l pt \<subseteq> P \<union> N" and "\<And>p. p \<in> P \<Longrightarrow> kpage s p \<and> 0 < refs s p"
  shows "owned s' l pt"
  using assms grown_kpage [OF assms(1)] grown_pos [OF assms(1)]
  by (auto simp: owned_def grown_def subset_iff)

lemma kmem_ok_write:
  assumes "kmem_ok s" and "pg_aligned p" and "0 < refs s p" and "same_off_page p (mem s) m'"
  shows "kmem_ok (s\<lparr>mem := m'\<rparr>)"
proof -
  obtain fl where inv: "kmem_inv s fl" using assms(1) by (auto simp: kmem_ok_def)
  have fl: "pg_aligned q \<and> q \<noteq> p" if "q \<in> set fl" for q
    using that kmem_invD(5) [OF inv, of q] assms(3) by (auto simp: kpage_def)
  have "chain m' (freelist s) fl"
    using chain_same_off_page [OF assms(4) fl] kmem_invD(3) [OF inv] by blast
  then have "kmem_inv (s\<lparr>mem := m'\<rparr>) fl"
    using inv by (auto simp: kmem_inv_def kpage_def refs_def)
  then show ?thesis by (auto simp: kmem_ok_def)
qed

lemma refs_mem [simp]: "refs (s\<lparr>mem := m\<rparr>) p = refs s p"
  and kpage_mem [simp]: "kpage (s\<lparr>mem := m\<rparr>) p = kpage s p"
  by (simp_all add: refs_def kpage_def)

text \<open>One new, zeroed page linked into a referenced page.\<close>

lemma new_table:
  assumes "kmem_ok s" and "kalloc s = Ret (q, s1)" and "q \<noteq> 0"
    and pt: "kpage s pt" "0 < refs s pt" and "i < 512"
    and s3_def: "s3 = s1\<lparr>mem := st64 (memset (mem s1) q 0 4096) (PTE_ADDR pt i) v\<rparr>"
  shows "grown s {pt} {q} s3" and "q \<noteq> pt" and "PGROUNDDOWN x = q \<Longrightarrow> mem s3 x = 0"
    and "j < 512 \<Longrightarrow> entry (mem s3) pt j = (if j = i then v else entry (mem s) pt j)"
proof -
  obtain fl where inv: "kmem_inv s fl" using assms(1) by (auto simp: kmem_ok_def)
  from inv assms(2) obtain fl' where s1: "s1 = alloc_state q s" and q: "kpage s q" "refs s q = 0"
    and fl: "fl = q # fl'"
    by (rule kalloc_cases) (use assms(3) in auto)
  have al: "pg_aligned q" "pg_aligned pt" using q pt by (auto simp: kpage_def)
  show ne: "q \<noteq> pt" using q pt by auto
  let ?m2 = "memset (mem s1) q 0 4096"
  have off1: "same_off_page q (mem s) (mem s1)"
    using al by (simp add: s1 alloc_state_def same_off_page_memset)
  have off2: "same_off_page q (mem s1) ?m2" using al by (simp add: same_off_page_memset)
  have off3: "same_off_page pt ?m2 (mem s3)"
    using al assms(6) by (simp add: s3_def same_off_page_entry)
  have "kmem_ok s1" using kmem_inv_alloc_state inv fl by (auto simp: s1 kmem_ok_def)
  then have "kmem_ok (s1\<lparr>mem := ?m2\<rparr>)"
    using al off2 by (intro kmem_ok_write [of s1 q]) (simp_all add: s1 refs_states)
  from kmem_ok_write [OF this, of pt "mem s3"] have "kmem_ok s3"
    using al off3 pt ne by (simp add: s1 refs_states) (simp add: s3_def s1)
  moreover have "agree_on (- ({pt} \<union> {q})) (mem s) (mem s3)"
    using off1 off2 off3 by (auto simp: agree_on_def same_off_page_def)
  moreover have "refs s3 p = (if p = q then 1 else refs s p)" if "kpage s p" for p
    using that al by (simp add: s3_def s1 refs_states kpage_def)
  ultimately show "grown s {pt} {q} s3"
    using q by (auto simp: grown_def) (simp_all add: s3_def s1 alloc_state_def)
  show "mem s3 x = 0" if "PGROUNDDOWN x = q"
  proof -
    have "mem s3 x = ?m2 x" using off3 that ne by (simp add: same_off_page_def)
    then show ?thesis using that al by (simp add: memset_page)
  qed
  show "entry (mem s3) pt j = (if j = i then v else entry (mem s) pt j)" if "j < 512"
  proof -
    have "entry ?m2 pt j = entry (mem s1) pt j" "entry (mem s1) pt j = entry (mem s) pt j"
      using off1 off2 ne al that by (auto intro!: entry_agree [of "{pt}"] same_off_page_agree)
    then show ?thesis using that al assms(6) by (simp add: s3_def entry_st64)
  qed
qed

lemma tree_replace_child_conj:
  assumes "tree m (Suc l) pt" and "i < 512"
    and "\<And>j. j < 512 \<Longrightarrow> j \<noteq> i \<Longrightarrow> entry m' pt j = entry m pt j"
    and "entry m' pt i = e" and "PTE_FLAGS e = PTE_V" and "tree m' l (PTE2PA e)"
    and "pt \<notin> tbl_pages m' l (PTE2PA e)"
    and "\<And>j. valid_at m pt j \<Longrightarrow> j \<noteq> i \<Longrightarrow> tbl_pages m l (child m pt j) \<inter> tbl_pages m' l (PTE2PA e) = {}"
    and "\<And>j. valid_at m pt j \<Longrightarrow> j \<noteq> i \<Longrightarrow> agree_on (tbl_pages m l (child m pt j)) m m'"
  shows "tree m' (Suc l) pt \<and>
    tbl_pages m' (Suc l) pt = insert pt (tbl_pages m' l (PTE2PA e) \<union>
      (\<Union>j \<in> {j. valid_at m pt j \<and> j \<noteq> i}. tbl_pages m l (child m pt j))) \<and>
    (\<forall>va. lookup m' (Suc l) pt va =
      (if PX (Suc l) va = i then lookup m' l (PTE2PA e) va else lookup m (Suc l) pt va)) \<and>
    (\<forall>va. leaf m' (Suc l) pt va =
      (if PX (Suc l) va = i then leaf m' l (PTE2PA e) va else leaf m (Suc l) pt va))"
  using tree_replace_child [OF assms(1-3)] assms(4-) by blast

text \<open>
  Extending a table below entry \<open>i\<close> of its root: first the root may get a new child (from
  \<open>s\<close> to \<open>s1\<close>), then the child's table grows (from \<open>s1\<close> to \<open>s'\<close>).
\<close>

lemma extend_child:
  assumes own: "owned s (Suc l) pt" and i: "i < 512"
    and g1: "grown s {pt} N1 s1" and g2: "grown s1 (tbl_pages (mem s1) l (child (mem s1) pt i)) N2 s'"
    and e1: "\<And>j. j < 512 \<Longrightarrow> j \<noteq> i \<Longrightarrow> entry (mem s1) pt j = entry (mem s) pt j"
    and ei: "PTE_FLAGS (entry (mem s1) pt i) = PTE_V"
    and ptC: "pt \<notin> tbl_pages (mem s1) l (child (mem s1) pt i)"
    and dis: "\<And>j. valid_at (mem s) pt j \<Longrightarrow> j \<noteq> i \<Longrightarrow>
      tbl_pages (mem s) l (child (mem s) pt j) \<inter> tbl_pages (mem s1) l (child (mem s1) pt i) = {}"
    and C: "N1 \<subseteq> tbl_pages (mem s1) l (child (mem s1) pt i)"
      "tbl_pages (mem s1) l (child (mem s1) pt i) \<subseteq> tbl_pages (mem s) (Suc l) pt \<union> N1"
      "valid_at (mem s) pt i \<Longrightarrow>
        tbl_pages (mem s) l (child (mem s) pt i) \<subseteq> tbl_pages (mem s1) l (child (mem s1) pt i)"
    and t': "tree (mem s') l (child (mem s1) pt i)"
    and pg: "tbl_pages (mem s') l (child (mem s1) pt i) = tbl_pages (mem s1) l (child (mem s1) pt i) \<union> N2"
    and lf: "\<And>va. PX (Suc l) va = i \<Longrightarrow> leaf (mem s') l (child (mem s1) pt i) va = leaf (mem s) (Suc l) pt va"
  shows "grown s (tbl_pages (mem s) (Suc l) pt) (N1 \<union> N2) s' \<and> owned s' (Suc l) pt \<and>
    tbl_pages (mem s') (Suc l) pt = tbl_pages (mem s) (Suc l) pt \<union> (N1 \<union> N2) \<and>
    (\<forall>va. leaf (mem s') (Suc l) pt va = leaf (mem s) (Suc l) pt va) \<and>
    (\<forall>va. PX (Suc l) va = i \<longrightarrow> lookup (mem s') (Suc l) pt va = lookup (mem s') l (child (mem s1) pt i) va)"
proof -
  let ?m = "mem s" and ?T = "tbl_pages (mem s) (Suc l) pt" and ?c = "child (mem s1) pt i"
  have t: "tree ?m (Suc l) pt" and T: "\<And>p. p \<in> ?T \<Longrightarrow> kpage s p \<and> 0 < refs s p"
    using own by (auto simp: owned_def)
  have al: "pg_aligned pt" and ptT: "pt \<in> ?T" using t by auto
  have T1: "kpage s1 p \<and> 0 < refs s1 p \<and> p \<notin> N1 \<and> p \<notin> N2" if "p \<in> ?T" for p
    using grown_pos [OF g1] grown_pos [OF g2] grown_kpage [OF g1] T [OF that] by auto
  have e2: "entry (mem s') pt j = entry (mem s1) pt j" if "j < 512" for j
    using al that ptC T1 [OF ptT] by (intro entry_agree [of "{pt}"] grown_agree [OF g2]) auto
  have ag: "agree_on (tbl_pages ?m l (child ?m pt j)) ?m (mem s')" if j: "valid_at ?m pt j" "j \<noteq> i" for j
  proof -
    have sub: "tbl_pages ?m l (child ?m pt j) \<subseteq> ?T" using j by auto
    have "agree_on (tbl_pages ?m l (child ?m pt j)) ?m (mem s1)"
      using t j T sub by (intro grown_agree [OF g1]) auto
    moreover have "kpage s1 p \<and> 0 < refs s1 p" if "p \<in> tbl_pages ?m l (child ?m pt j)" for p
      using T1 sub that by blast
    then have "agree_on (tbl_pages ?m l (child ?m pt j)) (mem s1) (mem s')"
      by (rule grown_agree [OF g2 dis [OF j]])
    ultimately show ?thesis by (rule agree_on_trans)
  qed
  have dis': "tbl_pages ?m l (child ?m pt j) \<inter> tbl_pages (mem s') l ?c = {}"
    if "valid_at ?m pt j" "j \<noteq> i" for j
    using dis [OF that] T1 that by (auto simp: pg)
  have pt': "pt \<notin> tbl_pages (mem s') l ?c" using ptC T1 [OF ptT] by (simp add: pg)
  have r: "tree (mem s') (Suc l) pt \<and>
      tbl_pages (mem s') (Suc l) pt = insert pt (tbl_pages (mem s') l ?c \<union>
        (\<Union>j \<in> {j. valid_at ?m pt j \<and> j \<noteq> i}. tbl_pages ?m l (child ?m pt j))) \<and>
      (\<forall>va. lookup (mem s') (Suc l) pt va =
        (if PX (Suc l) va = i then lookup (mem s') l ?c va else lookup ?m (Suc l) pt va)) \<and>
      (\<forall>va. leaf (mem s') (Suc l) pt va =
        (if PX (Suc l) va = i then leaf (mem s') l ?c va else leaf ?m (Suc l) pt va))"
    by (rule tree_replace_child_conj [OF t i _ e2 [OF i] ei t' pt' dis' ag]) (simp_all add: e1 e2)
  note r = r [THEN conjunct1] r [THEN conjunct2, THEN conjunct1]
    r [THEN conjunct2, THEN conjunct2, THEN conjunct1, rule_format]
    r [THEN conjunct2, THEN conjunct2, THEN conjunct2, rule_format]
  have g: "grown s ?T (N1 \<union> N2) s'"
    using C(2) ptT by (intro grown_trans [OF grown_mono [OF g1] g2]) auto
  have P: "tbl_pages (mem s') (Suc l) pt = ?T \<union> (N1 \<union> N2)"
    unfolding r(2) pg using C by auto
  have o: "owned s' (Suc l) pt" by (rule owned_grown [OF g r(1) equalityD1 [OF P] T])
  have "leaf (mem s') (Suc l) pt va = leaf ?m (Suc l) pt va" for va
    using r(4) [of va] lf [of va] by (simp split: if_splits)
  moreover have "PX (Suc l) va = i \<Longrightarrow> lookup (mem s') (Suc l) pt va = lookup (mem s') l ?c va" for va
    using r(3) [of va] by simp
  ultimately show ?thesis using g P o by blast
qed

text \<open>The number of free pages.\<close>

definition nfree :: "'a kmem_scheme \<Rightarrow> nat" where
  "nfree s = card {p. kpage s p \<and> refs s p = 0}"

lemma nfree_grown:
  assumes "grown s T N s'"
  shows "nfree s = nfree s' + card N"
proof -
  have "{p. kpage s p \<and> refs s p = 0} = {p. kpage s' p \<and> refs s' p = 0} \<union> N"
    and "{p. kpage s' p \<and> refs s' p = 0} \<inter> N = {}"
    using assms grown_kpage [OF assms] by (auto simp: grown_def)
  then show ?thesis by (simp add: nfree_def card_Un_disjoint)
qed

lemma nfree_null:
  assumes "kmem_ok s" and "kalloc s = Ret (0, s')"
  shows "nfree s = 0"
proof -
  obtain fl where inv: "kmem_inv s fl" using assms(1) by (auto simp: kmem_ok_def)
  then have "fl = []" using assms(2) by (rule kalloc_cases) auto
  then show ?thesis using kmem_invD(5) [OF inv] by (simp add: nfree_def)
qed

text \<open>What a successful or failed \<open>walk\<close> with allocation leaves behind.\<close>

definition walked :: "'a kmem_scheme \<Rightarrow> nat \<Rightarrow> u64 \<Rightarrow> u64 \<Rightarrow> u64 \<Rightarrow> 'a kmem_scheme \<Rightarrow> bool" where
  "walked s l pt va a s' \<longleftrightarrow> owned s' l pt \<and>
     (\<exists>N. grown s (tbl_pages (mem s) l pt) N s' \<and>
        tbl_pages (mem s') l pt = tbl_pages (mem s) l pt \<union> N) \<and>
     (\<forall>va'. leaf (mem s') l pt va' = leaf (mem s) l pt va') \<and>
     nfree s \<le> nfree s' + l \<and> (a = 0 \<longrightarrow> nfree s' = 0 \<and> nfree s < l) \<and>
     (a = 0 \<or> a = slot (mem s') l pt va \<and> lookup (mem s') l pt va \<noteq> None)"

lemma ownedD:
  assumes "owned s l pt"
  shows "tree (mem s) l pt" and "p \<in> tbl_pages (mem s) l pt \<Longrightarrow> kpage s p"
    and "p \<in> tbl_pages (mem s) l pt \<Longrightarrow> 0 < refs s p"
  using assms by (auto simp: owned_def)

lemma walked_refl: "kmem_ok s \<Longrightarrow> owned s l pt \<Longrightarrow> nfree s = 0 \<Longrightarrow> 0 < l \<Longrightarrow> walked s l pt va 0 s"
  using grown_refl [of s] by (auto simp: walked_def)

lemma walked_valid_child:
  assumes ok: "kmem_ok s" and own: "owned s (Suc l) pt"
    and valid: "bit (entry (mem s) pt (PX (Suc l) va)) 0"
    and w: "walked s l (child (mem s) pt (PX (Suc l) va)) va a s'"
  shows "walked s (Suc l) pt va a s'"
proof -
  let ?i = "PX (Suc l) va" and ?m = "mem s" and ?T = "tbl_pages (mem s) (Suc l) pt"
  let ?c = "child ?m pt ?i"
  have v: "valid_at ?m pt ?i" using valid by (simp add: valid_at_def)
  have t: "tree ?m (Suc l) pt" using own by (rule ownedD)
  have fl: "PTE_FLAGS (entry ?m pt ?i) = PTE_V" using t v by simp
  have sub: "tbl_pages ?m l ?c \<subseteq> ?T \<union> {}" using v by auto
  have dis: "pt \<notin> tbl_pages ?m l ?c"
    "\<And>j. valid_at ?m pt j \<Longrightarrow> j \<noteq> ?i \<Longrightarrow> tbl_pages ?m l (child ?m pt j) \<inter> tbl_pages ?m l ?c = {}"
    using t v by auto
  from w obtain N where g: "grown s (tbl_pages ?m l ?c) N s'" and t': "tree (mem s') l ?c"
    and pg: "tbl_pages (mem s') l ?c = tbl_pages ?m l ?c \<union> N"
    and lf: "\<forall>va'. leaf (mem s') l ?c va' = leaf ?m l ?c va'"
    by (auto simp: walked_def owned_def)
  have lf': "leaf (mem s') l ?c va' = leaf ?m (Suc l) pt va'" if "PX (Suc l) va' = ?i" for va'
    using that valid lf by (simp add: leaf_def)
  have "grown s ?T ({} \<union> N) s' \<and> owned s' (Suc l) pt \<and>
      tbl_pages (mem s') (Suc l) pt = ?T \<union> ({} \<union> N) \<and>
      (\<forall>va. leaf (mem s') (Suc l) pt va = leaf ?m (Suc l) pt va) \<and>
      (\<forall>va'. PX (Suc l) va' = ?i \<longrightarrow> lookup (mem s') (Suc l) pt va' = lookup (mem s') l ?c va')"
    by (rule extend_child [OF own PX_less grown_refl [OF ok] g refl fl dis empty_subsetI sub
          order_refl t' pg lf'])
  moreover have "nfree s \<le> nfree s' + Suc l \<and> (a = 0 \<longrightarrow> nfree s' = 0 \<and> nfree s < Suc l)"
    using w by (auto simp: walked_def)
  ultimately show ?thesis using w unfolding walked_def slot_def Un_empty_left by metis
qed

lemma walked_new_child:
  assumes ok: "kmem_ok s" and own: "owned s (Suc l) pt"
    and invalid: "\<not> bit (entry (mem s) pt (PX (Suc l) va)) 0"
    and k: "kalloc s = Ret (q, s1)" "q \<noteq> 0"
    and s3: "s3 = s1\<lparr>mem := st64 (memset (mem s1) q 0 4096) (PTE_ADDR pt (PX (Suc l) va)) (PA2PTE q OR PTE_V)\<rparr>"
  shows "kmem_ok s3 \<and> owned s3 l q \<and> (walked s3 l q va a s' \<longrightarrow> walked s (Suc l) pt va a s')"
proof -
  let ?i = "PX (Suc l) va" and ?m = "mem s" and ?T = "tbl_pages (mem s) (Suc l) pt"
  note T = ownedD(2,3) [OF own]
  note n = new_table [OF ok k T [OF root_in_tbl_pages] PX_less s3]
  have aq: "pg_aligned q" and q0: "refs s q = 0" using n(1) by (simp_all add: grown_def kpage_def)
  have "entry (mem s3) pt ?i = PA2PTE q OR PTE_V" using n(4) [OF PX_less] by simp
  then have c: "child (mem s3) pt ?i = q" and fl: "PTE_FLAGS (entry (mem s3) pt ?i) = PTE_V"
    using aq by simp_all
  note z = zero_page [OF aq k(2) n(3)]
  have qT: "q \<notin> ?T" using T(2) [of q] q0 less_irrefl by (metis (no_types))
  have e1: "\<And>j. j < 512 \<Longrightarrow> j \<noteq> ?i \<Longrightarrow> entry (mem s3) pt j = entry ?m pt j"
    by (simp add: n(4))
  have C: "pt \<notin> tbl_pages (mem s3) l q" "{q} \<subseteq> tbl_pages (mem s3) l q"
    "tbl_pages (mem s3) l q \<subseteq> ?T \<union> {q}"
    "valid_at ?m pt ?i \<Longrightarrow> tbl_pages ?m l (child ?m pt ?i) \<subseteq> tbl_pages (mem s3) l q"
    using n(2) invalid by (simp_all add: z(2) valid_at_def)
  have dis: "\<And>j. valid_at ?m pt j \<Longrightarrow> j \<noteq> ?i \<Longrightarrow> tbl_pages ?m l (child ?m pt j) \<inter> tbl_pages (mem s3) l q = {}"
    using qT by (simp only: z(2)) auto
  have "walked s (Suc l) pt va a s'" if w: "walked s3 l q va a s'"
  proof -
    from w obtain N where g: "grown s3 (tbl_pages (mem s3) l q) N s'" and t': "tree (mem s') l q"
      and pg: "tbl_pages (mem s') l q = tbl_pages (mem s3) l q \<union> N"
      and lf: "\<forall>va'. leaf (mem s') l q va' = leaf (mem s3) l q va'"
      by (auto simp: walked_def owned_def)
    have lf': "leaf (mem s') l q va' = leaf ?m (Suc l) pt va'" if "PX (Suc l) va' = ?i" for va'
      using that invalid lf z(3) by (simp add: leaf_def)
    have "grown s ?T ({q} \<union> N) s' \<and> owned s' (Suc l) pt \<and>
        tbl_pages (mem s') (Suc l) pt = ?T \<union> ({q} \<union> N) \<and>
        (\<forall>va. leaf (mem s') (Suc l) pt va = leaf ?m (Suc l) pt va) \<and>
        (\<forall>va'. PX (Suc l) va' = ?i \<longrightarrow> lookup (mem s') (Suc l) pt va' = lookup (mem s') l q va')"
      by (rule extend_child [where ?s1.0 = s3 and i = ?i and pt = pt and l = l, unfolded c,
            OF own PX_less n(1) g e1 fl C(1) dis C(2-4) t' pg lf'])
    moreover have "nfree s \<le> nfree s' + Suc l \<and> (a = 0 \<longrightarrow> nfree s' = 0 \<and> nfree s < Suc l)"
      using w nfree_grown [OF n(1)] by (auto simp: walked_def)
    ultimately show ?thesis using w unfolding walked_def slot_def by metis
  qed
  moreover have "owned s3 l q" using z n(1) grown_kpage [OF n(1)] by (simp add: owned_def grown_def)
  moreover have "kmem_ok s3" using n(1) by (simp add: grown_def)
  ultimately show ?thesis by blast
qed

lemma walk_loop_alloc:
  assumes "kmem_ok s" and "owned s l pt"
  shows "\<exists>a s'. walk_loop l pt va True s = Ret (a, s') \<and> walked s l pt va a s'"
  using assms
proof (induction l arbitrary: pt s)
  case 0
  then show ?case
    using grown_refl [of s] cell_not_null [of pt "PX 0 va"] by (auto simp: slot_def walked_def owned_def)
next
  case (Suc l)
  let ?e = "entry (mem s) pt (PX (Suc l) va)"
  show ?case
  proof (cases "bit ?e 0")
    case True
    then have "valid_at (mem s) pt (PX (Suc l) va)" by (simp add: valid_at_def)
    then have "owned s l (PTE2PA ?e)" using Suc.prems(2) by (auto simp: owned_def)
    with Suc.IH [OF Suc.prems(1)] walked_valid_child [OF Suc.prems True] True show ?thesis
      by (fastforce simp: Let_def flag_simps)
  next
    case False
    obtain q s1 where k: "kalloc s = Ret (q, s1)" using ka.alloc_returns [OF Suc.prems(1)] by blast
    show ?thesis
    proof (cases "q = 0")
      case True
      with k Suc.prems(1) have "s1 = s" using ka.alloc_null by blast
      then have "walk_loop (Suc l) pt va True s = Ret (0, s)"
        using False True k by (simp add: Let_def flag_simps)
      then show ?thesis using walked_refl [OF Suc.prems] nfree_null [OF Suc.prems(1)] k True by simp
    next
      case q: False
      note n = walked_new_child [OF Suc.prems False k q refl]
      with Suc.IH show ?thesis using False q k by (simp add: Let_def flag_simps) blast
    qed
  qed
qed

lemma walk_alloc:
  assumes "kmem_ok s" and "owned s 2 pt" and "va < MAXVA"
  obtains a s' where "walk pt va True s = Ret (a, s')" and "walked s 2 pt va a s'"
  using walk_loop_alloc [OF assms(1,2), of va] assms(3) by (auto simp: walk_def not_le)

end
