(* ===== verification/Cow.thy ===== *)
theory Cow
  imports PageTable
begin

text \<open>
  The behaviour of the mapping operations of \<^verbatim>\<open>kernel/vm.c\<close> on well-formed tables: \<open>mappages\<close>
  and \<open>uvmunmap\<close> as updates of the function from addresses to entries, the sharing that
  \<open>uvmcopy\<close> sets up at fork, and the private copy \<open>cowalloc\<close> makes on the first write.
\<close>

section \<open>One table changes, the other stays\<close>

abbreviation pte_of :: "'a kmem_scheme \<Rightarrow> u64 \<Rightarrow> u64 \<Rightarrow> u64" where
  "pte_of s pt va \<equiv> leaf (mem s) 2 pt va"

abbreviation pages_of :: "'a kmem_scheme \<Rightarrow> u64 \<Rightarrow> u64 set" where
  "pages_of s pt \<equiv> tbl_pages (mem s) 2 pt"

text \<open>\<open>s'\<close> results from writing and extending the table at \<open>pt\<close> with the new pages \<open>N\<close>.\<close>

definition tbl_grown :: "'a kmem_scheme \<Rightarrow> u64 \<Rightarrow> u64 set \<Rightarrow> 'a kmem_scheme \<Rightarrow> bool" where
  "tbl_grown s pt N s' \<longleftrightarrow> owned s' 2 pt \<and> grown s (pages_of s pt) N s' \<and>
     pages_of s' pt = pages_of s pt \<union> N"

lemma tbl_grown_trans:
  assumes "tbl_grown s pt N s1" and "tbl_grown s1 pt N' s2"
  shows "tbl_grown s pt (N \<union> N') s2"
  using assms grown_trans [of s "pages_of s pt" N s1 "pages_of s1 pt" N' s2]
  by (auto simp: tbl_grown_def)

lemma tbl_grown_ok: "tbl_grown s pt N s' \<Longrightarrow> kmem_ok s'"
  by (simp add: tbl_grown_def grown_def)

lemma walked_tbl_grown:
  assumes "walked s 2 pt va a s'"
  obtains N where "tbl_grown s pt N s'"
  using assms by (auto simp: walked_def tbl_grown_def)

lemma other_table:
  assumes g: "tbl_grown s pt N s'" and o: "owned s 2 pt2" and d: "pages_of s pt2 \<inter> pages_of s pt = {}"
  shows "owned s' 2 pt2" and "pages_of s' pt2 = pages_of s pt2" and "pte_of s' pt2 va = pte_of s pt2 va"
    and "pages_of s' pt2 \<inter> pages_of s' pt = {}"
proof -
  have gr: "grown s (pages_of s pt) N s'" using g by (simp add: tbl_grown_def)
  note pos = grown_pos [OF gr ownedD(2,3) [OF o]]
  have "agree_on (pages_of s pt2) (mem s) (mem s')"
    using gr d ownedD(2,3) [OF o] by (intro grown_agree [OF gr]) auto
  note ta = table_agree [OF this ownedD(1) [OF o]]
  show "pages_of s' pt2 = pages_of s pt2" "pte_of s' pt2 va = pte_of s pt2 va" by (rule ta)+
  then show "pages_of s' pt2 \<inter> pages_of s' pt = {}" using d g pos by (auto simp: tbl_grown_def)
  show "owned s' 2 pt2"
    using ta(1,2) pos ownedD(2,3) [OF o] grown_kpage [OF gr] by (auto simp: owned_def)
qed

text \<open>Storing an entry through the pointer that \<open>walk\<close> found.\<close>

lemma store_pte:
  assumes ok: "kmem_ok s" and o: "owned s 2 pt" and p: "lookup (mem s) 2 pt va = Some p"
    and va: "va < MAXVA"
  shows "tbl_grown s pt {} (s\<lparr>mem := st64 (mem s) (slot (mem s) 2 pt va) v\<rparr>)"
    and "lookup (st64 (mem s) (slot (mem s) 2 pt va) v) 2 pt va' = lookup (mem s) 2 pt va'"
    and "va' < SV39 \<Longrightarrow> leaf (st64 (mem s) (slot (mem s) 2 pt va) v) 2 pt va' =
      (if PGROUNDDOWN va' = PGROUNDDOWN va then v else pte_of s pt va')"
proof -
  have sl: "slot (mem s) 2 pt va = PTE_ADDR p (PX 0 va)" using p by (simp add: slot_def)
  let ?m = "st64 (mem s) (PTE_ADDR p (PX 0 va)) v"
  note t = ownedD(1) [OF o]
  have pT: "p \<in> pages_of s pt" using p by (rule lookup_in_tbl_pages)
  have al: "pg_aligned p" using lookup_aligned [OF t p] by simp
  have off: "same_off_page p (mem s) ?m" using al by (simp add: same_off_page_entry)
  note w = lookup_write_leaf [OF t p off]
  have "kmem_ok (s\<lparr>mem := ?m\<rparr>)" using ok al ownedD(3) [OF o pT] off by (rule kmem_ok_write)
  then have "grown s (pages_of s pt) {} (s\<lparr>mem := ?m\<rparr>)"
    using off pT by (auto simp: grown_def intro!: same_off_page_agree)
  then show "tbl_grown s pt {} (s\<lparr>mem := st64 (mem s) (slot (mem s) 2 pt va) v\<rparr>)"
    using w o by (simp add: tbl_grown_def owned_def sl)
  show "lookup (st64 (mem s) (slot (mem s) 2 pt va) v) 2 pt va' = lookup (mem s) 2 pt va'"
    using w by (simp add: sl)
  show "leaf (st64 (mem s) (slot (mem s) 2 pt va) v) 2 pt va' =
      (if PGROUNDDOWN va' = PGROUNDDOWN va then v else pte_of s pt va')" if "va' < SV39"
    using leaf_store [OF t p, of v va'] PX_eq_page [OF maxva_sv39 [OF va] that] by (auto simp: sl)
qed

lemma walk_loop_exists:
  "lookup (mem s) l pt va = Some p \<Longrightarrow> walk_loop l pt va alloc s = Ret (PTE_ADDR p (PX 0 va), s)"
  by (induction l arbitrary: pt) (auto simp: Let_def flag_simps split: if_splits)

lemma walk_exists:
  "lookup (mem s) 2 pt va = Some p \<Longrightarrow> va < MAXVA \<Longrightarrow>
    walk pt va alloc s = Ret (slot (mem s) 2 pt va, s)"
  by (simp add: walk_def walk_loop_exists slot_def not_le)

lemma leaf_lookup: "leaf m l pt va \<noteq> 0 \<Longrightarrow> \<exists>p. lookup m l pt va = Some p"
  by (auto simp: leaf_def split: option.splits)

lemma ld64_slot: "lookup m l pt va = Some p \<Longrightarrow> ld64 m (slot m l pt va) = leaf m l pt va"
  by (simp add: slot_def leaf_def)

lemma slot_not_0: "tree m l pt \<Longrightarrow> lookup m l pt va = Some p \<Longrightarrow> slot m l pt va \<noteq> 0"
  by (simp add: slot_eq_0)

section \<open>Mapping\<close>

lemma mappages_eq_loop:
  assumes "pg_aligned va"
  shows "mappages pt va PGSIZE pa perm s = mappages_loop pt va va pa perm s"
proof -
  have "in_region va 4096 (va + PGSIZE - 1)" by (simp add: in_region_def PGSIZE_def)
  then have "PGROUNDDOWN (va + PGSIZE - 1) = va" using assms by (simp add: in_region_page)
  then show ?thesis using assms by (simp add: mappages_def PGSIZE_def)
qed

text \<open>Mapping one page: out of memory for the table, or the entry is set and no other one.\<close>

lemma mappages_page:
  assumes ok: "kmem_ok s" and o: "owned s 2 pt" and va: "va < MAXVA" "pg_aligned va"
    and free: "\<not> bit (pte_of s pt va) 0"
  shows "\<exists>r s' N. mappages pt va PGSIZE pa perm s = Ret (r, s') \<and> tbl_grown s pt N s' \<and>
    nfree s \<le> nfree s' + 2 \<and> (r = -1 \<longrightarrow> nfree s < 2) \<and>
    (r = -1 \<and> (\<forall>va'. pte_of s' pt va' = pte_of s pt va') \<or>
     r = 0 \<and> (\<forall>va' < SV39. pte_of s' pt va' =
       (if PGROUNDDOWN va' = va then PA2PTE pa OR perm OR PTE_V else pte_of s pt va')))"
proof -
  obtain a s1 where w: "walk pt va True s = Ret (a, s1)" and wd: "walked s 2 pt va a s1"
    using walk_alloc [OF ok o va(1)] by blast
  obtain N where g: "tbl_grown s pt N s1" using wd by (rule walked_tbl_grown)
  have lf: "pte_of s1 pt va' = pte_of s pt va'" for va' using wd by (simp add: walked_def)
  have nf: "nfree s \<le> nfree s1 + 2" "a = 0 \<longrightarrow> nfree s < 2" using wd by (simp_all add: walked_def)
  note mp = mappages_eq_loop [OF va(2)]
  show ?thesis
  proof (cases "a = 0")
    case True
    then have "mappages pt va PGSIZE pa perm s = Ret (-1, s1)"
      by (simp add: mp mappages_loop.simps w)
    with g lf nf True show ?thesis by blast
  next
    case False
    then have a: "a = slot (mem s1) 2 pt va" and "lookup (mem s1) 2 pt va \<noteq> None"
      using wd by (auto simp: walked_def)
    then obtain p where p: "lookup (mem s1) 2 pt va = Some p" by blast
    let ?s' = "s1\<lparr>mem := st64 (mem s1) (slot (mem s1) 2 pt va) (PA2PTE pa OR perm OR PTE_V)\<rparr>"
    have o1: "owned s1 2 pt" using wd by (simp add: walked_def)
    note st = store_pte [OF tbl_grown_ok [OF g] o1 p va(1), where v = "PA2PTE pa OR perm OR PTE_V"]
    have "tbl_grown s pt (N \<union> {}) ?s'" by (rule tbl_grown_trans [OF g st(1)])
    moreover have "mappages pt va PGSIZE pa perm s = Ret (0, ?s')"
      using False free by (simp add: mp mappages_loop.simps w a ld64_slot [OF p] lf flag_simps)
    moreover have "nfree ?s' = nfree s1" by (simp add: nfree_def)
    ultimately show ?thesis
      using st(3) va(2) lf nf(1) by auto
  qed
qed

lemma pgno_page: "pg_aligned a \<Longrightarrow> PGROUNDDOWN va = a \<longleftrightarrow> pgno va = pgno a"
  by (auto simp: word_unat_eq_iff unat_PGROUNDDOWN pg_aligned_def pgno_def)

lemma va_next:
  assumes "unat a + Suc n * 4096 \<le> 0x4000000000" and "pg_aligned a"
  shows "a < MAXVA" and "unat (a + PGSIZE) = unat a + 4096" and "pg_aligned (a + PGSIZE)"
    and "pgno (a + PGSIZE) = Suc (pgno a)"
proof -
  show "a < MAXVA" using assms(1) by (simp add: MAXVA_def word_less_nat_alt)
  show e: "unat (a + PGSIZE) = unat a + 4096" using assms(1) by (intro va_step) simp
  show "pg_aligned (a + PGSIZE)" using assms(2) by (simp add: pg_aligned_def e)
  show "pgno (a + PGSIZE) = Suc (pgno a)" by (simp add: pgno_def e)
qed

text \<open>The addresses of the pages from \<open>a\<close> on.\<close>

definition page_at :: "u64 \<Rightarrow> nat \<Rightarrow> u64" where
  "page_at a k = a + of_nat k * PGSIZE"

lemma page_at_0 [simp]: "page_at a 0 = a"
  by (simp add: page_at_def)

lemma page_at_Suc: "page_at a (Suc k) = page_at (a + PGSIZE) k"
  by (simp add: page_at_def algebra_simps)

lemma page_at_props:
  assumes "unat a + n * 4096 \<le> 0x4000000000" and "pg_aligned a" and "k < n"
  shows "unat (page_at a k) = unat a + k * 4096" and "page_at a k < MAXVA"
    and "pg_aligned (page_at a k)" and "pgno (page_at a k) = pgno a + k"
proof -
  have k: "unat a + k * 4096 + 4096 \<le> 0x4000000000"
  proof -
    have "Suc k * 4096 \<le> n * 4096" using assms(3) by (intro mult_right_mono) auto
    then show ?thesis using assms(1) by simp
  qed
  then have "unat (of_nat k * PGSIZE) = k * 4096"
    by (simp add: unat_word_ariths unat_of_nat_u64)
  then show e: "unat (page_at a k) = unat a + k * 4096"
    using k by (simp add: page_at_def unat_word_ariths)
  show "page_at a k < MAXVA" using k by (simp add: MAXVA_def word_less_nat_alt e)
  show "pg_aligned (page_at a k)" using assms(2) by (simp add: pg_aligned_def e)
  show "pgno (page_at a k) = pgno a + k" by (simp add: pgno_def e)
qed

lemma mappages_loop_step:
  assumes "mappages_loop pt a a pa perm s = Ret (r, s')"
  shows "mappages_loop pt a last' pa perm s =
    (if r = 0 \<and> a \<noteq> last' then mappages_loop pt (a + PGSIZE) last' (pa + PGSIZE) perm s'
     else Ret (r, s'))"
  using assms
  by (simp add: mappages_loop.simps [of pt a a] mappages_loop.simps [of pt a last'] Let_def res_simps)
    (auto split: if_splits)

text \<open>Where the table page exists already, mapping cannot fail.\<close>

lemma mappages_exists:
  assumes ok: "kmem_ok s" and o: "owned s 2 pt" and va: "va < MAXVA" "pg_aligned va"
    and l: "lookup (mem s) 2 pt va = Some l" and free: "\<not> bit (pte_of s pt va) 0"
  shows "\<exists>s'. mappages pt va PGSIZE pa perm s = Ret (0, s') \<and> tbl_grown s pt {} s' \<and>
    (\<forall>va' < SV39. pte_of s' pt va' =
       (if PGROUNDDOWN va' = va then PA2PTE pa OR perm OR PTE_V else pte_of s pt va'))"
proof -
  let ?s' = "s\<lparr>mem := st64 (mem s) (slot (mem s) 2 pt va) (PA2PTE pa OR perm OR PTE_V)\<rparr>"
  note st = store_pte [OF ok o l va(1), where v = "PA2PTE pa OR perm OR PTE_V"]
  have "mappages pt va PGSIZE pa perm s = Ret (0, ?s')"
    using free slot_not_0 [OF ownedD(1) [OF o] l]
    by (simp add: mappages_eq_loop [OF va(2)] mappages_loop.simps walk_exists [OF l va(1)]
        ld64_slot [OF l] flag_simps)
  with st va(2) show ?thesis by auto
qed

text \<open>One page, in terms of page numbers: \<open>k\<close> is 1 when the entry was set.\<close>

lemma mappages_one:
  assumes "kmem_ok s" and "owned s 2 pt" and "pg_aligned a" and "a < MAXVA" and "\<not> bit (pte_of s pt a) 0"
  obtains r s' N k where "mappages_loop pt a a pa perm s = Ret (r, s')" and "tbl_grown s pt N s'"
    and "r = 0 \<and> k = 1 \<or> r = -1 \<and> k = (0 :: nat)"
    and "\<And>va. va < SV39 \<Longrightarrow> pte_of s' pt va =
      (if pgno a \<le> pgno va \<and> pgno va < pgno a + k then PA2PTE pa OR perm OR PTE_V else pte_of s pt va)"
proof -
  obtain r s' N where 1: "mappages pt a PGSIZE pa perm s = Ret (r, s')" "tbl_grown s pt N s'"
      "r = -1 \<and> (\<forall>va'. pte_of s' pt va' = pte_of s pt va') \<or>
       r = 0 \<and> (\<forall>va' < SV39. pte_of s' pt va' =
         (if PGROUNDDOWN va' = a then PA2PTE pa OR perm OR PTE_V else pte_of s pt va'))"
    using mappages_page [OF assms(1,2,4,3,5)] by blast
  have r: "pgno a \<le> pgno va \<and> pgno va < pgno a + 1 \<longleftrightarrow> PGROUNDDOWN va = a" for va
    unfolding pgno_page [OF assms(3)] by auto
  have lp: "mappages_loop pt a a pa perm s = Ret (r, s')"
    using 1(1) by (simp add: mappages_eq_loop [OF assms(3)])
  from 1(3) show ?thesis
  proof
    assume *: "r = -1 \<and> (\<forall>va'. pte_of s' pt va' = pte_of s pt va')"
    then have "pte_of s' pt va = (if pgno a \<le> pgno va \<and> pgno va < pgno a + 0
        then PA2PTE pa OR perm OR PTE_V else pte_of s pt va)" for va
      by auto
    with * show ?thesis using that [OF lp 1(2), of 0] by blast
  next
    assume *: "r = 0 \<and> (\<forall>va' < SV39. pte_of s' pt va' =
         (if PGROUNDDOWN va' = a then PA2PTE pa OR perm OR PTE_V else pte_of s pt va'))"
    then have "pte_of s' pt va = (if pgno a \<le> pgno va \<and> pgno va < pgno a + 1
        then PA2PTE pa OR perm OR PTE_V else pte_of s pt va)" if "va < SV39" for va
      using that unfolding r by blast
    with * show ?thesis using that [OF lp 1(2), of 1] by blast
  qed
qed

lemma mappages_loop_pages:
  assumes "kmem_ok s" and "owned s 2 pt" and "pg_aligned a" and "unat a + Suc n * 4096 \<le> 0x4000000000"
    and "\<And>k. k \<le> n \<Longrightarrow> \<not> bit (pte_of s pt (page_at a k)) 0"
  shows "\<exists>r s' N k. mappages_loop pt a (page_at a n) pa perm s = Ret (r, s') \<and> tbl_grown s pt N s' \<and>
    (r = 0 \<and> k = Suc n \<or> r = -1 \<and> k \<le> n) \<and>
    (\<forall>va < SV39. pte_of s' pt va =
      (if pgno a \<le> pgno va \<and> pgno va < pgno a + k
       then PA2PTE (page_at pa (pgno va - pgno a)) OR perm OR PTE_V else pte_of s pt va))"
  using assms
proof (induction n arbitrary: s a pa)
  case 0
  obtain r s' N k where "mappages_loop pt a a pa perm s = Ret (r, s')" "tbl_grown s pt N s'"
    "r = 0 \<and> k = 1 \<or> r = -1 \<and> k = (0 :: nat)"
    "\<And>va. va < SV39 \<Longrightarrow> pte_of s' pt va =
      (if pgno a \<le> pgno va \<and> pgno va < pgno a + k then PA2PTE pa OR perm OR PTE_V else pte_of s pt va)"
    using mappages_one [OF 0(1-3) va_next(1) [OF 0(4,3)]] 0(5) [of 0] by (metis page_at_0 order_refl)
  then show ?case
    by (intro exI [of _ r] exI [of _ s'] exI [of _ N] exI [of _ k]) (auto simp: less_Suc_eq_le)
next
  case (Suc n)
  note nx = va_next [OF Suc.prems(4,3)]
  obtain r s1 N k where 1: "mappages_loop pt a a pa perm s = Ret (r, s1)" "tbl_grown s pt N s1"
    "r = 0 \<and> k = 1 \<or> r = -1 \<and> k = (0 :: nat)"
    "\<And>va. va < SV39 \<Longrightarrow> pte_of s1 pt va =
      (if pgno a \<le> pgno va \<and> pgno va < pgno a + k then PA2PTE pa OR perm OR PTE_V else pte_of s pt va)"
    using mappages_one [OF Suc.prems(1-3) nx(1)] Suc.prems(5) [of 0] by (metis page_at_0 le0)
  have ne: "a \<noteq> page_at a (Suc n)"
    using page_at_props(4) [OF Suc.prems(4,3), of "Suc n"] by auto
  note step = mappages_loop_step [OF 1(1), of "page_at a (Suc n)"]
  show ?case
  proof (cases "r = 0")
    case False
    with 1 step show ?thesis
      by (intro exI [of _ r] exI [of _ s1] exI [of _ N] exI [of _ 0]) auto
  next
    case True
    then have k: "k = 1" using 1(3) by simp
    have o1: "owned s1 2 pt" using 1(2) by (simp add: tbl_grown_def)
    have free: "\<not> bit (pte_of s1 pt (page_at (a + PGSIZE) j)) 0" if "j \<le> n" for j
      using Suc.prems(5) [of "Suc j"] page_at_props(2,4) [OF Suc.prems(4,3), of "Suc j"] that
      by (simp add: 1(4) k flip: page_at_Suc)
    have b: "unat (a + PGSIZE) + Suc n * 4096 \<le> 0x4000000000" using Suc.prems(4) nx(2) by simp
    obtain r' s' N' k' where IH:
        "mappages_loop pt (a + PGSIZE) (page_at (a + PGSIZE) n) (pa + PGSIZE) perm s1 = Ret (r', s')"
        "tbl_grown s1 pt N' s'" "r' = 0 \<and> k' = Suc n \<or> r' = -1 \<and> k' \<le> n"
        "\<forall>va < SV39. pte_of s' pt va =
          (if pgno (a + PGSIZE) \<le> pgno va \<and> pgno va < pgno (a + PGSIZE) + k'
           then PA2PTE (page_at (pa + PGSIZE) (pgno va - pgno (a + PGSIZE))) OR perm OR PTE_V
           else pte_of s1 pt va)"
      using Suc.IH [OF tbl_grown_ok [OF 1(2)] o1 nx(3) b free] by blast
    have "page_at (pa + PGSIZE) (pgno va - pgno (a + PGSIZE)) = page_at pa (pgno va - pgno a)"
      if "pgno (a + PGSIZE) \<le> pgno va" for va
      using that nx(4) by (simp add: Suc_diff_Suc less_eq_Suc_le flip: page_at_Suc)
    then have "\<forall>va < SV39. pte_of s' pt va =
        (if pgno a \<le> pgno va \<and> pgno va < pgno a + Suc k'
         then PA2PTE (page_at pa (pgno va - pgno a)) OR perm OR PTE_V else pte_of s pt va)"
      using IH(4) nx(4) by (auto simp: 1(4) k le_Suc_eq)
    moreover have "tbl_grown s pt (N \<union> N') s'" by (rule tbl_grown_trans [OF 1(2) IH(2)])
    ultimately show ?thesis
      using step True ne IH(1,3)
      by (intro exI [of _ r'] exI [of _ s'] exI [of _ "N \<union> N'"] exI [of _ "Suc k'"])
        (simp add: page_at_Suc)
  qed
qed

section \<open>Unmapping\<close>

lemma kfree_page:
  assumes "kmem_ok s" and "kpage s p" and "0 < refs s p"
  obtains s' where "kfree p s = Ret s'" and "kmem_ok s'" and "kend s' = kend s"
    and "kmem.more s' = kmem.more s" and "same_off_page p (mem s) (mem s')"
    and "1 < refs s p \<longrightarrow> mem s' = mem s"
    and "\<forall>q. kpage s q \<longrightarrow> refs s' q = (if q = p then refs s p - 1 else refs s q)"
proof -
  obtain s' where s': "kfree p s = Ret s'" "kmem_ok s'" "refs s' p = refs s p - 1"
      "same_off_page p (mem s) (mem s')" "1 < refs s p \<longrightarrow> mem s' = mem s"
      "\<forall>q. kpage s q \<longrightarrow> q \<noteq> p \<longrightarrow> refs s' q = refs s q"
    using ka.free_page [OF assms] by blast
  have "s' = free_state p s \<or> s' = set_refs p (refs s p - 1) s"
    using s'(1) assms by (auto simp: kfree_eq split: if_splits)
  then have "kend s' = kend s" "kmem.more s' = kmem.more s"
    by (auto simp: free_state_def set_refs_def)
  with s' show thesis by (intro that [of s']) auto
qed

text \<open>How many of the first \<open>n\<close> pages are the page \<open>p\<close>.\<close>

definition uses :: "(nat \<Rightarrow> u64) \<Rightarrow> nat \<Rightarrow> u64 \<Rightarrow> int" where
  "uses f n p = (\<Sum>k < n. if f k = p then 1 else 0)"

lemma uses_0 [simp]: "uses f 0 p = 0"
  by (simp add: uses_def)

lemma uses_Suc: "uses f (Suc n) p = uses f n p + (if f n = p then 1 else 0)"
  by (simp add: uses_def)

lemma uses_Suc_shift: "uses f (Suc n) p = (if f 0 = p then 1 else 0) + uses (\<lambda>k. f (Suc k)) n p"
  by (simp only: uses_def sum.lessThan_Suc_shift)

lemma uses_nonneg [simp]: "0 \<le> uses f n p"
  by (simp add: uses_def sum_nonneg)

lemma uses_cong: "(\<And>k. k < n \<Longrightarrow> f k = g k) \<Longrightarrow> uses f n p = uses g n p"
  by (simp add: uses_def)

lemma uses_pos: "k < n \<Longrightarrow> f k = p \<Longrightarrow> 1 \<le> uses f n p"
proof (induction n)
  case (Suc n)
  then show ?case by (cases "k = n") (auto simp: uses_Suc)
qed simp

text \<open>
  \<open>unmapped s pt F n s'\<close>: from \<open>s\<close> to \<open>s'\<close> each of the pages \<open>F 0, \<dots>, F (n - 1)\<close> lost one
  reference; besides the table, only pages without a reference left were written.
\<close>

definition unmapped :: "'a kmem_scheme \<Rightarrow> u64 \<Rightarrow> (nat \<Rightarrow> u64) \<Rightarrow> nat \<Rightarrow> 'a kmem_scheme \<Rightarrow> bool" where
  "unmapped s pt F n s' \<longleftrightarrow> kmem_ok s' \<and> kend s' = kend s \<and> kmem.more s' = kmem.more s \<and>
     owned s' 2 pt \<and> pages_of s' pt = pages_of s pt \<and>
     (\<forall>va. lookup (mem s') 2 pt va = lookup (mem s) 2 pt va) \<and>
     (\<forall>p. kpage s p \<longrightarrow> refs s' p = refs s p - uses F n p) \<and>
     agree_on {p. p \<notin> pages_of s pt \<and> \<not> (kpage s p \<and> refs s' p = 0)} (mem s) (mem s')"

abbreviation upage :: "'a kmem_scheme \<Rightarrow> u64 \<Rightarrow> u64 \<Rightarrow> nat \<Rightarrow> u64" where
  "upage s pt a k \<equiv> PTE2PA (pte_of s pt (page_at a k))"

text \<open>One iteration of the loop of \<open>uvmunmap\<close> with \<open>do_free\<close>.\<close>

lemma uvmunmap_step:
  assumes ok: "kmem_ok s" and o: "owned s 2 pt" and a: "a < MAXVA" "pg_aligned a"
    and e: "bit (pte_of s pt a) 0" "PTE_FLAGS (pte_of s pt a) \<noteq> PTE_V"
    and p: "kpage s (PTE2PA (pte_of s pt a))" "0 < refs s (PTE2PA (pte_of s pt a))"
      "PTE2PA (pte_of s pt a) \<notin> pages_of s pt" and lt: "a < end'"
  obtains s' where "uvmunmap_loop pt a end' True s = uvmunmap_loop pt (a + PGSIZE) end' True s'"
    and "unmapped s pt (\<lambda>_. PTE2PA (pte_of s pt a)) 1 s'"
    and "\<And>va. va < SV39 \<Longrightarrow> pte_of s' pt va = (if pgno va = pgno a then 0 else pte_of s pt va)"
proof -
  let ?p = "PTE2PA (pte_of s pt a)"
  obtain l where l: "lookup (mem s) 2 pt a = Some l" using leaf_lookup [of "mem s" 2 pt a] e(1) by fastforce
  note t = ownedD(1) [OF o]
  obtain s1 where k: "kfree ?p s = Ret s1" "kmem_ok s1" "kend s1 = kend s"
      "kmem.more s1 = kmem.more s" "same_off_page ?p (mem s) (mem s1)"
      "1 < refs s ?p \<longrightarrow> mem s1 = mem s"
      "\<forall>q. kpage s q \<longrightarrow> refs s1 q = (if q = ?p then refs s ?p - 1 else refs s q)"
    by (rule kfree_page [OF ok p(1,2)])
  have kp: "kpage s1 = kpage s" by (simp add: kpage_def fun_eq_iff k(3))
  have ag: "agree_on (pages_of s pt) (mem s) (mem s1)"
    using k(5) p(3) by (rule same_off_page_agree)
  note ta = table_agree [OF ag t]
  have o1: "owned s1 2 pt"
    using ta(1,2) ownedD(2,3) [OF o] kp k(7) p(3) by (auto simp: owned_def)
  have l1: "lookup (mem s1) 2 pt a = Some l" using ta(3) l by simp
  have sl: "slot (mem s1) 2 pt a = slot (mem s) 2 pt a" using l l1 by (simp add: slot_def)
  define s' where "s' = s1\<lparr>mem := st64 (mem s1) (slot (mem s1) 2 pt a) 0\<rparr>"
  note st = store_pte [OF k(2) o1 l1 a(1), where v = 0, folded s'_def]
  have "uvmunmap_loop pt a end' True s = uvmunmap_loop pt (a + PGSIZE) end' True s'"
    using lt e k(1) slot_not_0 [OF t l]
    by (subst uvmunmap_loop.simps)
      (simp add: walk_exists [OF l a(1)] ld64_slot [OF l] flag_simps s'_def sl)
  moreover have "unmapped s pt (\<lambda>_. ?p) 1 s'"
  proof -
    have g: "owned s' 2 pt" "grown s1 (pages_of s pt) {} s'" "pages_of s' pt = pages_of s pt"
      using st(1) ta(1) by (auto simp: tbl_grown_def)
    have r: "refs s' q = (if q = ?p then refs s ?p - 1 else refs s q)" if "kpage s q" for q
      using k(7) that by (simp add: s'_def)
    have "agree_on {q. q \<notin> pages_of s pt \<and> \<not> (kpage s q \<and> refs s' q = 0)} (mem s) (mem s')"
    proof -
      let ?Q = "{q. q \<notin> pages_of s pt \<and> \<not> (kpage s q \<and> refs s' q = 0)}"
      have "agree_on ?Q (mem s) (mem s1)"
      proof (cases "refs s ?p = 1")
        case True
        then show ?thesis using p(1) r [OF p(1)] by (intro same_off_page_agree [OF k(5)]) simp
      next
        case False
        then show ?thesis using k(6) p(2) by simp
      qed
      moreover have "agree_on ?Q (mem s1) (mem s')"
        using g(2) by (auto simp: grown_def elim!: agree_on_subset)
      ultimately show ?thesis by (rule agree_on_trans)
    qed
    moreover have "lookup (mem s') 2 pt va = lookup (mem s) 2 pt va" for va
      using st(2) [of va] ta(3) [of va] by (simp add: s'_def)
    ultimately show ?thesis
      using g r k(3,4) by (auto simp: unmapped_def grown_def uses_def)
  qed
  moreover have "pte_of s' pt va = (if pgno va = pgno a then 0 else pte_of s pt va)" if "va < SV39" for va
    using st(3) [OF that] a(2) ta(4) by (simp add: s'_def pgno_page [OF a(2)])
  ultimately show thesis by (rule that)
qed

lemma refs_nonneg: "kmem_ok s \<Longrightarrow> kpage s p \<Longrightarrow> 0 \<le> refs s p"
  by (auto simp: kmem_ok_def intro: kmem_invD(2))

lemma unmapped_kpage: "unmapped s pt F n s' \<Longrightarrow> kpage s' = kpage s"
  by (simp add: unmapped_def kpage_def fun_eq_iff)

lemma unmapped_trans:
  assumes 1: "unmapped s pt F n s1" and 2: "unmapped s1 pt G m s2"
  shows "kmem_ok s2 \<and> kend s2 = kend s \<and> kmem.more s2 = kmem.more s \<and> owned s2 2 pt \<and>
    pages_of s2 pt = pages_of s pt \<and> (\<forall>va. lookup (mem s2) 2 pt va = lookup (mem s) 2 pt va) \<and>
    (\<forall>p. kpage s p \<longrightarrow> refs s2 p = refs s p - (uses F n p + uses G m p))"
  using assms by (auto simp: unmapped_def kpage_def)

lemma unmapped_agree:
  assumes 1: "unmapped s pt F n s1" and 2: "unmapped s1 pt G m s2"
  shows "agree_on {p. p \<notin> pages_of s pt \<and> \<not> (kpage s p \<and> refs s2 p = 0)} (mem s) (mem s2)"
proof -
  note kp = unmapped_kpage [OF 1]
  let ?Q = "{p. p \<notin> pages_of s pt \<and> \<not> (kpage s p \<and> refs s2 p = 0)}"
  have "refs s2 p \<le> refs s1 p" if "kpage s p" for p
    using 2 that kp by (simp add: unmapped_def)
  moreover have "0 \<le> refs s2 p" if "kpage s p" for p
    using that refs_nonneg [of s2 p] unmapped_kpage [OF 2] 2 kp by (simp add: unmapped_def)
  ultimately have "refs s2 p = 0" if "kpage s p" "refs s1 p = 0" for p
    using that by (metis order_antisym)
  then have "agree_on ?Q (mem s) (mem s1)"
    using 1 by (auto simp: unmapped_def elim!: agree_on_subset)
  moreover have "agree_on ?Q (mem s1) (mem s2)"
    using 1 2 kp by (auto simp: unmapped_def elim!: agree_on_subset)
  ultimately show ?thesis by (rule agree_on_trans)
qed

lemma uvmunmap_loop_pages:
  assumes "kmem_ok s" and "owned s 2 pt" and "pg_aligned a" and "unat a + n * 4096 \<le> 0x4000000000"
    and "\<And>k. k < n \<Longrightarrow> bit (pte_of s pt (page_at a k)) 0 \<and> PTE_FLAGS (pte_of s pt (page_at a k)) \<noteq> PTE_V \<and>
      kpage s (upage s pt a k) \<and> upage s pt a k \<notin> pages_of s pt"
    and "\<And>p. kpage s p \<Longrightarrow> uses (upage s pt a) n p \<le> refs s p"
  shows "\<exists>s'. uvmunmap_loop pt a (page_at a n) True s = Ret s' \<and> unmapped s pt (upage s pt a) n s' \<and>
    (\<forall>va < SV39. pte_of s' pt va =
      (if pgno a \<le> pgno va \<and> pgno va < pgno a + n then 0 else pte_of s pt va))"
  using assms
proof (induction n arbitrary: s a)
  case 0
  then have "unmapped s pt F 0 s" for F by (simp add: unmapped_def)
  then show ?case by (subst uvmunmap_loop.simps) auto
next
  case (Suc n)
  let ?b = "a + PGSIZE" and ?p = "upage s pt a 0"
  note nx = va_next [OF Suc.prems(4,3)]
  note pp = page_at_props [OF Suc.prems(4,3)]
  note e = Suc.prems(5) [of 0, simplified]
  have "unat (page_at a (Suc n)) = unat a + Suc n * 4096"
  proof -
    have "unat (of_nat (Suc n) * PGSIZE) = Suc n * 4096"
      using Suc.prems(4) by (simp add: unat_word_ariths unat_of_nat_u64 del: of_nat_Suc)
    then show ?thesis using Suc.prems(4) by (simp add: page_at_def unat_word_ariths del: of_nat_Suc)
  qed
  then have lt: "a < page_at a (Suc n)" by (simp add: word_less_nat_alt)
  have pos: "0 < refs s (PTE2PA (pte_of s pt a))"
    using Suc.prems(6) [of ?p] e uses_pos [of 0 "Suc n" "upage s pt a" ?p] by simp
  obtain s1 where 1: "uvmunmap_loop pt a (page_at a (Suc n)) True s = uvmunmap_loop pt ?b (page_at a (Suc n)) True s1"
    and u: "unmapped s pt (\<lambda>_. PTE2PA (pte_of s pt a)) 1 s1"
    and pt1: "\<And>va. va < SV39 \<Longrightarrow> pte_of s1 pt va = (if pgno va = pgno a then 0 else pte_of s pt va)"
    using uvmunmap_step [OF Suc.prems(1,2) nx(1) Suc.prems(3) _ _ _ pos _ lt] e by blast
  have up: "pte_of s1 pt (page_at ?b k) = pte_of s pt (page_at a (Suc k))" if "k < n" for k
    using pt1 pp(2,4) [of "Suc k"] that by (simp flip: page_at_Suc)
  note kp = unmapped_kpage [OF u]
  have us: "uses (upage s1 pt ?b) n p = uses (\<lambda>k. upage s pt a (Suc k)) n p" for p
    by (rule uses_cong) (simp add: up)
  have one: "uses (\<lambda>_. PTE2PA (pte_of s pt a)) 1 p = (if ?p = p then 1 else 0)" for p
    by (simp add: uses_def)
  have "\<exists>s'. uvmunmap_loop pt ?b (page_at ?b n) True s1 = Ret s' \<and> unmapped s1 pt (upage s1 pt ?b) n s' \<and>
      (\<forall>va < SV39. pte_of s' pt va =
        (if pgno ?b \<le> pgno va \<and> pgno va < pgno ?b + n then 0 else pte_of s1 pt va))"
  proof (rule Suc.IH)
    show "kmem_ok s1" "owned s1 2 pt" using u by (simp_all add: unmapped_def)
    show "pg_aligned ?b" by (rule nx)
    show "unat ?b + n * 4096 \<le> 0x4000000000" using Suc.prems(4) nx(2) by simp
    show "bit (pte_of s1 pt (page_at ?b k)) 0 \<and> PTE_FLAGS (pte_of s1 pt (page_at ?b k)) \<noteq> PTE_V \<and>
        kpage s1 (upage s1 pt ?b k) \<and> upage s1 pt ?b k \<notin> pages_of s1 pt" if "k < n" for k
      using Suc.prems(5) [of "Suc k"] that u by (simp add: up kp unmapped_def)
    show "uses (upage s1 pt ?b) n p \<le> refs s1 p" if "kpage s1 p" for p
      using Suc.prems(6) [of p] that u by (simp add: us kp unmapped_def one uses_Suc_shift)
  qed
  then obtain s' where 2: "uvmunmap_loop pt ?b (page_at ?b n) True s1 = Ret s'"
    and u2: "unmapped s1 pt (upage s1 pt ?b) n s'"
    and pt2: "\<forall>va < SV39. pte_of s' pt va =
        (if pgno ?b \<le> pgno va \<and> pgno va < pgno ?b + n then 0 else pte_of s1 pt va)" by blast
  have "uses (upage s pt a) (Suc n) p = uses (\<lambda>_. PTE2PA (pte_of s pt a)) 1 p + uses (upage s1 pt ?b) n p" for p
    by (simp add: us one uses_Suc_shift)
  then have "unmapped s pt (upage s pt a) (Suc n) s'"
    using unmapped_trans [OF u u2] unmapped_agree [OF u u2] by (simp add: unmapped_def)
  moreover have "\<forall>va < SV39. pte_of s' pt va =
      (if pgno a \<le> pgno va \<and> pgno va < pgno a + Suc n then 0 else pte_of s pt va)"
    using pt1 pt2 nx(4) by (auto simp: le_Suc_eq)
  ultimately show ?case using 1 2 by (simp add: page_at_Suc)
qed

end
