(* ===== verification/Fork.thy ===== *)
theory Fork
  imports Cow
begin

text \<open>
  Copy-on-write fork: what \<open>uvmcopy\<close> of \<^verbatim>\<open>kernel/vm.c\<close> does to the two address spaces on
  success and when the child's table runs out of memory half way, and what \<open>cowalloc\<close> does
  on the first write to a shared page.
\<close>

section \<open>The loop of uvmcopy\<close>

text \<open>The parent's entry after \<open>uvmcopy\<close> has passed it, and the child's entry.\<close>

definition cow_pte :: "u64 \<Rightarrow> u64" where
  "cow_pte e = (if bit e 2 then PA2PTE (PTE2PA e) OR ((PTE_FLAGS e AND NOT PTE_W) OR PTE_COW) else e)"

definition child_pte :: "u64 \<Rightarrow> u64" where
  "child_pte e = PA2PTE (PTE2PA e) OR PTE_FLAGS (cow_pte e)"

lemma cow_flags: "is_flags ((PTE_FLAGS e AND NOT PTE_W) OR PTE_COW)"
  by simp

lemma PTE2PA_cow_pte [simp]: "PTE2PA (cow_pte e) = PTE2PA e"
  by (simp add: cow_pte_def)

lemma PTE2PA_child_pte [simp]: "PTE2PA (child_pte e) = PTE2PA e"
  by (simp add: child_pte_def)

lemma PTE_FLAGS_cow_pte:
  "PTE_FLAGS (cow_pte e) = (if bit e 2 then (PTE_FLAGS e AND NOT PTE_W) OR PTE_COW else PTE_FLAGS e)"
  by (simp add: cow_pte_def)

lemma PTE_FLAGS_child_pte [simp]: "PTE_FLAGS (child_pte e) = PTE_FLAGS (cow_pte e)"
  by (simp add: child_pte_def)

lemma bit_cow_pte:
  "n < 10 \<Longrightarrow> bit (cow_pte e) n \<longleftrightarrow> (if bit e 2 then n = 8 \<or> n \<noteq> 2 \<and> bit e n else bit e n)"
  by (auto simp: cow_pte_def bit_simps flag_simps)

lemma bit_child_pte: "n < 10 \<Longrightarrow> bit (child_pte e) n \<longleftrightarrow> bit (cow_pte e) n"
  by (simp add: child_pte_def bit_simps flag_simps)

lemma child_pte_leaf:
  assumes "bit e 0" and "PTE_FLAGS e \<noteq> PTE_V"
  shows "bit (child_pte e) 0" and "PTE_FLAGS (child_pte e) \<noteq> PTE_V"
proof -
  show "bit (child_pte e) 0" using assms(1) by (simp add: bit_child_pte bit_cow_pte)
  show "PTE_FLAGS (child_pte e) \<noteq> PTE_V"
  proof (cases "bit e 2")
    case True
    then have "bit (PTE_FLAGS (child_pte e)) 8" by (simp add: flag_simps bit_cow_pte)
    moreover have "\<not> bit PTE_V 8" by (simp add: flag_simps)
    ultimately show ?thesis by metis
  qed (use assms(2) in \<open>simp add: PTE_FLAGS_cow_pte\<close>)
qed

text \<open>
  \<open>shared old new ko k s0 s\<close>: from \<open>s0\<close> to \<open>s\<close>, the first \<open>ko\<close> pages of the parent became
  copy-on-write, the first \<open>k\<close> physical pages got one more reference each, the child's table
  got new pages, and nothing else was written.
\<close>

definition shared :: "u64 \<Rightarrow> u64 \<Rightarrow> nat \<Rightarrow> nat \<Rightarrow> 'a kmem_scheme \<Rightarrow> 'a kmem_scheme \<Rightarrow> bool" where
  "shared old new ko k s0 s \<longleftrightarrow>
     kmem_ok s \<and> kend s = kend s0 \<and> kmem.more s = kmem.more s0 \<and> owned s 2 old \<and> owned s 2 new \<and>
     pages_of s old = pages_of s0 old \<and> pages_of s0 new \<subseteq> pages_of s new \<and>
     pages_of s old \<inter> pages_of s new = {} \<and>
     (\<forall>va < SV39. pte_of s old va =
       (if pgno va < ko then cow_pte (pte_of s0 old va) else pte_of s0 old va)) \<and>
     (\<forall>p \<in> pages_of s new - pages_of s0 new. kpage s0 p \<and> refs s0 p = 0 \<and> refs s p = 1) \<and>
     (\<forall>p. kpage s0 p \<and> p \<notin> pages_of s new - pages_of s0 new \<longrightarrow>
        refs s p = refs s0 p + uses (upage s0 old 0) k p) \<and>
     agree_on (- (pages_of s old \<union> pages_of s new)) (mem s0) (mem s)"

definition child_ptes :: "u64 \<Rightarrow> u64 \<Rightarrow> nat \<Rightarrow> 'a kmem_scheme \<Rightarrow> 'a kmem_scheme \<Rightarrow> bool" where
  "child_ptes old new k s0 s \<longleftrightarrow> (\<forall>va < SV39. pte_of s new va =
     (if pgno va < k then child_pte (pte_of s0 old va) else pte_of s0 new va))"

text \<open>
  What \<open>fork\<close> calls \<open>uvmcopy\<close> with: two disjoint tables; the first \<open>n\<close> pages of the parent
  are mapped to referenced pages that are not table pages, those of the child are unmapped.
\<close>

definition forkable :: "u64 \<Rightarrow> u64 \<Rightarrow> nat \<Rightarrow> 'a kmem_scheme \<Rightarrow> bool" where
  "forkable old new n s \<longleftrightarrow>
     kmem_ok s \<and> owned s 2 old \<and> owned s 2 new \<and> pages_of s old \<inter> pages_of s new = {} \<and>
     n * 4096 \<le> 0x4000000000 \<and>
     (\<forall>k < n. let e = pte_of s old (page_at 0 k) in
        bit e 0 \<and> PTE_FLAGS e \<noteq> PTE_V \<and> kpage s (PTE2PA e) \<and> 0 < refs s (PTE2PA e) \<and>
        PTE2PA e \<notin> pages_of s old \<and> PTE2PA e \<notin> pages_of s new \<and>
        \<not> bit (pte_of s new (page_at 0 k)) 0)"

lemma sharedD:
  assumes "shared old new ko k s0 s"
  shows "kmem_ok s" and "owned s 2 old" and "owned s 2 new" and "pages_of s old \<inter> pages_of s new = {}"
    and "va < SV39 \<Longrightarrow> pte_of s old va =
       (if pgno va < ko then cow_pte (pte_of s0 old va) else pte_of s0 old va)"
    and "kpage s = kpage s0"
  using assms by (auto simp: shared_def kpage_def fun_eq_iff)

lemma forkableD:
  assumes "forkable old new n s"
  shows "kmem_ok s" and "owned s 2 old" and "owned s 2 new" and "pages_of s old \<inter> pages_of s new = {}"
    and "n * 4096 \<le> 0x4000000000"
    and "k < n \<Longrightarrow> bit (pte_of s old (page_at 0 k)) 0"
    and "k < n \<Longrightarrow> PTE_FLAGS (pte_of s old (page_at 0 k)) \<noteq> PTE_V"
    and "k < n \<Longrightarrow> kpage s (upage s old 0 k)" and "k < n \<Longrightarrow> 0 < refs s (upage s old 0 k)"
    and "k < n \<Longrightarrow> upage s old 0 k \<notin> pages_of s old" and "k < n \<Longrightarrow> upage s old 0 k \<notin> pages_of s new"
    and "k < n \<Longrightarrow> \<not> bit (pte_of s new (page_at 0 k)) 0"
  using assms unfolding forkable_def Let_def by blast+

lemma shared_refl:
  assumes "forkable old new n s"
  shows "shared old new 0 0 s s" and "child_ptes old new 0 s s"
  using forkableD(1-4) [OF assms] by (simp_all add: shared_def child_ptes_def)

lemma shared_grow:
  assumes sh: "shared old new ko k s0 s1" and g: "tbl_grown s1 new N s2" and ok0: "kmem_ok s0"
  shows "shared old new ko k s0 s2"
proof -
  note d = sharedD [OF sh]
  note ot = other_table [OF g d(2,4)]
  have gr: "grown s1 (pages_of s1 new) N s2" and pg: "pages_of s2 new = pages_of s1 new \<union> N"
    and o2: "owned s2 2 new" using g by (auto simp: tbl_grown_def)
  have N: "kpage s0 p \<and> refs s1 p = 0 \<and> refs s2 p = 1 \<and> p \<notin> pages_of s1 new" if "p \<in> N" for p
    using gr that d(6) ownedD(3) [OF d(3), of p] by (auto simp: grown_def)
  have r1: "refs s1 p = refs s0 p + uses (upage s0 old 0) k p"
    if "kpage s0 p" "p \<notin> pages_of s1 new - pages_of s0 new" for p
    using sh that unfolding shared_def by blast
  have N0: "refs s0 p = 0" if "p \<in> N" for p
  proof -
    have "refs s0 p + uses (upage s0 old 0) k p = 0" "0 \<le> refs s0 p"
      using N [OF that] r1 [of p] refs_nonneg [OF ok0, of p] by simp_all
    then show ?thesis using uses_nonneg [of "upage s0 old 0" k p] by linarith
  qed
  have old: "pages_of s2 old = pages_of s1 old" by (rule ot)
  have "refs s2 p = refs s0 p + uses (upage s0 old 0) k p"
    if "kpage s0 p" "p \<notin> pages_of s2 new - pages_of s0 new" for p
  proof -
    have "p \<notin> N" using that N sh by (auto simp: pg shared_def)
    then have "refs s2 p = refs s1 p" using gr that(1) d(6) by (auto simp: grown_def)
    then show ?thesis using that r1 [of p] \<open>p \<notin> N\<close> by (simp add: pg)
  qed
  moreover have "kpage s0 p \<and> refs s0 p = 0 \<and> refs s2 p = 1" if "p \<in> pages_of s2 new - pages_of s0 new" for p
  proof (cases "p \<in> N")
    case False
    with that have p: "p \<in> pages_of s1 new - pages_of s0 new" by (auto simp: pg)
    then have "kpage s0 p \<and> refs s0 p = 0 \<and> refs s1 p = 1" using sh by (auto simp: shared_def)
    then show ?thesis using grown_pos [OF gr, of p] d(6) by simp
  qed (use N N0 in auto)
  moreover have "agree_on (- (pages_of s2 old \<union> pages_of s2 new)) (mem s0) (mem s2)"
  proof (rule agree_on_trans)
    show "agree_on (- (pages_of s2 old \<union> pages_of s2 new)) (mem s0) (mem s1)"
      using sh by (auto simp: shared_def old pg elim!: agree_on_subset)
    show "agree_on (- (pages_of s2 old \<union> pages_of s2 new)) (mem s1) (mem s2)"
      using gr by (auto simp: grown_def pg elim!: agree_on_subset)
  qed
  moreover have "kend s2 = kend s0 \<and> kmem.more s2 = kmem.more s0 \<and> kmem_ok s2"
    using sh gr by (simp add: shared_def grown_def)
  moreover have "pages_of s0 new \<subseteq> pages_of s2 new" "pages_of s2 old = pages_of s0 old"
    using sh by (auto simp: shared_def pg old)
  ultimately show ?thesis
    using ot(1,4) o2 d(5) by (simp add: shared_def ot(3))
qed

lemma leaf_page:
  assumes "pgno va = pgno va'"
  shows "leaf m l pt va = leaf m l pt va'"
proof -
  have "lookup m l pt va = lookup m l pt va'" for l
    using PX_pgno [OF assms] by (induction l arbitrary: pt) (simp_all add: Let_def)
  then show ?thesis using PX_pgno [OF assms] by (simp add: leaf_def split: option.split)
qed

text \<open>The parent's entry is made copy-on-write.\<close>

lemma shared_cow:
  assumes sh: "shared old new k j s0 s" and va: "va < MAXVA" "pgno va = k"
    and l: "lookup (mem s) 2 old va = Some l"
  defines "s1 \<equiv> s\<lparr>mem := st64 (mem s) (slot (mem s) 2 old va) (cow_pte (pte_of s old va))\<rparr>"
  shows "shared old new (Suc k) j s0 s1" and "pte_of s1 new va' = pte_of s new va'"
    and "pages_of s1 new = pages_of s new"
proof -
  note d = sharedD [OF sh]
  note st = store_pte [OF d(1,2) l va(1), where v = "cow_pte (pte_of s old va)", folded s1_def]
  have d': "pages_of s new \<inter> pages_of s old = {}" using d(4) by blast
  note ot = other_table [OF st(1) d(3) d']
  show "pte_of s1 new va' = pte_of s new va'" "pages_of s1 new = pages_of s new" by (rule ot)+
  have g: "owned s1 2 old" "pages_of s1 old = pages_of s old" "grown s (pages_of s old) {} s1"
    using st(1) by (simp_all add: tbl_grown_def)
  have "pte_of s1 old va' = (if pgno va' < Suc k then cow_pte (pte_of s0 old va') else pte_of s0 old va')"
    if "va' < SV39" for va'
  proof -
    have "PGROUNDDOWN va' = PGROUNDDOWN va \<longleftrightarrow> pgno va' = k"
      using va(2) by (simp add: word_unat_eq_iff unat_PGROUNDDOWN)
    moreover have "pte_of s old va = pte_of s0 old va" using d(5) [OF maxva_sv39 [OF va(1)]] va(2) by simp
    moreover have "pte_of s0 old va' = pte_of s0 old va" if "pgno va' = k"
      using leaf_page [of va' va] that va(2) by simp
    ultimately show ?thesis
      using st(3) [OF that] d(5) [OF that] by (auto simp: s1_def less_Suc_eq)
  qed
  moreover have "refs s1 p = refs s p" for p by (simp add: s1_def)
  moreover have "agree_on (- (pages_of s1 old \<union> pages_of s1 new)) (mem s0) (mem s1)"
  proof (rule agree_on_trans)
    show "agree_on (- (pages_of s1 old \<union> pages_of s1 new)) (mem s0) (mem s)"
      using sh unfolding shared_def ot(2) g(2) by blast
    show "agree_on (- (pages_of s1 old \<union> pages_of s1 new)) (mem s) (mem s1)"
      using g(3) by (auto simp: grown_def g(2) elim!: agree_on_subset)
  qed
  moreover have "kmem_ok s1 \<and> kend s1 = kend s0 \<and> kmem.more s1 = kmem.more s0"
    using g(3) sh by (simp add: grown_def shared_def)
  ultimately show "shared old new (Suc k) j s0 s1"
    using sh ot(1,4) g by (simp add: shared_def ot(2) Int_commute)
qed

text \<open>The physical page gets one more reference.\<close>

lemma shared_ref:
  assumes fk: "forkable old new n s0" and k: "k < n" and sh: "shared old new ko k s0 s"
  shows "\<exists>s'. increase_pgreference (upage s0 old 0 k) s = Ret s' \<and> mem s' = mem s \<and>
    shared old new ko (Suc k) s0 s' \<and> nfree s' = nfree s"
proof -
  let ?p = "upage s0 old 0 k"
  note d = sharedD [OF sh] and f = forkableD [OF fk]
  have p: "kpage s ?p" "pg_aligned ?p" using f(8) [OF k] d(6) by (auto simp: kpage_def)
  have nD: "?p \<notin> pages_of s new - pages_of s0 new" using sh f(9) [OF k] by (auto simp: shared_def)
  then have r: "refs s ?p = refs s0 ?p + uses (upage s0 old 0) k ?p"
    using sh f(8) [OF k] unfolding shared_def by blast
  then have pos: "0 < refs s ?p" using f(9) [OF k] uses_nonneg [of "upage s0 old 0" k ?p] by linarith
  let ?s' = "set_refs ?p (refs s ?p + 1) s"
  have m: "mem ?s' = mem s" and mo: "kmem.more ?s' = kmem.more s" by (simp_all add: set_refs_def)
  have ok: "kmem_ok ?s'"
  proof -
    obtain fl where "kmem_inv s fl" using d(1) by (auto simp: kmem_ok_def)
    from kmem_inv_set_refs [OF this p(2), of "refs s ?p + 1"] show ?thesis
      using pos by (auto simp: kmem_ok_def)
  qed
  have rf: "refs ?s' q = (if q = ?p then refs s ?p + 1 else refs s q)" if "kpage s0 q" for q
    using that p(2) by (simp add: refs_states kpage_def)
  have tb: "?p \<notin> pages_of s old" "?p \<notin> pages_of s new"
    using f(10,11) [OF k] nD sh by (auto simp: shared_def)
  have ow: "owned ?s' 2 old" "owned ?s' 2 new"
    using d(2,3) tb rf unfolding owned_def m by (auto simp: d(6))
  have "refs ?s' q = refs s0 q + uses (upage s0 old 0) (Suc k) q"
    if "kpage s0 q" "q \<notin> pages_of s new - pages_of s0 new" for q
    using that sh rf [OF that(1)] by (auto simp: shared_def uses_Suc)
  moreover have "kpage s0 q \<and> refs s0 q = 0 \<and> refs ?s' q = 1" if "q \<in> pages_of s new - pages_of s0 new" for q
    using that sh rf [of q] nD by (auto simp: shared_def)
  ultimately have "shared old new ko (Suc k) s0 ?s'"
    using sh ok ow unfolding shared_def m mo kend_states by blast
  moreover have "increase_pgreference ?p s = Ret ?s'"
    using p pos by (simp add: increase_pgreference_eq)
  moreover have "{q. kpage s q \<and> refs ?s' q = 0} = {q. kpage s q \<and> refs s q = 0}"
    using rf pos d(6) by (auto split: if_splits)
  then have "nfree ?s' = nfree s" by (simp add: nfree_def)
  ultimately show ?thesis using m by blast
qed

text \<open>One iteration: the loop goes on, or it has failed and cleans up.\<close>

lemma uvmcopy_step:
  assumes fk: "forkable old new n s0" and k: "k < n" and lt: "page_at 0 k < sz"
    and sh: "shared old new k k s0 s" and ch: "child_ptes old new k s0 s"
  shows "(\<exists>s'. uvmcopy_loop old new (page_at 0 k) sz s = uvmcopy_loop old new (page_at 0 (Suc k)) sz s' \<and>
      shared old new (Suc k) (Suc k) s0 s' \<and> child_ptes old new (Suc k) s0 s' \<and> nfree s \<le> nfree s' + 2) \<or>
    (\<exists>s'. uvmcopy_loop old new (page_at 0 k) sz s =
        bindR (uvmunmap new 0 (page_at 0 k div PGSIZE) True s') (\<lambda>s. Ret (-1, s)) \<and>
      shared old new (Suc k) k s0 s' \<and> child_ptes old new k s0 s' \<and> nfree s < 2)"
proof -
  let ?i = "page_at 0 k" and ?e = "pte_of s0 old (page_at 0 k)"
  note f = forkableD [OF fk] and d = sharedD [OF sh]
  have b: "unat (0 :: u64) + n * 4096 \<le> 0x4000000000" "pg_aligned 0" using f(5) by (simp_all add: pg_aligned_def)
  note i = page_at_props [OF b k]
  have pk: "pgno ?i = k" using i(4) by (simp add: pgno_def)
  have e: "pte_of s old ?i = ?e" using d(5) [OF maxva_sv39 [OF i(2)]] pk by simp
  obtain l where l: "lookup (mem s) 2 old ?i = Some l"
    using leaf_lookup [of "mem s" 2 old ?i] f(6) [OF k] e by fastforce
  let ?fl = "PTE_FLAGS (cow_pte ?e)"
  define s1 where "s1 = (if bit ?e 2 then s\<lparr>mem := st64 (mem s) (slot (mem s) 2 old ?i) (cow_pte ?e)\<rparr> else s)"
  have s1: "shared old new (Suc k) k s0 s1" "\<And>va. pte_of s1 new va = pte_of s new va"
  proof -
    note c = shared_cow [OF sh i(2) pk l, unfolded e]
    have same: "shared old new (Suc k) k s0 s" if "\<not> bit ?e 2"
    proof -
      have "cow_pte (pte_of s0 old va) = pte_of s0 old va" if "pgno va = k" for va
        using leaf_page [of va ?i "mem s0" 2 old] that pk \<open>\<not> bit ?e 2\<close> by (simp add: cow_pte_def)
      then show ?thesis using sh by (auto simp: shared_def less_Suc_eq)
    qed
    show "shared old new (Suc k) k s0 s1" using c(1) same by (simp add: s1_def)
    show "pte_of s1 new va = pte_of s new va" for va using c(2) by (simp add: s1_def)
  qed
  note d1 = sharedD [OF s1(1)]
  have new_i: "\<not> bit (pte_of s1 new ?i) 0"
    using ch f(12) [OF k] i(2) pk by (simp add: s1(2) child_ptes_def)
  have step: "uvmcopy_loop old new ?i sz s =
      bindR (mappages new ?i PGSIZE (PTE2PA ?e) ?fl s1) (\<lambda>(r, s).
        if r \<noteq> 0 then bindR (uvmunmap new 0 (?i div PGSIZE) True s) (\<lambda>s. Ret (-1, s))
        else bindR (increase_pgreference (PTE2PA ?e) s) (uvmcopy_loop old new (?i + PGSIZE) sz))"
    using lt f(6) [OF k] slot_not_0 [OF ownedD(1) [OF d(2)] l]
    by (subst uvmcopy_loop.simps)
      (simp add: walk_exists [OF l i(2)] ld64_slot [OF l] e flag_simps s1_def cow_pte_def PTE_FLAGS_cow_pte
        Let_def)
  obtain r s2 N where mp: "mappages new ?i PGSIZE (PTE2PA ?e) ?fl s1 = Ret (r, s2)"
      and g: "tbl_grown s1 new N s2"
      and nf: "nfree s1 \<le> nfree s2 + 2" "r = -1 \<longrightarrow> nfree s1 < 2"
      and cases: "r = -1 \<and> (\<forall>va'. pte_of s2 new va' = pte_of s1 new va') \<or>
       r = 0 \<and> (\<forall>va' < SV39. pte_of s2 new va' =
         (if PGROUNDDOWN va' = ?i then PA2PTE (PTE2PA ?e) OR ?fl OR PTE_V else pte_of s1 new va'))"
    using mappages_page [OF d1(1,3) i(2,3) new_i] by blast
  have nf1: "nfree s1 = nfree s" by (simp add: s1_def nfree_def)
  have sh2: "shared old new (Suc k) k s0 s2" by (rule shared_grow [OF s1(1) g f(1)])
  from cases show ?thesis
  proof
    assume *: "r = -1 \<and> (\<forall>va'. pte_of s2 new va' = pte_of s1 new va')"
    then have "child_ptes old new k s0 s2" using ch by (simp add: child_ptes_def s1(2))
    with * sh2 nf(2) nf1 show ?thesis by (simp add: step mp) blast
  next
    assume *: "r = 0 \<and> (\<forall>va' < SV39. pte_of s2 new va' =
         (if PGROUNDDOWN va' = ?i then PA2PTE (PTE2PA ?e) OR ?fl OR PTE_V else pte_of s1 new va'))"
    obtain s3 where s3: "increase_pgreference (PTE2PA ?e) s2 = Ret s3" "mem s3 = mem s2"
        "shared old new (Suc k) (Suc k) s0 s3" "nfree s3 = nfree s2"
      using shared_ref [OF fk k sh2] by blast
    have "?fl OR PTE_V = ?fl"
    proof (rule bit_eqI)
      fix j
      show "bit (?fl OR PTE_V) j \<longleftrightarrow> bit ?fl j"
        using f(6) [OF k] by (cases "j = 0") (simp_all add: bit_simps flag_simps bit_cow_pte)
    qed
    then have ce: "PA2PTE (PTE2PA ?e) OR ?fl OR PTE_V = child_pte ?e" by (simp add: child_pte_def)
    have "pte_of s3 new va = (if pgno va < Suc k then child_pte (pte_of s0 old va) else pte_of s0 new va)"
      if "va < SV39" for va
      using * ch that leaf_page [of va ?i "mem s0" 2 old] pk
      by (simp add: s3(2) s1(2) child_ptes_def pgno_page [OF i(3)] ce less_Suc_eq)
    then have "child_ptes old new (Suc k) s0 s3" by (simp add: child_ptes_def)
    moreover have "?i + PGSIZE = page_at 0 (Suc k)" by (simp add: page_at_def algebra_simps)
    moreover have "nfree s \<le> nfree s3 + 2" using nf(1) nf1 s3(4) by simp
    ultimately show ?thesis using * s3(1,3) by (intro disjI1 exI [of _ s3]) (simp add: step mp)
  qed
qed

section \<open>Failure half way\<close>

text \<open>
  What is left when the child's table could not be extended: the child maps none of the
  pages, every page has as many references as before, and no referenced page outside the
  tables has changed. The parent keeps all its pages; some are marked copy-on-write.
\<close>

definition fork_failed :: "u64 \<Rightarrow> u64 \<Rightarrow> nat \<Rightarrow> 'a kmem_scheme \<Rightarrow> 'a kmem_scheme \<Rightarrow> bool" where
  "fork_failed old new n s0 s \<longleftrightarrow>
     kmem_ok s \<and> kend s = kend s0 \<and> kmem.more s = kmem.more s0 \<and> owned s 2 old \<and> owned s 2 new \<and>
     pages_of s old = pages_of s0 old \<and> pages_of s old \<inter> pages_of s new = {} \<and>
     pages_of s0 new \<subseteq> pages_of s new \<and>
     (\<forall>p \<in> pages_of s new - pages_of s0 new. kpage s0 p \<and> refs s0 p = 0 \<and> refs s p = 1) \<and>
     (\<exists>k \<le> n. \<forall>va < SV39. pte_of s old va =
       (if pgno va < k then cow_pte (pte_of s0 old va) else pte_of s0 old va)) \<and>
     (\<forall>va < SV39. if pgno va < n then \<not> bit (pte_of s new va) 0 else pte_of s new va = pte_of s0 new va) \<and>
     (\<forall>p. kpage s0 p \<and> p \<notin> pages_of s new - pages_of s0 new \<longrightarrow> refs s p = refs s0 p) \<and>
     agree_on {p. p \<notin> pages_of s old \<and> p \<notin> pages_of s new \<and> (kpage s0 p \<longrightarrow> 0 < refs s0 p)} (mem s0) (mem s)"

lemma pages_upto:
  assumes "n * 4096 \<le> 0x4000000000" and "k \<le> n"
  shows "unat (page_at 0 k) = k * 4096"
proof -
  have "k * 4096 \<le> n * 4096" using assms(2) by (rule mult_right_mono) simp
  then have "k * 4096 \<le> 0x4000000000" using assms(1) by linarith
  then show ?thesis by (simp add: page_at_def unat_word_ariths unat_of_nat_u64)
qed

lemma uvmunmap_first:
  assumes "k * 4096 \<le> 0x4000000000"
  shows "uvmunmap pt 0 (page_at 0 k div PGSIZE) do_free s = uvmunmap_loop pt 0 (page_at 0 k) do_free s"
proof -
  have "page_at 0 k div PGSIZE = of_nat k"
    using pages_upto [OF assms order_refl] assms
    by (simp add: word_unat_eq_iff unat_div_distrib unat_of_nat_u64)
  then show ?thesis by (simp add: uvmunmap_def page_at_def)
qed

lemma unmapped_keeps:
  assumes "unmapped s pt F n s'" and "Q \<inter> pages_of s pt = {}" and "\<And>p. p \<in> Q \<Longrightarrow> kpage s p \<Longrightarrow> 0 < refs s' p"
  shows "agree_on Q (mem s) (mem s')"
proof -
  have "Q \<subseteq> {p. p \<notin> pages_of s pt \<and> \<not> (kpage s p \<and> refs s' p = 0)}"
    using assms(2,3) by fastforce
  then show ?thesis using assms(1) by (auto simp: unmapped_def elim!: agree_on_subset)
qed

lemma uvmcopy_cleanup:
  assumes fk: "forkable old new n s0" and k: "k < n"
    and sh: "shared old new (Suc k) k s0 s" and ch: "child_ptes old new k s0 s"
  shows "\<exists>s'. uvmunmap new 0 (page_at 0 k div PGSIZE) True s = Ret s' \<and> fork_failed old new n s0 s'"
proof -
  note f = forkableD [OF fk] and d = sharedD [OF sh]
  have kb: "k * 4096 \<le> 0x4000000000"
    using f(5) k mult_right_mono [of k n 4096] by simp
  have al0: "pg_aligned 0" by (simp add: pg_aligned_def)
  have b: "unat (0 :: u64) + n * 4096 \<le> 0x4000000000" using f(5) by simp
  note pp = page_at_props [OF b al0]
  have pg: "pgno (page_at 0 j) = j" if "j < n" for j using pp(4) [OF that] by (simp add: pgno_def)
  have e: "pte_of s new (page_at 0 j) = child_pte (pte_of s0 old (page_at 0 j))" if "j < k" for j
    using ch that k pp(2) [of j] pg [of j] by (simp add: child_ptes_def)
  have D: "refs s0 p = 0" if "p \<in> pages_of s new - pages_of s0 new" for p
    using sh that unfolding shared_def by blast
  have up: "upage s0 old 0 j \<notin> pages_of s new - pages_of s0 new" if "j < n" for j
    using D f(9) [OF that] by fastforce
  have us: "uses (upage s new 0) k p = uses (upage s0 old 0) k p" for p
    by (rule uses_cong) (simp add: e)
  have us0: "uses (upage s0 old 0) k p = 0" if "\<And>j. j < n \<Longrightarrow> upage s0 old 0 j \<noteq> p" for p
    unfolding uses_def using that k by (intro sum.neutral) auto
  have r: "refs s p = refs s0 p + uses (upage s0 old 0) k p"
    if "kpage s0 p" "p \<notin> pages_of s new - pages_of s0 new" for p
    using sh that unfolding shared_def by blast
  have le: "uses (upage s new 0) k p \<le> refs s p" if "kpage s p" for p
  proof (cases "p \<in> pages_of s new - pages_of s0 new")
    case True
    then show ?thesis using us0 [of p] up refs_nonneg [OF d(1) that] by (metis us)
  next
    case False
    then show ?thesis using r [of p] that d(6) refs_nonneg [OF f(1), of p] by (simp add: us)
  qed
  have "\<exists>s'. uvmunmap_loop new 0 (page_at 0 k) True s = Ret s' \<and> unmapped s new (upage s new 0) k s' \<and>
      (\<forall>va < SV39. pte_of s' new va =
        (if pgno 0 \<le> pgno va \<and> pgno va < pgno 0 + k then 0 else pte_of s new va))"
  proof (rule uvmunmap_loop_pages [OF d(1,3) al0])
    show "bit (pte_of s new (page_at 0 j)) 0 \<and> PTE_FLAGS (pte_of s new (page_at 0 j)) \<noteq> PTE_V \<and>
        kpage s (upage s new 0 j) \<and> upage s new 0 j \<notin> pages_of s new" if "j < k" for j
      using child_pte_leaf [OF f(6,7)] f(8,11) [of j] up [of j] that k d(6) by (simp add: e)
  qed (use kb le in simp_all)
  then obtain s' where u: "uvmunmap_loop new 0 (page_at 0 k) True s = Ret s'" "unmapped s new (upage s new 0) k s'"
    and pt: "\<And>va. va < SV39 \<Longrightarrow> pte_of s' new va = (if pgno va < k then 0 else pte_of s new va)"
    by (auto simp: pgno_def)
  have r': "refs s' p = refs s p - uses (upage s0 old 0) k p" if "kpage s0 p" for p
    using u(2) that d(6) us by (simp add: unmapped_def)
  have op: "refs s' p = refs s p \<and> 0 < refs s p \<and> kpage s0 p" if "p \<in> pages_of s old" for p
    using r' [of p] us0 [of p] f(10) ownedD(2,3) [OF d(2) that] that sh d(6)
    by (auto simp: shared_def)
  have "agree_on (pages_of s old) (mem s) (mem s')"
    using op d(4) by (intro unmapped_keeps [OF u(2)]) auto
  note ta = table_agree [OF this ownedD(1) [OF d(2)]]
  have "owned s' 2 old" using ta(1,2) op unmapped_kpage [OF u(2)] d(6) by (auto simp: owned_def)
  moreover have pgs: "pages_of s' new = pages_of s new" and fr: "kmem_ok s'" "kend s' = kend s"
      "kmem.more s' = kmem.more s" "owned s' 2 new"
    using u(2) by (simp_all add: unmapped_def)
  moreover have "\<exists>j \<le> n. \<forall>va < SV39. pte_of s' old va =
      (if pgno va < j then cow_pte (pte_of s0 old va) else pte_of s0 old va)"
    using k d(5) by (intro exI [of _ "Suc k"]) (simp add: ta(4))
  moreover have "if pgno va < n then \<not> bit (pte_of s' new va) 0 else pte_of s' new va = pte_of s0 new va"
    if "va < SV39" for va
    using pt [OF that] ch that f(12) [of "pgno va"] leaf_page [of va "page_at 0 (pgno va)" "mem s0" 2 new]
      pg [of "pgno va"] k by (auto simp: child_ptes_def)
  moreover have "refs s' p = refs s0 p" if "kpage s0 p" "p \<notin> pages_of s new - pages_of s0 new" for p
    using r [OF that] r' [OF that(1)] by simp
  moreover have "pages_of s0 new \<subseteq> pages_of s new" using sh by (simp add: shared_def)
  moreover have "kpage s0 p \<and> refs s0 p = 0 \<and> refs s' p = 1" if p: "p \<in> pages_of s new - pages_of s0 new" for p
  proof -
    have "kpage s0 p" "refs s0 p = 0" "refs s p = 1" using sh p unfolding shared_def by blast+
    moreover have "uses (upage s0 old 0) k p = 0" using p up by (intro us0) auto
    ultimately show ?thesis using r' by simp
  qed
  moreover have "agree_on {p. p \<notin> pages_of s old \<and> p \<notin> pages_of s new \<and> (kpage s0 p \<longrightarrow> 0 < refs s0 p)} (mem s0) (mem s')"
  proof (rule agree_on_trans)
    let ?Q = "{p. p \<notin> pages_of s old \<and> p \<notin> pages_of s new \<and> (kpage s0 p \<longrightarrow> 0 < refs s0 p)}"
    show "agree_on ?Q (mem s0) (mem s)" using sh by (auto simp: shared_def elim!: agree_on_subset)
    have "refs s' p = refs s0 p" if "p \<in> ?Q" "kpage s0 p" for p using that r [of p] r' [of p] by simp
    then show "agree_on ?Q (mem s) (mem s')"
      using d(6) by (intro unmapped_keeps [OF u(2)]) auto
  qed
  moreover have "kend s = kend s0" "kmem.more s = kmem.more s0" "pages_of s old = pages_of s0 old"
    using sh by (simp_all add: shared_def)
  ultimately have "fork_failed old new n s0 s'"
    using d(4) unfolding fork_failed_def pgs ta(1) by (intro conjI) (simp_all split: if_splits)
  then show ?thesis using u(1) by (simp add: uvmunmap_first [OF kb])
qed

section \<open>Fork shares, the first write separates\<close>

text \<open>The pages of a process of \<open>sz\<close> bytes.\<close>

definition npages :: "u64 \<Rightarrow> nat" where
  "npages sz = (unat sz + 4095) div 4096"

lemma npages_iff: "k < npages sz \<longleftrightarrow> k * 4096 < unat sz"
  by (auto simp: npages_def less_eq_div_iff_mult_less_eq Suc_le_eq [symmetric] div_le_dividend)

lemma uvmcopy_loop_spec:
  assumes "forkable old new (npages sz) s0" and "k \<le> npages sz"
    and "shared old new k k s0 s" and "child_ptes old new k s0 s"
  shows "\<exists>r s'. uvmcopy_loop old new (page_at 0 k) sz s = Ret (r, s') \<and>
    (r = 0 \<and> shared old new (npages sz) (npages sz) s0 s' \<and> child_ptes old new (npages sz) s0 s' \<or>
     r = -1 \<and> fork_failed old new (npages sz) s0 s')"
  using assms(2-)
proof (induction "npages sz - k" arbitrary: k s rule: less_induct)
  case less
  have lt: "page_at 0 k < sz \<longleftrightarrow> k < npages sz"
    using pages_upto [OF forkableD(5) [OF assms(1)] less.prems(1)] by (simp add: npages_iff word_less_nat_alt)
  show ?case
  proof (cases "k < npages sz")
    case False
    then have "k = npages sz" using less.prems(1) by simp
    moreover have "uvmcopy_loop old new (page_at 0 k) sz s = Ret (0, s)"
      using False lt by (subst uvmcopy_loop.simps) simp
    ultimately show ?thesis using less.prems by blast
  next
    case True
    from uvmcopy_step [OF assms(1) True _ less.prems(2,3), of sz] lt True
    consider s' where "uvmcopy_loop old new (page_at 0 k) sz s = uvmcopy_loop old new (page_at 0 (Suc k)) sz s'"
        "shared old new (Suc k) (Suc k) s0 s'" "child_ptes old new (Suc k) s0 s'"
      | s' where "uvmcopy_loop old new (page_at 0 k) sz s =
          bindR (uvmunmap new 0 (page_at 0 k div PGSIZE) True s') (\<lambda>s. Ret (-1, s))"
        "shared old new (Suc k) k s0 s'" "child_ptes old new k s0 s'" by blast
    then show ?thesis
    proof cases
      case 1
      then show ?thesis using less.hyps [of "Suc k" s'] True by simp
    next
      case 2
      obtain s'' where "uvmunmap new 0 (page_at 0 k div PGSIZE) True s' = Ret s''"
          "fork_failed old new (npages sz) s0 s''"
        using uvmcopy_cleanup [OF assms(1) True 2(2,3)] by blast
      then show ?thesis using 2(1) by simp
    qed
  qed
qed

lemma uvmcopy_spec:
  assumes "forkable old new (npages sz) s"
  shows "\<exists>r s'. uvmcopy old new sz s = Ret (r, s') \<and>
    (r = 0 \<and> shared old new (npages sz) (npages sz) s s' \<and> child_ptes old new (npages sz) s s' \<or>
     r = -1 \<and> fork_failed old new (npages sz) s s')"
  using uvmcopy_loop_spec [OF assms le0 shared_refl [OF assms]] by (simp add: uvmcopy_def)

lemma uvmcopy_loop_enough:
  assumes "forkable old new (npages sz) s0" and "k \<le> npages sz"
    and "shared old new k k s0 s" and "child_ptes old new k s0 s" and "2 * (npages sz - k) \<le> nfree s"
  shows "\<exists>s'. uvmcopy_loop old new (page_at 0 k) sz s = Ret (0, s') \<and>
    nfree s \<le> nfree s' + 2 * (npages sz - k)"
  using assms(2-)
proof (induction "npages sz - k" arbitrary: k s)
  case 0
  then have "\<not> page_at 0 k < sz"
    using pages_upto [OF forkableD(5) [OF assms(1)] 0(2)] by (simp add: word_less_nat_alt not_less npages_iff flip: not_less)
  then show ?case by (subst uvmcopy_loop.simps) simp
next
  case (Suc m)
  then have k: "k < npages sz" by simp
  then have "page_at 0 k < sz"
    using pages_upto [OF forkableD(5) [OF assms(1)] Suc(3)] by (simp add: npages_iff word_less_nat_alt)
  from uvmcopy_step [OF assms(1) k this Suc(4,5)] Suc(2,6) obtain s' where
    "uvmcopy_loop old new (page_at 0 k) sz s = uvmcopy_loop old new (page_at 0 (Suc k)) sz s'"
    "shared old new (Suc k) (Suc k) s0 s'" "child_ptes old new (Suc k) s0 s'" "nfree s \<le> nfree s' + 2"
    by auto
  moreover have "\<exists>s''. uvmcopy_loop old new (page_at 0 (Suc k)) sz s' = Ret (0, s'') \<and>
      nfree s' \<le> nfree s'' + 2 * (npages sz - Suc k)"
    using Suc(2,6) k calculation by (intro Suc(1)) auto
  ultimately show ?case using Suc(2) k by auto
qed

lemma uvmcopy_enough:
  assumes "forkable old new (npages sz) s" and "2 * npages sz \<le> nfree s"
  shows "\<exists>s'. uvmcopy old new sz s = Ret (0, s') \<and> nfree s \<le> nfree s' + 2 * npages sz"
  using uvmcopy_loop_enough [OF assms(1) le0 shared_refl [OF assms(1)]] assms(2)
  by (simp add: uvmcopy_def)

text \<open>
  C36 Fork succeeds when there is memory for the child's table: two free pages per page of the
  parent are always enough (one for each lower level of the table), and no more are used.
\<close>

theorem uvmcopy_enough_memory:
  assumes "forkable old new (npages sz) s" and "2 * npages sz \<le> nfree s"
  shows "\<exists>s'. uvmcopy old new sz s = Ret (0, s') \<and> nfree s \<le> nfree s' + 2 * npages sz"
  using assms by (rule uvmcopy_enough)

text \<open>
  C11 Fork copies no page. On the address spaces \<open>fork\<close> calls it with, \<open>uvmcopy\<close> returns
  (it does not panic). With result 0 the child maps the same physical pages as the parent,
  every writable page is read-only and marked copy-on-write in both, each page has one more
  reference per mapping, and no page outside the tables was written. With result -1 (no
  memory for the child's table) the child maps nothing and all counts are as before.
\<close>

theorem uvmcopy_correct:
  assumes "forkable old new (npages sz) s"
  shows "\<exists>r s'. uvmcopy old new sz s = Ret (r, s') \<and>
    (r = 0 \<and> shared old new (npages sz) (npages sz) s s' \<and> child_ptes old new (npages sz) s s' \<or>
     r = -1 \<and> fork_failed old new (npages sz) s s')"
  using assms by (rule uvmcopy_spec)

section \<open>The copy-on-write fault\<close>

lemma new_page:
  assumes "kmem_ok s" and "kalloc s = Ret (q, s1)" and "q \<noteq> 0" and "same_off_page q (mem s1) m'"
  shows "grown s {} {q} (s1\<lparr>mem := m'\<rparr>)" and "kpage s q" and "refs s q = 0"
    and "same_off_page q (mem s) (mem s1)"
proof -
  obtain fl where inv: "kmem_inv s fl" using assms(1) by (auto simp: kmem_ok_def)
  from inv assms(2) obtain fl' where s1: "s1 = alloc_state q s" and q: "kpage s q" "refs s q = 0"
    and fl: "fl = q # fl'"
    by (rule kalloc_cases) (use assms(3) in auto)
  have al: "pg_aligned q" using q by (simp add: kpage_def)
  show off: "same_off_page q (mem s) (mem s1)"
    using al by (simp add: s1 alloc_state_def same_off_page_memset)
  have "kmem_ok s1" using kmem_inv_alloc_state inv fl by (auto simp: s1 kmem_ok_def)
  then have "kmem_ok (s1\<lparr>mem := m'\<rparr>)"
    using al assms(4) by (intro kmem_ok_write [of s1 q]) (simp_all add: s1 refs_states)
  moreover have "agree_on (- ({} \<union> {q})) (mem s) m'"
    using off assms(4) by (auto simp: agree_on_def same_off_page_def)
  moreover have "refs s1 p = (if p = q then 1 else refs s p)" if "kpage s p" for p
    using that al by (simp add: s1 refs_states kpage_def)
  ultimately show "grown s {} {q} (s1\<lparr>mem := m'\<rparr>)"
    using q by (auto simp: grown_def) (simp_all add: s1 alloc_state_def)
  show "kpage s q" "refs s q = 0" by (rule q)+
qed

lemma memmove_page:
  assumes "pg_aligned d" and "pg_aligned p" and "unat d < 0x88000000" and "unat p < 0x88000000"
  shows "same_off_page d m (memmove m d p 4096)"
    and "PGROUNDDOWN x = d \<Longrightarrow> memmove m d p 4096 x = m (p + (x - d))"
proof -
  have eq: "memmove m d p 4096 = (\<lambda>x. if in_region d 4096 x then m (p + (x - d)) else m x)"
    using assms(3,4) by (intro memmove_eq) simp_all
  show "same_off_page d m (memmove m d p 4096)"
    unfolding eq using in_region_page [OF assms(1)] by (simp add: same_off_page_def)
  show "memmove m d p 4096 x = m (p + (x - d))" if "PGROUNDDOWN x = d"
    unfolding eq using that in_region_page [OF assms(1)] by simp
qed

lemma kpage_below: "kpage s p \<Longrightarrow> unat p < 0x88000000 \<and> pg_aligned p"
  by (simp add: kpage_def PHYSTOP_def word_less_nat_alt)

text \<open>
  \<open>separated pt va ka s s'\<close>: from \<open>s\<close> to \<open>s'\<close> the page at \<open>va\<close> was replaced by the free page
  \<open>ka\<close>, writable and no longer copy-on-write, with the same bytes; the old page lost one
  reference; no other entry changed, and no other page that still has a reference.
\<close>

definition separated :: "u64 \<Rightarrow> u64 \<Rightarrow> u64 \<Rightarrow> 'a kmem_scheme \<Rightarrow> 'a kmem_scheme \<Rightarrow> bool" where
  "separated pt va ka s s' \<longleftrightarrow>
     (let e = pte_of s pt va; pa = PTE2PA e in
      kmem_ok s' \<and> kend s' = kend s \<and> kmem.more s' = kmem.more s \<and> owned s' 2 pt \<and>
      pages_of s' pt = pages_of s pt \<and> kpage s ka \<and> refs s ka = 0 \<and> refs s' ka = 1 \<and>
      (\<forall>va' < SV39. pte_of s' pt va' =
        (if pgno va' = pgno va then PA2PTE ka OR ((PTE_FLAGS e AND NOT PTE_COW) OR PTE_W) OR PTE_V
         else pte_of s pt va')) \<and>
      (\<forall>x. PGROUNDDOWN x = ka \<longrightarrow> mem s' x = mem s (pa + (x - ka))) \<and>
      (\<forall>p. kpage s p \<and> p \<noteq> ka \<longrightarrow> refs s' p = refs s p - (if p = pa then 1 else 0)) \<and>
      agree_on {p. p \<notin> pages_of s pt \<and> p \<noteq> ka \<and> \<not> (kpage s p \<and> refs s' p = 0)} (mem s) (mem s'))"

definition cow_page :: "u64 \<Rightarrow> u64 \<Rightarrow> 'a kmem_scheme \<Rightarrow> bool" where
  "cow_page pt va s \<longleftrightarrow>
     (let e = pte_of s pt va in va < MAXVA \<and> pg_aligned va \<and> bit e 0 \<and> bit e 8 \<and>
      kpage s (PTE2PA e) \<and> 0 < refs s (PTE2PA e) \<and> PTE2PA e \<notin> pages_of s pt)"

lemma cow_pageD:
  assumes "cow_page pt va s"
  shows "va < MAXVA" and "pg_aligned va" and "bit (pte_of s pt va) 0" and "bit (pte_of s pt va) 8"
    and "kpage s (PTE2PA (pte_of s pt va))" and "0 < refs s (PTE2PA (pte_of s pt va))"
    and "PTE2PA (pte_of s pt va) \<notin> pages_of s pt"
  using assms by (simp_all add: cow_page_def Let_def)

text \<open>After the copy the entry is taken out, which drops one reference of the old page.\<close>

lemma cowalloc_unmap:
  assumes g: "grown s {} {q} s2" and o: "owned s 2 pt" and c: "cow_page pt va s" and ok: "kmem_ok s2"
  shows "\<exists>s3. uvmunmap pt va 1 True s2 = Ret s3 \<and> unmapped s2 pt (\<lambda>_. PTE2PA (pte_of s pt va)) 1 s3 \<and>
    owned s2 2 pt \<and> pages_of s2 pt = pages_of s pt \<and>
    (\<forall>va'. lookup (mem s3) 2 pt va' = lookup (mem s) 2 pt va') \<and>
    (\<forall>va' < SV39. pte_of s3 pt va' = (if pgno va' = pgno va then 0 else pte_of s pt va'))"
proof -
  let ?pa = "PTE2PA (pte_of s pt va)"
  note c = cow_pageD [OF c]
  have ag: "agree_on (pages_of s pt) (mem s) (mem s2)"
    using ownedD(2,3) [OF o] by (intro grown_agree [OF g]) auto
  note ta = table_agree [OF ag ownedD(1) [OF o]]
  have o2: "owned s2 2 pt"
    using ta(1) ownedD(2,3) [OF o] by (intro owned_grown [OF g ta(2), of "pages_of s pt"]) auto
  have r: "refs s2 ?pa = refs s ?pa" using grown_pos [OF g c(5,6)] by simp
  have kp: "kpage s2 = kpage s" by (rule grown_kpage [OF g])
  have b: "unat va + 1 * 4096 \<le> 0x4000000000"
  proof -
    obtain k where "unat va = k * 4096" using c(2) by (auto simp: pg_aligned_def)
    then show ?thesis using c(1) by (simp add: MAXVA_def word_less_nat_alt)
  qed
  have fl: "PTE_FLAGS (pte_of s pt va) \<noteq> PTE_V"
  proof -
    have "bit (PTE_FLAGS (pte_of s pt va)) 8" "\<not> bit PTE_V 8" using c(4) by (simp_all add: flag_simps)
    then show ?thesis by metis
  qed
  have us: "uses (upage s2 pt va) 1 p = uses (\<lambda>_. ?pa) 1 p" for p
    by (rule uses_cong) (simp add: ta(4))
  have "\<exists>s'. uvmunmap_loop pt va (page_at va 1) True s2 = Ret s' \<and> unmapped s2 pt (upage s2 pt va) 1 s' \<and>
      (\<forall>va' < SV39. pte_of s' pt va' =
        (if pgno va \<le> pgno va' \<and> pgno va' < pgno va + 1 then 0 else pte_of s2 pt va'))"
  proof (rule uvmunmap_loop_pages [OF ok o2 c(2) b])
    show "uses (upage s2 pt va) 1 p \<le> refs s2 p" if "kpage s2 p" for p
      using that r c(6) refs_nonneg [OF ok that] by (auto simp: us uses_def ta(4))
  qed (use c fl kp ta in simp)
  then obtain s3 where s3: "uvmunmap_loop pt va (page_at va 1) True s2 = Ret s3"
      "unmapped s2 pt (upage s2 pt va) 1 s3"
      "\<forall>va' < SV39. pte_of s3 pt va' =
        (if pgno va \<le> pgno va' \<and> pgno va' < pgno va + 1 then 0 else pte_of s2 pt va')" by blast
  have "unmapped s2 pt (\<lambda>_. ?pa) 1 s3" using s3(2) unfolding unmapped_def us .
  moreover have "uvmunmap pt va 1 True s2 = Ret s3"
    using s3(1) c(2) by (simp add: uvmunmap_def pg_aligned_iff_mod page_at_def)
  moreover have "\<forall>va'. lookup (mem s3) 2 pt va' = lookup (mem s) 2 pt va'"
    using s3(2) ta(3) by (simp add: unmapped_def)
  moreover have "pgno va \<le> pgno va' \<and> pgno va' < pgno va + 1 \<longleftrightarrow> pgno va' = pgno va" for va'
    by auto
  ultimately show ?thesis using s3(3) o2 ta(1,4) by simp
qed

lemma page_offset:
  assumes "pg_aligned p" and "PGROUNDDOWN x = q" and "pg_aligned q"
  shows "PGROUNDDOWN (p + (x - q)) = p"
  using in_region_page [OF assms(1), of "p + (x - q)"] in_region_page [OF assms(3), of x] assms(2)
  by (simp add: in_region_def)

lemma separatedI:
  assumes o: "owned s 2 pt" and cow: "cow_page pt va s" and g: "grown s {} {ka} s2"
    and u: "unmapped s2 pt (\<lambda>_. PTE2PA (pte_of s pt va)) 1 s3" and pg: "pages_of s2 pt = pages_of s pt"
    and t: "tbl_grown s3 pt {} s'" and ka: "kpage s ka" "refs s ka = 0"
    and bytes: "\<And>x. PGROUNDDOWN x = ka \<Longrightarrow> mem s2 x = mem s (PTE2PA (pte_of s pt va) + (x - ka))"
    and ptes: "\<And>va'. va' < SV39 \<Longrightarrow> pte_of s' pt va' = (if pgno va' = pgno va
      then PA2PTE ka OR ((PTE_FLAGS (pte_of s pt va) AND NOT PTE_COW) OR PTE_W) OR PTE_V else pte_of s pt va')"
  shows "separated pt va ka s s'"
proof -
  let ?pa = "PTE2PA (pte_of s pt va)"
  note c = cow_pageD [OF cow]
  have ne: "ka \<noteq> ?pa" using ka c(6) by auto
  have gr: "grown s3 (pages_of s pt) {} s'" and pg': "pages_of s' pt = pages_of s pt" and o': "owned s' 2 pt"
    using t u pg by (simp_all add: tbl_grown_def unmapped_def)
  have kp: "kpage s2 = kpage s" "kpage s3 = kpage s"
    using grown_kpage [OF g] unmapped_kpage [OF u] by simp_all
  have r: "refs s' p = refs s2 p - (if p = ?pa then 1 else 0)" if "kpage s p" for p
    using gr u that kp by (auto simp: grown_def unmapped_def uses_def)
  have r2: "refs s2 p = (if p = ka then 1 else refs s p)" if "kpage s p" for p
    using g that by (auto simp: grown_def)
  have r3: "refs s3 p = refs s' p" if "kpage s p" for p using gr that kp by (simp add: grown_def)
  have nT: "ka \<notin> pages_of s pt" using ownedD(3) [OF o, of ka] ka by auto
  have m': "agree_on {p. p \<notin> pages_of s pt \<and> \<not> (kpage s p \<and> refs s' p = 0)} (mem s2) (mem s')"
  proof (rule agree_on_trans)
    show "agree_on {p. p \<notin> pages_of s pt \<and> \<not> (kpage s p \<and> refs s' p = 0)} (mem s2) (mem s3)"
      using u r3 by (auto simp: unmapped_def kp pg elim!: agree_on_subset)
    show "agree_on {p. p \<notin> pages_of s pt \<and> \<not> (kpage s p \<and> refs s' p = 0)} (mem s3) (mem s')"
      using gr by (auto simp: grown_def elim!: agree_on_subset)
  qed
  have ka': "refs s' ka = 1" using r [OF ka(1)] r2 [OF ka(1)] ne by simp
  have "mem s' x = mem s (?pa + (x - ka))" if "PGROUNDDOWN x = ka" for x
    using m' bytes [OF that] that nT ka' by (simp add: agree_on_def)
  moreover have "agree_on {p. p \<notin> pages_of s pt \<and> p \<noteq> ka \<and> \<not> (kpage s p \<and> refs s' p = 0)} (mem s) (mem s')"
    using g m' by (auto simp: grown_def agree_on_def)
  moreover have "kmem_ok s' \<and> kend s' = kend s \<and> kmem.more s' = kmem.more s"
    using g u gr by (simp add: grown_def unmapped_def)
  ultimately show ?thesis
    using pg' o' ka ka' ptes r r2 unfolding separated_def Let_def by simp
qed

lemma cowalloc_spec:
  assumes ok: "kmem_ok s" and o: "owned s 2 pt" and cow: "cow_page pt va s"
  shows "cowalloc pt va s = Ret (-1, s) \<and> kalloc s = Ret (0, s) \<or>
    (\<exists>ka s'. cowalloc pt va s = Ret (0, s') \<and> separated pt va ka s s')"
proof -
  let ?e = "pte_of s pt va" and ?pa = "PTE2PA (pte_of s pt va)"
  let ?fl = "(PTE_FLAGS ?e AND NOT PTE_COW) OR PTE_W"
  note c = cow_pageD [OF cow]
  have pa0: "?pa \<noteq> 0" using c(5) ok by (auto simp: kpage_def kmem_ok_def kmem_inv_def KERNBASE_def)
  obtain l where l: "lookup (mem s) 2 pt va = Some l" using leaf_lookup [of "mem s" 2 pt va] c(3) by fastforce
  obtain ka s1 where k: "kalloc s = Ret (ka, s1)" using ka.alloc_returns [OF ok] by blast
  have start: "cowalloc pt va s = (if ka = 0 then Ret (-1, s1)
      else bindR (uvmunmap pt va 1 True (s1\<lparr>mem := memmove (mem s1) ka ?pa 4096\<rparr>)) (\<lambda>s.
        bindR (mappages pt va PGSIZE ka ?fl s) (\<lambda>(_, s). Ret (0, s))))"
    using c(1,2,4) pa0 k slot_not_0 [OF ownedD(1) [OF o] l]
    by (auto simp: cowalloc_def walk_exists [OF l c(1)] ld64_slot [OF l] flag_simps not_le
        pg_aligned_iff_mod [symmetric])
  show ?thesis
  proof (cases "ka = 0")
    case True
    then show ?thesis using start k ka.alloc_null [OF ok] by auto
  next
    case False
    define s2 where "s2 = s1\<lparr>mem := memmove (mem s1) ka ?pa 4096\<rparr>"
    have kq: "kpage s ka" using ka.alloc_page [OF ok k False] by blast
    note below = kpage_below [OF kq] kpage_below [OF c(5)]
    have off: "same_off_page ka (mem s1) (memmove (mem s1) ka ?pa 4096)"
      using below by (intro memmove_page) auto
    note n = new_page [OF ok k False off, folded s2_def]
    have ne: "ka \<noteq> ?pa" using n(3) c(6) by auto
    have ok2: "kmem_ok s2" and r2: "refs s2 ka = 1" using n(1) by (simp_all add: grown_def)
    obtain s3 where s3: "uvmunmap pt va 1 True s2 = Ret s3" "unmapped s2 pt (\<lambda>_. ?pa) 1 s3"
        "owned s2 2 pt" "pages_of s2 pt = pages_of s pt"
        "\<forall>va'. lookup (mem s3) 2 pt va' = lookup (mem s) 2 pt va'"
        "\<forall>va' < SV39. pte_of s3 pt va' = (if pgno va' = pgno va then 0 else pte_of s pt va')"
      using cowalloc_unmap [OF n(1) o cow ok2] by blast
    have s3': "kmem_ok s3" "owned s3 2 pt" "pages_of s3 pt = pages_of s pt"
      using s3(2,4) by (simp_all add: unmapped_def)
    obtain s' where s': "mappages pt va PGSIZE ka ?fl s3 = Ret (0, s')" "tbl_grown s3 pt {} s'"
        "\<forall>va' < SV39. pte_of s' pt va' =
          (if PGROUNDDOWN va' = va then PA2PTE ka OR ?fl OR PTE_V else pte_of s3 pt va')"
      using mappages_exists [OF s3'(1,2) c(1,2), of l ka ?fl] l s3(5,6) c(1) by auto
    have "cowalloc pt va s = Ret (0, s')"
      using start False s3(1) s'(1) by (simp add: s2_def)
    moreover have "separated pt va ka s s'"
    proof (rule separatedI [OF o cow n(1) s3(2,4) s'(2)])
      show "mem s2 x = mem s (?pa + (x - ka))" if "PGROUNDDOWN x = ka" for x
        using that below memmove_page(2) [of ka ?pa x "mem s1"] page_offset [of ?pa x ka] ne n(4)
        by (simp add: s2_def same_off_page_def)
      show "pte_of s' pt va' = (if pgno va' = pgno va then PA2PTE ka OR ?fl OR PTE_V else pte_of s pt va')"
        if "va' < SV39" for va'
        using that s'(3) s3(6) by (simp add: pgno_page [OF c(2)])
    qed (use n(2,3) in simp_all)
    ultimately show ?thesis by blast
  qed
qed

text \<open>
  C12 The first write to a shared page. For a page that is mapped copy-on-write, \<open>cowalloc\<close>
  either fails without any change because no page is free, or gives the process a private
  writable copy with the same bytes in the same place: the old page loses one reference,
  every other entry and every other referenced page stays as it was.
\<close>

theorem cowalloc_correct:
  assumes "kmem_ok s" and "owned s 2 pt" and "cow_page pt va s"
  shows "cowalloc pt va s = Ret (-1, s) \<and> kalloc s = Ret (0, s) \<or>
    (\<exists>ka s'. cowalloc pt va s = Ret (0, s') \<and> separated pt va ka s s')"
  using assms by (rule cowalloc_spec)

section \<open>Isolation\<close>

text \<open>Loads and stores of a user program, through its table, as the hardware does them.\<close>

definition user_addr :: "'a kmem_scheme \<Rightarrow> u64 \<Rightarrow> u64 \<Rightarrow> u64" where
  "user_addr s pt va = PTE2PA (pte_of s pt va) + (va - PGROUNDDOWN va)"

definition user_load :: "'a kmem_scheme \<Rightarrow> u64 \<Rightarrow> u64 \<Rightarrow> u8" where
  "user_load s pt va = mem s (user_addr s pt va)"

definition user_store :: "'a kmem_scheme \<Rightarrow> u64 \<Rightarrow> u64 \<Rightarrow> u8 \<Rightarrow> 'a kmem_scheme" where
  "user_store s pt va v = s\<lparr>mem := (mem s)(user_addr s pt va := v)\<rparr>"

lemma user_addr_page: "PGROUNDDOWN (user_addr s pt va) = PTE2PA (pte_of s pt va)"
  by (simp add: user_addr_def page_offset)

text \<open>A process of \<open>sz\<close> bytes after fork: every page is a referenced page outside the tables.\<close>

lemma below_pages:
  assumes nb: "npages sz * 4096 \<le> 0x4000000000" and va: "va < sz"
  shows "va < MAXVA" and "pgno va < npages sz" and "pte_of s pt va = pte_of s pt (page_at 0 (pgno va))"
    and "PGROUNDDOWN va < MAXVA" and "pgno (PGROUNDDOWN va) = pgno va"
proof -
  have u: "unat va = pgno va * 4096 + pgoff va" by (simp add: pgno_def)
  then have "pgno va * 4096 < unat sz" using va by (simp add: word_less_nat_alt)
  then show n: "pgno va < npages sz" by (simp add: npages_iff)
  have b: "Suc (pgno va) * 4096 \<le> 0x4000000000"
    using nb n mult_right_mono [of "Suc (pgno va)" "npages sz" 4096] by simp
  have off: "pgoff va < 4096" by simp
  show "va < MAXVA" unfolding MAXVA_def word_less_nat_alt using u off b by simp
  show "PGROUNDDOWN va < MAXVA" using b by (simp add: MAXVA_def word_less_nat_alt unat_PGROUNDDOWN)
  show "pgno (PGROUNDDOWN va) = pgno va" by (simp add: pgno_def unat_PGROUNDDOWN)
  have "pgno (page_at 0 (pgno va)) = pgno va"
    using pages_upto [OF nb, of "pgno va"] n by (simp add: pgno_def)
  then show "pte_of s pt va = pte_of s pt (page_at 0 (pgno va))" by (intro leaf_page) simp
qed

lemmas below_sz = below_pages [OF forkableD(5)]

lemma shared_page:
  assumes fk: "forkable old new (npages sz) s" and sh: "shared old new (npages sz) (npages sz) s s1"
    and ch: "child_ptes old new (npages sz) s s1" and va: "va < sz"
  shows "pte_of s1 old va = cow_pte (pte_of s old va)" and "pte_of s1 new va = child_pte (pte_of s old va)"
    and "kpage s (PTE2PA (pte_of s old va))" and "2 \<le> refs s1 (PTE2PA (pte_of s old va))"
    and "PTE2PA (pte_of s old va) \<notin> pages_of s1 old" and "PTE2PA (pte_of s old va) \<notin> pages_of s1 new"
    and "PGROUNDDOWN x = PTE2PA (pte_of s old va) \<Longrightarrow> mem s1 x = mem s x"
    and "bit (pte_of s old va) 0"
proof -
  let ?p = "PTE2PA (pte_of s old va)"
  note f = forkableD [OF fk] and b = below_sz [OF fk va] and d = sharedD [OF sh]
  have p: "?p = upage s old 0 (pgno va)" using b(3) [of s old] by simp
  show "pte_of s1 old va = cow_pte (pte_of s old va)" using d(5) [OF maxva_sv39 [OF b(1)]] b(2) by simp
  show "pte_of s1 new va = child_pte (pte_of s old va)" using ch b(1,2) by (simp add: child_ptes_def)
  show "bit (pte_of s old va) 0" using f(6) [OF b(2)] b(3) [of s old] by simp
  show kp: "kpage s ?p" using f(8) [OF b(2)] by (simp add: p)
  have pos: "0 < refs s ?p" using f(9) [OF b(2)] by (simp add: p)
  have nD: "?p \<notin> pages_of s1 new - pages_of s new" using sh pos by (auto simp: shared_def)
  then have "refs s1 ?p = refs s ?p + uses (upage s old 0) (npages sz) ?p"
    using sh kp unfolding shared_def by blast
  moreover have "1 \<le> uses (upage s old 0) (npages sz) ?p" using uses_pos [OF b(2)] p by simp
  ultimately show "2 \<le> refs s1 ?p" using pos by linarith
  show o: "?p \<notin> pages_of s1 old" using f(10) [OF b(2)] sh by (simp add: p shared_def)
  show n: "?p \<notin> pages_of s1 new" using f(11) [OF b(2)] nD by (auto simp: p)
  show "mem s1 x = mem s x" if "PGROUNDDOWN x = ?p"
    using sh that o n by (simp add: shared_def agree_on_def)
qed

lemma uvmcopy_success:
  assumes "forkable old new (npages sz) s" and "uvmcopy old new sz s = Ret (0, s1)"
  shows "shared old new (npages sz) (npages sz) s s1" and "child_ptes old new (npages sz) s s1"
  using uvmcopy_spec [OF assms(1)] assms(2) by auto

text \<open>
  Right after a successful \<open>uvmcopy\<close> parent and child read the same bytes, those of the
  parent before the call; neither can write a page the parent could write, and both have it
  marked copy-on-write.
\<close>

theorem uvmcopy_same_bytes:
  assumes "forkable old new (npages sz) s" and "uvmcopy old new sz s = Ret (0, s1)" and "va < sz"
  shows "user_load s1 old va = user_load s old va \<and> user_load s1 new va = user_load s old va \<and>
    \<not> bit (pte_of s1 old va) 2 \<and> \<not> bit (pte_of s1 new va) 2 \<and>
    (bit (pte_of s old va) 2 \<longrightarrow> bit (pte_of s1 old va) 8 \<and> bit (pte_of s1 new va) 8)"
proof -
  note p = shared_page [OF assms(1) uvmcopy_success [OF assms(1,2)] assms(3)]
  have "user_addr s1 old va = user_addr s old va" "user_addr s1 new va = user_addr s old va"
    by (simp_all add: user_addr_def p(1,2))
  then show ?thesis
    using p(7) [OF user_addr_page [of s old va]]
    by (auto simp: user_load_def p(1,2) bit_child_pte bit_cow_pte)
qed

text \<open>
  Two tables that map the same referenced pages; one of them gets a private copy of the page
  of \<open>va\<close> and then stores a byte there.
\<close>

definition same_view :: "u64 \<Rightarrow> u64 \<Rightarrow> u64 \<Rightarrow> 'a kmem_scheme \<Rightarrow> bool" where
  "same_view A B sz s \<longleftrightarrow> kmem_ok s \<and> owned s 2 A \<and> owned s 2 B \<and> pages_of s A \<inter> pages_of s B = {} \<and>
     (\<forall>w < sz. w < MAXVA \<and> PTE2PA (pte_of s B w) = PTE2PA (pte_of s A w) \<and>
        kpage s (PTE2PA (pte_of s A w)) \<and> 2 \<le> refs s (PTE2PA (pte_of s A w)) \<and>
        PTE2PA (pte_of s A w) \<notin> pages_of s A \<and> PTE2PA (pte_of s A w) \<notin> pages_of s B)"

lemma cow_write_isolated:
  assumes v: "same_view A B sz s1" and sep: "separated A (PGROUNDDOWN va) ka s1 s2"
    and va: "va < sz" and w: "w < sz"
  shows "user_load (user_store s2 A va b) B w = user_load s1 B w"
    and "user_load (user_store s2 A va b) A w = (if w = va then b else user_load s1 A w)"
proof -
  let ?P = "\<lambda>w. PTE2PA (pte_of s1 A w)" and ?s' = "user_store s2 A va b"
  have o: "owned s1 2 A" "owned s1 2 B" "pages_of s1 A \<inter> pages_of s1 B = {}"
    and V: "\<And>w. w < sz \<Longrightarrow> w < MAXVA" "\<And>w. w < sz \<Longrightarrow> PTE2PA (pte_of s1 B w) = ?P w"
      "\<And>w. w < sz \<Longrightarrow> kpage s1 (?P w)" "\<And>w. w < sz \<Longrightarrow> 2 \<le> refs s1 (?P w)"
      "\<And>w. w < sz \<Longrightarrow> ?P w \<notin> pages_of s1 A" "\<And>w. w < sz \<Longrightarrow> ?P w \<notin> pages_of s1 B"
    using v by (auto simp: same_view_def)
  let ?e = "pte_of s1 A (PGROUNDDOWN va)"
  have pe: "?e = pte_of s1 A va" by (rule leaf_page) (simp add: pgno_def unat_PGROUNDDOWN)
  have S: "pages_of s2 A = pages_of s1 A" "tree (mem s2) 2 A" "kpage s1 ka" "refs s1 ka = 0"
      "\<forall>va' < SV39. pte_of s2 A va' = (if pgno va' = pgno va
        then PA2PTE ka OR ((PTE_FLAGS ?e AND NOT PTE_COW) OR PTE_W) OR PTE_V else pte_of s1 A va')"
      "\<forall>x. PGROUNDDOWN x = ka \<longrightarrow> mem s2 x = mem s1 (?P va + (x - ka))"
      "\<forall>p. kpage s1 p \<and> p \<noteq> ka \<longrightarrow> refs s2 p = refs s1 p - (if p = ?P va then 1 else 0)"
      "agree_on {p. p \<notin> pages_of s1 A \<and> p \<noteq> ka \<and> \<not> (kpage s1 p \<and> refs s2 p = 0)} (mem s1) (mem s2)"
    using sep by (auto simp: separated_def Let_def pe owned_def pgno_def unat_PGROUNDDOWN)
  have al: "pg_aligned ka" using S(3) by (simp add: kpage_def)
  have nka: "?P w \<noteq> ka" if "w < sz" for w using V(4) [OF that] S(4) by auto
  have tka: "ka \<notin> pages_of s1 A" "ka \<notin> pages_of s1 B"
    using ownedD(3) [OF o(1), of ka] ownedD(3) [OF o(2), of ka] S(4) by auto
  have "pte_of s2 A va = PA2PTE ka OR ((PTE_FLAGS ?e AND NOT PTE_COW) OR PTE_W OR PTE_V)"
    using S(5) V(1) [OF va] by (simp add: or.assoc)
  moreover have "is_flags ((PTE_FLAGS ?e AND NOT PTE_COW) OR PTE_W OR PTE_V)" by simp
  ultimately have pva: "PTE2PA (pte_of s2 A va) = ka" using al by simp
  then have off: "same_off_page ka (mem s2) (mem ?s')"
    using user_addr_page [of s2 A va] by (auto simp: same_off_page_def user_store_def)
  have keepB: "agree_on (pages_of s1 B) (mem s1) (mem s2)"
  proof -
    have "refs s2 p \<noteq> 0" if "p \<in> pages_of s1 B" for p
    proof -
      have "p \<noteq> ka" "p \<noteq> ?P va" using that tka(2) V(6) [OF va] by auto
      then show ?thesis using S(7) ownedD(2,3) [OF o(2) that] by simp
    qed
    then show ?thesis using S(8) o(3) tka(2) by (auto elim!: agree_on_subset)
  qed
  have B: "pte_of ?s' B w' = pte_of s1 B w'" for w'
  proof -
    note ta = table_agree [OF keepB ownedD(1) [OF o(2)]]
    have "agree_on (pages_of s2 B) (mem s2) (mem ?s')"
      using off tka(2) by (intro same_off_page_agree) (simp_all add: ta(1))
    from table_agree(4) [OF this ta(2)] ta(4) show ?thesis by simp
  qed
  have A: "pte_of ?s' A w' = pte_of s2 A w'" for w'
    using off tka(1) S(1,2) by (intro table_agree(4) same_off_page_agree) simp_all
  have keep: "mem ?s' x = mem s1 x" if "PGROUNDDOWN x = ?P w'" "w' < sz" for x w'
  proof -
    have "refs s2 (?P w') \<noteq> 0" using S(7) V(3,4) [OF that(2)] nka [OF that(2)] by auto
    then have "mem s2 x = mem s1 x" using S(8) V(5) [OF that(2)] nka [OF that(2)] that(1)
      by (simp add: agree_on_def)
    moreover have "mem ?s' x = mem s2 x" using off nka [OF that(2)] that(1) by (simp add: same_off_page_def)
    ultimately show ?thesis by simp
  qed
  have uB: "user_addr ?s' B w = user_addr s1 A w" and u1: "user_addr s1 B w = user_addr s1 A w"
    using V(2) [OF w] by (simp_all add: user_addr_def B)
  then show "user_load ?s' B w = user_load s1 B w"
    using keep [OF _ w] user_addr_page [of s1 A w] by (simp add: user_load_def)
  show "user_load ?s' A w = (if w = va then b else user_load s1 A w)"
  proof (cases "pgno w = pgno va")
    case True
    then have pg: "PGROUNDDOWN w = PGROUNDDOWN va" by (simp add: word_unat_eq_iff unat_PGROUNDDOWN)
    have "pte_of s2 A w = pte_of s2 A va" and e1: "pte_of s1 A w = pte_of s1 A va"
      by (rule leaf_page [OF True])+
    then have uw: "user_addr ?s' A w = ka + (w - PGROUNDDOWN w)" "user_addr s2 A w = ka + (w - PGROUNDDOWN w)"
      using pva by (simp_all add: user_addr_def A)
    have "PGROUNDDOWN (user_addr s2 A w) = ka"
      using user_addr_page [of s2 A w] pva \<open>pte_of s2 A w = pte_of s2 A va\<close> by simp
    then have "mem s2 (user_addr s2 A w) = mem s1 (?P va + (user_addr s2 A w - ka))" using S(6) by blast
    then have "mem s2 (user_addr s2 A w) = user_load s1 A w"
      unfolding uw(2) by (simp add: user_load_def user_addr_def [of s1] e1)
    moreover have "user_addr s2 A w = user_addr s2 A va \<longleftrightarrow> w = va"
      unfolding uw(2) using pva by (simp add: user_addr_def pg)
    ultimately show ?thesis using uw by (auto simp: user_load_def user_store_def)
  next
    case False
    then have "pte_of ?s' A w = pte_of s1 A w" using S(5) V(1) [OF w] A by simp
    then have "user_addr ?s' A w = user_addr s1 A w" by (simp add: user_addr_def)
    then show ?thesis using False keep [OF user_addr_page w] by (auto simp: user_load_def)
  qed
qed

lemma shared_same_view:
  assumes fk: "forkable old new (npages sz) s" and sh: "shared old new (npages sz) (npages sz) s s1"
    and ch: "child_ptes old new (npages sz) s s1"
  shows "same_view old new sz s1" and "same_view new old sz s1"
proof -
  note d = sharedD [OF sh]
  have p: "w < MAXVA" "PTE2PA (pte_of s1 old w) = PTE2PA (pte_of s old w)"
      "PTE2PA (pte_of s1 new w) = PTE2PA (pte_of s old w)" "kpage s1 (PTE2PA (pte_of s old w))"
      "2 \<le> refs s1 (PTE2PA (pte_of s old w))"
      "PTE2PA (pte_of s old w) \<notin> pages_of s1 old" "PTE2PA (pte_of s old w) \<notin> pages_of s1 new"
    if "w < sz" for w
    using below_sz(1) [OF fk that] shared_page [OF fk sh ch that] d(6) by simp_all
  show "same_view old new sz s1" using d(1-4) p by (simp add: same_view_def)
  show "same_view new old sz s1" using d(1-4) p by (simp add: same_view_def Int_commute)
qed

lemma shared_cow_page:
  assumes fk: "forkable old new (npages sz) s" and sh: "shared old new (npages sz) (npages sz) s s1"
    and ch: "child_ptes old new (npages sz) s s1" and va: "va < sz" "bit (pte_of s old va) 2"
    and A: "A = old \<or> A = new"
  shows "cow_page A (PGROUNDDOWN va) s1"
proof -
  note p = shared_page [OF fk sh ch va(1)] and b = below_sz [OF fk va(1)]
  have e: "pte_of s1 A (PGROUNDDOWN va) = pte_of s1 A va" for A by (rule leaf_page [OF b(5)])
  show ?thesis
    using A p(1-6,8) va(2) b(4) sharedD(6) [OF sh]
    by (auto simp: cow_page_def Let_def e bit_cow_pte bit_child_pte)
qed


end
