(* ===== verification/Teardown.thy ===== *)
theory Teardown
  imports Fork
begin

text \<open>
  Tearing a page table down: \<open>freewalk\<close> and \<open>uvmfree\<close> of \<^verbatim>\<open>kernel/vm.c\<close> on a well-formed table
  give back exactly the pages of the table, and one reference of each page it maps.
\<close>

section \<open>Giving pages back\<close>

text \<open>
  \<open>freed s P T s'\<close>: from \<open>s\<close> to \<open>s'\<close> the pages \<open>P\<close> lost one reference each, no other count
  changed, and at most the bytes of \<open>P\<close> and \<open>T\<close> were written.
\<close>

definition freed :: "'a kmem_scheme \<Rightarrow> u64 set \<Rightarrow> u64 set \<Rightarrow> 'a kmem_scheme \<Rightarrow> bool" where
  "freed s P T s' \<longleftrightarrow> kmem_ok s' \<and> kend s' = kend s \<and> kmem.more s' = kmem.more s \<and>
     (\<forall>q. kpage s q \<longrightarrow> refs s' q = refs s q - (if q \<in> P then 1 else 0)) \<and>
     agree_on (- (P \<union> T)) (mem s) (mem s')"

lemma freedD:
  assumes "freed s P T s'"
  shows "kmem_ok s'" and "kend s' = kend s" and "kmem.more s' = kmem.more s" and "kpage s' = kpage s"
    and "kpage s q \<Longrightarrow> refs s' q = refs s q - (if q \<in> P then 1 else 0)"
    and "agree_on (- (P \<union> T)) (mem s) (mem s')"
  using assms by (auto simp: freed_def kpage_def fun_eq_iff)

lemma freed_refl: "kmem_ok s \<Longrightarrow> freed s {} T s"
  by (simp add: freed_def)

lemma freed_trans:
  assumes 1: "freed s P T s1" and 2: "freed s1 Q T' s2" and d: "P \<inter> Q = {}"
  shows "freed s (P \<union> Q) (T \<union> T') s2"
proof -
  have "agree_on (- ((P \<union> Q) \<union> (T \<union> T'))) (mem s) (mem s2)"
    using agree_on_subset [OF freedD(6) [OF 1], of "- ((P \<union> Q) \<union> (T \<union> T'))"]
      agree_on_subset [OF freedD(6) [OF 2], of "- ((P \<union> Q) \<union> (T \<union> T'))"]
    by (auto intro: agree_on_trans)
  then show ?thesis
    using freedD(1-5) [OF 1] freedD(1-5) [OF 2] d by (auto simp: freed_def)
qed

lemma freed_mono: "freed s P T s' \<Longrightarrow> T \<subseteq> P \<union> T' \<Longrightarrow> freed s P T' s'"
  by (auto simp: freed_def elim!: agree_on_subset)

lemma freed_kfree:
  assumes "kmem_ok s" and "kpage s p" and "0 < refs s p"
  obtains s' where "kfree p s = Ret s'" and "freed s {p} {} s'"
proof -
  obtain s' where s': "kfree p s = Ret s'" "kmem_ok s'" "kend s' = kend s" "kmem.more s' = kmem.more s"
    "same_off_page p (mem s) (mem s')"
    "\<forall>q. kpage s q \<longrightarrow> refs s' q = (if q = p then refs s p - 1 else refs s q)"
    using kfree_page [OF assms] by metis
  then have "freed s {p} {} s'" by (auto simp: freed_def intro!: same_off_page_agree)
  with s'(1) show thesis by (rule that)
qed

lemma freed_write:
  assumes "kmem_ok s" and "kpage s p" and "0 < refs s p" and "i < 512"
  shows "freed s {} {p} (s\<lparr>mem := st64 (mem s) (PTE_ADDR p i) v\<rparr>)"
proof -
  have al: "pg_aligned p" using assms(2) by (simp add: kpage_def)
  have off: "same_off_page p (mem s) (st64 (mem s) (PTE_ADDR p i) v)"
    using al assms(4) by (rule same_off_page_entry)
  then show ?thesis using kmem_ok_write [OF assms(1) al assms(3) off]
    by (auto simp: freed_def intro!: same_off_page_agree)
qed

section \<open>Tables without mappings\<close>

fun bare :: "memory \<Rightarrow> nat \<Rightarrow> u64 \<Rightarrow> bool" where
  "bare m 0 pt \<longleftrightarrow> (\<forall>i. \<not> valid_at m pt i)"
| "bare m (Suc l) pt \<longleftrightarrow> (\<forall>i. valid_at m pt i \<longrightarrow> bare m l (child m pt i))"

lemma bare_agree:
  assumes "agree_on (tbl_pages m l pt) m m'" and "tree m l pt" and "bare m l pt"
  shows "bare m' l pt"
  using assms
proof (induction l arbitrary: pt)
  case 0
  have "entry m' pt i = entry m pt i" if "i < 512" for i
    using 0 that by (intro entry_agree [of "{pt}"]) auto
  with 0 show ?case by (auto simp: valid_at_def)
next
  case (Suc l)
  have e: "entry m' pt i = entry m pt i" if "i < 512" for i
    using Suc.prems that by (intro entry_agree [of "tbl_pages m (Suc l) pt"]) auto
  have "bare m' l (child m pt i)" if "valid_at m pt i" for i
    using Suc.prems that by (intro Suc.IH) (auto elim!: agree_on_subset)
  with e show ?case by (auto simp: valid_at_def)
qed

lemma address_of_indices:
  assumes "i < 512" and "j < 512" and "k < 512"
  obtains va where "va < SV39" and "PX 0 va = i" and "PX 1 va = j" and "PX 2 va = k"
proof -
  define a where "a = unat j + 512 * unat k"
  define b where "b = unat i + 512 * a"
  define n where "n = 4096 * b"
  have ijk: "unat i < 512" "unat j < 512" "unat k < 512" using assms by (simp_all add: word_less_nat_alt)
  then have "unat i \<le> 511" "unat j \<le> 511" "unat k \<le> 511" by simp_all
  then have "n \<le> 4096 * (511 + 512 * (511 + 512 * 511))"
    unfolding n_def b_def a_def by (intro mult_le_mono add_le_mono) simp_all
  then have n: "n < 0x8000000000" by simp
  then have u: "unat (of_nat n :: u64) = n" by (intro unat_of_nat_u64) simp
  have "n div 4096 = b" by (simp add: n_def)
  moreover have "b div 512 = a" "b mod 512 = unat i" using ijk by (simp_all add: b_def)
  moreover have "a div 512 = unat k" "a mod 512 = unat j" using ijk by (simp_all add: a_def)
  ultimately have d: "n div 4096 = b" "b div 512 = a" "b mod 512 = unat i" "a div 512 = unat k" "a mod 512 = unat j" .
  have "n div 2097152 = a" "n div 1073741824 = unat k"
    using d div_mult2_eq [of n 4096 512] div_mult2_eq [of n 4096 262144] div_mult2_eq [of b 512 512] by simp_all
  then show thesis
    using n d ijk by (intro that [of "of_nat n"]) (simp_all add: word_unat_eq_iff unat_PX u SV39_def word_less_nat_alt)
qed

lemma bareI:
  assumes "\<And>va. va < SV39 \<Longrightarrow> \<not> bit (leaf m 2 pt va) 0"
  shows "bare m 2 pt"
proof -
  have "\<not> valid_at m (child m (child m pt k) j) i"
    if kj: "valid_at m pt k" "valid_at m (child m pt k) j" for i j k
  proof
    assume i: "valid_at m (child m (child m pt k) j) i"
    obtain va where va: "va < SV39" "PX 0 va = i" "PX 1 va = j" "PX 2 va = k"
      using address_of_indices [of i j k] i kj by (auto simp: valid_at_def)
    then have "leaf m 2 pt va = entry m (child m (child m pt k) j) i"
      using kj by (simp add: leaf_def numeral_2_eq_2 valid_at_def Let_def)
    with assms [OF va(1)] i show False by (simp add: valid_at_def)
  qed
  then show ?thesis by (simp add: numeral_2_eq_2)
qed

section \<open>freewalk\<close>

text \<open>The entry \<open>i\<close> of the table page \<open>pt\<close> leads to a table of level \<open>l\<close> without mappings, if anywhere.\<close>

definition free_sub :: "'a kmem_scheme \<Rightarrow> nat \<Rightarrow> u64 \<Rightarrow> u64 \<Rightarrow> bool" where
  "free_sub s l pt i \<longleftrightarrow> (valid_at (mem s) pt i \<longrightarrow>
     PTE_FLAGS (entry (mem s) pt i) = PTE_V \<and> owned s l (child (mem s) pt i) \<and>
     bare (mem s) l (child (mem s) pt i) \<and> pt \<notin> tbl_pages (mem s) l (child (mem s) pt i))"

definition sub_pages :: "memory \<Rightarrow> nat \<Rightarrow> u64 \<Rightarrow> u64 \<Rightarrow> u64 set" where
  "sub_pages m l pt i = (if valid_at m pt i then tbl_pages m l (child m pt i) else {})"

lemma free_sub_agree:
  assumes fr: "freed s P T s'" and f: "free_sub s l pt i" and e: "entry (mem s') pt i = entry (mem s) pt i"
    and d: "sub_pages (mem s) l pt i \<inter> (P \<union> T) = {}"
  shows "free_sub s' l pt i" and "sub_pages (mem s') l pt i = sub_pages (mem s) l pt i"
proof -
  have v: "valid_at (mem s') pt i \<longleftrightarrow> valid_at (mem s) pt i" using e by (simp add: valid_at_def)
  let ?c = "child (mem s) pt i"
  have *: "tbl_pages (mem s') l ?c = tbl_pages (mem s) l ?c \<and> tree (mem s') l ?c \<and> bare (mem s') l ?c \<and> owned s' l ?c"
    if i: "valid_at (mem s) pt i"
  proof -
    have t: "owned s l ?c" "bare (mem s) l ?c" using f i by (simp_all add: free_sub_def)
    have d': "tbl_pages (mem s) l ?c \<inter> (P \<union> T) = {}" using d i by (simp add: sub_pages_def)
    have ag: "agree_on (tbl_pages (mem s) l ?c) (mem s) (mem s')"
      using freedD(6) [OF fr] d' by (auto elim!: agree_on_subset)
    note ta = table_agree [OF ag ownedD(1) [OF t(1)]]
    have "owned s' l ?c"
      using ta(1,2) ownedD(2,3) [OF t(1)] freedD(4,5) [OF fr] d' by (auto simp: owned_def)
    with ta bare_agree [OF ag ownedD(1) [OF t(1)] t(2)] show ?thesis by blast
  qed
  then show "sub_pages (mem s') l pt i = sub_pages (mem s) l pt i" by (simp add: sub_pages_def v e)
  show "free_sub s' l pt i" using * f by (auto simp: free_sub_def v e)
qed

lemma table_entry_flags:
  assumes "PTE_FLAGS e = PTE_V"
  shows "e AND PTE_V \<noteq> 0 \<and> e AND (PTE_R OR PTE_W OR PTE_X) = 0"
proof -
  have "bit e n \<longleftrightarrow> bit PTE_V n" if "n < 10" for n
    using assms bit_PTE_FLAGS [of e n] that by simp
  from this [of 0] this [of 1] this [of 2] this [of 3]
  have "bit e 0" "\<not> bit e 1" "\<not> bit e 2" "\<not> bit e 3" by (simp_all add: flag_simps)
  then have "e AND PTE_V \<noteq> 0" "e AND PTE_R = 0" "e AND PTE_W = 0" "e AND PTE_X = 0" by (simp_all add: flag_simps)
  then show ?thesis by (simp add: bit.conj_disj_distrib)
qed

lemma freewalk_entries_frees:
  assumes rec: "\<And>c s. kmem_ok s \<Longrightarrow> owned s l c \<Longrightarrow> bare (mem s) l c \<Longrightarrow>
      \<exists>s'. rec c s = Ret s' \<and> freed s (tbl_pages (mem s) l c) {} s'"
    and "n \<le> 512" and "kmem_ok s" and "kpage s pt" and "0 < refs s pt"
    and "\<And>i. i < 512 \<Longrightarrow> 512 - n \<le> unat i \<Longrightarrow> free_sub s l pt i"
    and "\<And>i j. i < 512 \<Longrightarrow> j < 512 \<Longrightarrow> 512 - n \<le> unat i \<Longrightarrow> 512 - n \<le> unat j \<Longrightarrow> i \<noteq> j \<Longrightarrow>
      sub_pages (mem s) l pt i \<inter> sub_pages (mem s) l pt j = {}"
  shows "\<exists>s'. freewalk_entries rec n pt s = Ret s' \<and>
    freed s (\<Union>i \<in> {i. i < 512 \<and> 512 - n \<le> unat i}. sub_pages (mem s) l pt i) {pt} s'"
  using assms(2-)
proof (induction n arbitrary: s)
  case 0
  have "\<not> 512 \<le> unat i" if "i < 512" for i :: u64 using that by (simp add: word_less_nat_alt)
  then have "{i :: u64. i < 512 \<and> 512 - 0 \<le> unat i} = {}" by auto
  then have "(\<Union>i \<in> {i. i < 512 \<and> 512 - 0 \<le> unat i}. sub_pages (mem s) l pt i) = {}" by blast
  then show ?case using freed_refl [OF 0(2), of "{pt}"] by (simp only: freewalk_entries.simps) blast
next
  case (Suc n)
  define k :: u64 where "k = of_nat (512 - Suc n)"
  have "unat k = 512 - Suc n" unfolding k_def by (rule unat_of_nat_u64) simp
  then have k: "k < 512" "unat k = 512 - Suc n" by (simp_all add: word_less_nat_alt)
  define R where "R = {i :: u64. i < 512 \<and> 512 - n \<le> unat i}"
  have Rk: "{i :: u64. i < 512 \<and> 512 - Suc n \<le> unat i} = insert k R" and kR: "k \<notin> R"
  proof -
    have "512 - Suc n \<le> unat i \<longleftrightarrow> i = k \<or> 512 - n \<le> unat i" for i
      using k(2) Suc.prems(1) by (auto simp: word_unat_eq_iff)
    then show "{i :: u64. i < 512 \<and> 512 - Suc n \<le> unat i} = insert k R" using k(1) by (auto simp: R_def)
    have "\<not> 512 - n \<le> 512 - Suc n" using Suc.prems(1) by linarith
    then show "k \<notin> R" unfolding R_def using k(2) by simp
  qed
  let ?V = "sub_pages (mem s) l pt"
  have al: "pg_aligned pt" using Suc.prems(3) by (simp add: kpage_def)
  have dis: "?V k \<inter> ?V i = {}" if "i \<in> R" for i
  proof -
    have "k \<noteq> i" "i < 512" "512 - n \<le> unat i" using that kR by (auto simp: R_def)
    then show ?thesis using k by (intro Suc.prems(6)) simp_all
  qed
  have sub: "free_sub s l pt i" if "i \<in> insert k R" for i
    using that Suc.prems(5) unfolding Rk [symmetric] by blast
  then have ptR: "pt \<notin> ?V i" if "i \<in> insert k R" for i
    using that by (auto simp: free_sub_def sub_pages_def)
  have tail: "\<exists>s'. freewalk_entries rec n pt s2 = Ret s' \<and> freed s (\<Union>i \<in> insert k R. ?V i) {pt} s'"
    if fr: "freed s (?V k) {pt} s2"
      and e: "\<And>i. i \<in> R \<Longrightarrow> entry (mem s2) pt i = entry (mem s) pt i" for s2
  proof -
    have fs: "free_sub s2 l pt i \<and> sub_pages (mem s2) l pt i = ?V i" if "i \<in> R" for i
      using free_sub_agree [OF fr sub e] that dis [OF that] ptR [of i] by auto
    have "\<exists>s'. freewalk_entries rec n pt s2 = Ret s' \<and>
        freed s2 (\<Union>i \<in> {i. i < 512 \<and> 512 - n \<le> unat i}. sub_pages (mem s2) l pt i) {pt} s'"
    proof (rule Suc.IH)
      show "n \<le> 512" using Suc.prems(1) by simp
      show "kmem_ok s2" "kpage s2 pt" using freedD(1,4) [OF fr] Suc.prems(3) by auto
      show "0 < refs s2 pt" using freedD(5) [OF fr Suc.prems(3)] ptR [of k] Suc.prems(4) by simp
      show "free_sub s2 l pt i" if "i < 512" "512 - n \<le> unat i" for i using fs that by (simp add: R_def)
      show "sub_pages (mem s2) l pt i \<inter> sub_pages (mem s2) l pt j = {}"
        if "i < 512" "j < 512" "512 - n \<le> unat i" "512 - n \<le> unat j" "i \<noteq> j" for i j
        using fs [of i] fs [of j] Suc.prems(6) [of i j] that by (simp add: R_def)
    qed
    then obtain s' where s': "freewalk_entries rec n pt s2 = Ret s'"
      "freed s2 (\<Union>i \<in> R. sub_pages (mem s2) l pt i) {pt} s'" by (auto simp: R_def)
    have "(\<Union>i \<in> R. sub_pages (mem s2) l pt i) = (\<Union>i \<in> R. ?V i)" using fs by auto
    with freed_trans [OF fr s'(2)] dis have "freed s (\<Union>i \<in> insert k R. ?V i) {pt} s'" by auto
    with s'(1) show ?thesis by blast
  qed
  show ?case
  proof (cases "valid_at (mem s) pt k")
    case True
    let ?c = "child (mem s) pt k"
    have f: "PTE_FLAGS (entry (mem s) pt k) = PTE_V" "owned s l ?c" "bare (mem s) l ?c"
      using sub [of k] True by (simp_all add: free_sub_def)
    have Vk: "?V k = tbl_pages (mem s) l ?c" using True by (simp add: sub_pages_def)
    obtain s1 where s1: "rec ?c s = Ret s1" "freed s (?V k) {} s1"
      using rec [OF Suc.prems(2) f(2,3)] Vk by auto
    have pt1: "kpage s1 pt" "0 < refs s1 pt"
      using freedD(4,5) [OF s1(2)] Suc.prems(3,4) ptR [of k] by auto
    let ?s2 = "s1\<lparr>mem := st64 (mem s1) (PTE_ADDR pt k) 0\<rparr>"
    have fr: "freed s (?V k) {pt} ?s2"
      using freed_trans [OF s1(2) freed_write [OF freedD(1) [OF s1(2)] pt1 k(1)]] by simp
    have "entry (mem ?s2) pt i = entry (mem s) pt i" if "i \<in> R" for i
    proof -
      have i: "i < 512" "i \<noteq> k" using that kR by (auto simp: R_def)
      have "agree_on {pt} (mem s) (mem s1)"
        using freedD(6) [OF s1(2)] ptR [of k] by (auto elim!: agree_on_subset)
      from entry_agree [OF this _ al i(1)] show ?thesis using i k(1) al by (simp add: entry_st64)
    qed
    from tail [OF fr this] obtain s' where s': "freewalk_entries rec n pt ?s2 = Ret s'"
      "freed s (\<Union>i \<in> insert k R. ?V i) {pt} s'" by blast
    have "entry (mem s) pt k AND PTE_V \<noteq> 0 \<and> entry (mem s) pt k AND (PTE_R OR PTE_W OR PTE_X) = 0"
      using f(1) by (rule table_entry_flags)
    then have "freewalk_entries rec (Suc n) pt s = freewalk_entries rec n pt ?s2"
      using s1(1) by (simp add: k_def)
    then have "freewalk_entries rec (Suc n) pt s = Ret s'" using s'(1) by (rule trans)
    with s'(2) show ?thesis unfolding Rk by blast
  next
    case False
    then have "?V k = {}" and nb: "\<not> bit (entry (mem s) pt k) 0" using k(1) by (auto simp: sub_pages_def valid_at_def)
    then have "freed s (?V k) {pt} s" using freed_refl [OF Suc.prems(2)] by simp
    from tail [OF this] obtain s' where s': "freewalk_entries rec n pt s = Ret s'"
      "freed s (\<Union>i \<in> insert k R. ?V i) {pt} s'" by blast
    have "entry (mem s) pt k AND PTE_V = 0" using nb by (simp add: flag_simps)
    then have "freewalk_entries rec (Suc n) pt s = freewalk_entries rec n pt s" by (simp add: k_def)
    then have "freewalk_entries rec (Suc n) pt s = Ret s'" using s'(1) by (rule trans)
    with s'(2) show ?thesis unfolding Rk by blast
  qed
qed

lemma freewalk_frees:
  assumes "kmem_ok s" and "owned s l pt" and "bare (mem s) l pt"
  shows "\<exists>s'. freewalk (Suc l) pt s = Ret s' \<and> freed s (tbl_pages (mem s) l pt) {} s'"
  using assms
proof (induction l arbitrary: pt s)
  case 0
  then have "ld64 (mem s) (PTE_ADDR pt (of_nat (512 - Suc n))) AND PTE_V = 0" if "n < 512" for n
  proof -
    have "unat (of_nat (512 - Suc n) :: u64) = 512 - Suc n" by (rule unat_of_nat_u64) simp
    then have "(of_nat (512 - Suc n) :: u64) < 512" unfolding word_less_nat_alt by simp
    then show ?thesis using 0(3) by (simp only: bare.simps valid_at_def flag_simps) blast
  qed
  then have "freewalk_entries (freewalk 0) n pt s = Ret s" if "n \<le> 512" for n
    using that by (induction n) (simp_all add: Let_def del: of_nat_diff)
  moreover obtain s' where "kfree pt s = Ret s'" "freed s {pt} {} s'"
    using freed_kfree [OF 0(1), of pt] ownedD(2,3) [OF 0(2), of pt] by auto
  ultimately show ?case by simp
next
  case (Suc l)
  have o: "pg_aligned pt" "kpage s pt" "0 < refs s pt"
    using tree_root [OF ownedD(1) [OF Suc.prems(2)]] ownedD(2,3) [OF Suc.prems(2), of pt] by auto
  have sub: "free_sub s l pt i" for i
    using Suc.prems(2,3) by (auto simp: free_sub_def owned_def)
  have dis: "sub_pages (mem s) l pt i \<inter> sub_pages (mem s) l pt j = {}" if "i \<noteq> j" for i j
    using ownedD(1) [OF Suc.prems(2)] that by (simp add: sub_pages_def)
  obtain s1 where s1: "freewalk_entries (freewalk (Suc l)) 512 pt s = Ret s1"
    "freed s (\<Union>i \<in> {i. i < 512 \<and> 512 - 512 \<le> unat i}. sub_pages (mem s) l pt i) {pt} s1"
    using freewalk_entries_frees [OF Suc.IH _ Suc.prems(1) o(2,3) sub dis, of 512] by blast
  have U: "tbl_pages (mem s) (Suc l) pt = (\<Union>i \<in> {i. i < 512 \<and> 512 - 512 \<le> unat i}. sub_pages (mem s) l pt i) \<union> {pt}"
    by (auto simp: sub_pages_def valid_at_def)
  have nin: "pt \<notin> (\<Union>i \<in> {i. i < 512 \<and> 512 - 512 \<le> unat i}. sub_pages (mem s) l pt i)"
    using sub by (auto simp: sub_pages_def free_sub_def)
  then obtain s' where s': "kfree pt s1 = Ret s'" "freed s1 {pt} {} s'"
    using freed_kfree [OF freedD(1) [OF s1(2)], of pt] freedD(4,5) [OF s1(2)] o by auto
  have "freed s (tbl_pages (mem s) (Suc l) pt) {} s'"
    unfolding U using nin by (intro freed_mono [OF freed_trans [OF s1(2) s'(2)]]) auto
  moreover have "freewalk (Suc (Suc l)) pt s = Ret s'" using s1(1) s'(1) by (simp only: freewalk.simps res_simps)
  ultimately show ?case by blast
qed

end
