(* ===== verification/Process.thy ===== *)
theory Process
  imports Sysfile Teardown
begin

text \<open>
  The life of a process, \<^verbatim>\<open>kernel/proc.c\<close>: allocating an entry of the table with its page table
  and trapframe, \<open>fork\<close>, \<open>exit\<close>, \<open>wait\<close> and \<open>waitx\<close>, growing and shrinking its memory, and
  giving everything back. A critical section under \<open>p->lock\<close> or \<open>wait_lock\<close> is one step here;
  the locks themselves are the subject of the theories on spinlocks and the scheduler.
\<close>

section \<open>State\<close>

text \<open>
  The addresses the linker gives to \<open>forkret\<close> and to the array \<open>initcode\<close>, and the static
  variable \<open>first\<close> of \<open>forkret\<close>.
\<close>

record ksys = kfs +
  forkret_at :: u64
  initcode_at :: u64
  first :: bool

section \<open>Page tables of processes\<close>

definition proc_pagetable :: "u64 \<Rightarrow> 'a vmem_scheme \<Rightarrow> (u64 \<times> 'a vmem_scheme) res" where
  "proc_pagetable tf s =
     bindR (uvmcreate s) (\<lambda>(pagetable, s).
       if pagetable = 0 then Ret (0, s)
       else bindR (mappages pagetable TRAMPOLINE PGSIZE (trampoline s) (PTE_R OR PTE_X) s) (\<lambda>(r, s).
         if r < 0 then bindR (uvmfree pagetable 0 s) (\<lambda>s. Ret (0, s))
         else bindR (mappages pagetable TRAPFRAME PGSIZE tf (PTE_R OR PTE_W) s) (\<lambda>(r, s).
           if r < 0 then
             bindR (uvmunmap pagetable TRAMPOLINE 1 False s) (\<lambda>s.
             bindR (uvmfree pagetable 0 s) (\<lambda>s. Ret (0, s)))
           else Ret (pagetable, s))))"

definition proc_freepagetable :: "u64 \<Rightarrow> u64 \<Rightarrow> 'a kmem_scheme \<Rightarrow> 'a kmem_scheme res" where
  "proc_freepagetable pagetable sz s =
     bindR (uvmunmap pagetable TRAMPOLINE 1 False s) (\<lambda>s.
     bindR (uvmunmap pagetable TRAPFRAME 1 False s) (uvmfree pagetable sz))"

section \<open>Entries of the table\<close>

definition freeproc :: "nat \<Rightarrow> 'a kproc_scheme \<Rightarrow> 'a kproc_scheme res" where
  "freeproc i s =
     (let p = procs s ! i in
      bindR (if p_trapframe p \<noteq> 0 then kfree (p_trapframe p) s else Ret s) (\<lambda>s.
      let s = upd_proc i (p_trapframe_update (\<lambda>_. 0)) s in
      bindR (if p_pagetable p \<noteq> 0 then proc_freepagetable (p_pagetable p) (p_sz p) s else Ret s) (\<lambda>s.
      Ret (upd_proc i (\<lambda>p. p\<lparr>p_pagetable := 0, p_sz := 0, p_pid := 0, p_parent := None, p_name := [],
        p_chan := Chan0, p_killed := False, p_xstate := 0, p_state := UNUSED\<rparr>) s))))"

definition unused_entry :: "ptable \<Rightarrow> nat option" where
  "unused_entry ps = find (\<lambda>i. p_state (ps ! i) = UNUSED) [0..<length ps]"

definition allocproc :: "'a ksys_scheme \<Rightarrow> (nat option \<times> 'a ksys_scheme) res" where
  "allocproc s =
     (case unused_entry (procs s) of
        None \<Rightarrow> Ret (None, s)
      | Some i \<Rightarrow>
          let (pid, next') = allocpid (nextpid s);
              s = upd_proc i (\<lambda>p. p\<lparr>p_pid := pid, p_state := USED\<rparr>) (s\<lparr>nextpid := next'\<rparr>) in
          bindR (kalloc s) (\<lambda>(tf, s).
          let s = upd_proc i (p_trapframe_update (\<lambda>_. tf)) s in
          if tf = 0 then bindR (freeproc i s) (\<lambda>s. Ret (None, s))
          else bindR (proc_pagetable tf s) (\<lambda>(pt, s).
            let s = upd_proc i (p_pagetable_update (\<lambda>_. pt)) s in
            if pt = 0 then bindR (freeproc i s) (\<lambda>s. Ret (None, s))
            else Ret (Some i, upd_proc i (\<lambda>p. p\<lparr>
              p_context := \<lparr>ctx_ra = forkret_at s, ctx_sp = p_kstack p + PGSIZE, ctx_s = replicate 12 0\<rparr>,
              p_rtime := 0, p_etime := 0, p_ctime := kticks s, p_my_wtime := 0, p_my_rtime := 0,
              p_my_stime := 0, p_static_pri := 50, p_rbi := 25, p_tot_sche := 0, p_curr_rbi := 0\<rparr>) s))))"

definition userinit :: "'a ksys_scheme \<Rightarrow> 'a ksys_scheme res" where
  "userinit s =
     bindR (allocproc s) (\<lambda>(p, s). let s = s\<lparr>initproc := p\<rparr> in case p of
       None \<Rightarrow> Undef
     | Some i \<Rightarrow>
         bindR (uvmfirst (p_pagetable (procs s ! i)) (initcode_at s) 52 s) (\<lambda>s.
         let s = upd_proc i (p_sz_update (\<lambda>_. PGSIZE)) s;
             s = tf_set i 24 0 s;
             s = tf_set i 48 PGSIZE s;
             s = upd_proc i (p_name_update (\<lambda>_. ''initcode'')) s in
         bindR (namei i [47] s) (\<lambda>(ip, s).
         Ret (upd_proc i (\<lambda>p. p\<lparr>p_cwd := ip, p_state := RUNNABLE\<rparr>) s))))"

definition growproc :: "nat \<Rightarrow> s32 \<Rightarrow> 'a kproc_scheme \<Rightarrow> (int \<times> 'a kproc_scheme) res" where
  "growproc me n s =
     (let p = procs s ! me; sz = p_sz p in
      if sint n > 0 then
        bindR (uvmalloc (p_pagetable p) sz (sz + scast n) PTE_W s) (\<lambda>(sz, s).
          if sz = 0 then Ret (-1, s)
          else Ret (0, upd_proc me (p_sz_update (\<lambda>_. sz)) s))
      else if sint n < 0 then
        bindR (uvmdealloc (p_pagetable p) sz (sz + scast n) s) (\<lambda>(sz, s).
          Ret (0, upd_proc me (p_sz_update (\<lambda>_. sz)) s))
      else Ret (0, upd_proc me (p_sz_update (\<lambda>_. sz)) s))"

section \<open>fork\<close>

text \<open>The struct assignment \<open>*(np->trapframe) = *(p->trapframe)\<close>: 36 registers of 8 bytes.\<close>

definition copy_trapframe :: "nat \<Rightarrow> nat \<Rightarrow> 'a kproc_scheme \<Rightarrow> 'a kproc_scheme" where
  "copy_trapframe p np s =
     s\<lparr>mem := put_bytes (mem s) (p_trapframe (procs s ! np)) (get_bytes (mem s) (p_trapframe (procs s ! p)) 288)\<rparr>"

definition fork_file :: "nat \<Rightarrow> nat \<Rightarrow> nat \<Rightarrow> 'a kfs_scheme \<Rightarrow> 'a kfs_scheme res" where
  "fork_file p np i s =
     (case p_ofile (procs s ! p) ! i of
        None \<Rightarrow> Ret s
      | Some f \<Rightarrow> bindR (filedup f s) (\<lambda>s. Ret (set_ofile np i (Some f) s)))"

definition fork :: "nat \<Rightarrow> 'a ksys_scheme \<Rightarrow> (int \<times> 'a ksys_scheme) res" where
  "fork p s =
     bindR (allocproc s) (\<lambda>(r, s). case r of
       None \<Rightarrow> Ret (-1, s)
     | Some np \<Rightarrow>
         bindR (uvmcopy (p_pagetable (procs s ! p)) (p_pagetable (procs s ! np)) (p_sz (procs s ! p)) s) (\<lambda>(r, s).
         if r < 0 then bindR (freeproc np s) (\<lambda>s. Ret (-1, s))
         else
           let s = upd_proc np (\<lambda>q. q\<lparr>p_sz := p_sz (procs s ! p), p_parent := Some p\<rparr>) s;
               s = copy_trapframe p np s;
               s = tf_set np 112 0 s in
           bindR (foldR (fork_file p np) [0..<NOFILE] s) (\<lambda>s.
           case p_cwd (procs s ! p) of
             None \<Rightarrow> Undef
           | Some ip \<Rightarrow>
               let s = s\<lparr>fs := idup ip (fs s)\<rparr>;
                   s = upd_proc np (\<lambda>q. q\<lparr>p_cwd := Some ip, p_name := take 15 (p_name (procs s ! p))\<rparr>) s;
                   pid = p_pid (procs s ! np) in
               Ret (sint pid, upd_proc np (p_state_update (\<lambda>_. RUNNABLE)) s))))"

section \<open>exit and wait\<close>

definition exit_file :: "nat \<Rightarrow> nat \<Rightarrow> 'a kfs_scheme \<Rightarrow> 'a kfs_scheme res" where
  "exit_file me fd s =
     (case p_ofile (procs s ! me) ! fd of
        None \<Rightarrow> Ret s
      | Some f \<Rightarrow> bindR (fileclose me f s) (\<lambda>s. Ret (set_ofile me fd None s)))"

text \<open>The state in which \<open>exit\<close> enters the scheduler for the last time.\<close>

definition exit :: "nat \<Rightarrow> s32 \<Rightarrow> 'a kfs_scheme \<Rightarrow> 'a kfs_scheme res" where
  "exit me status s =
     (if initproc s = Some me then Panic ''init exiting''
      else
        bindR (foldR (exit_file me) [0..<NOFILE] s) (\<lambda>s.
        bindR (do_fs begin_op s) (\<lambda>s.
        bindR (case p_cwd (procs s ! me) of None \<Rightarrow> Undef | Some ip \<Rightarrow> do_fs (iput (my_pid me s) ip) s) (\<lambda>s.
        bindR (do_fs (end_op (my_pid me s)) s) (\<lambda>s.
        let s = upd_proc me (p_cwd_update (\<lambda>_. None)) s;
            s = s\<lparr>procs := reparent (Some me) me (initproc s) (procs s)\<rparr>;
            s = k_wakeup (Some me) (proc_chan (p_parent (procs s ! me))) s in
        Ret (upd_proc me (\<lambda>p. p\<lparr>p_xstate := status, p_state := ZOMBIE, p_etime := kticks s\<rparr>) s))))))"

text \<open>
  The scan of the table in \<open>wait\<close>. \<open>Some r\<close> is the value to return; \<open>kids\<close> is \<open>havekids\<close>.
\<close>

fun wait_scan :: "nat \<Rightarrow> u64 \<Rightarrow> nat list \<Rightarrow> bool \<Rightarrow> 'a kproc_scheme \<Rightarrow> (int option \<times> bool \<times> 'a kproc_scheme) res" where
  "wait_scan me addr [] kids s = Ret (None, kids, s)"
| "wait_scan me addr (i # is) kids s =
     (let pp = procs s ! i in
      if p_parent pp = Some me then
        if p_state pp = ZOMBIE then
          bindR (if addr \<noteq> 0 then copyout_obj (p_pagetable (procs s ! me)) addr (le_bytes 4 (p_xstate pp)) s
                 else Ret (0, s)) (\<lambda>(r, s).
          if r < 0 then Ret (Some (-1), True, s)
          else bindR (freeproc i s) (\<lambda>s. Ret (Some (sint (p_pid pp)), True, s)))
        else wait_scan me addr is True s
      else wait_scan me addr is kids s)"

definition wait :: "nat \<Rightarrow> u64 \<Rightarrow> 'a kproc_scheme \<Rightarrow> (io \<times> 'a kproc_scheme) res" where
  "wait me addr s =
     bindR (wait_scan me addr [0..<length (procs s)] False s) (\<lambda>(r, kids, s). case r of
       Some r \<Rightarrow> Ret (Done r, s)
     | None \<Rightarrow>
         if \<not> kids \<or> killed me (procs s) then Ret (Done (-1), s)
         else Ret (Asleep (Chan_proc me) 0, s))"

text \<open>
  \<open>waitx\<close> also stores through \<open>wtime\<close> and \<open>rtime\<close>, but only once it has found a zombie: \<open>None\<close> is
  a call that left the two variables alone.
\<close>

fun waitx_scan :: "nat \<Rightarrow> u64 \<Rightarrow> nat list \<Rightarrow> bool \<Rightarrow> 'a kproc_scheme \<Rightarrow>
    ((int \<times> u32 \<times> u32) option \<times> bool \<times> 'a kproc_scheme) res" where
  "waitx_scan me addr [] kids s = Ret (None, kids, s)"
| "waitx_scan me addr (i # is) kids s =
     (let np = procs s ! i in
      if p_parent np = Some me then
        if p_state np = ZOMBIE then
          let rtime = p_rtime np; wtime = p_etime np - p_ctime np - p_rtime np in
          bindR (if addr \<noteq> 0 then copyout_obj (p_pagetable (procs s ! me)) addr (le_bytes 4 (p_xstate np)) s
                 else Ret (0, s)) (\<lambda>(r, s).
          if r < 0 then Ret (Some (-1, wtime, rtime), True, s)
          else bindR (freeproc i s) (\<lambda>s. Ret (Some (sint (p_pid np), wtime, rtime), True, s)))
        else waitx_scan me addr is True s
      else waitx_scan me addr is kids s)"

definition waitx :: "nat \<Rightarrow> u64 \<Rightarrow> 'a kproc_scheme \<Rightarrow> (io \<times> (u32 \<times> u32) option \<times> 'a kproc_scheme) res" where
  "waitx me addr s =
     bindR (waitx_scan me addr [0..<length (procs s)] False s) (\<lambda>(r, kids, s). case r of
       Some (r, wtime, rtime) \<Rightarrow> Ret (Done r, Some (wtime, rtime), s)
     | None \<Rightarrow>
         if \<not> kids \<or> p_killed (procs s ! me) then Ret (Done (-1), None, s)
         else Ret (Asleep (Chan_proc me) 0, None, s))"

end
