(* ===== verification/Exec.thy ===== *)
theory Exec
  imports Process
begin

text \<open>
  \<^verbatim>\<open>kernel/exec.c\<close> and \<open>sys_exec\<close>: replacing the memory of a process by a program read from a file.
  The objects \<open>elf\<close>, \<open>ph\<close> and \<open>ustack\<close> on the kernel stack are byte lists that pass through the buffer
  \<open>kbuf\<close>; the strings of \<open>argv\<close> are pages of their own, as in the source.
\<close>

section \<open>Program headers\<close>

definition ELF_MAGIC :: u32 where "ELF_MAGIC = 0x464C457F"

definition ELF_PROG_LOAD :: u32 where "ELF_PROG_LOAD = 1"

record elfhdr =
  elf_magic :: u32
  elf_elf :: "u8 list"
  elf_type :: u16
  elf_machine :: u16
  elf_version :: u32
  elf_entry :: u64
  elf_phoff :: u64
  elf_shoff :: u64
  elf_flags :: u32
  elf_ehsize :: u16
  elf_phentsize :: u16
  elf_phnum :: u16
  elf_shentsize :: u16
  elf_shnum :: u16
  elf_shstrndx :: u16

record proghdr =
  ph_type :: u32
  ph_flags :: u32
  ph_off :: u64
  ph_vaddr :: u64
  ph_paddr :: u64
  ph_filesz :: u64
  ph_memsz :: u64
  ph_align :: u64

text \<open>The fields in the layout the C compiler gives the structures.\<close>

definition get_elfhdr :: "u8 list \<Rightarrow> elfhdr" where
  "get_elfhdr bs = \<lparr>elf_magic = le_word (take 4 bs),
     elf_elf = take 12 (drop 4 bs),
     elf_type = le_word (take 2 (drop 16 bs)),
     elf_machine = le_word (take 2 (drop 18 bs)),
     elf_version = le_word (take 4 (drop 20 bs)),
     elf_entry = le_word (take 8 (drop 24 bs)),
     elf_phoff = le_word (take 8 (drop 32 bs)),
     elf_shoff = le_word (take 8 (drop 40 bs)),
     elf_flags = le_word (take 4 (drop 48 bs)),
     elf_ehsize = le_word (take 2 (drop 52 bs)),
     elf_phentsize = le_word (take 2 (drop 54 bs)),
     elf_phnum = le_word (take 2 (drop 56 bs)),
     elf_shentsize = le_word (take 2 (drop 58 bs)),
     elf_shnum = le_word (take 2 (drop 60 bs)),
     elf_shstrndx = le_word (take 2 (drop 62 bs))\<rparr>"

definition get_proghdr :: "u8 list \<Rightarrow> proghdr" where
  "get_proghdr bs = \<lparr>ph_type = le_word (take 4 bs),
     ph_flags = le_word (take 4 (drop 4 bs)),
     ph_off = le_word (take 8 (drop 8 bs)),
     ph_vaddr = le_word (take 8 (drop 16 bs)),
     ph_paddr = le_word (take 8 (drop 24 bs)),
     ph_filesz = le_word (take 8 (drop 32 bs)),
     ph_memsz = le_word (take 8 (drop 40 bs)),
     ph_align = le_word (take 8 (drop 48 bs))\<rparr>"

definition flags2perm :: "u32 \<Rightarrow> u64" where
  "flags2perm flags =
     (let perm = (if flags AND 1 \<noteq> 0 then PTE_X else 0)
      in if flags AND 2 \<noteq> 0 then perm OR PTE_W else perm)"

section \<open>Loading\<close>

lemma next_page:
  fixes i :: u32
  assumes "\<not> i + ucast PGSIZE < i"
  shows "2 ^ 32 - unat (i + ucast PGSIZE) < 2 ^ 32 - unat i"
proof -
  have p: "ucast PGSIZE = (4096 :: u32)" by (simp add: PGSIZE_def)
  have "unat (i + 4096) = unat i + unat (4096 :: u32)" using assms by (simp add: p unat_plus_simple not_less)
  moreover have "unat (i + 4096) < 2 ^ 32" using unsigned_less [of "i + 4096"] by simp
  ultimately show ?thesis by (simp add: p)
qed

text \<open>
  The loop of \<open>loadseg\<close>. The counter is a 32-bit integer; should it wrap around, every page has been
  read without an error and the loop starts over for ever, which is \<^const>\<open>Block\<close>.
\<close>

function loadseg_loop :: "nat \<Rightarrow> u64 \<Rightarrow> u64 \<Rightarrow> nat \<Rightarrow> u32 \<Rightarrow> u32 \<Rightarrow> u32 \<Rightarrow> 'a kfs_scheme \<Rightarrow> (int \<times> 'a kfs_scheme) res" where
  "loadseg_loop me pagetable va ip offset sz i s =
     (if i < sz then
        bindR (walkaddr pagetable (va + ucast i) s) (\<lambda>pa.
        if pa = 0 then Panic ''loadseg: address should exist''
        else
          let n = (if sz - i < ucast PGSIZE then sz - i else ucast PGSIZE) in
          bindR (readi me ip False pa (offset + i) n s) (\<lambda>(r, s).
          if r \<noteq> n then Ret (-1, s)
          else if i + ucast PGSIZE < i then Block
          else loadseg_loop me pagetable va ip offset sz (i + ucast PGSIZE) s))
      else Ret (0, s))"
  by pat_completeness auto
termination
  by (relation "measure (\<lambda>(me, pagetable, va, ip, offset, sz, i, s). 2 ^ 32 - unat i)") (use next_page in auto)

definition loadseg :: "nat \<Rightarrow> u64 \<Rightarrow> u64 \<Rightarrow> nat \<Rightarrow> u32 \<Rightarrow> u32 \<Rightarrow> 'a kfs_scheme \<Rightarrow> (int \<times> 'a kfs_scheme) res" where
  "loadseg me pagetable va ip offset sz s = loadseg_loop me pagetable va ip offset sz 0 s"

text \<open>
  The loop over the program headers. The result tells whether the loop came to its end; the
  size is what \<open>bad\<close> has to free.
\<close>

fun exec_segs :: "nat \<Rightarrow> nat \<Rightarrow> u64 \<Rightarrow> nat \<Rightarrow> u32 \<Rightarrow> u64 \<Rightarrow> 'a kfs_scheme \<Rightarrow> (bool \<times> u64 \<times> 'a kfs_scheme) res" where
  "exec_segs me ip pagetable 0 off sz s = Ret (True, sz, s)"
| "exec_segs me ip pagetable (Suc n) off sz s =
     bindR (readi me ip False (kbuf s) off 56 s) (\<lambda>(r, s).
     if r \<noteq> 56 then Ret (False, sz, s)
     else
       let ph = get_proghdr (get_bytes (mem s) (kbuf s) 56) in
       if ph_type ph \<noteq> ELF_PROG_LOAD then exec_segs me ip pagetable n (off + 56) sz s
       else if ph_memsz ph < ph_filesz ph then Ret (False, sz, s)
       else if ph_vaddr ph + ph_memsz ph < ph_vaddr ph then Ret (False, sz, s)
       else
         bindR (uvmalloc pagetable sz (ph_vaddr ph + ph_memsz ph) (flags2perm (ph_flags ph)) s) (\<lambda>(sz1, s).
         if sz1 = 0 then Ret (False, sz, s)
         else if ph_vaddr ph mod PGSIZE \<noteq> 0 then Ret (False, sz1, s)
         else
           bindR (loadseg me pagetable (ph_vaddr ph) ip (ucast (ph_off ph)) (ucast (ph_filesz ph)) s) (\<lambda>(r, s).
           if r < 0 then Ret (False, sz1, s)
           else exec_segs me ip pagetable n (off + 56) sz1 s)))"

section \<open>Arguments\<close>

text \<open>
  Pushing the argument strings. \<open>ustack\<close> holds the addresses pushed so far; the result is \<open>None\<close> where
  the code goes to \<open>bad\<close>.
\<close>

function exec_args :: "u64 \<Rightarrow> u64 \<Rightarrow> u64 list \<Rightarrow> u64 list \<Rightarrow> u64 \<Rightarrow> 'a kmem_scheme \<Rightarrow>
    ((u64 list \<times> u64) option \<times> 'a kmem_scheme) res" where
  "exec_args pagetable stackbase argv ustack sp s =
     (let argc = length ustack in
      if argc \<ge> length argv then Undef
      else if argv ! argc = 0 then Ret (Some (ustack, sp), s)
      else if argc \<ge> MAXARG then Ret (None, s)
      else case strlen (mem s) (argv ! argc) of None \<Rightarrow> Block
      | Some n \<Rightarrow>
          let sp = sp - of_nat (n + 1);
              sp = sp - sp mod 16 in
          if sp < stackbase then Ret (None, s)
          else bindR (copyout pagetable sp (argv ! argc) (of_nat (n + 1)) s) (\<lambda>(r, s).
            if r < 0 then Ret (None, s)
            else exec_args pagetable stackbase argv (ustack @ [sp]) sp s))"
  by pat_completeness auto
termination
  by (relation "measure (\<lambda>(pagetable, stackbase, argv, ustack, sp, s). length argv - length ustack)") auto

section \<open>exec\<close>

definition exec_bad :: "nat \<Rightarrow> u64 \<Rightarrow> u64 \<Rightarrow> nat option \<Rightarrow> 'a kfs_scheme \<Rightarrow> (int \<times> 'a kfs_scheme) res" where
  "exec_bad me pagetable sz r s =
     bindR (if pagetable \<noteq> 0 then proc_freepagetable pagetable sz s else Ret s) (\<lambda>s.
     case r of
       None \<Rightarrow> Ret (-1, s)
     | Some ip \<Rightarrow> bindR (do_fs (iunlockput (my_pid me s) ip) s) (\<lambda>s. end_with me (-1) s))"

text \<open>From the stack on: the file is closed, the new image becomes that of the process.\<close>

definition exec_name :: "u8 list \<Rightarrow> string" where
  "exec_name path =
     take 15 (map (\<lambda>b. char_of (unat b)) (rev (takeWhile (\<lambda>b. b \<noteq> 47) (rev path))))"

definition exec_stack :: "nat \<Rightarrow> u64 \<Rightarrow> u64 \<Rightarrow> u64 \<Rightarrow> u8 list \<Rightarrow> u64 list \<Rightarrow> 'a kfs_scheme \<Rightarrow> (int \<times> 'a kfs_scheme) res" where
  "exec_stack me pagetable main_at sz path argv s =
     (let oldsz = p_sz (procs s ! me); sz = PGROUNDUP sz in
      bindR (uvmalloc pagetable sz (sz + 2 * PGSIZE) PTE_W s) (\<lambda>(sz1, s).
      if sz1 = 0 then exec_bad me pagetable sz None s
      else
        let sz = sz1 in
        bindR (uvmclear pagetable (sz - 2 * PGSIZE) s) (\<lambda>s.
        let sp = sz; stackbase = sp - PGSIZE in
        bindR (exec_args pagetable stackbase argv [] sp s) (\<lambda>(r, s). case r of
          None \<Rightarrow> exec_bad me pagetable sz None s
        | Some (ustack, sp) \<Rightarrow>
            let argc = length ustack;
                sp = sp - of_nat (argc + 1) * 8;
                sp = sp - sp mod 16 in
            if sp < stackbase then exec_bad me pagetable sz None s
            else bindR (copyout_obj pagetable sp (concat (map (le_bytes 8) (ustack @ [0]))) s) (\<lambda>(r, s).
              if r < 0 then exec_bad me pagetable sz None s
              else
                let s = tf_set me 120 sp s;
                    s = upd_proc me (p_name_update (\<lambda>_. exec_name path)) s;
                    oldpagetable = p_pagetable (procs s ! me);
                    s = upd_proc me (\<lambda>p. p\<lparr>p_pagetable := pagetable, p_sz := sz\<rparr>) s;
                    s = tf_set me 24 main_at s;
                    s = tf_set me 48 sp s in
                bindR (proc_freepagetable oldpagetable oldsz s) (\<lambda>s. Ret (int argc, s)))))))"

definition exec :: "nat \<Rightarrow> u8 list \<Rightarrow> u64 list \<Rightarrow> 'a kfs_scheme \<Rightarrow> (int \<times> 'a kfs_scheme) res" where
  "exec me path argv s =
     bindR (do_fs begin_op s) (\<lambda>s.
     bindR (namei me path s) (\<lambda>(r, s). case r of
       None \<Rightarrow> end_with me (-1) s
     | Some ip \<Rightarrow>
         bindR (do_fs (ilock (my_pid me s) ip) s) (\<lambda>s.
         bindR (readi me ip False (kbuf s) 0 64 s) (\<lambda>(r, s).
         if r \<noteq> 64 then exec_bad me 0 0 (Some ip) s
         else
           let elf = get_elfhdr (get_bytes (mem s) (kbuf s) 64) in
           if elf_magic elf \<noteq> ELF_MAGIC then exec_bad me 0 0 (Some ip) s
           else bindR (proc_pagetable (p_trapframe (procs s ! me)) s) (\<lambda>(pagetable, s).
             if pagetable = 0 then exec_bad me 0 0 (Some ip) s
             else
               bindR (exec_segs me ip pagetable (unat (elf_phnum elf)) (ucast (elf_phoff elf)) 0 s) (\<lambda>(ok, sz, s).
               if \<not> ok then exec_bad me pagetable sz (Some ip) s
               else
                 bindR (do_fs (iunlockput (my_pid me s) ip) s) (\<lambda>s.
                 bindR (do_fs (end_op (my_pid me s)) s) (\<lambda>s.
                 exec_stack me pagetable (elf_entry elf) sz path argv s))))))))"

section \<open>The system call\<close>

text \<open>
  Fetching the arguments: one page each. The second result is the array \<open>argv\<close> up to the first null,
  the first tells whether the null was found.
\<close>

fun exec_fetch :: "nat \<Rightarrow> u64 \<Rightarrow> nat \<Rightarrow> u64 list \<Rightarrow> 'a kproc_scheme \<Rightarrow> (bool \<times> u64 list \<times> 'a kproc_scheme) res" where
  "exec_fetch me uargv 0 argv s = Ret (False, argv, s)"
| "exec_fetch me uargv (Suc n) argv s =
     bindR (fetchaddr me (uargv + 8 * of_nat (length argv)) s) (\<lambda>(r, uarg, s).
     if r < 0 then Ret (False, argv, s)
     else if uarg = 0 then Ret (True, argv, s)
     else bindR (kalloc s) (\<lambda>(a, s).
       if a = 0 then Ret (False, argv, s)
       else bindR (copyinstr (p_pagetable (procs s ! me)) a uarg PGSIZE s) (\<lambda>(r, s).
         if r < 0 then Ret (False, argv @ [a], s)
         else exec_fetch me uargv n (argv @ [a]) s)))"

definition sys_exec :: "nat \<Rightarrow> 'a kfs_scheme \<Rightarrow> (int \<times> 'a kfs_scheme) res" where
  "sys_exec me s =
     bindR (argaddr me 1 s) (\<lambda>uargv.
     bindR (argstr me 0 MAXPATH s) (\<lambda>(n, path, s).
     if n < 0 then Ret (-1, s)
     else bindR (exec_fetch me uargv MAXARG [] s) (\<lambda>(ok, argv, s).
       bindR (if ok then exec me path (argv @ [0]) s else Ret (-1, s)) (\<lambda>(ret, s).
       bindR (foldR kfree argv s) (\<lambda>s. Ret (ret, s))))))"

end
