(* ===== verification/Printf.thy ===== *)
theory Printf
  imports Console
begin

text \<open>
  \<^verbatim>\<open>kernel/printf.c\<close>: formatted output to the console, and \<open>panic\<close>. The lock \<open>pr.lock\<close> is left out;
  strings are the bytes before the terminating null.
\<close>

section \<open>Numbers\<close>

definition ascii :: "string \<Rightarrow> u8 list" where
  "ascii = map (\<lambda>c. of_nat (of_char c))"

definition digits :: "u8 list" where
  "digits = ascii ''0123456789abcdef''"

text \<open>
  The \<open>do\<close> loop of \<open>printint\<close>: the contents of \<open>buf\<close>, least significant digit first. A base below two
  makes the loop run for ever or divide by zero; no caller has one.
\<close>

partial_function (option) printint_loop :: "u8 list \<Rightarrow> u32 \<Rightarrow> u32 \<Rightarrow> u8 list option" where
  "printint_loop digs base x =
     (if base = 0 then None
      else if x div base \<noteq> 0 then
        Option.bind (printint_loop digs base (x div base)) (\<lambda>buf. Some (digs ! unat (x mod base) # buf))
      else Some [digs ! unat (x mod base)])"

definition putcs :: "u8 list \<Rightarrow> 'a kcons_scheme \<Rightarrow> 'a kcons_scheme res" where
  "putcs cs s = foldR (\<lambda>c. consputc (ucast c)) cs s"

definition printint :: "s32 \<Rightarrow> u32 \<Rightarrow> bool \<Rightarrow> 'a kcons_scheme \<Rightarrow> 'a kcons_scheme res" where
  "printint xx base sign s =
     (let neg = (sign \<and> sint xx < 0); x = (if neg then - xx else xx) in
      case printint_loop digits base x of None \<Rightarrow> Block
      | Some buf \<Rightarrow>
          let buf = (if neg then buf @ ascii ''-'' else buf) in
          if length buf > 16 then Undef else putcs (rev buf) s)"

fun printptr_loop :: "nat \<Rightarrow> u64 \<Rightarrow> u8 list" where
  "printptr_loop 0 x = []"
| "printptr_loop (Suc n) x = digits ! unat (drop_bit 60 x) # printptr_loop n (push_bit 4 x)"

definition printptr :: "u64 \<Rightarrow> 'a kcons_scheme \<Rightarrow> 'a kcons_scheme res" where
  "printptr x s = putcs (ascii ''0x'' @ printptr_loop 16 x) s"

section \<open>printf and panic\<close>

text \<open>The arguments after the format; taking one that is missing or of another type is undefined.\<close>

datatype va = Va_int s32 | Va_uint64 u64 | Va_str "u8 list option"

fun printf_loop :: "u8 list \<Rightarrow> va list \<Rightarrow> 'a kcons_scheme \<Rightarrow> 'a kcons_scheme res" where
  "printf_loop [] ap s = Ret s"
| "printf_loop [c] ap s = (if c \<noteq> 37 then consputc (ucast c) s else Ret s)"
| "printf_loop (c # d # fmt) ap s =
     (if c \<noteq> 37 then bindR (consputc (ucast c) s) (printf_loop (d # fmt) ap)
      else if d = 100 then
        (case ap of Va_int n # ap \<Rightarrow> bindR (printint n 10 True s) (printf_loop fmt ap) | _ \<Rightarrow> Undef)
      else if d = 120 then
        (case ap of Va_int n # ap \<Rightarrow> bindR (printint n 16 True s) (printf_loop fmt ap) | _ \<Rightarrow> Undef)
      else if d = 112 then
        (case ap of Va_uint64 x # ap \<Rightarrow> bindR (printptr x s) (printf_loop fmt ap) | _ \<Rightarrow> Undef)
      else if d = 115 then
        (case ap of Va_str z # ap \<Rightarrow>
           bindR (putcs (case z of None \<Rightarrow> ascii ''(null)'' | Some bs \<Rightarrow> bs) s) (printf_loop fmt ap) | _ \<Rightarrow> Undef)
      else if d = 37 then bindR (putcs (ascii ''%'') s) (printf_loop fmt ap)
      else bindR (putcs [37, d] s) (printf_loop fmt ap))"

definition printf :: "u8 list \<Rightarrow> va list \<Rightarrow> 'a kcons_scheme \<Rightarrow> 'a kcons_scheme res" where
  "printf fmt ap s = printf_loop fmt ap s"

text \<open>The state in which \<open>panic\<close> spins for ever.\<close>

definition panic :: "u8 list \<Rightarrow> 'a kcons_scheme \<Rightarrow> 'a kcons_scheme res" where
  "panic msg s =
     bindR (printf (ascii ''panic: '') [] s) (\<lambda>s.
     bindR (printf msg [] s) (\<lambda>s.
     bindR (printf [10] [] s) (\<lambda>s.
     Ret (s\<lparr>panicked := True\<rparr>))))"

section \<open>What is printed\<close>

text \<open>The digits of a number in a base, least significant first, and the number they stand for.\<close>

fun base_digits :: "nat \<Rightarrow> nat \<Rightarrow> nat \<Rightarrow> nat list" where
  "base_digits 0 b n = []"
| "base_digits (Suc k) b n = n mod b # (if n div b = 0 then [] else base_digits k b (n div b))"

definition digits_value :: "nat \<Rightarrow> nat list \<Rightarrow> nat" where
  "digits_value b ds = foldr (\<lambda>d n. d + b * n) ds 0"

lemma base_digits_value: "2 \<le> b \<Longrightarrow> n < b ^ k \<Longrightarrow> digits_value b (base_digits k b n) = n"
proof (induction k arbitrary: n)
  case (Suc k)
  have "n div b < b ^ k" using Suc.prems by (simp add: less_mult_imp_div_less mult.commute)
  moreover have "n mod b = n" if "n div b = 0" using that by (metis add_0 div_mult_mod_eq mult_0)
  ultimately show ?case using Suc.IH [of "n div b"] Suc.prems(1) by (auto simp: digits_value_def)
qed (simp add: digits_value_def)

lemma base_digits_less: "0 < b \<Longrightarrow> d \<in> set (base_digits k b n) \<Longrightarrow> d < b"
  by (induction k arbitrary: n) (auto split: if_splits)

lemma base_digits_length: "length (base_digits k b n) \<le> k"
  by (induction k arbitrary: n) auto

lemma base_digits_nonempty: "0 < k \<Longrightarrow> base_digits k b n \<noteq> []" "0 < k \<Longrightarrow> base_digits k b 0 = [0]"
  by (cases k; simp)+

lemma base_digits_last: "0 < n \<Longrightarrow> 2 \<le> b \<Longrightarrow> n < b ^ k \<Longrightarrow> last (base_digits k b n) \<noteq> 0"
proof (induction k arbitrary: n)
  case (Suc k)
  show ?case
  proof (cases "n div b = 0")
    case False
    have "n div b < b ^ k" using Suc.prems by (simp add: less_mult_imp_div_less mult.commute)
    moreover have "k \<noteq> 0" using calculation False by (cases k) auto
    ultimately show ?thesis using Suc.IH [of "n div b"] False Suc.prems(2) by (cases k) auto
  qed (use Suc.prems in \<open>simp add: div_eq_0_iff\<close>)
qed simp

lemma printint_loop_digits:
  assumes "2 \<le> unat base" and "unat x < unat base ^ k" and "0 < k"
  shows "printint_loop digs base x = Some (map ((!) digs) (base_digits k (unat base) (unat x)))"
  using assms(2,3)
proof (induction k arbitrary: x)
  case (Suc k)
  have b: "base \<noteq> 0" using assms(1) by auto
  show ?case
  proof (cases "x div base = 0")
    case True
    then have "unat x div unat base = 0" by (metis unat_div unat_0)
    then show ?thesis using True b by (subst printint_loop.simps) (simp add: unat_mod)
  next
    case False
    then have d: "unat (x div base) = unat x div unat base" "unat x div unat base \<noteq> 0"
      by (auto simp: unat_div simp flip: unat_eq_zero)
    moreover have "unat x div unat base < unat base ^ k"
      using Suc.prems(1) assms(1) by (simp add: less_mult_imp_div_less mult.commute)
    moreover have "0 < k" using calculation by (cases k) auto
    ultimately have "printint_loop digs base (x div base) = Some (map ((!) digs) (base_digits k (unat base) (unat x div unat base)))"
      using Suc.IH [of "x div base"] by simp
    then show ?thesis using False b d by (subst printint_loop.simps) (simp add: unat_mod)
  qed
qed simp

lemma ucast_back: "ucast (ucast (c :: u8) :: u32) = c"
  by (rule bit_word_eqI) (auto simp: bit_simps)

lemma putcs_out: "\<not> panicked s \<Longrightarrow> putcs cs s = Ret (s\<lparr>tx_out := tx_out s @ cs\<rparr>)"
proof (induction cs arbitrary: s)
  case (Cons c cs)
  have "ucast c \<noteq> BACKSPACE"
  proof
    assume "ucast c = BACKSPACE"
    then have "uint (ucast c :: u32) = uint BACKSPACE" by simp
    then show False using unsigned_less [of c, where ?'a = int] by (simp add: BACKSPACE_def unsigned_ucast_eq take_bit_eq_mod)
  qed
  then have "consputc (ucast c) s = Ret (s\<lparr>tx_out := tx_out s @ [c]\<rparr>)"
    using Cons.prems ucast_back [of c] by (simp add: consputc_def uartputc_sync_def)
  then show ?case using Cons by (simp add: putcs_def)
qed (simp add: putcs_def)

lemma uint_nonneg_sint:
  fixes x :: s32
  assumes "0 \<le> sint x"
  shows "int (unat x) = sint x"
proof -
  have "uint x = sint x" unfolding uint_sint using assms sint_less [of x] by (intro take_bit_int_eq_self) simp_all
  then show ?thesis by simp
qed

lemma uint_minus_neg:
  fixes x :: s32
  assumes "sint x < 0"
  shows "int (unat (- x)) = - sint x"
proof -
  have r: "- 2147483648 \<le> sint x" using sint_greater_eq [of x] by simp
  have "uint (- x) = take_bit 32 (- uint x)" using uint_word_ariths(4) [of x] by (simp add: take_bit_eq_mod)
  also have "\<dots> = take_bit 32 (- sint x)" by (simp add: uint_sint take_bit_minus)
  also have "\<dots> = - sint x" using assms r by (intro take_bit_int_eq_self) simp_all
  finally show ?thesis by simp
qed

text \<open>
  C24 In base 10 or 16 \<open>printint\<close> prints the numeral of its argument: a minus sign exactly if it is to
  be signed and is negative, then the digits of the magnitude, most significant first and
  without leading zeros. The buffer of 16 bytes is large enough for every argument.
\<close>

theorem printint_correct:
  fixes s :: "'a kcons_scheme"
  assumes b: "base = 10 \<or> base = 16" and p: "\<not> panicked s"
  shows "\<exists>ds. printint xx base sign s =
      Ret (s\<lparr>tx_out := tx_out s @ (if sign \<and> sint xx < 0 then ascii ''-'' else []) @ map ((!) digits) (rev ds)\<rparr>) \<and>
    int (digits_value (unat base) ds) = (if sign then \<bar>sint xx\<bar> else uint xx) \<and>
    (\<forall>d \<in> set ds. d < unat base) \<and> (ds = [0] \<or> ds \<noteq> [] \<and> last ds \<noteq> 0)"
proof -
  define neg where "neg = (sign \<and> sint xx < 0)"
  define x where "x = (if neg then - xx else xx)"
  define ds where "ds = base_digits 10 (unat base) (unat x)"
  have b2: "2 \<le> unat base" and k: "unat x < unat base ^ 10"
  proof -
    have "unat x < 4294967296" using unsigned_less [of x, where ?'a = nat] by simp
    moreover have "unat base = 10 \<or> unat base = 16" using b by auto
    ultimately show "2 \<le> unat base" "unat x < unat base ^ 10" by auto
  qed
  have l: "printint_loop digits base x = Some (map ((!) digits) ds)"
    unfolding ds_def by (rule printint_loop_digits [OF b2 k]) simp
  have len: "length ds \<le> 10" unfolding ds_def by (rule base_digits_length)
  have "printint xx base sign s =
      Ret (s\<lparr>tx_out := tx_out s @ (if sign \<and> sint xx < 0 then ascii ''-'' else []) @ map ((!) digits) (rev ds)\<rparr>)"
    unfolding printint_def Let_def neg_def [symmetric] x_def [symmetric] l option.case
    using len p by (simp add: putcs_out rev_map ascii_def)
  moreover have "int (unat x) = (if sign then \<bar>sint xx\<bar> else uint xx)"
    using uint_minus_neg [of xx] uint_nonneg_sint [of xx] unfolding x_def neg_def
    by (cases "sint xx < 0"; cases sign) simp_all
  then have "int (digits_value (unat base) ds) = (if sign then \<bar>sint xx\<bar> else uint xx)"
    using base_digits_value [OF b2 k] by (simp add: ds_def)
  moreover have "\<forall>d \<in> set ds. d < unat base"
  proof
    fix d assume "d \<in> set ds"
    then show "d < unat base" unfolding ds_def by (rule base_digits_less [rotated]) (use b2 in linarith)
  qed
  moreover have "ds = [0] \<or> ds \<noteq> [] \<and> last ds \<noteq> 0"
  proof (cases "unat x = 0")
    case True
    then show ?thesis by (simp add: ds_def base_digits_nonempty)
  next
    case False
    then show ?thesis using base_digits_last [OF _ b2 k] by (simp add: ds_def base_digits_nonempty)
  qed
  ultimately show ?thesis by (intro exI [of _ ds] conjI)
qed

theorem printint_correct_witness:
  "\<not> panicked demo_cons \<and> (\<exists>ds. printint (-42) 10 True demo_cons =
     Ret (demo_cons\<lparr>tx_out := tx_out demo_cons @ ascii ''-'' @ map ((!) digits) (rev ds)\<rparr>) \<and> digits_value 10 ds = 42)"
proof -
  have p: "\<not> panicked demo_cons" by (simp add: demo_cons_def)
  from printint_correct [of 10, OF _ p, of "-42" True] show ?thesis using p by auto
qed

text \<open>Once a panic has been printed, nothing is printed any more.\<close>

lemma panic_freezes:
  assumes "panic msg s = Ret t"
  shows "putcs (c # cs) t = Block"
  using assms by (auto simp: panic_def res_simps putcs_def consputc_def uartputc_sync_def)

end
