(* ===== verification/Syscall.thy ===== *)
theory Syscall
  imports Exec Printf
begin

text \<open>
  \<^verbatim>\<open>kernel/sysproc.c\<close> and the dispatch of \<^verbatim>\<open>kernel/syscall.c\<close>. A call either has a value, sleeps, gives up
  the CPU before it returns its value, or never returns.
\<close>

section \<open>Outcomes of a system call\<close>

datatype sysret = Value u64 | Sleeps chan int | Yields u64 | Exits

definition ret_int :: "(int \<times> 's) res \<Rightarrow> (sysret \<times> 's) res" where
  "ret_int r = bindR r (\<lambda>(v, s). Ret (Value (of_int v), s))"

definition ret_io :: "(io \<times> 's) res \<Rightarrow> (sysret \<times> 's) res" where
  "ret_io r = bindR r (\<lambda>(v, s). case v of Done v \<Rightarrow> Ret (Value (of_int v), s) | Asleep ch n \<Rightarrow> Ret (Sleeps ch n, s))"

section \<open>Processes\<close>

definition sys_exit :: "nat \<Rightarrow> 'a kfs_scheme \<Rightarrow> (sysret \<times> 'a kfs_scheme) res" where
  "sys_exit me s =
     bindR (argint me 0 s) (\<lambda>n.
     bindR (exit me n s) (\<lambda>s. Ret (Exits, s)))"

definition sys_set_priority :: "nat \<Rightarrow> 'a kproc_scheme \<Rightarrow> (sysret \<times> 'a kproc_scheme) res" where
  "sys_set_priority me s =
     bindR (argint me 0 s) (\<lambda>pid.
     bindR (argint me 1 s) (\<lambda>new_priority.
     let (old, do_yield, ps) = set_priority pid new_priority (procs s);
         s = s\<lparr>procs := ps\<rparr> in
     Ret (if do_yield then Yields (of_int (sint old)) else Value (of_int (sint old)), s)))"

definition sys_getpid :: "nat \<Rightarrow> 'a kproc_scheme \<Rightarrow> (sysret \<times> 'a kproc_scheme) res" where
  "sys_getpid me s = Ret (Value (of_int (sint (p_pid (procs s ! me)))), s)"

definition sys_fork :: "nat \<Rightarrow> 'a ksys_scheme \<Rightarrow> (sysret \<times> 'a ksys_scheme) res" where
  "sys_fork me s = ret_int (fork me s)"

definition sys_wait :: "nat \<Rightarrow> 'a kproc_scheme \<Rightarrow> (sysret \<times> 'a kproc_scheme) res" where
  "sys_wait me s = bindR (argaddr me 0 s) (\<lambda>p. ret_io (wait me p s))"

definition sys_sbrk :: "nat \<Rightarrow> 'a kproc_scheme \<Rightarrow> (sysret \<times> 'a kproc_scheme) res" where
  "sys_sbrk me s =
     bindR (argint me 0 s) (\<lambda>n.
     let addr = p_sz (procs s ! me) in
     bindR (growproc me n s) (\<lambda>(r, s). Ret (Value (if r < 0 then - 1 else addr), s)))"

text \<open>
  One pass of the loop of \<open>sys_sleep\<close>: the comparison of the unsigned difference with the signed
  argument is unsigned.
\<close>

definition sleep_pass :: "nat \<Rightarrow> s32 \<Rightarrow> u32 \<Rightarrow> 'a kproc_scheme \<Rightarrow> (sysret \<times> 'a kproc_scheme) res" where
  "sleep_pass me n ticks0 s =
     (if kticks s - ticks0 < n then
        if killed me (procs s) then Ret (Value (- 1), s) else Ret (Sleeps Chan_ticks (uint ticks0), s)
      else Ret (Value 0, s))"

definition sys_sleep :: "nat \<Rightarrow> 'a kproc_scheme \<Rightarrow> (sysret \<times> 'a kproc_scheme) res" where
  "sys_sleep me s = bindR (argint me 0 s) (\<lambda>n. sleep_pass me n (kticks s) s)"

definition sys_kill :: "nat \<Rightarrow> 'a kproc_scheme \<Rightarrow> (sysret \<times> 'a kproc_scheme) res" where
  "sys_kill me s =
     bindR (argint me 0 s) (\<lambda>pid.
     let (r, ps) = kill pid (procs s) in Ret (Value (of_int r), s\<lparr>procs := ps\<rparr>))"

definition sys_uptime :: "'a kproc_scheme \<Rightarrow> (sysret \<times> 'a kproc_scheme) res" where
  "sys_uptime s = Ret (Value (ucast (kticks s)), s)"

text \<open>
  \<open>junk\<close> is what the stack held where the variables \<open>wtime\<close> and \<open>rtime\<close> are; it is copied out when
  \<open>waitx\<close> did not store to them.
\<close>

definition sys_waitx :: "u32 \<times> u32 \<Rightarrow> nat \<Rightarrow> 'a kproc_scheme \<Rightarrow> (sysret \<times> 'a kproc_scheme) res" where
  "sys_waitx junk me s =
     bindR (argaddr me 0 s) (\<lambda>addr.
     bindR (argaddr me 1 s) (\<lambda>addr1.
     bindR (argaddr me 2 s) (\<lambda>addr2.
     bindR (waitx me addr s) (\<lambda>(r, times, s). case r of
       Asleep ch n \<Rightarrow> Ret (Sleeps ch n, s)
     | Done r \<Rightarrow>
         let (wtime, rtime) = (case times of Some ts \<Rightarrow> ts | None \<Rightarrow> junk);
             pt = p_pagetable (procs s ! me) in
         bindR (copyout_obj pt addr1 (le_bytes 4 wtime) s) (\<lambda>(e, s).
         if e < 0 then Ret (Value (- 1), s)
         else bindR (copyout_obj pt addr2 (le_bytes 4 rtime) s) (\<lambda>(e, s).
           if e < 0 then Ret (Value (- 1), s) else Ret (Value (of_int r), s)))))))"

section \<open>Dispatch\<close>

definition syscalls :: "u32 \<times> u32 \<Rightarrow> nat \<Rightarrow> (nat \<Rightarrow> 'a ksys_scheme \<Rightarrow> (sysret \<times> 'a ksys_scheme) res) option" where
  "syscalls junk num =
     (if num = 1 then Some sys_fork
      else if num = 2 then Some sys_exit
      else if num = 3 then Some sys_wait
      else if num = 4 then Some (\<lambda>me s. ret_int (sys_pipe me s))
      else if num = 5 then Some (\<lambda>me s. ret_io (sys_read me s))
      else if num = 6 then Some sys_kill
      else if num = 7 then Some (\<lambda>me s. ret_int (sys_exec me s))
      else if num = 8 then Some (\<lambda>me s. ret_int (sys_fstat me s))
      else if num = 9 then Some (\<lambda>me s. ret_int (sys_chdir me s))
      else if num = 10 then Some (\<lambda>me s. ret_int (sys_dup me s))
      else if num = 11 then Some sys_getpid
      else if num = 12 then Some sys_sbrk
      else if num = 13 then Some sys_sleep
      else if num = 14 then Some (\<lambda>me. sys_uptime)
      else if num = 15 then Some (\<lambda>me s. ret_int (sys_open me s))
      else if num = 16 then Some (\<lambda>me s. ret_io (sys_write me s))
      else if num = 17 then Some (\<lambda>me s. ret_int (sys_mknod me s))
      else if num = 18 then Some (\<lambda>me s. ret_int (sys_unlink me s))
      else if num = 19 then Some (\<lambda>me s. ret_int (sys_link me s))
      else if num = 20 then Some (\<lambda>me s. ret_int (sys_mkdir me s))
      else if num = 21 then Some (\<lambda>me s. ret_int (sys_close me s))
      else if num = 22 then Some (sys_waitx junk)
      else if num = 23 then Some (\<lambda>me s. ret_int (Ret (sys_getreadcount s)))
      else if num = 24 then Some sys_set_priority
      else None)"

text \<open>
  The value of the call goes to \<open>a0\<close>. A call that slept or gave up the CPU stores it when it is done,
  which is the business of the pass that ends it.
\<close>

definition store_result :: "nat \<Rightarrow> sysret \<times> 'a kproc_scheme \<Rightarrow> sysret \<times> 'a kproc_scheme" where
  "store_result me = (\<lambda>(r, s). (r, case r of Value v \<Rightarrow> tf_set me 112 v s | _ \<Rightarrow> s))"

definition syscall :: "u32 \<times> u32 \<Rightarrow> nat \<Rightarrow> 'a ksys_scheme \<Rightarrow> (sysret \<times> 'a ksys_scheme) res" where
  "syscall junk me s =
     (let num = (ucast (tf_get me 168 s) :: s32) in
      case (if sint num > 0 \<and> sint num < 25 then syscalls junk (nat (sint num)) else None) of
        Some f \<Rightarrow> bindR (f me s) (\<lambda>r. Ret (store_result me r))
      | None \<Rightarrow>
          bindR (printf (ascii ''%d %s: unknown sys call %d'' @ [10])
            [Va_int (p_pid (procs s ! me)), Va_str (Some (ascii (p_name (procs s ! me)))), Va_int num] s) (\<lambda>s.
          Ret (Value (- 1), tf_set me 112 (- 1) s)))"

end
