(* ===== verification/Virtio.thy ===== *)
theory Virtio
  imports Proc Ring Kalloc
begin

text \<open>
  \<^verbatim>\<open>kernel/virtio_disk.c\<close>: the driver of the disk. The rings shared with the device are fields of the
  driver's record; an address handed to the device is a value of type \<open>dma\<close> that names the object
  it points to. The device itself is not code of the kernel: its register file is a
  parameter of the initialisation, its work on a request a step of the environment.
\<close>

section \<open>State\<close>

definition NUM :: u16 where "NUM = 8"

lemma unat_NUM [simp]: "unat NUM = 8"
  by (simp add: NUM_def)

definition VRING_DESC_F_NEXT :: u16 where "VRING_DESC_F_NEXT = 1"
definition VRING_DESC_F_WRITE :: u16 where "VRING_DESC_F_WRITE = 2"

definition VIRTIO_BLK_T_IN :: u32 where "VIRTIO_BLK_T_IN = 0"
definition VIRTIO_BLK_T_OUT :: u32 where "VIRTIO_BLK_T_OUT = 1"

datatype dma = Dma0 | Dma_op nat | Dma_data nat | Dma_status nat

record virtq_desc =
  d_addr :: dma
  d_len :: u32
  d_flags :: u16
  d_next :: u16

record virtio_blk_req =
  r_type :: u32
  r_reserved :: u32
  r_sector :: u64

text \<open>
  \<open>struct disk\<close> with the two rings it points to, the flag \<open>disk\<close> of every buffer and the wakeups done.
\<close>

record vdisk =
  desc :: "virtq_desc list"
  avail_idx :: u16
  avail_ring :: "u16 list"
  dev_used_idx :: u16
  used_ring :: "u32 list"
  free :: "bool list"
  used_idx :: u16
  info_b :: "nat option list"
  info_status :: "u8 list"
  ops :: "virtio_blk_req list"
  b_disk :: "nat \<Rightarrow> bool"
  woken :: "chan list"

section \<open>Initialisation\<close>

text \<open>
  \<open>dev ws r\<close> is what the device answers when register \<open>r\<close> is read after the writes \<open>ws\<close>. The result has
  the writes in order and the three pages of the queue.
\<close>

definition features_mask :: u32 where
  "features_mask = NOT (push_bit 5 1) AND NOT (push_bit 7 1) AND NOT (push_bit 11 1) AND NOT (push_bit 12 1) AND
     NOT (push_bit 27 1) AND NOT (push_bit 29 1) AND NOT (push_bit 28 1)"

definition low32 :: "u64 \<Rightarrow> u32" where "low32 x = ucast x"
definition high32 :: "u64 \<Rightarrow> u32" where "high32 x = ucast (drop_bit 32 x)"

definition virtio_disk_init :: "((u32 \<times> u32) list \<Rightarrow> u32 \<Rightarrow> u32) \<Rightarrow> 'a kmem_scheme \<Rightarrow>
    ((u32 \<times> u32) list \<times> u64 list \<times> 'a kmem_scheme) res" where
  "virtio_disk_init dev s =
     (if dev [] 0x000 \<noteq> 0x74726976 \<or> dev [] 0x004 \<noteq> 2 \<or> dev [] 0x008 \<noteq> 2 \<or> dev [] 0x00c \<noteq> 0x554d4551
      then Panic ''could not find virtio disk''
      else
        let ws = [(0x070, 0), (0x070, 1), (0x070, 3)];
            ws = ws @ [(0x020, dev ws 0x010 AND features_mask)];
            ws = ws @ [(0x070, 11)];
            status = dev ws 0x070 in
        if status AND 8 = 0 then Panic ''virtio disk FEATURES_OK unset''
        else
          let ws = ws @ [(0x030, 0)] in
          if dev ws 0x044 \<noteq> 0 then Panic ''virtio disk should not be ready''
          else if dev ws 0x034 = 0 then Panic ''virtio disk has no queue 0''
          else if dev ws 0x034 < ucast NUM then Panic ''virtio disk max queue too short''
          else
            bindR (kalloc s) (\<lambda>(desc', s).
            bindR (kalloc s) (\<lambda>(avail', s).
            bindR (kalloc s) (\<lambda>(used', s).
            if desc' = 0 \<or> avail' = 0 \<or> used' = 0 then Panic ''virtio disk kalloc''
            else
              let s = s\<lparr>mem := memset (mem s) desc' 0 (unat PGSIZE)\<rparr>;
                  s = s\<lparr>mem := memset (mem s) avail' 0 (unat PGSIZE)\<rparr>;
                  s = s\<lparr>mem := memset (mem s) used' 0 (unat PGSIZE)\<rparr>
              in Ret (ws @ [(0x038, ucast NUM), (0x080, low32 desc'), (0x084, high32 desc'), (0x090, low32 avail'),
                  (0x094, high32 avail'), (0x0a0, low32 used'), (0x0a4, high32 used'), (0x044, 1), (0x070, status OR 4)],
                [desc', avail', used'], s)))))"

text \<open>The device is told to go last of all, when its queue has been set up.\<close>

lemma virtio_disk_init_last:
  assumes "virtio_disk_init dev s = Ret (ws, qs, s')"
  shows "\<exists>ws' status. ws = ws' @ [(0x044, 1), (0x070, status OR 4)] \<and> status AND 8 \<noteq> 0 \<and> length qs = 3 \<and> 0 \<notin> set qs"
  using assms by (auto simp: virtio_disk_init_def Let_def res_simps split: if_splits)

section \<open>Descriptors\<close>

definition alloc_desc :: "'a vdisk_scheme \<Rightarrow> nat option \<times> 'a vdisk_scheme" where
  "alloc_desc d =
     (case find (\<lambda>i. free d ! i) [0..<unat NUM] of
        None \<Rightarrow> (None, d)
      | Some i \<Rightarrow> (Some i, d\<lparr>free := (free d)[i := False]\<rparr>))"

definition no_desc :: virtq_desc where
  "no_desc = \<lparr>d_addr = Dma0, d_len = 0, d_flags = 0, d_next = 0\<rparr>"

definition free_desc :: "nat \<Rightarrow> 'a vdisk_scheme \<Rightarrow> 'a vdisk_scheme res" where
  "free_desc i d =
     (if i \<ge> unat NUM then Panic ''free_desc 1''
      else if free d ! i then Panic ''free_desc 2''
      else Ret (d\<lparr>desc := (desc d)[i := no_desc],
        free := (free d)[i := True], woken := woken d @ [Chan_disk]\<rparr>))"

text \<open>
  Every round of \<open>free_chain\<close> frees a descriptor or panics, so the loop ends; an index past the
  table is read before \<open>free_desc\<close> complains, which is undefined.
\<close>

function free_chain :: "nat \<Rightarrow> 'a vdisk_scheme \<Rightarrow> 'a vdisk_scheme res" where
  "free_chain i d =
     (if i \<ge> length (desc d) then Undef
      else
        let flag = d_flags (desc d ! i); nxt = d_next (desc d ! i) in
        bindR (free_desc i d) (\<lambda>d.
        if flag AND VRING_DESC_F_NEXT \<noteq> 0 then free_chain (unat nxt) d else Ret d))"
  by pat_completeness auto
termination
proof (relation "measure (\<lambda>(i, d). card {j. j < length (desc d) \<and> d_flags (desc d ! j) AND VRING_DESC_F_NEXT \<noteq> 0})", goal_cases)
  case (2 i d flag nxt d')
  have "{j. j < length (desc d') \<and> d_flags (desc d' ! j) AND VRING_DESC_F_NEXT \<noteq> 0} \<subset>
      {j. j < length (desc d) \<and> d_flags (desc d ! j) AND VRING_DESC_F_NEXT \<noteq> 0}" (is "?A \<subset> ?B")
  proof
    have d': "desc d' = (desc d)[i := no_desc]"
      using 2(4) by (auto simp: free_desc_def split: if_splits)
    show "?A \<subseteq> ?B"
    proof
      fix j assume "j \<in> ?A"
      then show "j \<in> ?B" by (cases "j = i") (auto simp: d' no_desc_def)
    qed
    have "i \<in> ?B" using 2(1,2,5) by simp
    moreover have "i \<notin> ?A" by (auto simp: d' no_desc_def)
    ultimately show "?A \<noteq> ?B" by blast
  qed
  then show ?case by (auto intro: psubset_card_mono)
qed simp

declare free_chain.simps [simp del]

definition alloc3_desc :: "'a vdisk_scheme \<Rightarrow> (nat list option \<times> 'a vdisk_scheme) res" where
  "alloc3_desc d =
     (case alloc_desc d of
        (None, d) \<Rightarrow> Ret (None, d)
      | (Some i0, d) \<Rightarrow>
          (case alloc_desc d of
             (None, d) \<Rightarrow> bindR (free_desc i0 d) (\<lambda>d. Ret (None, d))
           | (Some i1, d) \<Rightarrow>
               (case alloc_desc d of
                  (None, d) \<Rightarrow> bindR (free_desc i0 d) (\<lambda>d. bindR (free_desc i1 d) (\<lambda>d. Ret (None, d)))
                | (Some i2, d) \<Rightarrow> Ret (Some [i0, i1, i2], d))))"

section \<open>Requests\<close>

text \<open>
  The middle part of \<open>virtio_disk_rw\<close>: the three descriptors are formatted and the first is put on
  the ring. The first part is the attempt to get them, which the caller repeats after
  sleeping on \<^const>\<open>Chan_disk\<close>; the last part follows the interrupt.
\<close>

definition rw_format :: "nat \<Rightarrow> u32 \<Rightarrow> bool \<Rightarrow> nat \<Rightarrow> nat \<Rightarrow> nat \<Rightarrow> 'a vdisk_scheme \<Rightarrow> 'a vdisk_scheme" where
  "rw_format b blockno write i0 i1 i2 d =
     (let d = d\<lparr>ops := (ops d)[i0 := \<lparr>r_type = (if write then VIRTIO_BLK_T_OUT else VIRTIO_BLK_T_IN), r_reserved = 0,
            r_sector = ucast (blockno * 2)\<rparr>]\<rparr>;
          d = d\<lparr>desc := (desc d)[i0 := \<lparr>d_addr = Dma_op i0, d_len = 16, d_flags = VRING_DESC_F_NEXT, d_next = of_nat i1\<rparr>]\<rparr>;
          d = d\<lparr>desc := (desc d)[i1 := \<lparr>d_addr = Dma_data b, d_len = 1024,
            d_flags = (if write then 0 else VRING_DESC_F_WRITE) OR VRING_DESC_F_NEXT, d_next = of_nat i2\<rparr>]\<rparr>;
          d = d\<lparr>info_status := (info_status d)[i0 := 0xff]\<rparr>;
          d = d\<lparr>desc := (desc d)[i2 := \<lparr>d_addr = Dma_status i0, d_len = 1, d_flags = VRING_DESC_F_WRITE, d_next = 0\<rparr>]\<rparr>;
          d = d\<lparr>b_disk := (b_disk d)(b := True), info_b := (info_b d)[i0 := Some b]\<rparr>;
          d = d\<lparr>avail_ring := (avail_ring d)[unat (avail_idx d mod NUM) := of_nat i0]\<rparr>
      in d\<lparr>avail_idx := avail_idx d + 1\<rparr>)"

definition rw_start :: "nat \<Rightarrow> u32 \<Rightarrow> bool \<Rightarrow> 'a vdisk_scheme \<Rightarrow> (nat option \<times> 'a vdisk_scheme) res" where
  "rw_start b blockno write d =
     bindR (alloc3_desc d) (\<lambda>(r, d). case r of
       None \<Rightarrow> Ret (None, d)
     | Some idx \<Rightarrow> Ret (Some (idx ! 0), rw_format b blockno write (idx ! 0) (idx ! 1) (idx ! 2) d))"

definition rw_finish :: "nat \<Rightarrow> 'a vdisk_scheme \<Rightarrow> 'a vdisk_scheme res" where
  "rw_finish i0 d = free_chain i0 (d\<lparr>info_b := (info_b d)[i0 := None]\<rparr>)"

text \<open>The interrupt handler; a null buffer is dereferenced when the device names a free chain.\<close>

function virtio_disk_intr :: "'a vdisk_scheme \<Rightarrow> 'a vdisk_scheme res" where
  "virtio_disk_intr d =
     (if used_idx d = dev_used_idx d then Ret d
      else
        let id = unat (used_ring d ! unat (used_idx d mod NUM)) in
        if id \<ge> unat NUM then Undef
        else if info_status d ! id \<noteq> 0 then Panic ''virtio_disk_intr status''
        else case info_b d ! id of
          None \<Rightarrow> Undef
        | Some b \<Rightarrow>
            virtio_disk_intr (d\<lparr>b_disk := (b_disk d)(b := False), woken := woken d @ [Chan_buf b], used_idx := used_idx d + 1\<rparr>))"
  by pat_completeness auto
termination
proof (relation "measure (\<lambda>d. unat (dev_used_idx d - used_idx d))", goal_cases)
  case (2 d id b)
  define e where "e = dev_used_idx d - used_idx d"
  have h: "dev_used_idx d - (used_idx d + 1) = e - 1" by (simp add: e_def)
  have "e \<noteq> 0" using 2(1) by (simp add: e_def)
  then have "unat (e - 1) < unat e" using unat_minus_one [of e] unat_gt_0 [of e] by simp
  then have "unat (dev_used_idx d - (used_idx d + 1)) < unat (dev_used_idx d - used_idx d)" by (simp only: h e_def)
  then show ?case by simp
qed simp

declare virtio_disk_intr.simps [simp del]

section \<open>Threads, the device and the interrupt\<close>

text \<open>
  A thread wants a transfer, sleeps until descriptors are freed, or waits for the request whose
  chain starts at the given descriptor. The device takes chains off the available ring in order,
  works on them in any order, writes a zero status through the third descriptor and reports the
  head on the used ring.
\<close>

datatype vthread = V_idle | V_want nat u32 bool | V_asleep nat u32 bool | V_wait nat nat

record vsys = vdisk +
  thr :: "nat \<Rightarrow> vthread"
  dev_seen :: u16
  pending :: "nat list"

fun vbuf :: "vthread \<Rightarrow> nat option" where
  "vbuf V_idle = None"
| "vbuf (V_want b n w) = Some b"
| "vbuf (V_asleep b n w) = Some b"
| "vbuf (V_wait i b) = Some b"

definition next_desc :: "'a vdisk_scheme \<Rightarrow> nat \<Rightarrow> nat" where
  "next_desc s i = unat (d_next (desc s ! i))"

definition dev_take :: "vsys \<Rightarrow> vsys" where
  "dev_take s = s\<lparr>pending := unat (avail_ring s ! unat (dev_seen s mod NUM)) # pending s, dev_seen := dev_seen s + 1\<rparr>"

definition dev_complete :: "nat \<Rightarrow> vsys \<Rightarrow> vsys" where
  "dev_complete i s =
     (let s = (case d_addr (desc s ! next_desc s (next_desc s i)) of
                 Dma_status j \<Rightarrow> s\<lparr>info_status := (info_status s)[j := 0]\<rparr> | _ \<Rightarrow> s)
      in s\<lparr>used_ring := (used_ring s)[unat (dev_used_idx s mod NUM) := of_nat i],
           dev_used_idx := dev_used_idx s + 1, pending := remove1 i (pending s)\<rparr>)"

text \<open>The wakeups of the driver reach the threads that sleep.\<close>

fun rouse :: "bool \<Rightarrow> vthread \<Rightarrow> vthread" where
  "rouse True (V_asleep b n w) = V_want b n w"
| "rouse k x = x"

lemma rouse_simps [simp]:
  "rouse k x = V_wait i b \<longleftrightarrow> x = V_wait i b" "vbuf (rouse k x) = vbuf x"
  "rouse k x = V_asleep b n w \<longleftrightarrow> \<not> k \<and> x = V_asleep b n w"
  by (cases "(k, x)" rule: rouse.cases; simp)+

definition deliver :: "vsys \<Rightarrow> vsys" where
  "deliver s = s\<lparr>thr := (\<lambda>t. rouse (Chan_disk \<in> set (woken s)) (thr s t)), woken := []\<rparr>"

definition set_thr :: "nat \<Rightarrow> vthread \<Rightarrow> vsys \<Rightarrow> vsys" where
  "set_thr t x s = s\<lparr>thr := (thr s)(t := x)\<rparr>"

inductive vstep :: "vsys \<Rightarrow> vsys \<Rightarrow> bool" where
  call: "thr s t = V_idle \<Longrightarrow> (\<And>u. vbuf (thr s u) \<noteq> Some b) \<Longrightarrow> vstep s (set_thr t (V_want b n w) s)"
| start: "thr s t = V_want b n w \<Longrightarrow> rw_start b n w s = Ret (Some i, s') \<Longrightarrow>
    vstep s (deliver (set_thr t (V_wait i b) s'))"
| full: "thr s t = V_want b n w \<Longrightarrow> rw_start b n w s = Ret (None, s') \<Longrightarrow>
    vstep s (set_thr t (V_asleep b n w) (deliver s'))"
| take: "dev_seen s \<noteq> avail_idx s \<Longrightarrow> vstep s (dev_take s)"
| complete: "i \<in> set (pending s) \<Longrightarrow> vstep s (dev_complete i s)"
| intr: "virtio_disk_intr s = Ret s' \<Longrightarrow> vstep s (deliver s')"
| finish: "thr s t = V_wait i b \<Longrightarrow> \<not> b_disk s b \<Longrightarrow> rw_finish i s = Ret s' \<Longrightarrow>
    vstep s (deliver (set_thr t V_idle s'))"

text \<open>After \<open>virtio_disk_init\<close>: zeroed rings, every descriptor free.\<close>

definition vinit :: "vsys \<Rightarrow> bool" where
  "vinit s \<longleftrightarrow> (\<exists>d0. desc s = replicate 8 d0) \<and> avail_idx s = 0 \<and> avail_ring s = replicate 8 0 \<and>
     dev_used_idx s = 0 \<and> used_ring s = replicate 8 0 \<and> free s = replicate 8 True \<and> used_idx s = 0 \<and>
     info_b s = replicate 8 None \<and> length (info_status s) = 8 \<and> length (ops s) = 8 \<and>
     b_disk s = (\<lambda>_. False) \<and> woken s = [] \<and> thr s = (\<lambda>_. V_idle) \<and> dev_seen s = 0 \<and> pending s = []"

section \<open>The invariant\<close>

interpretation vr: ring_buffer NUM 3
  by unfold_locales (simp_all add: NUM_def)

definition chain :: "'a vdisk_scheme \<Rightarrow> nat \<Rightarrow> nat set" where
  "chain s i = {i, next_desc s i, next_desc s (next_desc s i)}"

definition good_chain :: "'a vdisk_scheme \<Rightarrow> nat \<Rightarrow> bool" where
  "good_chain s i \<longleftrightarrow> card (chain s i) = 3 \<and> (\<forall>j \<in> chain s i. j < 8 \<and> \<not> free s ! j) \<and>
     d_flags (desc s ! i) AND VRING_DESC_F_NEXT \<noteq> 0 \<and>
     d_flags (desc s ! next_desc s i) AND VRING_DESC_F_NEXT \<noteq> 0 \<and>
     d_flags (desc s ! next_desc s (next_desc s i)) AND VRING_DESC_F_NEXT = 0 \<and>
     d_addr (desc s ! next_desc s (next_desc s i)) = Dma_status i"

text \<open>The requests the driver has handed over and not yet seen completed.\<close>

definition avail_win :: "vsys \<Rightarrow> nat list" where
  "avail_win s = map unat (ring_list NUM (avail_ring s) (dev_seen s) (avail_idx s))"

definition used_win :: "vsys \<Rightarrow> nat list" where
  "used_win s = map unat (ring_list NUM (used_ring s) (used_idx s) (dev_used_idx s))"

definition in_flight :: "vsys \<Rightarrow> nat list" where
  "in_flight s = avail_win s @ pending s @ used_win s"

definition vlen :: "'a vdisk_scheme \<Rightarrow> bool" where
  "vlen s \<longleftrightarrow> length (desc s) = 8 \<and> length (avail_ring s) = 8 \<and> length (used_ring s) = 8 \<and> length (free s) = 8 \<and>
     length (info_b s) = 8 \<and> length (info_status s) = 8 \<and> length (ops s) = 8"

definition waits :: "vsys \<Rightarrow> (nat \<times> nat \<times> nat) set" where
  "waits s = {(t, i, b). thr s t = V_wait i b}"

definition chains_ok :: "vsys \<Rightarrow> bool" where
  "chains_ok s \<longleftrightarrow>
     (\<forall>(t, i, b) \<in> waits s. good_chain s i \<and> info_b s ! i = Some b) \<and>
     (\<forall>(t, i, b) \<in> waits s. \<forall>(u, j, c) \<in> waits s. t \<noteq> u \<longrightarrow> chain s i \<inter> chain s j = {}) \<and>
     (\<forall>k < 8. \<not> free s ! k \<longrightarrow> (\<exists>(t, i, b) \<in> waits s. k \<in> chain s i))"

definition bufs_ok :: "vsys \<Rightarrow> bool" where
  "bufs_ok s \<longleftrightarrow> (\<forall>t u b. vbuf (thr s t) = Some b \<longrightarrow> vbuf (thr s u) = Some b \<longrightarrow> t = u)"

definition flight_ok :: "vsys \<Rightarrow> bool" where
  "flight_ok s \<longleftrightarrow> distinct (in_flight s) \<and> set (in_flight s) \<subseteq> {i. \<exists>t b. (t, i, b) \<in> waits s} \<and>
     (\<forall>(t, i, b) \<in> waits s. b_disk s b \<longleftrightarrow> i \<in> set (in_flight s)) \<and> (\<forall>i \<in> set (used_win s). info_status s ! i = 0)"

definition sleep_ok :: "vsys \<Rightarrow> bool" where
  "sleep_ok s \<longleftrightarrow> (\<forall>t b n w. thr s t = V_asleep b n w \<longrightarrow> card {i. i < 8 \<and> free s ! i} < 3)"

definition vinv :: "vsys \<Rightarrow> bool" where
  "vinv s \<longleftrightarrow> vlen s \<and> chains_ok s \<and> bufs_ok s \<and> flight_ok s \<and> sleep_ok s"

section \<open>What the operations do\<close>

lemma alloc_desc_cases:
  obtains "alloc_desc d = (None, d)" and "\<forall>i < 8. \<not> free d ! i"
  | i where "alloc_desc d = (Some i, d\<lparr>free := (free d)[i := False]\<rparr>)" and "i < 8" and "free d ! i"
proof (cases "find (\<lambda>i. free d ! i) [0..<8]")
  case None
  then have "\<forall>i < 8. \<not> free d ! i" by (simp add: find_None_iff)
  then show ?thesis using that(1) None by (simp add: alloc_desc_def)
next
  case (Some i)
  then have "i < 8" "free d ! i" by (auto simp: find_Some_iff)
  then show ?thesis using that(2) Some by (simp add: alloc_desc_def)
qed

lemma free_desc_undo:
  assumes "i < 8" and "free d ! i" and "length (free d) = 8" and "free e = (free d)[i := False]"
  shows "free_desc i e = Ret (e\<lparr>desc := (desc e)[i := no_desc], free := free d,
    woken := woken e @ [Chan_disk]\<rparr>)"
proof -
  have "(free d)[i := True] = free d" using assms(2) list_update_id [of "free d" i] by simp
  then show ?thesis using assms by (simp add: free_desc_def)
qed

lemma alloc3_spec:
  fixes d :: "'a vdisk_scheme"
  assumes len: "length (free d) = 8"
  obtains i0 i1 i2 where "alloc3_desc d = Ret (Some [i0, i1, i2], d\<lparr>free := (free d)[i0 := False, i1 := False, i2 := False]\<rparr>)"
    and "distinct [i0, i1, i2]" and "i0 < 8" "i1 < 8" "i2 < 8" and "free d ! i0" "free d ! i1" "free d ! i2"
  | ds wk where "alloc3_desc d = Ret (None, d\<lparr>desc := ds, woken := wk\<rparr>)" and "length ds = length (desc d)"
    and "\<And>i. i < 8 \<Longrightarrow> \<not> free d ! i \<Longrightarrow> ds ! i = desc d ! i" and "card {i. i < 8 \<and> free d ! i} < 3"
proof (cases rule: alloc_desc_cases [of d])
  case 1
  have e: "{i. i < 8 \<and> free d ! i} = {}" using 1(2) by auto
  have "alloc3_desc d = Ret (None, d\<lparr>desc := desc d, woken := woken d\<rparr>)" using 1(1) by (simp add: alloc3_desc_def)
  then show ?thesis by (rule that(2)) (simp_all only: e, simp_all)
next
  case (2 i0)
  define d1 where "d1 = d\<lparr>free := (free d)[i0 := False]\<rparr>"
  have f1: "free d1 = (free d)[i0 := False]" by (simp add: d1_def)
  note a0 = 2(1) [folded d1_def]
  show ?thesis
  proof (cases rule: alloc_desc_cases [of d1])
    case 1
    have e: "{i. i < 8 \<and> free d ! i} = {i0}"
    proof (intro set_eqI iffI)
      fix i assume "i \<in> {i. i < 8 \<and> free d ! i}"
      then show "i \<in> {i0}" using 1(2) len by (cases "i = i0") (auto simp: f1)
    qed (use 2 in auto)
    have "alloc3_desc d = Ret (None, d\<lparr>desc := (desc d)[i0 := no_desc], woken := woken d @ [Chan_disk]\<rparr>)"
      using a0 1(1) free_desc_undo [OF 2(2,3) len f1] by (simp add: alloc3_desc_def d1_def)
    then show ?thesis
    proof (rule that(2))
      show "(desc d)[i0 := no_desc] ! i = desc d ! i" if "\<not> free d ! i" for i using that 2(3) by (cases "i = i0") auto
    qed (simp_all add: e)
  next
    case (2 i1)
    have n1: "i1 \<noteq> i0" "free d ! i1" using 2 \<open>i0 < 8\<close> len by (auto simp: f1 nth_list_update split: if_splits)
    define d2 where "d2 = d1\<lparr>free := (free d1)[i1 := False]\<rparr>"
    have f2: "free d2 = (free d1)[i1 := False]" by (simp add: d2_def)
    note a1 = 2(1) [folded d2_def]
    show ?thesis
    proof (cases rule: alloc_desc_cases [of d2])
      case 1
      have "{i. i < 8 \<and> free d ! i} \<subseteq> {i0, i1}"
      proof
        fix i assume "i \<in> {i. i < 8 \<and> free d ! i}"
        then show "i \<in> {i0, i1}" using 1(2) len by (cases "i = i0"; cases "i = i1") (auto simp: f1 f2)
      qed
      then have c: "card {i. i < 8 \<and> free d ! i} < 3" 
        using card_mono [of "{i0, i1}" "{i. i < 8 \<and> free d ! i}"] card_insert_le_m1 [of 2 "{i1}" i0] by (simp add: card_insert_if split: if_splits)
      have sw: "free d2 = ((free d)[i1 := False])[i0 := False]" using n1 by (simp add: f1 f2 list_update_swap)
      have u0: "free_desc i0 d2 = Ret (d2\<lparr>desc := (desc d)[i0 := no_desc], free := (free d)[i1 := False], woken := woken d @ [Chan_disk]\<rparr>)"
        using free_desc_undo [of i0 "d\<lparr>free := (free d)[i1 := False]\<rparr>" d2] sw \<open>i0 < 8\<close> \<open>free d ! i0\<close> n1 len by (simp add: d2_def d1_def)
      have u1: "free_desc i1 (d2\<lparr>desc := (desc d)[i0 := no_desc], free := (free d)[i1 := False], woken := woken d @ [Chan_disk]\<rparr>) =
          Ret (d\<lparr>desc := (desc d)[i0 := no_desc, i1 := no_desc], woken := (woken d @ [Chan_disk]) @ [Chan_disk]\<rparr>)"
        using free_desc_undo [of i1 d "d2\<lparr>desc := (desc d)[i0 := no_desc], free := (free d)[i1 := False], woken := woken d @ [Chan_disk]\<rparr>"]
          2(2) n1 len by (simp add: d2_def d1_def)
      have "alloc3_desc d = Ret (None, d\<lparr>desc := (desc d)[i0 := no_desc, i1 := no_desc], woken := (woken d @ [Chan_disk]) @ [Chan_disk]\<rparr>)"
        using a0 a1 1(1) u0 u1 by (simp add: alloc3_desc_def)
      then show ?thesis
      proof (rule that(2))
        show "(desc d)[i0 := no_desc, i1 := no_desc] ! i = desc d ! i" if "\<not> free d ! i" for i
          using that n1 \<open>free d ! i0\<close> by (cases "i = i0"; cases "i = i1") auto
      qed (use c in simp_all)
    next
      case (2 i2)
      have n2: "i2 \<noteq> i0" "i2 \<noteq> i1" "free d ! i2"
        using 2 \<open>i0 < 8\<close> \<open>i1 < 8\<close> len by (auto simp: f1 f2 nth_list_update split: if_splits)
      have "alloc3_desc d = Ret (Some [i0, i1, i2], d\<lparr>free := (free d)[i0 := False, i1 := False, i2 := False]\<rparr>)"
        using a0 a1 2(1) by (simp add: alloc3_desc_def d2_def d1_def)
      then show ?thesis by (rule that(1)) (use n1 n2 \<open>i0 < 8\<close> \<open>i1 < 8\<close> 2(2) \<open>free d ! i0\<close> in simp_all)
    qed
  qed
qed

subsection \<open>Chains\<close>

lemma chain_keep:
  assumes "\<And>k. k \<in> chain s i \<Longrightarrow> desc s' ! k = desc s ! k"
  shows "chain s' i = chain s i" and "next_desc s' i = next_desc s i"
    and "next_desc s' (next_desc s i) = next_desc s (next_desc s i)"
proof -
  show 1: "next_desc s' i = next_desc s i" using assms [of i] by (simp add: chain_def next_desc_def)
  show 2: "next_desc s' (next_desc s i) = next_desc s (next_desc s i)"
    using assms [of "next_desc s i"] by (simp add: chain_def next_desc_def)
  show "chain s' i = chain s i" unfolding chain_def 1 2 ..
qed

lemma good_chain_keep:
  assumes "\<And>k. k \<in> chain s i \<Longrightarrow> desc s' ! k = desc s ! k \<and> free s' ! k = free s ! k" and "good_chain s i"
  shows "good_chain s' i"
proof -
  have k: "\<And>k. k \<in> chain s i \<Longrightarrow> desc s' ! k = desc s ! k" using assms(1) by blast
  have m: "i \<in> chain s i" "next_desc s i \<in> chain s i" "next_desc s (next_desc s i) \<in> chain s i" by (auto simp: chain_def)
  show ?thesis using assms chain_keep [of s i s', OF k] m unfolding good_chain_def by simp
qed

lemma good_chainD:
  assumes "good_chain s i"
  shows "distinct [i, next_desc s i, next_desc s (next_desc s i)]"
    and "i < 8" and "next_desc s i < 8" and "next_desc s (next_desc s i) < 8"
    and "\<not> free s ! i" and "\<not> free s ! next_desc s i" and "\<not> free s ! next_desc s (next_desc s i)"
proof -
  show "distinct [i, next_desc s i, next_desc s (next_desc s i)]"
    using assms unfolding good_chain_def chain_def by (auto simp: card_insert_if split: if_splits)
qed (use assms in \<open>auto simp: good_chain_def chain_def\<close>)

lemma free_chain_good:
  fixes s :: "'a vdisk_scheme"
  assumes g: "good_chain s i" and len: "length (desc s) = 8" "length (free s) = 8"
  obtains s' where "free_chain i s = Ret s'"
    and "s' = s\<lparr>desc := desc s', free := free s', woken := woken s'\<rparr>" and "length (desc s') = 8" and "length (free s') = 8"
    and "\<And>k. k \<notin> chain s i \<Longrightarrow> desc s' ! k = desc s ! k \<and> free s' ! k = free s ! k"
    and "\<And>k. k \<in> chain s i \<Longrightarrow> free s' ! k" and "Chan_disk \<in> set (woken s')"
proof -
  define i1 where "i1 = next_desc s i"
  define i2 where "i2 = next_desc s i1"
  note D = good_chainD [OF g, folded i1_def, folded i2_def]
  have fl: "d_flags (desc s ! i) AND VRING_DESC_F_NEXT \<noteq> 0" "d_flags (desc s ! i1) AND VRING_DESC_F_NEXT \<noteq> 0"
      "d_flags (desc s ! i2) AND VRING_DESC_F_NEXT = 0"
    using g unfolding good_chain_def i1_def i2_def by blast+
  have c: "chain s i = {i, i1, i2}" by (simp add: chain_def i1_def i2_def)
  define f where "f = (\<lambda>k (d :: 'a vdisk_scheme). d\<lparr>desc := (desc d)[k := no_desc], free := (free d)[k := True], woken := woken d @ [Chan_disk]\<rparr>)"
  have fd: "free_desc k d = Ret (f k d)" if "k < 8" "\<not> free d ! k" for k d
    using that by (simp add: free_desc_def f_def)
  have nx: "unat (d_next (desc s ! i)) = i1" "unat (d_next (desc s ! i1)) = i2" by (simp_all add: i1_def i2_def next_desc_def)
  have n: "i1 \<noteq> i" "i2 \<noteq> i" "i2 \<noteq> i1" using D(1) by auto
  have "free_chain i s = free_chain i1 (f i s)"
    using len D(2,5) fl nx by (subst free_chain.simps) (simp add: fd)
  also have "\<dots> = free_chain i2 (f i1 (f i s))"
    using len D(3,6) fl nx n by (subst free_chain.simps) (simp add: fd f_def)
  also have "\<dots> = Ret (f i2 (f i1 (f i s)))"
    using len D(4,7) fl nx n by (subst free_chain.simps) (simp add: fd f_def)
  finally show thesis
  proof (rule that)
    show "desc (f i2 (f i1 (f i s))) ! k = desc s ! k \<and> free (f i2 (f i1 (f i s))) ! k = free s ! k" if "k \<notin> chain s i" for k
      using that by (simp add: c f_def)
    show "free (f i2 (f i1 (f i s))) ! k" if "k \<in> chain s i" for k
      using that D len n unfolding c f_def by (cases "k = i2"; cases "k = i1") simp_all
  qed (use len in \<open>simp_all add: f_def\<close>)
qed

lemma unat_small: "k < 8 \<Longrightarrow> unat (of_nat k :: u16) = k" "k < 8 \<Longrightarrow> unat (of_nat k :: u32) = k"
  by (simp_all add: unat_of_nat)

lemma rw_format_chain:
  fixes s :: "'a vdisk_scheme"
  assumes len: "length (desc s) = 8" "length (free s) = 8" and d: "distinct [i0, i1, i2]" and i: "i0 < 8" "i1 < 8" "i2 < 8"
    and f: "\<not> free s ! i0" "\<not> free s ! i1" "\<not> free s ! i2"
    and s'_def: "s' = rw_format b n w i0 i1 i2 s"
  shows "chain s' i0 = {i0, i1, i2}" and "good_chain s' i0" and "free s' = free s" and "length (desc s') = 8"
    and "\<And>k. k \<notin> {i0, i1, i2} \<Longrightarrow> desc s' ! k = desc s ! k"
proof -
  have ds: "desc s' = (desc s)[i0 := \<lparr>d_addr = Dma_op i0, d_len = 16, d_flags = VRING_DESC_F_NEXT, d_next = of_nat i1\<rparr>,
      i1 := \<lparr>d_addr = Dma_data b, d_len = 1024, d_flags = (if w then 0 else VRING_DESC_F_WRITE) OR VRING_DESC_F_NEXT, d_next = of_nat i2\<rparr>,
      i2 := \<lparr>d_addr = Dma_status i0, d_len = 1, d_flags = VRING_DESC_F_WRITE, d_next = 0\<rparr>]"
    by (simp add: s'_def rw_format_def Let_def)
  show fr: "free s' = free s" "length (desc s') = 8" using len by (simp_all add: s'_def rw_format_def Let_def)
  have nx: "next_desc s' i0 = i1" "next_desc s' i1 = i2"
    using d i len by (simp_all add: next_desc_def ds unat_small)
  show c: "chain s' i0 = {i0, i1, i2}" by (simp add: chain_def nx)
  show "good_chain s' i0"
    using d i f len unfolding good_chain_def c nx fr by (simp add: ds VRING_DESC_F_NEXT_def VRING_DESC_F_WRITE_def card_insert_if)
  show "desc s' ! k = desc s ! k" if "k \<notin> {i0, i1, i2}" for k using that by (simp add: ds)
qed

subsection \<open>The parts of the invariant\<close>

lemma chains_cong:
  assumes "desc s' = desc s" and "free s' = free s" and "info_b s' = info_b s" and "waits s' = waits s"
  shows "chains_ok s' = chains_ok s"
proof -
  have n: "next_desc s' = next_desc s" by (rule ext) (simp add: next_desc_def assms(1))
  have c: "chain s' = chain s" by (rule ext) (simp add: chain_def n)
  have g: "good_chain s' = good_chain s" by (rule ext) (simp add: good_chain_def c n assms(1,2))
  show ?thesis unfolding chains_ok_def c g assms ..
qed

lemma flight_cong:
  assumes "avail_win s' = avail_win s" and "pending s' = pending s" and "used_win s' = used_win s" and "waits s' = waits s"
    and "b_disk s' = b_disk s" and "info_status s' = info_status s"
  shows "flight_ok s' = flight_ok s"
  unfolding flight_ok_def in_flight_def assms ..

lemma win_cong:
  "avail_ring s' = avail_ring s \<Longrightarrow> dev_seen s' = dev_seen s \<Longrightarrow> avail_idx s' = avail_idx s \<Longrightarrow> avail_win s' = avail_win s"
  "used_ring s' = used_ring s \<Longrightarrow> used_idx s' = used_idx s \<Longrightarrow> dev_used_idx s' = dev_used_idx s \<Longrightarrow> used_win s' = used_win s"
  by (simp_all add: avail_win_def used_win_def)

lemma chainsD:
  assumes "chains_ok s" and "(t, i, b) \<in> waits s"
  shows "good_chain s i" and "info_b s ! i = Some b" and "(u, j, c) \<in> waits s \<Longrightarrow> t \<noteq> u \<Longrightarrow> chain s i \<inter> chain s j = {}"
proof -
  show "good_chain s i" "info_b s ! i = Some b" using assms unfolding chains_ok_def by fast+
  show "chain s i \<inter> chain s j = {}" if "(u, j, c) \<in> waits s" "t \<noteq> u" using assms that unfolding chains_ok_def by fast
qed

lemma chains_okI:
  assumes "\<And>t i b. (t, i, b) \<in> waits s \<Longrightarrow> good_chain s i" and "\<And>t i b. (t, i, b) \<in> waits s \<Longrightarrow> info_b s ! i = Some b"
    and "\<And>t i b u j c. (t, i, b) \<in> waits s \<Longrightarrow> (u, j, c) \<in> waits s \<Longrightarrow> t \<noteq> u \<Longrightarrow> chain s i \<inter> chain s j = {}"
    and "\<And>k. k < 8 \<Longrightarrow> \<not> free s ! k \<Longrightarrow> \<exists>t i b. (t, i, b) \<in> waits s \<and> k \<in> chain s i"
  shows "chains_ok s"
  unfolding chains_ok_def using assms by fast

lemma chains_used: "chains_ok s \<Longrightarrow> k < 8 \<Longrightarrow> \<not> free s ! k \<Longrightarrow> \<exists>t i b. (t, i, b) \<in> waits s \<and> k \<in> chain s i"
  unfolding chains_ok_def by fast

lemma waits_unique: "(t, i, b) \<in> waits s \<Longrightarrow> (t, j, c) \<in> waits s \<Longrightarrow> i = j \<and> b = c"
  by (simp add: waits_def)

lemma waits_head:
  assumes "chains_ok s" and "(t, i, b) \<in> waits s" and "(u, i, c) \<in> waits s"
  shows "t = u" and "b = c"
proof -
  show "t = u"
  proof (rule ccontr)
    assume "t \<noteq> u"
    then have "chain s i \<inter> chain s i = {}" by (rule chainsD(3) [OF assms])
    then show False by (simp add: chain_def)
  qed
  then show "b = c" using assms(2,3) by (simp add: waits_def)
qed

lemma waits_buf:
  assumes "bufs_ok s" and "(t, i, b) \<in> waits s" and "(u, j, b) \<in> waits s"
  shows "t = u" and "i = j"
proof -
  show "t = u" using assms unfolding bufs_ok_def waits_def by (metis (mono_tags, lifting) case_prodD mem_Collect_eq vbuf.simps(4))
  then show "i = j" using assms(2,3) by (simp add: waits_def)
qed

lemma flight_bound:
  assumes "chains_ok s" and "flight_ok s"
  shows "set (in_flight s) \<subseteq> {..<8}" and "length (in_flight s) = card (set (in_flight s))"
    and "length (avail_win s) \<le> length (in_flight s)" and "length (used_win s) \<le> length (in_flight s)"
proof -
  show "set (in_flight s) \<subseteq> {..<8}"
  proof
    fix i assume "i \<in> set (in_flight s)"
    then obtain t b where "(t, i, b) \<in> waits s" using assms(2) unfolding flight_ok_def by blast
    from good_chainD(2) [OF chainsD(1) [OF assms(1) this]] show "i \<in> {..<8}" by simp
  qed
  show "length (in_flight s) = card (set (in_flight s))" using assms(2) by (simp add: flight_ok_def distinct_card)
qed (simp_all add: in_flight_def)

lemma flight_room:
  assumes "chains_ok s" and "flight_ok s" and "i < 8" and "i \<notin> set xs" and "distinct xs" and "set xs \<subseteq> set (in_flight s)"
  shows "length xs < 8"
proof -
  have "set xs \<subseteq> {..<8} - {i}" using flight_bound(1) [OF assms(1,2)] assms(4,6) by auto
  then have "card (set xs) \<le> card ({..<8} - {i})" by (rule card_mono [rotated]) simp
  also have "\<dots> = 7" using assms(3) by simp
  finally show ?thesis using distinct_card [OF assms(5)] by simp
qed

lemma deliver_simps [simp]:
  "desc (deliver s) = desc s" "avail_idx (deliver s) = avail_idx s" "avail_ring (deliver s) = avail_ring s"
  "dev_used_idx (deliver s) = dev_used_idx s" "used_ring (deliver s) = used_ring s" "free (deliver s) = free s"
  "used_idx (deliver s) = used_idx s" "info_b (deliver s) = info_b s" "info_status (deliver s) = info_status s"
  "ops (deliver s) = ops s" "b_disk (deliver s) = b_disk s" "dev_seen (deliver s) = dev_seen s" "pending (deliver s) = pending s"
  "vbuf (thr (deliver s) t) = vbuf (thr s t)" "waits (deliver s) = waits s"
  by (simp_all add: deliver_def waits_def)

lemma deliver_sleep: "sleep_ok s \<Longrightarrow> sleep_ok (deliver s)"
  by (simp add: sleep_ok_def deliver_def)

lemma deliver_parts:
  "vlen (deliver s) = vlen s" "chains_ok (deliver s) = chains_ok s" "bufs_ok (deliver s) = bufs_ok s" "flight_ok (deliver s) = flight_ok s"
proof -
  show "chains_ok (deliver s) = chains_ok s" by (rule chains_cong) simp_all
  show "flight_ok (deliver s) = flight_ok s" by (intro flight_cong win_cong) simp_all
qed (simp_all add: vlen_def bufs_ok_def)

lemma deliver_inv: "vinv s \<Longrightarrow> vinv (deliver s)"
  using deliver_sleep [of s] by (simp add: vinv_def deliver_parts)

text \<open>
  A step changes the descriptors in \<open>X\<close> only: chains that do not meet \<open>X\<close> live on, and \<open>X\<close> is either
  freed or the chain of one thread.
\<close>

lemma chains_change:
  assumes ch: "chains_ok s" and keep: "\<And>k. k \<notin> X \<Longrightarrow> desc s' ! k = desc s ! k \<and> free s' ! k = free s ! k"
    and new: "\<And>u j c. (u, j, c) \<in> waits s' \<Longrightarrow> info_b s' ! j = Some c \<and>
      ((u, j, c) \<in> waits s \<and> chain s j \<inter> X = {} \<or> u = t \<and> chain s' j = X \<and> good_chain s' j)"
    and old: "\<And>u j c. (u, j, c) \<in> waits s \<Longrightarrow> chain s j \<inter> X = {} \<and> (u, j, c) \<in> waits s' \<or> chain s j \<subseteq> X"
    and X: "\<And>k. k < 8 \<Longrightarrow> k \<in> X \<Longrightarrow> free s' ! k \<or> (\<exists>u j c. (u, j, c) \<in> waits s' \<and> chain s' j = X)"
  shows "chains_ok s'"
proof -
  have c: "chain s' j = chain s j" "good_chain s' j" if "(u, j, c) \<in> waits s" "chain s j \<inter> X = {}" for u j c
  proof -
    have kk: "desc s' ! m = desc s ! m \<and> free s' ! m = free s ! m" if "m \<in> chain s j" for m
      using keep [of m] \<open>chain s j \<inter> X = {}\<close> that by blast
    show "chain s' j = chain s j" using kk by (intro chain_keep(1)) blast
    show "good_chain s' j" by (rule good_chain_keep [OF kk chainsD(1) [OF ch that(1)]])
  qed
  show ?thesis
  proof (rule chains_okI)
    fix u j e assume u: "(u, j, e) \<in> waits s'"
    show "good_chain s' j" "info_b s' ! j = Some e" using new [OF u] c by blast+
    show "chain s' j \<inter> chain s' m = {}" if "(v, m, f) \<in> waits s'" "u \<noteq> v" for v m f
      using new [OF u] new [OF that(1)] c(1) [of u j e] c(1) [of v m f] chainsD(3) [OF ch, of u j e v m f] that(2) by blast
  next
    fix k assume k: "k < 8" "\<not> free s' ! k"
    show "\<exists>u j c. (u, j, c) \<in> waits s' \<and> k \<in> chain s' j"
    proof (cases "k \<in> X")
      case True
      then show ?thesis using X [OF k(1)] k(2) by metis
    next
      case False
      then obtain u j e where "(u, j, e) \<in> waits s" "k \<in> chain s j" using chains_used [OF ch k(1)] keep k(2) by blast
      then show ?thesis using old [of u j e] c(1) [of u j e] False by blast
    qed
  qed
qed

subsection \<open>Every step keeps it\<close>

lemma vinit_inv: "vinit s \<Longrightarrow> vinv s"
  by (auto simp: vinit_def vinv_def vlen_def chains_ok_def waits_def bufs_ok_def flight_ok_def sleep_ok_def
      in_flight_def avail_win_def used_win_def)

lemma set_thr_simps [simp]:
  "desc (set_thr t x s) = desc s" "avail_idx (set_thr t x s) = avail_idx s" "avail_ring (set_thr t x s) = avail_ring s"
  "dev_used_idx (set_thr t x s) = dev_used_idx s" "used_ring (set_thr t x s) = used_ring s" "free (set_thr t x s) = free s"
  "used_idx (set_thr t x s) = used_idx s" "info_b (set_thr t x s) = info_b s" "info_status (set_thr t x s) = info_status s"
  "ops (set_thr t x s) = ops s" "b_disk (set_thr t x s) = b_disk s" "dev_seen (set_thr t x s) = dev_seen s"
  "pending (set_thr t x s) = pending s" "thr (set_thr t x s) = (thr s)(t := x)" "woken (set_thr t x s) = woken s"
  by (simp_all add: set_thr_def)

lemma waits_set_thr:
  "waits (set_thr t x s) = {(u, i, b). if u = t then x = V_wait i b else (u, i, b) \<in> waits s}"
  by (auto simp: waits_def split: if_splits)

text \<open>A change of the state of a thread that is not waiting.\<close>

lemma set_thr_inv:
  assumes inv: "vinv s" and t: "\<And>i b. thr s t \<noteq> V_wait i b" "\<And>i b. x \<noteq> V_wait i b"
    and b: "bufs_ok (set_thr t x s)" and sl: "\<And>b n w. x = V_asleep b n w \<Longrightarrow> card {i. i < 8 \<and> free s ! i} < 3"
  shows "vinv (set_thr t x s)"
proof -
  have w: "waits (set_thr t x s) = waits s" using t by (auto simp: waits_set_thr) (auto simp: waits_def)
  have "sleep_ok (set_thr t x s)" using inv sl by (auto simp: vinv_def sleep_ok_def)
  then show ?thesis
    using inv b chains_cong [of "set_thr t x s" s] flight_cong [of "set_thr t x s" s] win_cong [of "set_thr t x s" s] w
    by (simp add: vinv_def vlen_def)
qed

lemma call_inv:
  assumes "vinv s" and "thr s t = V_idle" and "\<And>u. vbuf (thr s u) \<noteq> Some b"
  shows "vinv (set_thr t (V_want b n w) s)"
proof (rule set_thr_inv [OF assms(1)])
  show "bufs_ok (set_thr t (V_want b n w) s)"
    using assms by (auto simp: vinv_def bufs_ok_def)
qed (use assms(2) in simp_all)

lemma full_inv:
  assumes inv: "vinv s" and t: "thr s t = V_want b n w" and r: "rw_start b n w s = Ret (None, s')"
  shows "vinv (set_thr t (V_asleep b n w) (deliver s'))"
proof -
  have len: "length (free s) = 8" using inv by (simp add: vinv_def vlen_def)
  obtain ds wk where s': "s' = s\<lparr>desc := ds, woken := wk\<rparr>" "length ds = length (desc s)"
      "\<And>i. i < 8 \<Longrightarrow> \<not> free s ! i \<Longrightarrow> ds ! i = desc s ! i" "card {i. i < 8 \<and> free s ! i} < 3"
    using r by (cases rule: alloc3_spec [OF len]) (auto simp: rw_start_def)
  have w: "waits s' = waits s" by (simp add: waits_def s'(1))
  have ch: "chains_ok s" using inv by (simp add: vinv_def)
  have "chains_ok s'"
  proof (rule chains_change [OF ch, of "{k. k \<ge> 8 \<or> free s ! k}"])
    fix u j c assume u: "(u, j, c) \<in> waits s"
    have "chain s j \<inter> {k. k \<ge> 8 \<or> free s ! k} = {}" using chainsD(1) [OF ch u] unfolding good_chain_def by auto
    then show "chain s j \<inter> {k. k \<ge> 8 \<or> free s ! k} = {} \<and> (u, j, c) \<in> waits s' \<or> chain s j \<subseteq> {k. k \<ge> 8 \<or> free s ! k}"
      using u w by blast
  next
    fix u j c assume u: "(u, j, c) \<in> waits s'"
    then show "info_b s' ! j = Some c \<and> ((u, j, c) \<in> waits s \<and> chain s j \<inter> {k. k \<ge> 8 \<or> free s ! k} = {} \<or>
        u = t \<and> chain s' j = {k. k \<ge> 8 \<or> free s ! k} \<and> good_chain s' j)"
      using chainsD(1,2) [OF ch, of u j c] unfolding w good_chain_def by (auto simp: s'(1))
  qed (auto simp: s'(1,3))
  moreover have "flight_ok s' = flight_ok s" using w by (intro flight_cong win_cong) (simp_all add: s'(1))
  ultimately have v: "vinv s'" using inv s'(1,2) by (simp add: vinv_def vlen_def bufs_ok_def sleep_ok_def)
  show ?thesis
  proof (rule set_thr_inv [OF deliver_inv [OF v]])
    have "thr (deliver s') t = V_want b n w" using t by (simp add: deliver_def s'(1))
    then show "\<And>i c. thr (deliver s') t \<noteq> V_wait i c" by simp
    have "vbuf (thr (deliver s') u) = vbuf (thr s u)" for u by (simp add: s'(1))
    moreover have "vbuf (thr s t) = Some b" using t by simp
    ultimately show "bufs_ok (set_thr t (V_asleep b n w) (deliver s'))"
      using inv by (auto simp: vinv_def bufs_ok_def simp del: deliver_simps)
  qed (use s'(1,4) in simp_all)
qed

lemma take_inv:
  assumes inv: "vinv s" and ne: "dev_seen s \<noteq> avail_idx s"
  shows "vinv (dev_take s)"
proof -
  have w: "waits (dev_take s) = waits s" by (simp add: waits_def dev_take_def)
  have a: "avail_win s = unat (avail_ring s ! unat (dev_seen s mod NUM)) # avail_win (dev_take s)"
    using vr.ring_pop [OF ne, of "avail_ring s"] by (simp add: avail_win_def dev_take_def)
  have u: "used_win (dev_take s) = used_win s" by (rule win_cong) (simp_all add: dev_take_def)
  have p: "pending (dev_take s) = unat (avail_ring s ! unat (dev_seen s mod NUM)) # pending s" by (simp add: dev_take_def)
  have fl: "set (in_flight (dev_take s)) = set (in_flight s)" "distinct (in_flight (dev_take s)) = distinct (in_flight s)"
    by (auto simp: in_flight_def a u p)
  have "flight_ok (dev_take s) = flight_ok s"
    unfolding flight_ok_def fl w u by (simp add: dev_take_def)
  moreover have "chains_ok (dev_take s) = chains_ok s" using w by (intro chains_cong) (simp_all add: dev_take_def)
  ultimately show ?thesis using inv by (simp add: vinv_def vlen_def bufs_ok_def sleep_ok_def dev_take_def)
qed

lemma vinvD:
  assumes "vinv s"
  shows "vlen s" and "chains_ok s" and "bufs_ok s" and "flight_ok s" and "sleep_ok s"
  using assms by (simp_all add: vinv_def)

lemma flightD:
  assumes "flight_ok s"
  shows "distinct (in_flight s)" and "i \<in> set (in_flight s) \<Longrightarrow> \<exists>t b. (t, i, b) \<in> waits s"
    and "(t, i, b) \<in> waits s \<Longrightarrow> b_disk s b \<longleftrightarrow> i \<in> set (in_flight s)" and "i \<in> set (used_win s) \<Longrightarrow> info_status s ! i = 0"
  using assms unfolding flight_ok_def by fast+

lemma flight_okI:
  assumes "distinct (in_flight s)" and "\<And>i. i \<in> set (in_flight s) \<Longrightarrow> \<exists>t b. (t, i, b) \<in> waits s"
    and "\<And>t i b. (t, i, b) \<in> waits s \<Longrightarrow> b_disk s b \<longleftrightarrow> i \<in> set (in_flight s)"
    and "\<And>i. i \<in> set (used_win s) \<Longrightarrow> info_status s ! i = 0"
  shows "flight_ok s"
  using assms unfolding flight_ok_def by fast

lemma complete_inv:
  assumes inv: "vinv s" and i: "i \<in> set (pending s)"
  shows "vinv (dev_complete i s)"
proof -
  note V = vinvD [OF inv] note F = flightD [OF V(4)]
  obtain t b where t: "(t, i, b) \<in> waits s" using F(2) [of i] i by (auto simp: in_flight_def)
  note g = chainsD(1) [OF V(2) t]
  have i8: "i < 8" by (rule good_chainD(2) [OF g])
  have e: "dev_complete i s = s\<lparr>info_status := (info_status s)[i := 0], used_ring := (used_ring s)[unat (dev_used_idx s mod NUM) := of_nat i],
      dev_used_idx := dev_used_idx s + 1, pending := remove1 i (pending s)\<rparr>" (is "_ = ?s'")
    using g by (simp add: dev_complete_def good_chain_def Let_def)
  have iu: "i \<notin> set (used_win s)" and d: "distinct (avail_win s)" "distinct (pending s)" "distinct (used_win s)"
    using F(1) i by (auto simp: in_flight_def)
  have l: "length (used_win s) < 8" using i8 iu d by (intro flight_room [OF V(2,4)]) (auto simp: in_flight_def)
  have u: "used_win ?s' = used_win s @ [i]"
    using vr.ring_push [of "dev_used_idx s" "used_idx s" "used_ring s" "of_nat i"] l V(1) i8
    by (simp add: used_win_def vlen_def unat_small)
  have a: "avail_win ?s' = avail_win s" by (rule win_cong) simp_all
  have w: "waits ?s' = waits s" by (simp add: waits_def)
  have fl: "set (in_flight ?s') = set (in_flight s)" "distinct (in_flight ?s')"
    using i F(1) d by (auto simp: in_flight_def a u distinct_remove1)
  have "flight_ok ?s'"
  proof (rule flight_okI)
    show "info_status ?s' ! j = 0" if "j \<in> set (used_win ?s')" for j
      using that F(4) [of j] i8 V(1) by (cases "j = i") (simp_all add: u vlen_def)
  qed (use F(2,3) fl w in auto)
  moreover have "chains_ok ?s' = chains_ok s" using w by (intro chains_cong) simp_all
  ultimately show ?thesis using V unfolding e by (simp add: vinv_def vlen_def bufs_ok_def sleep_ok_def)
qed

lemma intr_step_inv:
  assumes inv: "vinv s" and ne: "used_idx s \<noteq> dev_used_idx s"
  obtains id b where "unat (used_ring s ! unat (used_idx s mod NUM)) = id" and "id < 8" and "info_status s ! id = 0"
    and "info_b s ! id = Some b"
    and "vinv (s\<lparr>b_disk := (b_disk s)(b := False), woken := woken s @ [Chan_buf b], used_idx := used_idx s + 1\<rparr>)"
proof -
  note V = vinvD [OF inv] note F = flightD [OF V(4)]
  define id where "id = unat (used_ring s ! unat (used_idx s mod NUM))"
  define rest where "rest = map unat (ring_list NUM (used_ring s) (used_idx s + 1) (dev_used_idx s))"
  have u: "used_win s = id # rest"
    using vr.ring_pop [OF ne, of "used_ring s"] by (simp add: used_win_def id_def rest_def)
  then have "id \<in> set (in_flight s)" by (simp add: in_flight_def)
  then obtain t b where t: "(t, id, b) \<in> waits s" using F(2) by blast
  let ?s' = "s\<lparr>b_disk := (b_disk s)(b := False), woken := woken s @ [Chan_buf b], used_idx := used_idx s + 1\<rparr>"
  have w: "waits ?s' = waits s" by (simp add: waits_def)
  have u': "used_win ?s' = rest" by (simp add: used_win_def rest_def)
  have a: "avail_win ?s' = avail_win s" by (rule win_cong) simp_all
  have fl: "set (in_flight ?s') = set (in_flight s) - {id}" "distinct (in_flight ?s')"
    using F(1) by (auto simp: in_flight_def a u u')
  have "flight_ok ?s'"
  proof (rule flight_okI)
    show "b_disk ?s' c \<longleftrightarrow> j \<in> set (in_flight ?s')" if "(v, j, c) \<in> waits ?s'" for v j c
    proof (cases "c = b")
      case True
      then have "j = id" using waits_buf(2) [OF V(3), of v j b t id] that t w by simp
      then show ?thesis using True fl(1) by simp
    next
      case False
      then have "j \<noteq> id" using waits_head(2) [OF V(2) t, of v c] that w by auto
      then show ?thesis using False fl(1) F(3) [of v j c] that w by simp
    qed
  qed (use F(2,4) fl u u' w in auto)
  moreover have "chains_ok ?s' = chains_ok s" using w by (intro chains_cong) simp_all
  ultimately have "vinv ?s'" using V by (simp add: vinv_def vlen_def bufs_ok_def sleep_ok_def)
  then show thesis using that [OF id_def [symmetric] good_chainD(2) [OF chainsD(1) [OF V(2) t]]] F(4) [of id] u chainsD(2) [OF V(2) t] by simp
qed

lemma intr_inv:
  assumes "vinv s"
  shows "\<exists>s'. virtio_disk_intr s = Ret s' \<and> vinv s' \<and> used_win s' = []"
  using assms
proof (induction s rule: virtio_disk_intr.induct)
  case (1 s)
  show ?case
  proof (cases "used_idx s = dev_used_idx s")
    case True
    then show ?thesis using 1(2) by (subst virtio_disk_intr.simps) (simp add: used_win_def)
  next
    case False
    obtain id b where st: "unat (used_ring s ! unat (used_idx s mod NUM)) = id" "id < 8" "info_status s ! id = 0" "info_b s ! id = Some b"
        "vinv (s\<lparr>b_disk := (b_disk s)(b := False), woken := woken s @ [Chan_buf b], used_idx := used_idx s + 1\<rparr>)"
      using intr_step_inv [OF 1(2) False] by metis
    from 1(1) [OF False st(1) [symmetric] _ _ st(4) st(5)] st
    show ?thesis using False by (subst virtio_disk_intr.simps) simp
  qed
qed

lemma rw_format_fields:
  "avail_ring (rw_format b n w i0 i1 i2 d) = (avail_ring d)[unat (avail_idx d mod NUM) := of_nat i0]"
  "avail_idx (rw_format b n w i0 i1 i2 d) = avail_idx d + 1" "b_disk (rw_format b n w i0 i1 i2 d) = (b_disk d)(b := True)"
  "info_b (rw_format b n w i0 i1 i2 d) = (info_b d)[i0 := Some b]" "info_status (rw_format b n w i0 i1 i2 d) = (info_status d)[i0 := 0xff]"
  "used_ring (rw_format b n w i0 i1 i2 d) = used_ring d" "used_idx (rw_format b n w i0 i1 i2 d) = used_idx d"
  "dev_used_idx (rw_format b n w i0 i1 i2 d) = dev_used_idx d" "length (ops (rw_format b n w i0 i1 i2 d)) = length (ops d)"
  by (simp_all add: rw_format_def Let_def)

lemma rw_format_thr:
  "thr (rw_format b n w i0 i1 i2 d) = thr d" "dev_seen (rw_format b n w i0 i1 i2 d) = dev_seen d"
  "pending (rw_format b n w i0 i1 i2 d) = pending d"
  by (simp_all add: rw_format_def Let_def)

text \<open>A request that got its three descriptors, as a relation between the states.\<close>

lemma start_facts:
  assumes inv: "vinv s" and r: "rw_start b n w s = Ret (Some i0, s')"
  obtains i1 i2 where "i0 < 8" and "free s ! i0" and "chain s' i0 = {i0, i1, i2}" and "good_chain s' i0"
    and "\<And>k. k \<in> {i0, i1, i2} \<Longrightarrow> free s ! k"
    and "\<And>k. k \<notin> {i0, i1, i2} \<Longrightarrow> desc s' ! k = desc s ! k \<and> free s' ! k = free s ! k"
    and "info_b s' = (info_b s)[i0 := Some b]" and "info_status s' = (info_status s)[i0 := 0xff]"
    and "b_disk s' = (b_disk s)(b := True)" and "thr s' = thr s" and "pending s' = pending s" and "vlen s'"
    and "used_win s' = used_win s" and "length (avail_win s) < 8 \<Longrightarrow> avail_win s' = avail_win s @ [i0]"
proof -
  have V: "vlen s" using inv by (simp add: vinv_def)
  have len: "length (free s) = 8" "length (desc s) = 8" using V by (simp_all add: vlen_def)
  obtain i1 i2 where al: "alloc3_desc s = Ret (Some [i0, i1, i2], s\<lparr>free := (free s)[i0 := False, i1 := False, i2 := False]\<rparr>)"
      and d: "distinct [i0, i1, i2]" and i8: "i0 < 8" "i1 < 8" "i2 < 8" and fr: "free s ! i0" "free s ! i1" "free s ! i2"
    using r by (cases rule: alloc3_spec [OF len(1)]) (auto simp: rw_start_def)
  define s1 where "s1 = s\<lparr>free := (free s)[i0 := False, i1 := False, i2 := False]\<rparr>"
  have s': "s' = rw_format b n w i0 i1 i2 s1" using r al by (simp add: rw_start_def s1_def)
  have f1: "length (desc s1) = 8" "length (free s1) = 8" "\<not> free s1 ! i0" "\<not> free s1 ! i1" "\<not> free s1 ! i2"
    using len d i8 by (simp_all add: s1_def)
  note C = rw_format_chain [OF f1(1,2) d i8 f1(3-5) s']
  note W = rw_format_fields [of b n w i0 i1 i2 s1, folded s']
  have tm: "thr s' = thr s" "dev_seen s' = dev_seen s" "pending s' = pending s"
    by (simp_all add: s' rw_format_thr s1_def)
  show thesis
  proof (rule that [OF i8(1) fr(1) C(1,2) _ _ _ _ _ tm(1,3)])
    show "desc s' ! k = desc s ! k \<and> free s' ! k = free s ! k" if "k \<notin> {i0, i1, i2}" for k
      using C(3,5) that by (simp add: s1_def)
    show "used_win s' = used_win s" by (rule win_cong) (simp_all add: W s1_def)
    show "avail_win s' = avail_win s @ [i0]" if "length (avail_win s) < 8"
      using vr.ring_push [of "avail_idx s" "dev_seen s" "avail_ring s" "of_nat i0"] that V i8(1)
      by (simp add: avail_win_def vlen_def unat_small W(1,2) tm s1_def)
  qed (use V C(3,4) fr in \<open>auto simp: W s1_def vlen_def\<close>)
qed

lemma head_not_free: "chains_ok s \<Longrightarrow> flight_ok s \<Longrightarrow> i \<in> set (in_flight s) \<Longrightarrow> \<not> free s ! i"
  using flightD(2) [of s i] good_chainD(5) chainsD(1) by blast

lemma set_thr_chains: "chain (set_thr t x s) = chain s" "good_chain (set_thr t x s) = good_chain s"
proof -
  show c: "chain (set_thr t x s) = chain s" by (rule ext) (simp add: chain_def next_desc_def)
  show "good_chain (set_thr t x s) = good_chain s" by (rule ext) (simp add: good_chain_def c next_desc_def)
qed

lemma set_thr_wins: "avail_win (set_thr t x s) = avail_win s" "used_win (set_thr t x s) = used_win s"
    "in_flight (set_thr t x s) = in_flight s"
  by (simp_all add: avail_win_def used_win_def in_flight_def)

lemma start_inv:
  assumes inv: "vinv s" and t: "thr s t = V_want b n w" and r: "rw_start b n w s = Ret (Some i0, s')"
  shows "vinv (set_thr t (V_wait i0 b) s')"
proof -
  note V = vinvD [OF inv] note F = flightD [OF V(4)]
  obtain i1 i2 where S: "i0 < 8" "free s ! i0" "chain s' i0 = {i0, i1, i2}" "good_chain s' i0"
      "\<And>k. k \<in> {i0, i1, i2} \<Longrightarrow> free s ! k"
      "\<And>k. k \<notin> {i0, i1, i2} \<Longrightarrow> desc s' ! k = desc s ! k \<and> free s' ! k = free s ! k"
      "info_b s' = (info_b s)[i0 := Some b]" "info_status s' = (info_status s)[i0 := 0xff]"
      "b_disk s' = (b_disk s)(b := True)" "thr s' = thr s" "pending s' = pending s" "vlen s'"
      "used_win s' = used_win s" "length (avail_win s) < 8 \<Longrightarrow> avail_win s' = avail_win s @ [i0]"
    by (rule start_facts [OF inv r]) blast
  let ?z = "set_thr t (V_wait i0 b) s'"
  note Z = set_thr_chains [of t "V_wait i0 b" s'] set_thr_wins [of t "V_wait i0 b" s']
  have w: "waits ?z = insert (t, i0, b) (waits s)" using t by (auto simp: waits_set_thr S(10) waits_def split: if_splits)
  have old: "chain s j \<inter> {i0, i1, i2} = {}" if "(u, j, c) \<in> waits s" for u j c
    using chainsD(1) [OF V(2) that] S(5) unfolding good_chain_def by blast
  have ji: "j \<noteq> i0" if "(u, j, c) \<in> waits s" for u j c using old [OF that] by (auto simp: chain_def)
  have i0: "i0 \<notin> set (in_flight s)" using head_not_free [OF V(2,4)] S(2) by blast
  have cb: "c \<noteq> b" if "(u, j, c) \<in> waits s" for u j c
    using V(3) t that unfolding bufs_ok_def waits_def by (metis (mono_tags, lifting) case_prodD mem_Collect_eq vbuf.simps(2,4) vthread.distinct(9))
  have co: "chains_ok ?z"
  proof (rule chains_change [OF V(2), of "{i0, i1, i2}"])
    show "info_b ?z ! j = Some c \<and> ((u, j, c) \<in> waits s \<and> chain s j \<inter> {i0, i1, i2} = {} \<or>
        u = t \<and> chain ?z j = {i0, i1, i2} \<and> good_chain ?z j)" if "(u, j, c) \<in> waits ?z" for u j c
      using that old [of u j c] ji [of u j c] S(1,3,4,7) V(1) chainsD(2) [OF V(2), of u j c] unfolding w Z
      by (auto simp: vlen_def)
    show "free ?z ! k \<or> (\<exists>u j c. (u, j, c) \<in> waits ?z \<and> chain ?z j = {i0, i1, i2})" for k
      using S(3) unfolding w Z by blast
  qed (use S(6) old w in auto)
  have "length (avail_win s) < 8" using S(1) i0 F(1) by (intro flight_room [OF V(2,4)]) (auto simp: in_flight_def)
  then have fl: "set (in_flight ?z) = insert i0 (set (in_flight s))" "distinct (in_flight ?z)"
    using F(1) i0 S(11,13,14) unfolding Z by (auto simp: in_flight_def)
  have "flight_ok ?z"
  proof (rule flight_okI)
    show "b_disk ?z c \<longleftrightarrow> j \<in> set (in_flight ?z)" if "(u, j, c) \<in> waits ?z" for u j c
      using that F(3) [of u j c] cb [of u j c] ji [of u j c] S(9) unfolding w fl(1) by auto
    show "info_status ?z ! j = 0" if "j \<in> set (used_win ?z)" for j
      using that F(4) [of j] i0 S(8,13) unfolding Z by (cases "j = i0") (auto simp: in_flight_def)
    show "\<exists>u c. (u, j, c) \<in> waits ?z" if "j \<in> set (in_flight ?z)" for j
      using that F(2) [of j] unfolding w fl(1) by auto
  qed (rule fl(2))
  moreover have "bufs_ok ?z" using V(3) t unfolding bufs_ok_def by (auto simp: S(10))
  moreover have "sleep_ok ?z"
  proof -
    have "free s ! k" if "free s' ! k" for k using that S(5,6) [of k] by blast
    then have "{k. k < 8 \<and> free s' ! k} \<subseteq> {k. k < 8 \<and> free s ! k}" by blast
    then have "card {k. k < 8 \<and> free s' ! k} \<le> card {k. k < 8 \<and> free s ! k}" by (rule card_mono [rotated]) simp
    then have "card {k. k < 8 \<and> free s' ! k} < 3" if "thr s u = V_asleep c m x" for u c m x
      using V(5) that unfolding sleep_ok_def by (meson le_less_trans)
    then show ?thesis by (auto simp: sleep_ok_def S(10) split: if_splits)
  qed
  ultimately show ?thesis using co S(12) by (simp add: vinv_def vlen_def)
qed

lemma finish_facts:
  assumes inv: "vinv s" and ti: "(t, i, b) \<in> waits s"
  obtains s' where "rw_finish i s = Ret s'" and "\<And>k. k \<notin> chain s i \<Longrightarrow> desc s' ! k = desc s ! k \<and> free s' ! k = free s ! k"
    and "\<And>k. k \<in> chain s i \<Longrightarrow> free s' ! k" and "Chan_disk \<in> set (woken s')" and "thr s' = thr s"
    and "info_b s' = (info_b s)[i := None]" and "b_disk s' = b_disk s" and "info_status s' = info_status s"
    and "avail_win s' = avail_win s" and "used_win s' = used_win s" and "pending s' = pending s" and "vlen s'"
proof -
  note V = vinvD [OF inv]
  define s1 where "s1 = s\<lparr>info_b := (info_b s)[i := None]\<rparr>"
  have c1: "chain s1 = chain s" by (rule ext) (simp add: chain_def next_desc_def s1_def)
  have g1: "good_chain s1 i" using chainsD(1) [OF V(2) ti] by (simp add: good_chain_def c1 next_desc_def) (simp add: s1_def)
  have len: "length (desc s1) = 8" "length (free s1) = 8" using V(1) by (simp_all add: s1_def vlen_def)
  obtain s' where r: "free_chain i s1 = Ret s'" "s' = s1\<lparr>desc := desc s', free := free s', woken := woken s'\<rparr>"
      "length (desc s') = 8" "length (free s') = 8" and k: "\<And>k. k \<notin> chain s i \<Longrightarrow> desc s' ! k = desc s ! k \<and> free s' ! k = free s ! k"
      and f: "\<And>k. k \<in> chain s i \<Longrightarrow> free s' ! k" and wk: "Chan_disk \<in> set (woken s')"
    using free_chain_good [OF g1 len] unfolding c1 by (auto simp: s1_def)
  have fld: "thr s' = thr s" "info_b s' = (info_b s)[i := None]" "avail_ring s' = avail_ring s" "avail_idx s' = avail_idx s"
      "used_ring s' = used_ring s" "used_idx s' = used_idx s" "dev_used_idx s' = dev_used_idx s" "dev_seen s' = dev_seen s"
      "pending s' = pending s" "b_disk s' = b_disk s" "info_status s' = info_status s" "ops s' = ops s"
    by (subst r(2), simp add: s1_def)+
  have "rw_finish i s = Ret s'" using r(1) by (simp add: rw_finish_def s1_def)
  moreover have "avail_win s' = avail_win s" "used_win s' = used_win s" by (rule win_cong; simp add: fld)+
  moreover have "vlen s'" using V(1) r(3,4) by (simp add: vlen_def fld)
  ultimately show thesis using that [of s'] k f wk fld by blast
qed

lemma finish_inv:
  assumes inv: "vinv s" and t: "thr s t = V_wait i b" and nb: "\<not> b_disk s b"
  shows "\<exists>s'. rw_finish i s = Ret s' \<and> vinv (deliver (set_thr t V_idle s'))"
proof -
  note V = vinvD [OF inv] note F = flightD [OF V(4)]
  have ti: "(t, i, b) \<in> waits s" using t by (simp add: waits_def)
  obtain s' where S: "rw_finish i s = Ret s'" "\<And>k. k \<notin> chain s i \<Longrightarrow> desc s' ! k = desc s ! k \<and> free s' ! k = free s ! k"
      "\<And>k. k \<in> chain s i \<Longrightarrow> free s' ! k" "Chan_disk \<in> set (woken s')" "thr s' = thr s"
      "info_b s' = (info_b s)[i := None]" "b_disk s' = b_disk s" "info_status s' = info_status s"
      "avail_win s' = avail_win s" "used_win s' = used_win s" "pending s' = pending s" "vlen s'"
    by (rule finish_facts [OF inv ti]) blast
  let ?z = "set_thr t V_idle s'"
  note Z = set_thr_chains [of t V_idle s'] set_thr_wins [of t V_idle s']
  have w: "waits ?z = waits s - {(t, i, b)}" using t by (auto simp: waits_set_thr waits_def S(5) split: if_splits)
  have dj: "chain s j \<inter> chain s i = {}" if "(u, j, c) \<in> waits ?z" for u j c
    using that chainsD(3) [OF V(2) ti, of u j c] waits_unique [OF ti, of j c] by (auto simp: w)
  have ji: "j \<noteq> i" if "(u, j, c) \<in> waits ?z" for u j c using dj [OF that] by (auto simp: chain_def)
  have co: "chains_ok ?z"
  proof (rule chains_change [OF V(2), of "chain s i"])
    show "info_b ?z ! j = Some c \<and> ((u, j, c) \<in> waits s \<and> chain s j \<inter> chain s i = {} \<or>
        u = t \<and> chain ?z j = chain s i \<and> good_chain ?z j)" if "(u, j, c) \<in> waits ?z" for u j c
      using that dj [OF that] ji [OF that] chainsD(2) [OF V(2), of u j c] S(6) unfolding w by auto
    show "chain s j \<inter> chain s i = {} \<and> (u, j, c) \<in> waits ?z \<or> chain s j \<subseteq> chain s i" if "(u, j, c) \<in> waits s" for u j c
      using that dj [of u j c] w by (cases "(u, j, c) = (t, i, b)") auto
  qed (use S(2,3) in auto)
  have fl: "in_flight ?z = in_flight s" "used_win ?z = used_win s" using S(9-11) unfolding Z by (simp_all add: in_flight_def)
  have i: "i \<notin> set (in_flight s)" using F(3) [OF ti] nb by simp
  have "flight_ok ?z"
  proof (rule flight_okI)
    show "\<exists>u c. (u, j, c) \<in> waits ?z" if "j \<in> set (in_flight ?z)" for j
      using that F(2) [of j] i unfolding fl w by blast
    show "b_disk ?z c \<longleftrightarrow> j \<in> set (in_flight ?z)" if "(u, j, c) \<in> waits ?z" for u j c
      using that F(3) [of u j c] S(7) unfolding fl w by simp
  qed (use F(1,4) S(8) in \<open>simp_all add: fl\<close>)
  moreover have "bufs_ok ?z" using V(3) by (auto simp: bufs_ok_def S(5) split: if_splits)
  moreover have "sleep_ok (deliver ?z)" using S(4) by (simp add: sleep_ok_def deliver_def)
  moreover have "vlen ?z" using S(12) by (simp add: vlen_def)
  ultimately have "vinv (deliver ?z)" using co by (simp only: vinv_def deliver_parts simp_thms)
  then show ?thesis using S(1) by blast
qed

lemma vstep_inv: "vstep s s' \<Longrightarrow> vinv s \<Longrightarrow> vinv s'"
proof (induction rule: vstep.induct)
  case (intr s s')
  then show ?case using intr_inv [of s] deliver_inv by auto
next
  case (finish s t i b s')
  then show ?case using finish_inv [of s t i b] by auto
qed (auto intro: call_inv full_inv take_inv complete_inv deliver_inv start_inv)

interpretation vd: inductive_invariant vinit vstep vinv
  by unfold_locales (auto intro: vinit_inv vstep_inv)

text \<open>
  C10 The disk driver with any number of threads, a device that completes requests in any
  order and interrupts at any time, in every reachable state: starting a request, the interrupt
  handler and finishing a request never panic and never follow a bad pointer; a descriptor is free
  or belongs to the chain of exactly one waiting thread; a thread waits for the disk exactly
  while its request is on the way, once on one of the rings or inside the device; the handler
  leaves no completed request behind; and nobody sleeps for descriptors while three are free.
\<close>

theorem virtio_safe:
  assumes "vinit s0" and "vstep\<^sup>*\<^sup>* s0 s"
  shows "(\<exists>r s'. rw_start b n w s = Ret (r, s')) \<and>
    (\<exists>s'. virtio_disk_intr s = Ret s' \<and> used_win s' = []) \<and>
    (\<forall>t i c. thr s t = V_wait i c \<longrightarrow> (b_disk s c \<longleftrightarrow> i \<in> set (in_flight s)) \<and> (\<not> b_disk s c \<longrightarrow> (\<exists>s'. rw_finish i s = Ret s'))) \<and>
    distinct (in_flight s) \<and>
    (\<forall>k < 8. free s ! k \<noteq> (\<exists>!t. \<exists>i c. thr s t = V_wait i c \<and> k \<in> chain s i)) \<and>
    (\<forall>t c m x. thr s t = V_asleep c m x \<longrightarrow> card {k. k < 8 \<and> free s ! k} < 3)"
proof (intro conjI allI impI)
  have inv: "vinv s" by (rule vd.inv_reachable [OF assms])
  note V = vinvD [OF inv] note F = flightD [OF V(4)]
  have len: "length (free s) = 8" using V(1) by (simp add: vlen_def)
  show "\<exists>r s'. rw_start b n w s = Ret (r, s')" by (rule alloc3_spec [OF len]) (simp_all add: rw_start_def)
  show "\<exists>s'. virtio_disk_intr s = Ret s' \<and> used_win s' = []" using intr_inv [OF inv] by blast
  show "distinct (in_flight s)" by (rule F(1))
  show "b_disk s c \<longleftrightarrow> i \<in> set (in_flight s)" if "thr s t = V_wait i c" for t i c
    using F(3) [of t i c] that by (simp add: waits_def)
  show "\<exists>s'. rw_finish i s = Ret s'" if "thr s t = V_wait i c" "\<not> b_disk s c" for t i c
    using finish_inv [OF inv that] by blast
  show "card {k. k < 8 \<and> free s ! k} < 3" if "thr s t = V_asleep c m x" for t c m x
    using V(5) that unfolding sleep_ok_def by blast
  show "free s ! k \<noteq> (\<exists>!t. \<exists>i c. thr s t = V_wait i c \<and> k \<in> chain s i)" if "k < 8" for k
  proof (cases "free s ! k")
    case True
    then show ?thesis using chainsD(1) [OF V(2)] by (auto simp: good_chain_def waits_def)
  next
    case False
    then obtain t i c where "(t, i, c) \<in> waits s" "k \<in> chain s i" using chains_used [OF V(2) \<open>k < 8\<close>] by blast
    moreover have "u = t" if "(u, j, e) \<in> waits s" "k \<in> chain s j" for u j e
      using chainsD(3) [OF V(2) that(1) calculation(1)] calculation(2) that(2) by blast
    ultimately have "\<exists>!t. \<exists>i c. thr s t = V_wait i c \<and> k \<in> chain s i" unfolding waits_def by blast
    then show ?thesis using False by simp
  qed
qed

definition vdemo :: vsys where
  "vdemo = \<lparr>desc = replicate 8 no_desc, avail_idx = 0, avail_ring = replicate 8 0, dev_used_idx = 0, used_ring = replicate 8 0,
     free = replicate 8 True, used_idx = 0, info_b = replicate 8 None, info_status = replicate 8 0,
     ops = replicate 8 \<lparr>r_type = 0, r_reserved = 0, r_sector = 0\<rparr>, b_disk = (\<lambda>_. False), woken = [],
     thr = (\<lambda>_. V_idle), dev_seen = 0, pending = []\<rparr>"

text \<open>A request on the way: the thread waits and the driver can neither lose nor complete it twice.\<close>

theorem virtio_safe_witness:
  "\<exists>s. vstep\<^sup>*\<^sup>* vdemo s \<and> thr s 0 = V_wait 0 5 \<and> b_disk s 5 \<and> 0 \<in> set (in_flight s) \<and> (\<exists>s'. virtio_disk_intr s = Ret s')"
proof -
  define s1 where "s1 = set_thr 0 (V_want 5 7 True) vdemo"
  have i: "vinit vdemo" by (auto simp: vinit_def vdemo_def)
  have r1: "vstep vdemo s1" unfolding s1_def by (rule vstep.call) (simp_all add: vdemo_def)
  obtain s' where s': "rw_start 5 7 True s1 = Ret (Some 0, s')" and b: "b_disk s' 5"
    by (simp add: rw_start_def alloc3_desc_def alloc_desc_def s1_def set_thr_def vdemo_def upt_rec rw_format_def Let_def)
  have r2: "vstep s1 (deliver (set_thr 0 (V_wait 0 5) s'))"
    by (rule vstep.start [OF _ s']) (simp add: s1_def)
  have r: "vstep\<^sup>*\<^sup>* vdemo (deliver (set_thr 0 (V_wait 0 5) s'))" using r1 r2 by auto
  have t: "thr (deliver (set_thr 0 (V_wait 0 5) s')) 0 = V_wait 0 5" by (simp add: deliver_def)
  have b': "b_disk (deliver (set_thr 0 (V_wait 0 5) s')) 5" using b by simp
  show ?thesis using virtio_safe [OF i r, of 5 7 True] r t b' by blast
qed

end
