(* ===== verification/Sched.thy ===== *)
theory Sched
  imports Proc "HOL-Library.Product_Lexorder"
begin

text \<open>
  The scheduler of \<^verbatim>\<open>kernel/proc.c\<close>: both variants of \<open>scheduler\<close> (round robin under \<open>RR\<close>, the
  priority scheduler under \<open>PBS\<close>), \<open>sched\<close>, \<open>yield\<close> and \<open>sleep\<close>, with the locks of the source.
  \<open>swtch\<close> ends one function and continues another, so a function that calls it is split
  there: the part before gives the state at the switch, the part after takes the state the
  switch back arrives with. An \<open>acquire\<close> that would spin gives \<^const>\<open>Block\<close>.
\<close>

section \<open>Process locks\<close>

definition lock_proc :: "nat \<Rightarrow> nat \<Rightarrow> cpu \<times> ptable \<Rightarrow> (cpu \<times> ptable) res" where
  "lock_proc me i = (\<lambda>(c, ps).
     bindR (acquire me c (p_lock (ps ! i))) (\<lambda>r. case r of
       None \<Rightarrow> Block
     | Some (c, lk) \<Rightarrow> Ret (c, upd_entry i (p_lock_update (\<lambda>_. lk)) ps)))"

definition unlock_proc :: "nat \<Rightarrow> nat \<Rightarrow> cpu \<times> ptable \<Rightarrow> (cpu \<times> ptable) res" where
  "unlock_proc me i = (\<lambda>(c, ps).
     bindR (release me c (p_lock (ps ! i))) (\<lambda>(c, lk).
       Ret (c, upd_entry i (p_lock_update (\<lambda>_. lk)) ps)))"

section \<open>The priority scheduler\<close>

text \<open>
  \<open>_rbi\<close>. The operands are \<open>uint\<close>, so the arithmetic is unsigned and the quotient is an
  integer division; the result is then read as an \<open>int\<close>. A zero divisor is undefined.
\<close>

definition rbi_divisor :: "proc \<Rightarrow> u32" where
  "rbi_divisor p = p_my_rtime p + p_my_wtime p + p_my_stime p + 1"

definition rbi_value :: "proc \<Rightarrow> s32" where
  "rbi_value p =
     (let a = 50 * ((3 * p_my_rtime p - p_my_stime p - p_my_wtime p) div rbi_divisor p)
      in if sint a < 0 then 0 else a)"

definition rbi_of :: "proc \<Rightarrow> (s32 \<times> proc) res" where
  "rbi_of p =
     (if p_rbi p = 25 then Ret (25, p\<lparr>p_rbi := -1\<rparr>)
      else if rbi_divisor p = 0 then Undef
      else Ret (rbi_value p, p))"

definition min_int :: "s32 \<Rightarrow> s32 \<Rightarrow> s32" where
  "min_int a b = (if sint a < sint b then a else b)"

text \<open>The dynamic priority, and the three tests by which \<open>p\<close> displaces \<open>high_pri\<close>.\<close>

definition dyn_pri :: "proc \<Rightarrow> int" where
  "dyn_pri p = sint (min_int (p_static_pri p + p_curr_rbi p) 100)"

definition pbs_better :: "proc \<Rightarrow> proc \<Rightarrow> bool" where
  "pbs_better p high_pri \<longleftrightarrow>
     (if dyn_pri p < dyn_pri high_pri then True
      else if dyn_pri p = dyn_pri high_pri \<and> sint (p_tot_sche p) > sint (p_tot_sche high_pri) then True
      else if dyn_pri p = dyn_pri high_pri \<and> p_tot_sche p = p_tot_sche high_pri \<and>
        p_ctime p < p_ctime high_pri then True
      else False)"

definition pbs_visit :: "nat \<Rightarrow> nat \<Rightarrow> nat option \<times> cpu \<times> ptable \<Rightarrow> (nat option \<times> cpu \<times> ptable) res" where
  "pbs_visit me i = (\<lambda>(high_pri, c, ps).
     bindR (rbi_of (ps ! i)) (\<lambda>(r, p).
       let ps = ps[i := p\<lparr>p_curr_rbi := r\<rparr>] in
       bindR (lock_proc me i (c, ps)) (\<lambda>(c, ps).
         if p_state (ps ! i) = RUNNABLE then
           (case high_pri of
              None \<Rightarrow> Ret (Some i, c, ps)
            | Some h \<Rightarrow>
                if pbs_better (ps ! i) (ps ! h)
                then bindR (unlock_proc me h (c, ps)) (\<lambda>(c, ps). Ret (Some i, c, ps))
                else bindR (unlock_proc me i (c, ps)) (\<lambda>(c, ps). Ret (Some h, c, ps)))
         else bindR (unlock_proc me i (c, ps)) (\<lambda>(c, ps). Ret (high_pri, c, ps)))))"

fun pbs_scan :: "nat \<Rightarrow> nat list \<Rightarrow> nat option \<times> cpu \<times> ptable \<Rightarrow> (nat option \<times> cpu \<times> ptable) res" where
  "pbs_scan me [] st = Ret st"
| "pbs_scan me (i # is) st = bindR (pbs_visit me i st) (pbs_scan me is)"

text \<open>One round up to the switch: the process switched to, if any.\<close>

definition pbs_round :: "nat \<Rightarrow> cpu \<times> ptable \<Rightarrow> (nat option \<times> cpu \<times> ptable) res" where
  "pbs_round me = (\<lambda>(c, ps).
     bindR (pbs_scan me [0..<length ps] (None, c\<lparr>sie := True\<rparr>, ps)) (\<lambda>(high_pri, c, ps).
       case high_pri of
         None \<Rightarrow> Ret (None, c, ps)
       | Some h \<Rightarrow>
           if p_state (ps ! h) = RUNNABLE
           then Ret (Some h, c\<lparr>c_proc := Some h\<rparr>, upd_entry h (p_state_update (\<lambda>_. RUNNING)) ps)
           else Ret (None, c, ps)))"

text \<open>
  Behind the switch. The loop variable \<open>p\<close> has run off the table: it is \<open>&proc[NPROC]\<close>, so
  \<open>p->tot_sche++\<close> writes behind the array, which is undefined.
\<close>

definition pbs_resume :: "nat \<Rightarrow> nat \<Rightarrow> nat \<Rightarrow> cpu \<times> ptable \<Rightarrow> (cpu \<times> ptable) res" where
  "pbs_resume me p high_pri = (\<lambda>(c, ps).
     if p \<ge> length ps then Undef
     else let ps = upd_entry p (\<lambda>q. q\<lparr>p_tot_sche := p_tot_sche q + 1\<rparr>) ps;
              c = c\<lparr>c_proc := None\<rparr>
          in unlock_proc me high_pri (c, ps))"

section \<open>Round robin\<close>

text \<open>A visit of the entry \<open>i\<close>: whether it was switched to, and the state at the switch.\<close>

definition rr_visit :: "nat \<Rightarrow> nat \<Rightarrow> cpu \<times> ptable \<Rightarrow> (bool \<times> cpu \<times> ptable) res" where
  "rr_visit me i st =
     bindR (lock_proc me i st) (\<lambda>(c, ps).
       if p_state (ps ! i) = RUNNABLE
       then Ret (True, c\<lparr>c_proc := Some i\<rparr>, upd_entry i (p_state_update (\<lambda>_. RUNNING)) ps)
       else bindR (unlock_proc me i (c, ps)) (\<lambda>st. Ret (False, st)))"

definition rr_resume :: "nat \<Rightarrow> nat \<Rightarrow> cpu \<times> ptable \<Rightarrow> (cpu \<times> ptable) res" where
  "rr_resume me i = (\<lambda>(c, ps). unlock_proc me i (c\<lparr>c_proc := None\<rparr>, ps))"

text \<open>The rest of a pass: the next entry switched to, or the end of the table.\<close>

fun rr_scan :: "nat \<Rightarrow> nat list \<Rightarrow> cpu \<times> ptable \<Rightarrow> (nat option \<times> cpu \<times> ptable) res" where
  "rr_scan me [] st = Ret (None, st)"
| "rr_scan me (i # is) st =
     bindR (rr_visit me i st) (\<lambda>(run, st). if run then Ret (Some i, st) else rr_scan me is st)"

section \<open>Giving up the CPU\<close>

text \<open>
  \<open>sched\<close> up to the switch gives the saved \<open>intena\<close>; \<open>sched_return\<close> is what follows it, on the
  CPU the process comes back on.
\<close>

definition sched :: "nat \<Rightarrow> cpu \<times> ptable \<Rightarrow> bool res" where
  "sched me = (\<lambda>(c, ps). case c_proc c of None \<Rightarrow> Undef | Some p \<Rightarrow>
     if \<not> holding me (p_lock (ps ! p)) then Panic ''sched p->lock''
     else if noff c \<noteq> 1 then Panic ''sched locks''
     else if p_state (ps ! p) = RUNNING then Panic ''sched running''
     else if sie c then Panic ''sched interruptible''
     else Ret (intena c))"

definition sched_return :: "bool \<Rightarrow> cpu \<Rightarrow> cpu" where
  "sched_return i c = c\<lparr>intena := i\<rparr>"

definition yield_enter :: "nat \<Rightarrow> cpu \<times> ptable \<Rightarrow> (bool \<times> cpu \<times> ptable) res" where
  "yield_enter me = (\<lambda>(c, ps). case c_proc c of None \<Rightarrow> Undef | Some p \<Rightarrow>
     bindR (lock_proc me p (c, ps)) (\<lambda>(c, ps).
       let ps = upd_entry p (p_state_update (\<lambda>_. RUNNABLE)) ps in
       bindR (sched me (c, ps)) (\<lambda>i. Ret (i, c, ps))))"

definition yield_leave :: "nat \<Rightarrow> nat \<Rightarrow> bool \<Rightarrow> cpu \<times> ptable \<Rightarrow> (cpu \<times> ptable) res" where
  "yield_leave me p i = (\<lambda>(c, ps). unlock_proc me p (sched_return i c, ps))"

definition sleep_enter :: "nat \<Rightarrow> chan \<Rightarrow> spinlock \<times> cpu \<times> ptable \<Rightarrow> (bool \<times> spinlock \<times> cpu \<times> ptable) res" where
  "sleep_enter me ch = (\<lambda>(lk, c, ps). case c_proc c of None \<Rightarrow> Undef | Some p \<Rightarrow>
     bindR (lock_proc me p (c, ps)) (\<lambda>(c, ps).
     bindR (release me c lk) (\<lambda>(c, lk).
       let ps = upd_entry p (\<lambda>q. q\<lparr>p_chan := ch, p_state := SLEEPING\<rparr>) ps in
       bindR (sched me (c, ps)) (\<lambda>i. Ret (i, lk, c, ps)))))"

definition sleep_leave :: "nat \<Rightarrow> nat \<Rightarrow> bool \<Rightarrow> spinlock \<times> cpu \<times> ptable \<Rightarrow> (spinlock \<times> cpu \<times> ptable) res" where
  "sleep_leave me p i = (\<lambda>(lk, c, ps).
     let c = sched_return i c;
         ps = upd_entry p (\<lambda>q. q\<lparr>p_chan := Chan0\<rparr>) ps in
     bindR (unlock_proc me p (c, ps)) (\<lambda>(c, ps).
     bindR (acquire me c lk) (\<lambda>r. case r of None \<Rightarrow> Block | Some (c, lk) \<Rightarrow> Ret (lk, c, ps))))"

text \<open>The end of \<open>exit\<close>, from \<open>acquire(&p->lock)\<close> to the switch; \<open>wait_lock\<close> is held on entry.\<close>

definition exit_enter :: "nat \<Rightarrow> s32 \<Rightarrow> u32 \<Rightarrow> spinlock \<times> cpu \<times> ptable \<Rightarrow> (spinlock \<times> cpu \<times> ptable) res" where
  "exit_enter me status ticks = (\<lambda>(wait_lock, c, ps). case c_proc c of None \<Rightarrow> Undef | Some p \<Rightarrow>
     bindR (lock_proc me p (c, ps)) (\<lambda>(c, ps).
       let ps = upd_entry p (\<lambda>q. q\<lparr>p_xstate := status, p_state := ZOMBIE, p_etime := ticks\<rparr>) ps in
       bindR (release me c wait_lock) (\<lambda>(c, wait_lock).
       bindR (sched me (c, ps)) (\<lambda>_. Ret (wait_lock, c, ps)))))"

section \<open>Locks across the table\<close>

definition free_lock :: "spinlock \<Rightarrow> bool" where
  "free_lock lk \<longleftrightarrow> lk_locked lk = 0 \<and> lk_cpu lk = None"

definition locked_by :: "nat \<Rightarrow> spinlock \<Rightarrow> spinlock" where
  "locked_by me lk = lk\<lparr>lk_locked := 1, lk_cpu := Some me\<rparr>"

definition set_locked :: "nat \<Rightarrow> proc \<Rightarrow> proc" where
  "set_locked me p = p\<lparr>p_lock := locked_by me (p_lock p)\<rparr>"

definition popped :: "cpu \<Rightarrow> cpu" where
  "popped c = c\<lparr>noff := noff c - 1, sie := (noff c = 1 \<and> intena c)\<rparr>"

lemma acquire_free: "free_lock lk \<Longrightarrow> acquire me c lk = Ret (Some (push_off c, locked_by me lk))"
  by (simp add: free_lock_def locked_by_def acquire_def acquire_enter_def holding_def
      test_and_set_def acquire_finish_def Let_def)

lemma release_locked:
  assumes "free_lock lk" and "1 \<le> noff c" and "\<not> sie c"
  shows "release me c (locked_by me lk) = Ret (popped c, lk)"
  using assms by (auto simp: free_lock_def locked_by_def release_def release_enter_def holding_def
      lock_release_def pop_off_def popped_def Let_def)

lemma holding_locked_by [simp]: "holding me (locked_by me lk)"
  by (simp add: holding_def locked_by_def)

lemma lock_proc_free:
  "free_lock (p_lock (ps ! i)) \<Longrightarrow>
     lock_proc me i (c, ps) = Ret (push_off c, upd_entry i (set_locked me) ps)"
  by (simp add: set_locked_def lock_proc_def acquire_free upd_entry_def)

lemma unlock_proc_held:
  assumes "p_lock (ps ! i) = locked_by me lk" and "free_lock lk" and "1 \<le> noff c" and "\<not> sie c"
  shows "unlock_proc me i (c, ps) = Ret (popped c, upd_entry i (p_lock_update (\<lambda>_. lk)) ps)"
  using assms by (simp add: unlock_proc_def release_locked)

lemma push_off_simps [simp]:
  "noff (push_off c) = noff c + 1" "sie (push_off c) = False" "c_proc (push_off c) = c_proc c"
  "intena (push_off c) = (if noff c = 0 then sie c else intena c)"
  by (simp_all add: push_off_def Let_def)

lemma popped_simps [simp]:
  "noff (popped c) = noff c - 1" "sie (popped c) = (noff c = 1 \<and> intena c)"
  "c_proc (popped c) = c_proc c" "intena (popped c) = intena c"
  by (simp_all add: popped_def)

section \<open>Choosing the best\<close>

text \<open>
  A scan that keeps a candidate and replaces it by a strictly better one. What it needs of
  the comparison is a strict weak order; what it ends with is the first of the best.
\<close>

locale selection =
  fixes better :: "'a \<Rightarrow> 'a \<Rightarrow> bool"
  assumes irrefl: "\<not> better x x"
    and trans: "better x y \<Longrightarrow> better y z \<Longrightarrow> better x z"
    and negtrans: "\<not> better x y \<Longrightarrow> \<not> better y z \<Longrightarrow> \<not> better x z"
begin

definition best :: "(nat \<Rightarrow> bool) \<Rightarrow> (nat \<Rightarrow> 'a) \<Rightarrow> nat \<Rightarrow> nat option \<Rightarrow> bool" where
  "best elig f k high = (case high of
     None \<Rightarrow> (\<forall>j < k. \<not> elig j)
   | Some h \<Rightarrow> h < k \<and> elig h \<and>
       (\<forall>j < k. elig j \<longrightarrow> \<not> better (f j) (f h) \<and> (j < h \<longrightarrow> better (f h) (f j))))"

lemma best_0: "best elig f 0 None"
  by (simp add: best_def)

lemma better_negtrans: "better x y \<Longrightarrow> \<not> better z y \<Longrightarrow> better x z"
  using negtrans by blast

lemma best_Suc:
  assumes "best elig f k high"
  shows "best elig f (Suc k)
    (if elig k then case high of None \<Rightarrow> Some k
       | Some h \<Rightarrow> if better (f k) (f h) then Some k else Some h else high)"
proof (cases high)
  case None
  then show ?thesis using assms irrefl by (auto simp: best_def less_Suc_eq)
next
  case (Some h)
  then have h: "h < k" "elig h" "\<And>j. j < k \<Longrightarrow> elig j \<Longrightarrow> \<not> better (f j) (f h) \<and> (j < h \<longrightarrow> better (f h) (f j))"
    using assms by (auto simp: best_def)
  show ?thesis
  proof (cases "elig k \<and> better (f k) (f h)")
    case True
    have "better (f k) (f j) \<and> \<not> better (f j) (f k)" if "j < k" "elig j" for j
      using h(3) [OF that] True better_negtrans irrefl trans by blast
    then show ?thesis using True Some irrefl by (auto simp: best_def less_Suc_eq)
  next
    case False
    then show ?thesis using Some h by (auto simp: best_def less_Suc_eq)
  qed
qed

end

interpretation pbs: selection pbs_better
  by unfold_locales (auto simp: pbs_better_def split: if_splits)

text \<open>An entry after its visit, apart from the lock; \<open>rateable\<close> rules out a zero divisor.\<close>

definition rateable :: "proc \<Rightarrow> bool" where
  "rateable p \<longleftrightarrow> p_rbi p = 25 \<or> rbi_divisor p \<noteq> 0"

definition rated :: "proc \<Rightarrow> proc" where
  "rated p = (case rbi_of p of Ret (r, p') \<Rightarrow> p'\<lparr>p_curr_rbi := r\<rparr> | _ \<Rightarrow> p)"

lemma rbi_of_rateable:
  "rateable p \<Longrightarrow> rbi_of p = Ret (p_curr_rbi (rated p), (rated p)\<lparr>p_curr_rbi := p_curr_rbi p\<rparr>)"
  by (cases "p_rbi p = 25") (simp_all add: rbi_of_def rated_def rateable_def)

lemma rated_set_curr_rbi [simp]:
  "(rated p)\<lparr>p_curr_rbi := p_curr_rbi p\<rparr>\<lparr>p_curr_rbi := p_curr_rbi (rated p)\<rparr> = rated p"
  by simp

lemma rated_cases:
  "rated p = p\<lparr>p_rbi := -1, p_curr_rbi := 25\<rparr> \<or> rated p = p\<lparr>p_curr_rbi := rbi_value p\<rparr> \<or> rated p = p"
proof (cases "p_rbi p = 25")
  case False
  then show ?thesis by (cases "rbi_divisor p = 0") (simp_all add: rated_def rbi_of_def)
qed (simp add: rated_def rbi_of_def)

lemma rated_simps [simp]:
  "p_state (rated p) = p_state p" "p_lock (rated p) = p_lock p" "p_pid (rated p) = p_pid p"
  "p_static_pri (rated p) = p_static_pri p" "p_tot_sche (rated p) = p_tot_sche p"
  "p_ctime (rated p) = p_ctime p"
  using rated_cases [of p] by (elim disjE; simp)+

text \<open>The table after the first \<open>k\<close> visits.\<close>

definition scanned :: "nat \<Rightarrow> nat \<Rightarrow> nat option \<Rightarrow> ptable \<Rightarrow> ptable" where
  "scanned me k high ps0 = map (\<lambda>(i, p).
     let p = (if i < k then rated p else p)
     in if high = Some i then set_locked me p else p) (enumerate 0 ps0)"

lemma length_scanned [simp]: "length (scanned me k high ps) = length ps"
  by (simp add: scanned_def)

lemma scanned_nth [simp]:
  assumes "i < length ps"
  shows "scanned me k high ps ! i =
    (let p = (if i < k then rated (ps ! i) else ps ! i)
     in if high = Some i then set_locked me p else p)"
  unfolding scanned_def by (subst nth_enumerate_map [OF assms]) simp

definition scan_cpu :: "cpu \<Rightarrow> nat option \<Rightarrow> cpu \<Rightarrow> bool" where
  "scan_cpu c0 high c \<longleftrightarrow> c_proc c = c_proc c0 \<and>
     (if high = None then noff c = 0 \<and> sie c else noff c = 1 \<and> \<not> sie c \<and> intena c)"

lemma pbs_better_lock [simp]:
  "pbs_better (set_locked me p) q = pbs_better p q" "pbs_better p (set_locked me q) = pbs_better p q"
  by (simp_all add: set_locked_def pbs_better_def dyn_pri_def)

definition next_high :: "ptable \<Rightarrow> nat \<Rightarrow> nat option \<Rightarrow> nat option" where
  "next_high ps k high =
     (if p_state (ps ! k) = RUNNABLE then case high of None \<Rightarrow> Some k
        | Some h \<Rightarrow> if pbs_better (rated (ps ! k)) (rated (ps ! h)) then Some k else Some h
      else high)"

lemma set_locked_simps [simp]:
  "p_state (set_locked me p) = p_state p" "p_lock (set_locked me p) = locked_by me (p_lock p)"
  by (simp_all add: set_locked_def)

lemma set_locked_unlock [simp]: "p_lock p = lk \<Longrightarrow> p_lock_update (\<lambda>_. lk) (set_locked me p) = p"
  by (auto simp: set_locked_def)

lemma scanned_rate:
  assumes "k < length ps" and "\<forall>h. high = Some h \<longrightarrow> h < k"
  shows "(scanned me k high ps)[k := rated (ps ! k)] = scanned me (Suc k) high ps"
  using assms by (intro nth_equalityI) (auto simp: nth_list_update Let_def less_Suc_eq)

lemma pbs_visit_scanned:
  assumes k: "k < length ps" and lk: "\<forall>p \<in> set ps. free_lock (p_lock p)"
    and rate: "rateable (ps ! k)" and cpu: "scan_cpu c0 high c" and high: "\<forall>h. high = Some h \<longrightarrow> h < k"
  shows "\<exists>c'. pbs_visit me k (high, c, scanned me k high ps) =
      Ret (next_high ps k high, c', scanned me (Suc k) (next_high ps k high) ps) \<and>
     scan_cpu c0 (next_high ps k high) c'"
proof -
  note r = rbi_of_rateable [OF rate]
  let ?ps1 = "scanned me (Suc k) high ps"
  let ?ps2 = "upd_entry k (set_locked me) ?ps1"
  have nk: "high \<noteq> Some k" using high by auto
  have sk: "scanned me k high ps ! k = ps ! k" using k nk by simp
  have lkk: "free_lock (p_lock (ps ! k))" using lk k by simp
  have lock: "lock_proc me k (c, ?ps1) = Ret (push_off c, ?ps2)"
    using k nk lkk by (intro lock_proc_free) simp
  have ps2k: "?ps2 ! k = set_locked me (rated (ps ! k))" using k nk by (simp add: upd_entry_nth)
  have undo: "upd_entry k (p_lock_update (\<lambda>_. p_lock (ps ! k))) ?ps2 = ?ps1"
    using k nk by (intro nth_equalityI) (auto simp: upd_entry_nth)
  have unlock: "unlock_proc me k (push_off c, ?ps2) = Ret (popped (push_off c), ?ps1)"
    using unlock_proc_held [of ?ps2 k me "p_lock (ps ! k)" "push_off c"] lkk cpu undo ps2k
    by (auto simp: scan_cpu_def split: if_splits)
  have popc: "scan_cpu c0 high (popped (push_off c))"
    using cpu by (auto simp: scan_cpu_def split: if_splits)
  have visit: "pbs_visit me k (high, c, scanned me k high ps) =
    (if p_state (ps ! k) = RUNNABLE then
       (case high of
          None \<Rightarrow> Ret (Some k, push_off c, ?ps2)
        | Some h \<Rightarrow> if pbs_better (rated (ps ! k)) (rated (ps ! h))
            then bindR (unlock_proc me h (push_off c, ?ps2)) (\<lambda>(c, ps). Ret (Some k, c, ps))
            else Ret (Some h, popped (push_off c), ?ps1))
     else Ret (high, popped (push_off c), ?ps1))"
    using high k unlock by (auto simp: pbs_visit_def sk r Let_def scanned_rate [OF k high]
        lock ps2k upd_entry_nth split: option.splits)
  show ?thesis
  proof (cases "p_state (ps ! k) = RUNNABLE")
    case False
    then show ?thesis using visit popc by (simp add: next_high_def)
  next
    case True
    note run = True
    show ?thesis
    proof (cases high)
      case None
      have "?ps2 = scanned me (Suc k) (Some k) ps"
        using k None by (intro nth_equalityI) (auto simp: upd_entry_nth)
      then show ?thesis using visit run None cpu by (simp add: next_high_def scan_cpu_def)
    next
      case (Some h)
      then have h: "h < k" "h < length ps" using high k by auto
      have lkh: "free_lock (p_lock (ps ! h))" using lk h by simp
      have ps2h: "?ps2 ! h = set_locked me (rated (ps ! h))" using h Some by (simp add: upd_entry_nth)
      have swap: "upd_entry h (p_lock_update (\<lambda>_. p_lock (ps ! h))) ?ps2 = scanned me (Suc k) (Some k) ps"
        using h k Some by (intro nth_equalityI) (auto simp: upd_entry_nth)
      have "unlock_proc me h (push_off c, ?ps2) =
          Ret (popped (push_off c), scanned me (Suc k) (Some k) ps)"
        using unlock_proc_held [of ?ps2 h me "p_lock (ps ! h)" "push_off c"] lkh cpu swap ps2h Some
        by (auto simp: scan_cpu_def split: if_splits)
      then show ?thesis using visit run Some popc by (simp add: next_high_def scan_cpu_def)
    qed
  qed
qed

lemma pbs_scan_scanned:
  assumes lk: "\<forall>p \<in> set ps. free_lock (p_lock p)" and rate: "\<forall>p \<in> set ps. rateable p"
    and "k + n = length ps" and "scan_cpu c0 high c"
    and "pbs.best (\<lambda>i. p_state (ps ! i) = RUNNABLE) (\<lambda>i. rated (ps ! i)) k high"
  shows "\<exists>high' c'. pbs_scan me [k..<length ps] (high, c, scanned me k high ps) =
      Ret (high', c', scanned me (length ps) high' ps) \<and> scan_cpu c0 high' c' \<and>
     pbs.best (\<lambda>i. p_state (ps ! i) = RUNNABLE) (\<lambda>i. rated (ps ! i)) (length ps) high'"
  using assms(3-)
proof (induction n arbitrary: k high c)
  case (Suc n)
  have k: "k < length ps" using Suc.prems(1) by simp
  have high: "\<forall>h. high = Some h \<longrightarrow> h < k" using Suc.prems(3) by (auto simp: pbs.best_def)
  obtain c' where c': "pbs_visit me k (high, c, scanned me k high ps) =
      Ret (next_high ps k high, c', scanned me (Suc k) (next_high ps k high) ps)"
    "scan_cpu c0 (next_high ps k high) c'"
    using pbs_visit_scanned [OF k lk _ Suc.prems(2) high] rate k by (meson nth_mem)
  have best: "pbs.best (\<lambda>i. p_state (ps ! i) = RUNNABLE) (\<lambda>i. rated (ps ! i)) (Suc k) (next_high ps k high)"
    using pbs.best_Suc [OF Suc.prems(3)] by (simp add: next_high_def cong: option.case_cong)
  from Suc.IH [OF _ c'(2) best] Suc.prems(1) c'(1) k show ?case
    by (simp add: upt_conv_Cons)
qed auto

lemma scanned_0 [simp]: "scanned me 0 None ps = ps"
  by (intro nth_equalityI) (auto simp: Let_def)

lemma pbs_round_spec:
  assumes "\<forall>p \<in> set ps. free_lock (p_lock p)" and "\<forall>p \<in> set ps. rateable p" and "noff c = 0"
  shows "\<exists>high c' ps'. pbs_round me (c, ps) = Ret (high, c', ps') \<and> length ps' = length ps \<and>
    (\<forall>i < length ps. ps' ! i = (if high = Some i
       then (set_locked me (rated (ps ! i)))\<lparr>p_state := RUNNING\<rparr> else rated (ps ! i))) \<and>
    pbs.best (\<lambda>i. p_state (ps ! i) = RUNNABLE) (\<lambda>i. rated (ps ! i)) (length ps) high \<and>
    (case high of None \<Rightarrow> noff c' = 0 \<and> sie c' \<and> c_proc c' = c_proc c
       | Some h \<Rightarrow> noff c' = 1 \<and> \<not> sie c' \<and> intena c' \<and> c_proc c' = Some h)"
proof -
  have "scan_cpu c None (c\<lparr>sie := True\<rparr>)" using assms(3) by (simp add: scan_cpu_def)
  from pbs_scan_scanned [OF assms(1,2), where k = 0 and n = "length ps" and me = me, OF _ this pbs.best_0]
  obtain high c' where s: "pbs_scan me [0..<length ps] (None, c\<lparr>sie := True\<rparr>, ps) =
      Ret (high, c', scanned me (length ps) high ps)"
    and c': "scan_cpu c high c'"
    and best: "pbs.best (\<lambda>i. p_state (ps ! i) = RUNNABLE) (\<lambda>i. rated (ps ! i)) (length ps) high"
    by auto
  show ?thesis
  proof (cases high)
    case None
    then show ?thesis using s c' best by (auto simp: pbs_round_def scan_cpu_def)
  next
    case (Some h)
    then have h: "h < length ps" "p_state (ps ! h) = RUNNABLE" using best by (auto simp: pbs.best_def)
    have "pbs_round me (c, ps) = Ret (Some h, c'\<lparr>c_proc := Some h\<rparr>,
        upd_entry h (p_state_update (\<lambda>_. RUNNING)) (scanned me (length ps) high ps))"
      using s Some h by (simp add: pbs_round_def)
    then show ?thesis using c' best Some by (auto simp: scan_cpu_def upd_entry_nth)
  qed
qed

text \<open>
  The order the scheduler documents: lower dynamic priority first, then more often
  scheduled, then created earlier, compared lexicographically.
\<close>

definition pbs_key :: "proc \<Rightarrow> int \<times> int \<times> nat" where
  "pbs_key p = (min (sint (p_static_pri p + p_curr_rbi p)) 100, - sint (p_tot_sche p), unat (p_ctime p))"

lemma pbs_better_key: "pbs_better p q \<longleftrightarrow> pbs_key p < pbs_key q"
proof -
  have "sint (min_int a 100) = min (sint a) 100" for a
    by (cases "sint a < 100") (auto simp: min_int_def)
  then show ?thesis
    by (auto simp: pbs_better_def pbs_key_def dyn_pri_def word_less_nat_alt)
qed

text \<open>
  C5 The priority scheduler: with no process lock held and no zero divisor, one round
  recomputes every recent-behaviour index and then switches to a runnable process \<open>h\<close> that
  no other runnable process beats (lower dynamic priority, then more often scheduled, then
  older) and that strictly beats every runnable process before it in the table. It is
  marked running with its lock held by this CPU and interrupts off, every other lock is
  free again, and when nothing is runnable the round changes only the indices.
\<close>

theorem pbs_round_correct:
  assumes "\<forall>p \<in> set ps. free_lock (p_lock p)" and "\<forall>p \<in> set ps. rateable p" and "noff c = 0"
  shows "\<exists>high c' ps'. pbs_round me (c, ps) = Ret (high, c', ps') \<and>
    (\<forall>i < length ps. ps' ! i = (if high = Some i
       then (set_locked me (rated (ps ! i)))\<lparr>p_state := RUNNING\<rparr> else rated (ps ! i))) \<and>
    (high = None \<longleftrightarrow> (\<forall>p \<in> set ps. p_state p \<noteq> RUNNABLE)) \<and>
    (\<forall>h. high = Some h \<longrightarrow> h < length ps \<and> p_state (ps ! h) = RUNNABLE \<and>
       c_proc c' = Some h \<and> noff c' = 1 \<and> \<not> sie c' \<and>
       (\<forall>j < length ps. p_state (ps ! j) = RUNNABLE \<longrightarrow>
          pbs_key (rated (ps ! h)) \<le> pbs_key (rated (ps ! j)) \<and>
          (j < h \<longrightarrow> pbs_key (rated (ps ! h)) < pbs_key (rated (ps ! j)))))"
proof -
  obtain high c' ps' where r: "pbs_round me (c, ps) = Ret (high, c', ps')"
    and p: "\<forall>i < length ps. ps' ! i = (if high = Some i
       then (set_locked me (rated (ps ! i)))\<lparr>p_state := RUNNING\<rparr> else rated (ps ! i))"
    and best: "pbs.best (\<lambda>i. p_state (ps ! i) = RUNNABLE) (\<lambda>i. rated (ps ! i)) (length ps) high"
    and c: "case high of None \<Rightarrow> noff c' = 0 \<and> sie c' \<and> c_proc c' = c_proc c
       | Some h \<Rightarrow> noff c' = 1 \<and> \<not> sie c' \<and> intena c' \<and> c_proc c' = Some h"
    using pbs_round_spec [OF assms, of me] by metis
  have "high = None \<longleftrightarrow> (\<forall>p \<in> set ps. p_state p \<noteq> RUNNABLE)"
    using best by (cases high) (auto simp: pbs.best_def in_set_conv_nth all_set_conv_all_nth)
  moreover have "\<forall>h. high = Some h \<longrightarrow> h < length ps \<and> p_state (ps ! h) = RUNNABLE \<and>
       c_proc c' = Some h \<and> noff c' = 1 \<and> \<not> sie c' \<and>
       (\<forall>j < length ps. p_state (ps ! j) = RUNNABLE \<longrightarrow>
          pbs_key (rated (ps ! h)) \<le> pbs_key (rated (ps ! j)) \<and>
          (j < h \<longrightarrow> pbs_key (rated (ps ! h)) < pbs_key (rated (ps ! j))))"
    using best c by (auto simp: pbs.best_def pbs_better_key not_less)
  ultimately show ?thesis using r p by blast
qed

section \<open>The recent-behaviour index\<close>

text \<open>
  While the counters are small enough not to wrap and the process has not waited and
  slept more than three times as long as it ran, the index is fifty times the integer
  quotient of the formula, and therefore 0, 50 or 100; with the fresh flag it is 25.
\<close>

theorem rbi_bounds:
  assumes "unat (p_my_rtime p) * 3 < 2 ^ 32"
    and "unat (p_my_rtime p) + unat (p_my_wtime p) + unat (p_my_stime p) + 1 < 2 ^ 32"
    and "unat (p_my_stime p) + unat (p_my_wtime p) \<le> 3 * unat (p_my_rtime p)"
  shows "rbi_of p = Ret (if p_rbi p = 25 then (25, p\<lparr>p_rbi := -1\<rparr>) else (rbi_value p, p)) \<and>
    unat (rbi_value p) = 50 *
      ((3 * unat (p_my_rtime p) - unat (p_my_stime p) - unat (p_my_wtime p)) div
       (unat (p_my_rtime p) + unat (p_my_wtime p) + unat (p_my_stime p) + 1)) \<and>
    unat (rbi_value p) \<in> {0, 50, 100}"
proof -
  define R S W where "R = unat (p_my_rtime p)" and "S = unat (p_my_stime p)" and "W = unat (p_my_wtime p)"
  note A = assms [folded R_def S_def W_def]
  have d: "unat (rbi_divisor p) = R + W + S + 1"
    using A by (simp add: rbi_divisor_def unat_word_ariths R_def S_def W_def)
  then have d0: "rbi_divisor p \<noteq> 0" by auto
  have t: "unat (3 * p_my_rtime p) = 3 * R" using A by (simp add: unat_word_ariths R_def)
  have ts: "unat (3 * p_my_rtime p - p_my_stime p) = 3 * R - S"
    using A t by (simp add: unat_sub word_le_nat_alt S_def)
  have n: "unat (3 * p_my_rtime p - p_my_stime p - p_my_wtime p) = 3 * R - S - W"
    using A ts by (subst unat_sub) (simp_all add: word_le_nat_alt W_def)
  have q: "unat ((3 * p_my_rtime p - p_my_stime p - p_my_wtime p) div rbi_divisor p) =
      (3 * R - S - W) div (R + W + S + 1)" (is "unat ?q = ?n")
    by (simp add: unat_div n d)
  have "?n < 3" by (rule less_mult_imp_div_less) simp
  then have n3: "?n = 0 \<or> ?n = 1 \<or> ?n = 2" by linarith
  moreover have "?q = of_nat ?n" unfolding q [symmetric] by simp
  ultimately have "?q = 0 \<or> ?q = 1 \<or> ?q = 2" by auto
  then have "rbi_value p = 50 * ?q" by (auto simp: rbi_value_def Let_def)
  moreover have "unat (50 * ?q) = 50 * ?n"
    using n3 q by (auto simp: unat_word_ariths)
  ultimately have v: "unat (rbi_value p) = 50 * ?n" by simp
  with n3 have "unat (rbi_value p) \<in> {0, 50, 100}" by auto
  with v d0 show ?thesis by (simp add: rbi_of_def R_def S_def W_def)
qed

text \<open>
  A process for concrete runs: runnable, with a free lock, of the given age counters and
  past its fresh index.
\<close>

definition proc0 :: proc where
  "proc0 = \<lparr>p_lock = \<lparr>lk_name = ''proc'', lk_locked = 0, lk_cpu = None\<rparr>, p_state = UNUSED,
     p_chan = Chan0, p_killed = False, p_xstate = 0, p_pid = 0, p_parent = None, p_kstack = 0,
     p_sz = 0, p_pagetable = 0, p_trapframe = 0,
     p_context = \<lparr>ctx_ra = 0, ctx_sp = 0, ctx_s = replicate 12 0\<rparr>,
     p_ofile = replicate NOFILE None, p_cwd = None, p_name = [], p_rtime = 0, p_ctime = 0,
     p_etime = 0, p_my_wtime = 0, p_my_rtime = 0, p_my_stime = 0, p_static_pri = 50,
     p_rbi = -1, p_tot_sche = 0, p_curr_rbi = 0\<rparr>"

theorem rbi_bounds_witness:
  "unat (rbi_value (proc0\<lparr>p_my_rtime := 5, p_my_wtime := 1\<rparr>)) \<in> {0, 50, 100}"
  using rbi_bounds [of "proc0\<lparr>p_my_rtime := 5, p_my_wtime := 1\<rparr>"] by (simp add: proc0_def)


text \<open>
  When the chosen process switches back, the priority scheduler counts the run in
  \<open>p->tot_sche\<close> of its loop variable, which has run off the end of the table: the access is
  undefined whatever the state, and no process's count is ever increased.
\<close>

lemma pbs_resume_out_of_bounds:
  "pbs_resume me (length ps) high_pri (c, ps) = Undef"
  by (simp add: pbs_resume_def)

section \<open>Round robin and switching\<close>

lemma popped_push_off: "noff c = 0 \<Longrightarrow> popped (push_off c) = c\<lparr>intena := sie c\<rparr>"
  by (simp add: popped_def push_off_def Let_def)

lemma upd_entry_lock_id [simp]:
  "i < length ps \<Longrightarrow> upd_entry i (p_lock_update (\<lambda>_. p_lock (ps ! i))) (upd_entry i (set_locked me) ps) = ps"
  by (intro nth_equalityI) (auto simp: upd_entry_nth)

definition started :: "nat \<Rightarrow> proc \<Rightarrow> proc" where
  "started me p = (set_locked me p)\<lparr>p_state := RUNNING\<rparr>"

lemma rr_visit_eq:
  assumes "i < length ps" and "free_lock (p_lock (ps ! i))" and "noff c = 0"
  shows "rr_visit me i (c, ps) =
    (if p_state (ps ! i) = RUNNABLE
     then Ret (True, (push_off c)\<lparr>c_proc := Some i\<rparr>, upd_entry i (started me) ps)
     else Ret (False, c\<lparr>intena := sie c\<rparr>, ps))"
proof -
  let ?ps = "upd_entry i (set_locked me) ps"
  have lock: "lock_proc me i (c, ps) = Ret (push_off c, ?ps)" by (rule lock_proc_free) (rule assms(2))
  have "unlock_proc me i (push_off c, ?ps) = Ret (popped (push_off c), ps)"
    using unlock_proc_held [of ?ps i me "p_lock (ps ! i)" "push_off c"] assms
    by (simp add: upd_entry_nth)
  moreover have "upd_entry i (p_state_update (\<lambda>_. RUNNING)) ?ps = upd_entry i (started me) ps"
    using assms(1) by (simp add: upd_entry_def started_def)
  ultimately show ?thesis
    using assms by (simp add: rr_visit_def lock upd_entry_nth popped_push_off)
qed

lemma rr_scan_eq:
  assumes "\<forall>i \<in> set is. i < length ps \<and> free_lock (p_lock (ps ! i))" and "noff c = 0" and "sie c"
    and "j \<in> set is" and "p_state (ps ! j) = RUNNABLE"
  shows "\<exists>as i bs c'. is = as @ i # bs \<and> (\<forall>m \<in> set as. p_state (ps ! m) \<noteq> RUNNABLE) \<and>
    p_state (ps ! i) = RUNNABLE \<and> noff c' = 1 \<and> \<not> sie c' \<and> intena c' \<and> c_proc c' = Some i \<and>
    rr_scan me is (c, ps) = Ret (Some i, c', upd_entry i (started me) ps)"
  using assms
proof (induction "is" arbitrary: c)
  case (Cons i "is")
  then have visit: "rr_visit me i (c, ps) =
    (if p_state (ps ! i) = RUNNABLE
     then Ret (True, (push_off c)\<lparr>c_proc := Some i\<rparr>, upd_entry i (started me) ps)
     else Ret (False, c\<lparr>intena := sie c\<rparr>, ps))"
    by (intro rr_visit_eq) simp_all
  show ?case
  proof (cases "p_state (ps ! i) = RUNNABLE")
    case True
    then show ?thesis using visit Cons.prems
      by (intro exI [of _ "[]"] exI [of _ i] exI [of _ "is"] exI [of _ "(push_off c)\<lparr>c_proc := Some i\<rparr>"])
        simp
  next
    case False
    then have "j \<in> set is" using Cons.prems by auto
    from Cons.IH [of "c\<lparr>intena := sie c\<rparr>"] this Cons.prems obtain as i' bs c' where
      "is = as @ i' # bs" "\<forall>m \<in> set as. p_state (ps ! m) \<noteq> RUNNABLE"
      "p_state (ps ! i') = RUNNABLE \<and> noff c' = 1 \<and> \<not> sie c' \<and> intena c' \<and> c_proc c' = Some i'"
      "rr_scan me is (c\<lparr>intena := sie c\<rparr>, ps) = Ret (Some i', c', upd_entry i' (started me) ps)"
      by auto
    then show ?thesis using visit False
      by (intro exI [of _ "i # as"] exI [of _ i'] exI [of _ bs] exI [of _ c']) auto
  qed
qed simp


lemma yield_enter_eq:
  assumes "c_proc c = Some h" and "h < length ps" and "free_lock (p_lock (ps ! h))" and "noff c = 0"
  shows "yield_enter me (c, ps) = Ret (sie c, push_off c,
    upd_entry h (\<lambda>p. (set_locked me p)\<lparr>p_state := RUNNABLE\<rparr>) ps)"
proof -
  have "lock_proc me h (c, ps) = Ret (push_off c, upd_entry h (set_locked me) ps)"
    by (rule lock_proc_free) (rule assms(3))
  moreover have "upd_entry h (p_state_update (\<lambda>_. RUNNABLE)) (upd_entry h (set_locked me) ps) =
      upd_entry h (\<lambda>p. (set_locked me p)\<lparr>p_state := RUNNABLE\<rparr>) ps"
    using assms(2) by (simp add: upd_entry_def)
  ultimately show ?thesis using assms by (simp add: yield_enter_def sched_def upd_entry_nth)
qed

lemma sleep_enter_eq:
  assumes "c_proc c = Some h" and "h < length ps" and "free_lock (p_lock (ps ! h))"
    and "noff c = 1" and "\<not> sie c" and "free_lock lk"
  shows "sleep_enter me ch (locked_by me lk, c, ps) = Ret (intena c, lk, popped (push_off c),
    upd_entry h (\<lambda>p. (set_locked me p)\<lparr>p_chan := ch, p_state := SLEEPING\<rparr>) ps)"
proof -
  have "lock_proc me h (c, ps) = Ret (push_off c, upd_entry h (set_locked me) ps)"
    by (rule lock_proc_free) (rule assms(3))
  moreover have "release me (push_off c) (locked_by me lk) = Ret (popped (push_off c), lk)"
    using assms by (intro release_locked) simp_all
  moreover have "upd_entry h (\<lambda>q. q\<lparr>p_chan := ch, p_state := SLEEPING\<rparr>) (upd_entry h (set_locked me) ps) =
      upd_entry h (\<lambda>p. (set_locked me p)\<lparr>p_chan := ch, p_state := SLEEPING\<rparr>) ps"
    using assms(2) by (simp add: upd_entry_def)
  ultimately show ?thesis using assms by (simp add: sleep_enter_def sched_def upd_entry_nth)
qed

lemma exit_enter_eq:
  assumes "c_proc c = Some h" and "h < length ps" and "free_lock (p_lock (ps ! h))"
    and "noff c = 1" and "\<not> sie c" and "free_lock lk"
  shows "exit_enter me status now (locked_by me lk, c, ps) = Ret (lk, popped (push_off c),
    upd_entry h (\<lambda>p. (set_locked me p)\<lparr>p_xstate := status, p_state := ZOMBIE, p_etime := now\<rparr>) ps)"
proof -
  have "lock_proc me h (c, ps) = Ret (push_off c, upd_entry h (set_locked me) ps)"
    by (rule lock_proc_free) (rule assms(3))
  moreover have "release me (push_off c) (locked_by me lk) = Ret (popped (push_off c), lk)"
    using assms by (intro release_locked) simp_all
  moreover have "upd_entry h (\<lambda>q. q\<lparr>p_xstate := status, p_state := ZOMBIE, p_etime := now\<rparr>)
        (upd_entry h (set_locked me) ps) =
      upd_entry h (\<lambda>p. (set_locked me p)\<lparr>p_xstate := status, p_state := ZOMBIE, p_etime := now\<rparr>) ps"
    using assms(2) by (simp add: upd_entry_def)
  ultimately show ?thesis using assms by (simp add: exit_enter_def sched_def upd_entry_nth)
qed

lemma resume_eq:
  assumes "h < length ps" and "free_lock (p_lock (ps ! h))" and "noff c = 1" and "\<not> sie c"
    and "\<And>p. p_lock (f p) = p_lock p"
  shows "rr_resume me h (c, upd_entry h (\<lambda>p. f (set_locked me p)) ps) =
    Ret (popped (c\<lparr>c_proc := None\<rparr>), upd_entry h (\<lambda>p. (f (set_locked me p))\<lparr>p_lock := p_lock p\<rparr>) ps)"
  using assms unlock_proc_held [of "upd_entry h (\<lambda>p. f (set_locked me p)) ps" h me "p_lock (ps ! h)" "c\<lparr>c_proc := None\<rparr>"]
  by (simp add: rr_resume_def upd_entry_nth) (simp add: upd_entry_def)

text \<open>
  C34 The switch protocol, yielding: a process that runs with no lock held can \<open>yield\<close>
  without a panic; the scheduler it switches to releases the process's lock, so that at
  the next pick every lock is free and interrupts are as before. When the scheduler picks
  the process again, the end of \<open>yield\<close> releases the lock once more and the CPU and the
  whole table are as before the call.
\<close>

theorem yield_round_trip:
  assumes "c_proc c = Some h" and "h < length ps" and "p_state (ps ! h) = RUNNING"
    and "free_lock (p_lock (ps ! h))" and "noff c = 0" and "sie c"
  shows "\<exists>i c1 ps1 c2 ps2 c3 ps3. yield_enter me (c, ps) = Ret (i, c1, ps1) \<and>
    rr_resume me h (c1, ps1) = Ret (c2, ps2) \<and> ps2 = upd_entry h (p_state_update (\<lambda>_. RUNNABLE)) ps \<and>
    c_proc c2 = None \<and> noff c2 = 0 \<and> sie c2 \<and>
    rr_visit me h (c2, ps2) = Ret (True, c3, ps3) \<and>
    yield_leave me h i (c3, ps3) = Ret (c\<lparr>intena := True\<rparr>, ps)"
proof -
  let ?run = "\<lambda>p. (set_locked me p)\<lparr>p_state := RUNNABLE\<rparr>"
  let ?ps2 = "upd_entry h (p_state_update (\<lambda>_. RUNNABLE)) ps"
  let ?c2 = "popped ((push_off c)\<lparr>c_proc := None\<rparr>)"
  let ?c3 = "(push_off ?c2)\<lparr>c_proc := Some h\<rparr>"
  have enter: "yield_enter me (c, ps) = Ret (True, push_off c, upd_entry h ?run ps)"
    using yield_enter_eq [OF assms(1,2,4,5)] assms(6) by simp
  have resume: "rr_resume me h (push_off c, upd_entry h ?run ps) = Ret (?c2, ?ps2)"
    using resume_eq [OF assms(2,4), of "push_off c" "p_state_update (\<lambda>_. RUNNABLE)" me] assms(5)
    by (simp add: upd_entry_def set_locked_def)
  have visit: "rr_visit me h (?c2, ?ps2) = Ret (True, ?c3, upd_entry h (started me) ?ps2)"
    using rr_visit_eq [of h ?ps2 ?c2 me] assms by (simp add: upd_entry_nth)
  have lk: "p_lock (upd_entry h (started me) ?ps2 ! h) = locked_by me (p_lock (ps ! h))"
    using assms(2) by (simp add: upd_entry_nth started_def)
  have "upd_entry h (p_lock_update (\<lambda>_. p_lock (ps ! h))) (upd_entry h (started me) ?ps2) = ps"
    using assms(2,3) by (intro nth_equalityI) (auto simp: upd_entry_nth started_def set_locked_def)
  moreover have "popped (?c3\<lparr>intena := True\<rparr>) = c\<lparr>intena := True\<rparr>"
    using assms by (simp add: popped_def push_off_def Let_def)
  ultimately have leave: "yield_leave me h True (?c3, upd_entry h (started me) ?ps2) = Ret (c\<lparr>intena := True\<rparr>, ps)"
    using unlock_proc_held [OF lk assms(4), of "?c3\<lparr>intena := True\<rparr>"] assms
    by (simp add: yield_leave_def sched_return_def)
  show ?thesis using enter resume visit leave assms(5,6)
    by (intro exI conjI) (assumption | rule refl | simp)+
qed

section \<open>Many CPUs\<close>

text \<open>
  CPUs running schedulers and processes. A section that runs with \<open>p->lock\<close> held is one
  step, because another CPU that needs the lock spins until it is over: this covers the way
  from a scheduler's \<open>acquire\<close> through the switch to the \<open>release\<close> in the process, and back.
  \<open>table_step\<close> is what the rest of the kernel does to the table without switching: claiming
  a slot, starting a process, waking, reaping.
\<close>

record smach =
  sm_cpu :: "nat \<Rightarrow> cpu"
  sm_procs :: ptable

definition state_edge :: "procstate \<Rightarrow> procstate \<Rightarrow> bool" where
  "state_edge a b \<longleftrightarrow> a = b \<or> (a, b) \<in> {(UNUSED, USED), (USED, UNUSED), (USED, RUNNABLE),
     (SLEEPING, RUNNABLE), (ZOMBIE, UNUSED)}"

definition table_step :: "ptable \<Rightarrow> ptable \<Rightarrow> bool" where
  "table_step ps ps' \<longleftrightarrow> length ps' = length ps \<and>
     (\<forall>i < length ps. p_lock (ps' ! i) = p_lock (ps ! i) \<and> state_edge (p_state (ps ! i)) (p_state (ps' ! i)))"

definition put :: "nat \<Rightarrow> cpu \<times> ptable \<Rightarrow> smach \<Rightarrow> smach" where
  "put k st s = s\<lparr>sm_cpu := (sm_cpu s)(k := fst st), sm_procs := snd st\<rparr>"

inductive sstep :: "smach \<Rightarrow> smach \<Rightarrow> bool" where
  skip: "c_proc (sm_cpu s k) = None \<Longrightarrow> i < length (sm_procs s) \<Longrightarrow>
    rr_visit k i (sm_cpu s k, sm_procs s) = Ret (False, st) \<Longrightarrow> sstep s (put k st s)"
| run: "c_proc (sm_cpu s k) = None \<Longrightarrow> i < length (sm_procs s) \<Longrightarrow>
    rr_visit k i (sm_cpu s k, sm_procs s) = Ret (True, st) \<Longrightarrow>
    yield_leave k i b st = Ret st' \<Longrightarrow> sstep s (put k st' s)"
| yield: "c_proc (sm_cpu s k) = Some h \<Longrightarrow> yield_enter k (sm_cpu s k, sm_procs s) = Ret (b, st) \<Longrightarrow>
    rr_resume k h st = Ret st' \<Longrightarrow> sstep s (put k st' s)"
| sleep: "c_proc (sm_cpu s k) = Some h \<Longrightarrow> free_lock lk \<Longrightarrow>
    acquire k (sm_cpu s k) lk = Ret (Some (c, lk')) \<Longrightarrow>
    sleep_enter k ch (lk', c, sm_procs s) = Ret (b, lk'', st) \<Longrightarrow>
    rr_resume k h st = Ret st' \<Longrightarrow> sstep s (put k st' s)"
| exit: "c_proc (sm_cpu s k) = Some h \<Longrightarrow> free_lock lk \<Longrightarrow>
    acquire k (sm_cpu s k) lk = Ret (Some (c, lk')) \<Longrightarrow>
    exit_enter k status now (lk', c, sm_procs s) = Ret (lk'', st) \<Longrightarrow>
    rr_resume k h st = Ret st' \<Longrightarrow> sstep s (put k st' s)"
| other: "table_step (sm_procs s) ps \<Longrightarrow> sstep s (s\<lparr>sm_procs := ps\<rparr>)"

definition sinit :: "smach \<Rightarrow> bool" where
  "sinit s \<longleftrightarrow> (\<forall>k. noff (sm_cpu s k) = 0 \<and> c_proc (sm_cpu s k) = None) \<and>
     (\<forall>p \<in> set (sm_procs s). free_lock (p_lock p) \<and> p_state p \<noteq> RUNNING)"

text \<open>The processes that are running are those some CPU points to, each exactly one.\<close>

definition sinv :: "smach \<Rightarrow> bool" where
  "sinv s \<longleftrightarrow> (\<forall>k. noff (sm_cpu s k) = 0) \<and>
     (\<forall>i < length (sm_procs s). free_lock (p_lock (sm_procs s ! i))) \<and>
     (\<forall>k i. c_proc (sm_cpu s k) = Some i \<longrightarrow> i < length (sm_procs s) \<and> p_state (sm_procs s ! i) = RUNNING) \<and>
     (\<forall>i < length (sm_procs s). p_state (sm_procs s ! i) = RUNNING \<longrightarrow> (\<exists>k. c_proc (sm_cpu s k) = Some i)) \<and>
     (\<forall>k k' i. c_proc (sm_cpu s k) = Some i \<longrightarrow> c_proc (sm_cpu s k') = Some i \<longrightarrow> k = k')"

lemma sinvD:
  assumes "sinv s"
  shows "noff (sm_cpu s k) = 0" and "i < length (sm_procs s) \<Longrightarrow> free_lock (p_lock (sm_procs s ! i))"
    and "c_proc (sm_cpu s k) = Some i \<Longrightarrow> i < length (sm_procs s) \<and> p_state (sm_procs s ! i) = RUNNING"
    and "i < length (sm_procs s) \<Longrightarrow> p_state (sm_procs s ! i) = RUNNING \<Longrightarrow> \<exists>k. c_proc (sm_cpu s k) = Some i"
    and "c_proc (sm_cpu s k) = Some i \<Longrightarrow> c_proc (sm_cpu s k') = Some i \<Longrightarrow> k = k'"
  using assms by (auto simp: sinv_def)

text \<open>A CPU picks up an entry that was not running, or gives up the one it runs.\<close>

lemma sinv_pick:
  assumes inv: "sinv s" and "c_proc (sm_cpu s k) = None" and "i < length (sm_procs s)"
    and "p_state (sm_procs s ! i) \<noteq> RUNNING" and "noff c = 0" and "c_proc c = Some i"
    and "p_state p = RUNNING" and "p_lock p = p_lock (sm_procs s ! i)"
  shows "sinv (put k (c, (sm_procs s)[i := p]) s)"
proof -
  have "c_proc (sm_cpu s k') \<noteq> Some i" for k' using sinvD(3) [OF inv, of k' i] assms(4) by auto
  then show ?thesis using assms(2-) sinvD [OF inv] unfolding sinv_def put_def
    by (auto simp: nth_list_update) (metis option.distinct(1))
qed

lemma sinv_drop:
  assumes inv: "sinv s" and h: "c_proc (sm_cpu s k) = Some h"
    and c: "noff c = 0" "c_proc c = None"
    and p: "p_state p \<noteq> RUNNING" "p_lock p = p_lock (sm_procs s ! h)"
  shows "sinv (put k (c, (sm_procs s)[h := p]) s)"
proof -
  have "h < length (sm_procs s)" using sinvD(3) [OF inv h] by simp
  moreover have "c_proc (sm_cpu s k') \<noteq> Some h" if "k' \<noteq> k" for k'
    using sinvD(5) [OF inv h, of k'] that by auto
  ultimately show ?thesis using c p h sinvD [OF inv] unfolding sinv_def put_def
    by (auto simp: nth_list_update) (metis option.inject)
qed

lemma give_up:
  assumes inv: "sinv s" and h: "c_proc (sm_cpu s k) = Some h"
    and c: "noff c = 1" "\<not> sie c"
    and f: "\<And>p. p_lock (f p) = p_lock p" "\<And>p. p_state (f p) \<noteq> RUNNING"
    and st: "rr_resume k h (c, upd_entry h (\<lambda>p. f (set_locked k p)) (sm_procs s)) = Ret st'"
  shows "sinv (put k st' s)"
proof -
  have hl: "h < length (sm_procs s)" using sinvD(3) [OF inv h] by simp
  have "st' = (popped (c\<lparr>c_proc := None\<rparr>),
      upd_entry h (\<lambda>p. (f (set_locked k p))\<lparr>p_lock := p_lock p\<rparr>) (sm_procs s))"
    using st resume_eq [OF hl sinvD(2) [OF inv hl] c f(1)] by simp
  then show ?thesis using c f hl unfolding upd_entry_def by (auto intro!: sinv_drop [OF inv h])
qed

lemma sinv_sstep:
  assumes inv: "sinv s" and "sstep s s'"
  shows "sinv s'"
  using assms(2)
proof cases
  case (skip k i st)
  have "st = ((sm_cpu s k)\<lparr>intena := sie (sm_cpu s k)\<rparr>, sm_procs s)"
    using skip rr_visit_eq [OF skip(3) sinvD(2) [OF inv skip(3)] sinvD(1) [OF inv]]
    by (auto split: if_splits)
  then have "c_proc (sm_cpu s' j) = c_proc (sm_cpu s j)" and "noff (sm_cpu s' j) = noff (sm_cpu s j)"
    and "sm_procs s' = sm_procs s" for j
    using skip by (simp_all add: put_def)
  then show ?thesis using inv by (simp add: sinv_def)
next
  case (run k i st b st')
  note free = sinvD(2) [OF inv run(3)]
  have R: "p_state (sm_procs s ! i) = RUNNABLE"
    and st: "st = ((push_off (sm_cpu s k))\<lparr>c_proc := Some i\<rparr>, upd_entry i (started k) (sm_procs s))"
    using run rr_visit_eq [OF run(3) free sinvD(1) [OF inv]] by (auto split: if_splits)
  let ?c = "(push_off (sm_cpu s k))\<lparr>c_proc := Some i, intena := b\<rparr>"
  let ?ps = "upd_entry i (started k) (sm_procs s)"
  have lk: "p_lock (?ps ! i) = locked_by k (p_lock (sm_procs s ! i))"
    using run(3) by (simp add: upd_entry_nth started_def)
  have "st' = (popped ?c, upd_entry i (p_lock_update (\<lambda>_. p_lock (sm_procs s ! i))) ?ps)"
    using run(5) unlock_proc_held [OF lk free, of ?c] sinvD(1) [OF inv, of k]
    by (simp add: st yield_leave_def sched_return_def)
  then have "s' = put k (popped ?c, (sm_procs s)[i := (started k (sm_procs s ! i))\<lparr>p_lock := p_lock (sm_procs s ! i)\<rparr>]) s"
    using run by (simp add: upd_entry_def)
  then show ?thesis
    using sinv_pick [OF inv run(2,3), of "popped ?c"] R sinvD(1) [OF inv, of k]
    by (simp add: started_def)
next
  case (yield k h b st st')
  have "h < length (sm_procs s)" using sinvD(3) [OF inv yield(2)] by simp
  then have "st = (push_off (sm_cpu s k), upd_entry h (\<lambda>p. (set_locked k p)\<lparr>p_state := RUNNABLE\<rparr>) (sm_procs s))"
    using yield_enter_eq [OF yield(2) _ _ sinvD(1) [OF inv], of "sm_procs s" k] yield(3) sinvD(2) [OF inv]
    by auto
  then show ?thesis
    using give_up [OF inv yield(2), of "push_off (sm_cpu s k)" "p_state_update (\<lambda>_. RUNNABLE)" st']
      yield sinvD(1) [OF inv, of k] by simp
next
  case (sleep k h lk c lk' ch b lk'' st st')
  have hl: "h < length (sm_procs s)" using sinvD(3) [OF inv sleep(2)] by simp
  have c: "c = push_off (sm_cpu s k)" "lk' = locked_by k lk"
    using acquire_free [OF sleep(3), of k "sm_cpu s k"] sleep(4) by auto
  then have "st = (popped (push_off c),
      upd_entry h (\<lambda>p. (set_locked k p)\<lparr>p_chan := ch, p_state := SLEEPING\<rparr>) (sm_procs s))"
    using sleep_enter_eq [of c h "sm_procs s" lk k ch] sleep hl sinvD(1,2) [OF inv] by auto
  then show ?thesis
    using give_up [OF inv sleep(2), of "popped (push_off c)" "\<lambda>p. p\<lparr>p_chan := ch, p_state := SLEEPING\<rparr>" st']
      sleep c sinvD(1) [OF inv, of k] by simp
next
  case (exit k h lk c lk' status now lk'' st st')
  have hl: "h < length (sm_procs s)" using sinvD(3) [OF inv exit(2)] by simp
  have c: "c = push_off (sm_cpu s k)" "lk' = locked_by k lk"
    using acquire_free [OF exit(3), of k "sm_cpu s k"] exit(4) by auto
  then have "st = (popped (push_off c), upd_entry h (\<lambda>p. (set_locked k p)\<lparr>p_xstate := status,
      p_state := ZOMBIE, p_etime := now\<rparr>) (sm_procs s))"
    using exit_enter_eq [of c h "sm_procs s" lk k status now] exit hl sinvD(1,2) [OF inv] by auto
  then show ?thesis
    using give_up [OF inv exit(2), of "popped (push_off c)"
        "\<lambda>p. p\<lparr>p_xstate := status, p_state := ZOMBIE, p_etime := now\<rparr>" st']
      exit c sinvD(1) [OF inv, of k] by simp
next
  case (other ps)
  have "p_state (ps ! i) = RUNNING \<longleftrightarrow> p_state (sm_procs s ! i) = RUNNING"
    and "p_lock (ps ! i) = p_lock (sm_procs s ! i)" if "i < length ps" for i
    using other(2) that by (auto simp: table_step_def state_edge_def)
  then show ?thesis using other inv by (simp add: sinv_def table_step_def)
qed

lemma sinv_sinit: "sinit s \<Longrightarrow> sinv s"
  by (auto simp: sinit_def sinv_def)

interpretation sm: inductive_invariant sinit sstep sinv
  by unfold_locales (blast intro: sinv_sinit, blast intro: sinv_sstep)

text \<open>
  C4 No process runs twice: however many CPUs schedule, yield, sleep, exit and change the
  table, a process is in state \<open>RUNNING\<close> exactly when some CPU's \<open>c->proc\<close> points to it, and
  it is never on two CPUs; between critical sections all process locks are free and no
  CPU has interrupts counted off.
\<close>

theorem running_on_one_cpu:
  assumes "sinit s0" and "sstep\<^sup>*\<^sup>* s0 s"
  shows "(\<forall>i < length (sm_procs s). p_state (sm_procs s ! i) = RUNNING \<longleftrightarrow> (\<exists>!k. c_proc (sm_cpu s k) = Some i)) \<and>
    (\<forall>k i. c_proc (sm_cpu s k) = Some i \<longrightarrow> i < length (sm_procs s) \<and> p_state (sm_procs s ! i) = RUNNING) \<and>
    (\<forall>p \<in> set (sm_procs s). free_lock (p_lock p)) \<and> (\<forall>k. noff (sm_cpu s k) = 0)"
proof -
  note I = sinvD [OF sm.inv_reachable [OF assms]]
  have "p_state (sm_procs s ! i) = RUNNING \<longleftrightarrow> (\<exists>!k. c_proc (sm_cpu s k) = Some i)"
    if "i < length (sm_procs s)" for i
    using I(3) [of _ i] I(4) [OF that] I(5) [of _ i] by blast
  moreover have "\<forall>p \<in> set (sm_procs s). free_lock (p_lock p)"
    using I(2) by (auto simp: in_set_conv_nth)
  ultimately show ?thesis using I(1,3) by blast
qed

lemma state_edge_simps [simp]: "state_edge a a" "state_edge SLEEPING RUNNABLE"
  by (simp_all add: state_edge_def)

lemma wakeup_table_step: "table_step ps (wakeup me ch ps)"
  by (simp add: table_step_def wakeup_nth)

lemma kill_table_step: "table_step ps (snd (kill pid ps))"
proof (cases "\<exists>i. first_pid pid ps i")
  case True
  then obtain i where "first_pid pid ps i" ..
  note kill_spec(1) [OF this]
  then show ?thesis by (simp add: table_step_def upd_entry_nth)
next
  case False
  then have "kill pid ps = (-1, ps)" by (intro kill_spec(2)) blast
  then show ?thesis by (simp add: table_step_def)
qed

lemma clock_entry_simps [simp]:
  "p_state (clock_entry p) = p_state p" "p_lock (clock_entry p) = p_lock p"
  by (cases "p_state p"; simp add: clock_entry_def)+

lemma clockintr_table_step: "table_step ps (snd (clockintr me (t, ps)))"
  by (simp add: table_step_def clockintr_def wakeup_nth update_time_def)

section \<open>Concrete runs\<close>

text \<open>Three processes: a sleeper, one that can run with priority 60, and one with priority 40.\<close>

definition demo_procs :: ptable where
  "demo_procs = [proc0\<lparr>p_pid := 1, p_state := SLEEPING, p_chan := Chan_ticks\<rparr>,
     proc0\<lparr>p_pid := 2, p_state := RUNNABLE, p_static_pri := 60\<rparr>,
     proc0\<lparr>p_pid := 3, p_state := RUNNABLE, p_static_pri := 40\<rparr>]"

definition demo_cpu :: cpu where
  "demo_cpu = \<lparr>c_proc = None, noff = 0, intena = False, sie = True\<rparr>"

lemma demo_procs_ok:
  "\<forall>p \<in> set demo_procs. free_lock (p_lock p)" "\<forall>p \<in> set demo_procs. rateable p"
  by (auto simp: demo_procs_def proc0_def free_lock_def rateable_def rbi_divisor_def)

theorem kill_correct_witness:
  "fst (kill 1 demo_procs) = 0 \<and> p_killed (snd (kill 1 demo_procs) ! 0) \<and>
   p_state (snd (kill 1 demo_procs) ! 0) = RUNNABLE"
proof -
  have "1 \<in> p_pid ` set demo_procs" and one: "\<And>i. first_pid 1 demo_procs i \<Longrightarrow> i = 0"
    by (auto simp: demo_procs_def proc0_def first_pid_Cons split: if_splits)
  then obtain i where "first_pid 1 demo_procs i" "fst (kill 1 demo_procs) = 0"
    "\<forall>j < length demo_procs. snd (kill 1 demo_procs) ! j =
       (if j = i then (demo_procs ! j)\<lparr>p_killed := True,
          p_state := if p_state (demo_procs ! j) = SLEEPING then RUNNABLE else p_state (demo_procs ! j)\<rparr>
        else demo_procs ! j)"
    using kill_correct [of 1 demo_procs] by blast
  with one [of i] show ?thesis by (simp add: demo_procs_def proc0_def)
qed


theorem set_priority_correct_witness:
  "fst (set_priority 3 20 demo_procs) = 40 \<and> fst (snd (set_priority 3 20 demo_procs))"
  using set_priority_correct [of 3 20 demo_procs] by (simp add: demo_procs_def proc0_def)

theorem pbs_round_correct_witness:
  "\<exists>high c' ps'. pbs_round 0 (demo_cpu, demo_procs) = Ret (Some high, c', ps') \<and> p_state (demo_procs ! high) = RUNNABLE"
proof -
  obtain high c' ps' where "pbs_round 0 (demo_cpu, demo_procs) = Ret (high, c', ps')"
    "high = None \<longleftrightarrow> (\<forall>p \<in> set demo_procs. p_state p \<noteq> RUNNABLE)"
    "\<forall>h. high = Some h \<longrightarrow> h < length demo_procs \<and> p_state (demo_procs ! h) = RUNNABLE"
    using pbs_round_correct [OF demo_procs_ok, of demo_cpu 0] unfolding demo_cpu_def by simp blast
  moreover have "\<exists>p \<in> set demo_procs. p_state p = RUNNABLE" by (simp add: demo_procs_def)
  ultimately show ?thesis by auto
qed


theorem yield_round_trip_witness:
  "\<exists>i c1 ps1. yield_enter 0 (demo_cpu\<lparr>c_proc := Some 1\<rparr>, demo_procs[1 := proc0\<lparr>p_state := RUNNING\<rparr>]) = Ret (i, c1, ps1)"
  using yield_round_trip [of "demo_cpu\<lparr>c_proc := Some 1\<rparr>" 1 "demo_procs[1 := proc0\<lparr>p_state := RUNNING\<rparr>]" 0]
  by (force simp: demo_cpu_def demo_procs_def proc0_def free_lock_def)

definition demo_mach :: smach where
  "demo_mach = \<lparr>sm_cpu = (\<lambda>_. demo_cpu), sm_procs = demo_procs\<rparr>"

definition demo_mach' :: smach where
  "demo_mach' = put 0 ((demo_cpu\<lparr>c_proc := Some 1, intena := True\<rparr>), demo_procs[1 := (demo_procs ! 1)\<lparr>p_state := RUNNING\<rparr>]) demo_mach"

lemma demo_mach_run: "sinit demo_mach" "sstep\<^sup>*\<^sup>* demo_mach demo_mach'"
proof -
  show "sinit demo_mach"
    by (simp add: sinit_def demo_mach_def demo_procs_def demo_cpu_def proc0_def free_lock_def)
  have free: "free_lock (p_lock (demo_procs ! 1))" by (simp add: demo_procs_def proc0_def free_lock_def)
  have visit: "rr_visit 0 1 (demo_cpu, demo_procs) =
      Ret (True, (push_off demo_cpu)\<lparr>c_proc := Some 1\<rparr>, upd_entry 1 (started 0) demo_procs)"
    using rr_visit_eq [of 1 demo_procs demo_cpu 0] free by (simp add: demo_procs_def demo_cpu_def)
  have "yield_leave 0 1 True ((push_off demo_cpu)\<lparr>c_proc := Some 1\<rparr>, upd_entry 1 (started 0) demo_procs) =
      Ret (popped ((push_off demo_cpu)\<lparr>c_proc := Some 1, intena := True\<rparr>),
        upd_entry 1 (p_lock_update (\<lambda>_. p_lock (demo_procs ! 1))) (upd_entry 1 (started 0) demo_procs))"
    using unlock_proc_held [OF _ free, of "upd_entry 1 (started 0) demo_procs" 1 0 "(push_off demo_cpu)\<lparr>c_proc := Some 1, intena := True\<rparr>"]
    by (simp add: yield_leave_def sched_return_def upd_entry_def started_def demo_procs_def demo_cpu_def)
  also have "\<dots> = Ret (demo_cpu\<lparr>c_proc := Some 1, intena := True\<rparr>, demo_procs[1 := (demo_procs ! 1)\<lparr>p_state := RUNNING\<rparr>])"
    by (simp add: demo_cpu_def popped_def push_off_def Let_def upd_entry_def started_def set_locked_def demo_procs_def)
  finally have "sstep demo_mach demo_mach'"
    unfolding demo_mach'_def by (intro sstep.run [of _ 0 1, OF _ _ _]) (use visit in \<open>simp_all add: demo_mach_def demo_procs_def demo_cpu_def\<close>)
  then show "sstep\<^sup>*\<^sup>* demo_mach demo_mach'" by blast
qed

theorem running_on_one_cpu_witness:
  "p_state (sm_procs demo_mach' ! 1) = RUNNING \<and> (\<exists>!k. c_proc (sm_cpu demo_mach' k) = Some 1)"
proof -
  have "length (sm_procs demo_mach') = 3" "p_state (sm_procs demo_mach' ! 1) = RUNNING"
    by (simp_all add: demo_mach'_def put_def demo_mach_def demo_procs_def)
  then show ?thesis using running_on_one_cpu [OF demo_mach_run] by simp
qed

end
