(* ===== verification/Trap.thy ===== *)
theory Trap
  imports Syscall Virtio Sched
begin

text \<open>
  \<^verbatim>\<open>kernel/trap.c\<close>, \<^verbatim>\<open>kernel/plic.c\<close> and \<open>forkret\<close>: entering the kernel from user space and from the kernel
  itself, device interrupts, and the return to user space. The control registers of a hart are a
  record of their own; what the hardware and \<^verbatim>\<open>trampoline.S\<close> do with them is outside the kernel's C
  code and is not modelled.
\<close>

section \<open>Control registers\<close>

definition SSTATUS_SPP :: u64 where "SSTATUS_SPP = push_bit 8 1"
definition SSTATUS_SPIE :: u64 where "SSTATUS_SPIE = push_bit 5 1"
definition SSTATUS_SIE :: u64 where "SSTATUS_SIE = push_bit 1 1"
definition SATP_SV39 :: u64 where "SATP_SV39 = push_bit 60 8"

definition MAKE_SATP :: "u64 \<Rightarrow> u64" where
  "MAKE_SATP pagetable = SATP_SV39 OR drop_bit 12 pagetable"

text \<open>\<open>claim\<close> is what the interrupt controller answers to a claim of this hart.\<close>

record hart =
  scause :: u64
  stval :: u64
  sepc :: u64
  sstatus :: u64
  stvec :: u64
  satp :: u64
  tp :: u64
  sip :: u64
  claim :: u32

definition intr_on :: "hart \<Rightarrow> hart" where
  "intr_on h = h\<lparr>sstatus := sstatus h OR SSTATUS_SIE\<rparr>"

definition intr_off :: "hart \<Rightarrow> hart" where
  "intr_off h = h\<lparr>sstatus := sstatus h AND NOT SSTATUS_SIE\<rparr>"

definition intr_get :: "hart \<Rightarrow> bool" where
  "intr_get h \<longleftrightarrow> sstatus h AND SSTATUS_SIE \<noteq> 0"

text \<open>The kernel with its devices and the addresses of its entry points.\<close>

record ktrap = ksys +
  vd :: vdisk
  plic :: "u64 \<Rightarrow> u32"
  kernelvec_at :: u64
  usertrap_at :: u64
  uservec_off :: u64
  userret_off :: u64

section \<open>The interrupt controller\<close>

definition UART0_IRQ :: u32 where "UART0_IRQ = 10"
definition VIRTIO0_IRQ :: u32 where "VIRTIO0_IRQ = 1"

definition PLIC_SENABLE :: "u64 \<Rightarrow> u64" where "PLIC_SENABLE hart = PLIC + 0x2080 + hart * 0x100"
definition PLIC_SPRIORITY :: "u64 \<Rightarrow> u64" where "PLIC_SPRIORITY hart = PLIC + 0x201000 + hart * 0x2000"
definition PLIC_SCLAIM :: "u64 \<Rightarrow> u64" where "PLIC_SCLAIM hart = PLIC + 0x201004 + hart * 0x2000"

definition plic_write :: "u64 \<Rightarrow> u32 \<Rightarrow> 'a ktrap_scheme \<Rightarrow> 'a ktrap_scheme" where
  "plic_write a v s = s\<lparr>plic := (plic s)(a := v)\<rparr>"

definition plicinit :: "'a ktrap_scheme \<Rightarrow> 'a ktrap_scheme" where
  "plicinit s = plic_write (PLIC + ucast VIRTIO0_IRQ * 4) 1 (plic_write (PLIC + ucast UART0_IRQ * 4) 1 s)"

definition plicinithart :: "hart \<Rightarrow> 'a ktrap_scheme \<Rightarrow> 'a ktrap_scheme" where
  "plicinithart h s =
     (let s = plic_write (PLIC_SENABLE (tp h)) (push_bit (unat UART0_IRQ) 1 OR push_bit (unat VIRTIO0_IRQ) 1) s
      in plic_write (PLIC_SPRIORITY (tp h)) 0 s)"

definition plic_claim :: "hart \<Rightarrow> u32" where
  "plic_claim h = claim h"

definition plic_complete :: "hart \<Rightarrow> u32 \<Rightarrow> 'a ktrap_scheme \<Rightarrow> 'a ktrap_scheme" where
  "plic_complete h irq s = plic_write (PLIC_SCLAIM (tp h)) irq s"

section \<open>Device interrupts\<close>

definition trapinithart :: "'a ktrap_scheme \<Rightarrow> hart \<Rightarrow> hart" where
  "trapinithart s h = h\<lparr>stvec := kernelvec_at s\<rparr>"

definition k_clockintr :: "nat option \<Rightarrow> 'a kproc_scheme \<Rightarrow> 'a kproc_scheme" where
  "k_clockintr me s = (let (t, ps) = clockintr me (kticks s, procs s) in s\<lparr>kticks := t, procs := ps\<rparr>)"

text \<open>The wakeups of the disk driver reach the process table.\<close>

definition disk_intr :: "nat option \<Rightarrow> 'a ktrap_scheme \<Rightarrow> 'a ktrap_scheme res" where
  "disk_intr me s =
     bindR (virtio_disk_intr ((vd s)\<lparr>woken := []\<rparr>)) (\<lambda>d.
     Ret (fold (k_wakeup me) (woken d) (s\<lparr>vd := d\<rparr>)))"

text \<open>\<open>me\<close> is the process this CPU runs, if any.\<close>

definition devintr :: "nat option \<Rightarrow> hart \<Rightarrow> 'a ktrap_scheme \<Rightarrow> (nat \<times> hart \<times> 'a ktrap_scheme) res" where
  "devintr me h s =
     (if scause h AND 0x8000000000000000 \<noteq> 0 \<and> scause h AND 0xff = 9 then
        let irq = plic_claim h in
        bindR (if irq = UART0_IRQ then uartintr me s
               else if irq = VIRTIO0_IRQ then disk_intr me s
               else if irq \<noteq> 0 then printf (ascii ''unexpected interrupt irq=%d'' @ [10]) [Va_int irq] s
               else Ret s) (\<lambda>s.
        Ret (1, h, if irq \<noteq> 0 then plic_complete h irq s else s))
      else if scause h = 0x8000000000000001 then
        let s = (if tp h = 0 then k_clockintr me s else s)
        in Ret (2, h\<lparr>sip := sip h AND NOT 2\<rparr>, s)
      else Ret (0, h, s))"

section \<open>Back to user space\<close>

text \<open>
  The state in which \<open>userret\<close> is entered, and the value of \<open>satp\<close> it is given.
\<close>

definition usertrapret :: "nat \<Rightarrow> hart \<Rightarrow> 'a ktrap_scheme \<Rightarrow> u64 \<times> hart \<times> 'a ktrap_scheme" where
  "usertrapret me h s =
     (let h = intr_off h;
          h = h\<lparr>stvec := TRAMPOLINE + uservec_off s\<rparr>;
          s = tf_set me 0 (satp h) s;
          s = tf_set me 8 (p_kstack (procs s ! me) + PGSIZE) s;
          s = tf_set me 16 (usertrap_at s) s;
          s = tf_set me 32 (tp h) s;
          h = h\<lparr>sstatus := (sstatus h AND NOT SSTATUS_SPP) OR SSTATUS_SPIE\<rparr>;
          h = h\<lparr>sepc := tf_get me 24 s\<rparr>
      in (MAKE_SATP (p_pagetable (procs s ! me)), h, s))"

text \<open>What becomes of a process in the kernel.\<close>

datatype trap_end = To_user u64 | Exited | Yielded | Asleep_in chan int

definition to_user :: "nat \<Rightarrow> hart \<Rightarrow> 'a ktrap_scheme \<Rightarrow> trap_end \<times> hart \<times> 'a ktrap_scheme" where
  "to_user me h s = (let (v, h, s) = usertrapret me h s in (To_user v, h, s))"

definition forkret :: "nat \<Rightarrow> hart \<Rightarrow> 'a ktrap_scheme \<Rightarrow> (trap_end \<times> hart \<times> 'a ktrap_scheme) res" where
  "forkret me h s =
     bindR (if first s then do_fs (fsinit (my_pid me s) ROOTDEV) (s\<lparr>first := False\<rparr>) else Ret s) (\<lambda>s.
     Ret (to_user me h s))"

section \<open>Traps from user space\<close>

text \<open>The branch for a store page fault.\<close>

definition cow_fault :: "nat \<Rightarrow> hart \<Rightarrow> 'a ktrap_scheme \<Rightarrow> 'a ktrap_scheme res" where
  "cow_fault me h s =
     (let addr = stval h;
          s = (if addr \<ge> MAXVA \<or> addr < tf_get me 48 s \<and> addr \<ge> tf_get me 48 s - PGSIZE
               then s\<lparr>procs := setkilled me (procs s)\<rparr> else s) in
      bindR (cowalloc (p_pagetable (procs s ! me)) (PGROUNDDOWN addr) s) (\<lambda>(r, s).
      Ret (if r < 0 then s\<lparr>procs := setkilled me (procs s)\<rparr> else s)))"

text \<open>The end of \<open>usertrap\<close>: \<open>which_dev\<close> is 2 for a timer interrupt.\<close>

definition usertrap_end :: "nat \<Rightarrow> nat \<Rightarrow> hart \<Rightarrow> 'a ktrap_scheme \<Rightarrow> (trap_end \<times> hart \<times> 'a ktrap_scheme) res" where
  "usertrap_end me which_dev h s =
     (if killed me (procs s) then bindR (exit me (- 1) s) (\<lambda>s. Ret (Exited, h, s))
      else if which_dev = 2 then Ret (Yielded, h, s)
      else Ret (to_user me h s))"

definition usertrap :: "u32 \<times> u32 \<Rightarrow> nat \<Rightarrow> hart \<Rightarrow> 'a ktrap_scheme \<Rightarrow> (trap_end \<times> hart \<times> 'a ktrap_scheme) res" where
  "usertrap junk me h s =
     (if sstatus h AND SSTATUS_SPP \<noteq> 0 then Panic ''usertrap: not from user mode''
      else
        let h = h\<lparr>stvec := kernelvec_at s\<rparr>;
            s = tf_set me 24 (sepc h) s in
        if scause h = 8 then
          if killed me (procs s) then bindR (exit me (- 1) s) (\<lambda>s. Ret (Exited, h, s))
          else
            let s = tf_set me 24 (tf_get me 24 s + 4) s;
                h = intr_on h in
            bindR (syscall junk me s) (\<lambda>(r, s). case r of
              Value v \<Rightarrow> usertrap_end me 0 h s
            | Sleeps ch n \<Rightarrow> Ret (Asleep_in ch n, h, s)
            | Yields v \<Rightarrow> Ret (Yielded, h, s)
            | Exits \<Rightarrow> Ret (Exited, h, s))
        else if scause h = 15 then bindR (cow_fault me h s) (usertrap_end me 0 h)
        else bindR (devintr (Some me) h s) (\<lambda>(which_dev, h, s).
          if which_dev \<noteq> 0 then usertrap_end me which_dev h s
          else
            bindR (printf (ascii ''usertrap(): unexpected scause %p pid=%d'' @ [10])
              [Va_uint64 (scause h), Va_int (p_pid (procs s ! me))] s) (\<lambda>s.
            bindR (printf (ascii ''            sepc=%p stval=%p'' @ [10]) [Va_uint64 (sepc h), Va_uint64 (stval h)] s) (\<lambda>s.
            usertrap_end me 0 h (s\<lparr>procs := setkilled me (procs s)\<rparr>)))))"

text \<open>
  After the call that gave up the CPU in a system call or at a timer interrupt, and after
  a sleep: \<open>v\<close> is the value of a system call.
\<close>

definition resume_syscall :: "nat \<Rightarrow> u64 \<Rightarrow> hart \<Rightarrow> 'a ktrap_scheme \<Rightarrow> (trap_end \<times> hart \<times> 'a ktrap_scheme) res" where
  "resume_syscall me v h s = usertrap_end me 0 h (tf_set me 112 v s)"

section \<open>Traps from the kernel\<close>

text \<open>\<open>yields\<close> tells whether the handler gives up the CPU; the registers are restored either way.\<close>

definition kerneltrap :: "nat option \<Rightarrow> hart \<Rightarrow> 'a ktrap_scheme \<Rightarrow> (bool \<times> hart \<times> 'a ktrap_scheme) res" where
  "kerneltrap me h s =
     (if sstatus h AND SSTATUS_SPP = 0 then Panic ''kerneltrap: not from supervisor mode''
      else if intr_get h then Panic ''kerneltrap: interrupts enabled''
      else bindR (devintr me h s) (\<lambda>(which_dev, h', s).
        if which_dev = 0 then Panic ''kerneltrap''
        else
          let yields = (which_dev = 2 \<and> (case me of None \<Rightarrow> False | Some i \<Rightarrow> p_state (procs s ! i) = RUNNING))
          in Ret (yields, h'\<lparr>sepc := sepc h, sstatus := sstatus h\<rparr>, s)))"

end
