(* ===== verification/Procmem.thy ===== *)
theory Procmem
  imports Process
begin

text \<open>
  The memory of a process: the table \<open>proc_pagetable\<close> builds, what it takes to give it back, and
  the net effect of both on the reference counts.
\<close>

section \<open>Net effects\<close>

text \<open>
  \<open>delta s f W s'\<close>: from \<open>s\<close> to \<open>s'\<close> the count of every page \<open>p\<close> changed by \<open>f p\<close>; outside of
  \<open>W\<close>, the pages that were and are in use and everything the allocator does not manage kept
  their contents.
\<close>

definition delta :: "'a kmem_scheme \<Rightarrow> (u64 \<Rightarrow> int) \<Rightarrow> u64 set \<Rightarrow> 'a kmem_scheme \<Rightarrow> bool" where
  "delta s f W s' \<longleftrightarrow> kmem_ok s' \<and> kend s' = kend s \<and>
     (\<forall>p. kpage s p \<longrightarrow> refs s' p = refs s p + f p) \<and>
     agree_on {p. p \<notin> W \<and> (kpage s p \<longrightarrow> 0 < refs s p \<and> 0 < refs s' p)} (mem s) (mem s')"

lemma deltaD:
  assumes "delta s f W s'"
  shows "kmem_ok s'" and "kend s' = kend s" and "kpage s' = kpage s"
    and "kpage s p \<Longrightarrow> refs s' p = refs s p + f p"
    and "agree_on {p. p \<notin> W \<and> (kpage s p \<longrightarrow> 0 < refs s p \<and> 0 < refs s' p)} (mem s) (mem s')"
  using assms by (auto simp: delta_def kpage_def fun_eq_iff)

lemma delta_trans:
  assumes 1: "delta s f W s1" and 2: "delta s1 g W' s2" and W: "W \<union> W' \<subseteq> V" and h: "\<And>p. kpage s p \<Longrightarrow> h p = f p + g p"
    and pos: "\<And>p. kpage s p \<Longrightarrow> p \<notin> V \<Longrightarrow> 0 < refs s p \<Longrightarrow> 0 < refs s2 p \<Longrightarrow> 0 < refs s1 p"
  shows "delta s h V s2"
proof -
  let ?Q = "{p. p \<notin> V \<and> (kpage s p \<longrightarrow> 0 < refs s p \<and> 0 < refs s2 p)}"
  have "agree_on ?Q (mem s) (mem s1)" "agree_on ?Q (mem s1) (mem s2)"
    using W pos deltaD(3) [OF 1] by (auto intro!: agree_on_subset [OF deltaD(5) [OF 1]] agree_on_subset [OF deltaD(5) [OF 2]])
  then have "agree_on ?Q (mem s) (mem s2)" by (rule agree_on_trans)
  then show ?thesis using deltaD(1-4) [OF 1] deltaD(1-4) [OF 2] h by (simp add: delta_def)
qed

lemma delta_grown: "grown s T N s' \<Longrightarrow> delta s (\<lambda>p. of_bool (p \<in> N)) T s'"
  by (auto simp: grown_def delta_def elim!: agree_on_subset)

lemma delta_freed:
  assumes "freed s P T s'" and "\<And>p. p \<in> P \<Longrightarrow> p \<notin> T \<Longrightarrow> kpage s p \<and> refs s p \<le> 1"
  shows "delta s (\<lambda>p. - of_bool (p \<in> P)) T s'"
proof -
  have "p \<notin> P" if "p \<notin> T" "kpage s p \<longrightarrow> 0 < refs s p \<and> 0 < refs s' p" for p
    using assms(2) [of p] freedD(5) [OF assms(1), of p] that by (auto split: if_splits)
  then have "agree_on {p. p \<notin> T \<and> (kpage s p \<longrightarrow> 0 < refs s p \<and> 0 < refs s' p)} (mem s) (mem s')"
    using freedD(6) [OF assms(1)] by (auto elim!: agree_on_subset)
  then show ?thesis using freedD(1-5) [OF assms(1)] by (auto simp: delta_def)
qed

section \<open>Tables of processes\<close>

lemma tops:
  "TRAMPOLINE < MAXVA" "TRAPFRAME < MAXVA" "pg_aligned TRAMPOLINE" "pg_aligned TRAPFRAME"
  "unat TRAMPOLINE = 0x3FFFFFF000" "unat TRAPFRAME = 0x3FFFFFE000"
  "pgno TRAMPOLINE = 0x3FFFFFF" "pgno TRAPFRAME = 0x3FFFFFE"
  by (simp_all add: const_defs pg_aligned_def pgno_def word_less_nat_alt)

lemma uvmunmap_keep:
  assumes ok: "kmem_ok s" and o: "owned s 2 pt" and a: "a < MAXVA" "pg_aligned a"
    and e: "bit (pte_of s pt a) 0" "PTE_FLAGS (pte_of s pt a) \<noteq> PTE_V"
  obtains s' where "uvmunmap pt a 1 False s = Ret s'" and "tbl_grown s pt {} s'"
    and "\<And>va. va < SV39 \<Longrightarrow> pte_of s' pt va = (if pgno va = pgno a then 0 else pte_of s pt va)"
proof -
  have "pte_of s pt a \<noteq> 0" using e(1) by auto
  then obtain l where l: "lookup (mem s) 2 pt a = Some l" using leaf_lookup by blast
  let ?s' = "s\<lparr>mem := st64 (mem s) (slot (mem s) 2 pt a) 0\<rparr>"
  note st = store_pte [OF ok o l a(1), where v = 0]
  have "a < a + PGSIZE" and "\<not> a + PGSIZE < a + PGSIZE"
    using a(1) by (simp_all add: word_less_nat_alt va_step MAXVA_def)
  then have "uvmunmap_loop pt a (a + 1 * PGSIZE) False s = Ret ?s'"
    using e slot_not_0 [OF ownedD(1) [OF o] l]
    by (simp add: uvmunmap_loop.simps [of pt a] walk_exists [OF l a(1)] ld64_slot [OF l] flag_simps
        uvmunmap_loop.simps [of pt "a + PGSIZE"])
  then have "uvmunmap pt a 1 False s = Ret ?s'" using a(2) by (simp add: uvmunmap_def pg_aligned_iff_mod)
  moreover have "pte_of ?s' pt va = (if pgno va = pgno a then 0 else pte_of s pt va)" if "va < SV39" for va
    using st(3) [OF that] a(2) by (simp add: pgno_page [OF a(2)])
  ultimately show thesis using st(1) by (intro that)
qed

lemma uvmcreate_spec:
  assumes "kmem_ok s"
  obtains "uvmcreate s = Ret (0, s)"
  | pt s' where "uvmcreate s = Ret (pt, s')" and "pt \<noteq> 0" and "grown s {} {pt} s'" and "owned s' 2 pt"
    and "pages_of s' pt = {pt}" and "\<And>va. pte_of s' pt va = 0"
proof -
  obtain fl where inv: "kmem_inv s fl" using assms by (auto simp: kmem_ok_def)
  obtain pt s1 where k: "kalloc s = Ret (pt, s1)"
    using kalloc_Nil [of s] kalloc_Cons [of s] inv by (cases fl) auto
  show thesis
  proof (cases "pt = 0")
    case True
    then have "s1 = s" using kalloc_cases [OF inv k] by metis
    then show ?thesis using k True that(1) by (simp add: uvmcreate_def)
  next
    case False
    let ?m = "memset (mem s1) pt 0 4096"
    have al: "pg_aligned pt" using kalloc_cases [OF inv k] False by (metis kpage_def)
    have np: "grown s {} {pt} (s1\<lparr>mem := ?m\<rparr>)" "kpage s pt"
      using new_page [OF assms k False same_off_page_memset] al by auto
    have z: "\<And>x. PGROUNDDOWN x = pt \<Longrightarrow> ?m x = 0" using al by (simp add: memset_page)
    note zp = zero_page [OF al False z]
    have "owned (s1\<lparr>mem := ?m\<rparr>) 2 pt"
      using zp(1,2) np grown_kpage [OF np(1)] by (auto simp: owned_def grown_def)
    moreover have "uvmcreate s = Ret (pt, s1\<lparr>mem := ?m\<rparr>)" using k False by (simp add: uvmcreate_def PGSIZE_def)
    ultimately show ?thesis using that(2) False np(1) zp(2,3) by simp
  qed
qed

text \<open>A table all of whose pages are new, and which maps nothing, can be given back without a trace.\<close>

lemma discard_table:
  assumes g: "grown s {} (pages_of s1 pt) s1" and o: "owned s1 2 pt"
    and e: "\<And>va. va < SV39 \<Longrightarrow> \<not> bit (pte_of s1 pt va) 0"
  obtains s' where "uvmfree pt 0 s1 = Ret s'" and "delta s (\<lambda>_. 0) {} s'" and "keeps s s'"
proof -
  have ok: "kmem_ok s1" using g by (simp add: grown_def)
  obtain s' where s': "freewalk 3 pt s1 = Ret s'" "freed s1 (pages_of s1 pt) {} s'"
    using freewalk_frees [OF ok o bareI [OF e]] by (auto simp: numeral_3_eq_3 numeral_2_eq_2)
  have new: "kpage s p \<and> refs s p = 0 \<and> refs s1 p = 1" if "p \<in> pages_of s1 pt" for p
    using g that by (simp add: grown_def)
  have "delta s1 (\<lambda>p. - of_bool (p \<in> pages_of s1 pt)) {} s'"
    using new grown_kpage [OF g] by (intro delta_freed [OF s'(2)]) auto
  then have "delta s (\<lambda>_. 0) {} s'"
    by (rule delta_trans [OF delta_grown [OF g]]) (use grown_pos [OF g] in \<open>auto\<close>)
  moreover have "keeps s s'" using g freedD(2,3) [OF s'(2)] by (simp add: grown_def keeps_def)
  ultimately show thesis using that s'(1) by (simp add: uvmfree_def)
qed

text \<open>
  The table of a process with \<open>n\<close> pages of memory: the trampoline and the trapframe at the top,
  the pages of the process from 0 on, and nothing else.
\<close>

definition proc_table :: "'a kmem_scheme \<Rightarrow> u64 \<Rightarrow> nat \<Rightarrow> u64 \<Rightarrow> bool" where
  "proc_table s pt n tf \<longleftrightarrow> owned s 2 pt \<and> n * 4096 \<le> 0x3FFFFFE000 \<and>
     bit (pte_of s pt TRAMPOLINE) 0 \<and> bit (pte_of s pt TRAMPOLINE) 1 \<and>
     pte_of s pt TRAPFRAME = PA2PTE tf OR (PTE_R OR PTE_W) OR PTE_V \<and>
     (\<forall>k < n. bit (pte_of s pt (page_at 0 k)) 0 \<and> PTE_FLAGS (pte_of s pt (page_at 0 k)) \<noteq> PTE_V \<and>
        kpage s (upage s pt 0 k) \<and> upage s pt 0 k \<notin> pages_of s pt) \<and>
     (\<forall>p. kpage s p \<longrightarrow> uses (upage s pt 0) n p \<le> refs s p) \<and>
     (\<forall>va < SV39. n \<le> pgno va \<and> pgno va \<noteq> pgno TRAMPOLINE \<and> pgno va \<noteq> pgno TRAPFRAME \<longrightarrow>
        \<not> bit (pte_of s pt va) 0)"

lemma top_flags: "bit e 1 \<Longrightarrow> PTE_FLAGS e \<noteq> PTE_V"
proof
  assume e: "bit e 1" "PTE_FLAGS e = PTE_V"
  then have "bit PTE_V 1" using bit_PTE_FLAGS [of e 1] by simp
  then show False by (simp add: flag_simps)
qed

lemma map_flags:
  "bit (PA2PTE pa OR (PTE_R OR x) OR PTE_V) 0" "bit (PA2PTE pa OR (PTE_R OR x) OR PTE_V) 1"
  by (simp_all add: bit_simps flag_simps)

lemma proc_pagetable_spec:
  assumes ok: "kmem_ok s"
  obtains s' where "proc_pagetable tf s = Ret (0, s')" and "delta s (\<lambda>_. 0) {} s'" and "keeps s s'"
  | pt s' where "proc_pagetable tf s = Ret (pt, s')" and "pt \<noteq> 0" and "grown s {} (pages_of s' pt) s'"
    and "proc_table s' pt 0 tf"
proof (cases rule: uvmcreate_spec [OF ok])
  case 1
  then have "proc_pagetable tf s = Ret (0, s)" by (simp add: proc_pagetable_def)
  moreover have "delta s (\<lambda>_. 0) {} s" "keeps s s" using ok by (simp_all add: delta_def)
  ultimately show ?thesis by (rule that(1))
next
  case (2 pt s1)
  have ok1: "kmem_ok s1" using 2(3) by (simp add: grown_def)
  have nb: "\<not> bit (pte_of s1 pt TRAMPOLINE) 0" using 2(6) by simp
  obtain r s2 N where m: "mappages pt TRAMPOLINE PGSIZE (trampoline s1) (PTE_R OR PTE_X) s1 = Ret (r, s2)"
      "tbl_grown s1 pt N s2" "r = -1 \<and> (\<forall>va. pte_of s2 pt va = 0) \<or> r = 0 \<and> (\<forall>va < SV39. pte_of s2 pt va =
         (if pgno va = pgno TRAMPOLINE then PA2PTE (trampoline s1) OR (PTE_R OR PTE_X) OR PTE_V else 0))"
    using mappages_page [OF ok1 2(4) tops(1,3) nb] unfolding 2(6) pgno_page [OF tops(3)] by metis
  have o2: "owned s2 2 pt" and ok2: "kmem_ok s2" and g2: "grown s {} (pages_of s2 pt) s2"
    using m(2) grown_trans [OF 2(3), of "{pt}" N s2] tbl_grown_ok [OF m(2)] 2(5) by (auto simp: tbl_grown_def)
  show ?thesis
  proof (cases "r = 0")
    case False
    then obtain s' where s': "uvmfree pt 0 s2 = Ret s'" "delta s (\<lambda>_. 0) {} s'" "keeps s s'"
      using discard_table [OF g2 o2] m(3) by auto
    then have "proc_pagetable tf s = Ret (0, s')" using 2 m(1,3) False by (auto simp: proc_pagetable_def)
    then show ?thesis using s'(2,3) by (rule that(1))
  next
    case True
    let ?e = "PA2PTE (trampoline s1) OR (PTE_R OR PTE_X) OR PTE_V"
    have p2: "pte_of s2 pt va = (if pgno va = pgno TRAMPOLINE then ?e else 0)" if "va < SV39" for va
      using m(3) True that by simp
    have nb: "\<not> bit (pte_of s2 pt TRAPFRAME) 0" using p2 [OF maxva_sv39 [OF tops(2)]] by (simp add: tops)
    obtain r' s3 N' where m': "mappages pt TRAPFRAME PGSIZE tf (PTE_R OR PTE_W) s2 = Ret (r', s3)"
        "tbl_grown s2 pt N' s3" "r' = -1 \<and> (\<forall>va. pte_of s3 pt va = pte_of s2 pt va) \<or> r' = 0 \<and> (\<forall>va < SV39. pte_of s3 pt va =
         (if pgno va = pgno TRAPFRAME then PA2PTE tf OR (PTE_R OR PTE_W) OR PTE_V else pte_of s2 pt va))"
      using mappages_page [OF ok2 o2 tops(2,4) nb] unfolding pgno_page [OF tops(4)] by metis
    have o3: "owned s3 2 pt" and ok3: "kmem_ok s3" and g3: "grown s {} (pages_of s3 pt) s3"
      using m'(2) grown_trans [OF g2, of "pages_of s2 pt" N' s3] tbl_grown_ok [OF m'(2)] by (auto simp: tbl_grown_def)
    show ?thesis
    proof (cases "r' = 0")
      case True
      then have p3: "pte_of s3 pt va = (if pgno va = pgno TRAPFRAME then PA2PTE tf OR (PTE_R OR PTE_W) OR PTE_V
          else if pgno va = pgno TRAMPOLINE then ?e else 0)" if "va < SV39" for va
        using m'(3) p2 that by simp
      have "proc_table s3 pt 0 tf"
        using o3 p3 [OF maxva_sv39 [OF tops(1)]] p3 [OF maxva_sv39 [OF tops(2)]] p3 refs_nonneg [OF ok3]
        by (simp add: proc_table_def tops map_flags del: One_nat_def)
      moreover have "proc_pagetable tf s = Ret (pt, s3)" using 2 m(1) m'(1) True \<open>r = 0\<close> by (simp add: proc_pagetable_def)
      ultimately show ?thesis using that(2) 2(2) g3 by blast
    next
      case False
      then have p3: "pte_of s3 pt va = (if pgno va = pgno TRAMPOLINE then ?e else 0)" if "va < SV39" for va
        using m'(3) p2 that by simp
      have e: "bit (pte_of s3 pt TRAMPOLINE) 0" "PTE_FLAGS (pte_of s3 pt TRAMPOLINE) \<noteq> PTE_V"
        using p3 [OF maxva_sv39 [OF tops(1)]] map_flags(1) [of "trampoline s1" PTE_X]
          top_flags [OF map_flags(2), of "trampoline s1" PTE_X] by auto
      obtain s4 where s4: "uvmunmap pt TRAMPOLINE 1 False s3 = Ret s4" "tbl_grown s3 pt {} s4"
          "\<And>va. va < SV39 \<Longrightarrow> pte_of s4 pt va = (if pgno va = pgno TRAMPOLINE then 0 else pte_of s3 pt va)"
        using uvmunmap_keep [OF ok3 o3 tops(1,3) e] by metis
      have "grown s {} (pages_of s4 pt) s4" "owned s4 2 pt"
        using s4(2) grown_trans [OF g3, of "pages_of s3 pt" "{}" s4] by (auto simp: tbl_grown_def)
      moreover have "\<not> bit (pte_of s4 pt va) 0" if "va < SV39" for va using s4(3) p3 that by simp
      ultimately obtain s' where s': "uvmfree pt 0 s4 = Ret s'" "delta s (\<lambda>_. 0) {} s'" "keeps s s'"
        using discard_table by blast
      then have "proc_pagetable tf s = Ret (0, s')"
        using 2 m(1) m'(1,3) s4(1) True False by (auto simp: proc_pagetable_def)
      then show ?thesis using s'(2,3) by (rule that(1))
    qed
  qed
qed

lemma round_pages:
  assumes "npages sz * 4096 \<le> 0x4000000000"
  shows "PGROUNDUP sz = page_at 0 (npages sz)"
proof -
  have b: "unat sz \<le> npages sz * 4096" using npages_iff [of "npages sz" sz] by simp
  then have "unat (PGROUNDUP sz) = npages sz * 4096"
    using assms by (simp add: unat_PGROUNDUP npages_def)
  then show ?thesis using pages_upto [OF assms order_refl] by (simp add: word_unat_eq_iff)
qed

lemma proc_tableD:
  assumes "proc_table s pt n tf"
  shows "owned s 2 pt" and "n * 4096 \<le> 0x3FFFFFE000" and "bit (pte_of s pt TRAMPOLINE) 0"
    and "bit (pte_of s pt TRAMPOLINE) 1" and "bit (pte_of s pt TRAPFRAME) 0" and "bit (pte_of s pt TRAPFRAME) 1"
    and "k < n \<Longrightarrow> bit (pte_of s pt (page_at 0 k)) 0" and "k < n \<Longrightarrow> PTE_FLAGS (pte_of s pt (page_at 0 k)) \<noteq> PTE_V"
    and "k < n \<Longrightarrow> kpage s (upage s pt 0 k)" and "k < n \<Longrightarrow> upage s pt 0 k \<notin> pages_of s pt"
    and "kpage s p \<Longrightarrow> uses (upage s pt 0) n p \<le> refs s p"
    and "va < SV39 \<Longrightarrow> n \<le> pgno va \<Longrightarrow> pgno va \<noteq> pgno TRAMPOLINE \<Longrightarrow> pgno va \<noteq> pgno TRAPFRAME \<Longrightarrow>
       \<not> bit (pte_of s pt va) 0"
  using assms map_flags [of tf PTE_W] by (auto simp: proc_table_def simp del: One_nat_def)

lemma proc_table_pages:
  assumes "proc_table s pt n tf"
  shows "k < n \<Longrightarrow> 0 < refs s (upage s pt 0 k)" and "p \<in> pages_of s pt \<Longrightarrow> uses (upage s pt 0) n p = 0"
    and "k < n \<Longrightarrow> pgno (page_at 0 k) = k" and "k < n \<Longrightarrow> page_at 0 k < MAXVA" and "n < 0x3FFFFFF"
proof -
  note t = proc_tableD [OF assms]
  show "0 < refs s (upage s pt 0 k)" if "k < n"
    using t(11) [OF t(9) [OF that]] uses_pos [OF that, of "upage s pt 0"] by fastforce
  show "uses (upage s pt 0) n p = 0" if "p \<in> pages_of s pt"
    unfolding uses_def using t(10) that by (intro sum.neutral) auto
  have b: "unat (0 :: u64) + n * 4096 \<le> 0x4000000000" using t(2) by simp
  show "pgno (page_at 0 k) = k" "page_at 0 k < MAXVA" if "k < n"
    using page_at_props(2,4) [OF b _ that] by (simp_all add: pg_aligned_def pgno_def)
  show "n < 0x3FFFFFF" using t(2) by simp
qed

text \<open>Unmapping the two top pages leaves a table with the memory of the process only.\<close>

lemma unmap_tops:
  assumes ok: "kmem_ok s" and t: "proc_table s pt n tf"
  obtains s1 s2 where "uvmunmap pt TRAMPOLINE 1 False s = Ret s1" and "uvmunmap pt TRAPFRAME 1 False s1 = Ret s2"
    and "tbl_grown s pt {} s2"
    and "\<And>va. va < SV39 \<Longrightarrow> pte_of s2 pt va = (if pgno va = pgno TRAMPOLINE \<or> pgno va = pgno TRAPFRAME then 0 else pte_of s pt va)"
proof -
  note d = proc_tableD [OF t]
  obtain s1 where s1: "uvmunmap pt TRAMPOLINE 1 False s = Ret s1" "tbl_grown s pt {} s1"
      "\<And>va. va < SV39 \<Longrightarrow> pte_of s1 pt va = (if pgno va = pgno TRAMPOLINE then 0 else pte_of s pt va)"
    using uvmunmap_keep [OF ok d(1) tops(1,3) d(3) top_flags [OF d(4)]] by metis
  have "pte_of s1 pt TRAPFRAME = pte_of s pt TRAPFRAME" using s1(3) [OF maxva_sv39 [OF tops(2)]] by (simp add: tops)
  then have e: "bit (pte_of s1 pt TRAPFRAME) 0" "PTE_FLAGS (pte_of s1 pt TRAPFRAME) \<noteq> PTE_V"
    using d(5) top_flags [OF d(6)] by simp_all
  have o1: "owned s1 2 pt" using s1(2) by (simp add: tbl_grown_def)
  obtain s2 where s2: "uvmunmap pt TRAPFRAME 1 False s1 = Ret s2" "tbl_grown s1 pt {} s2"
      "\<And>va. va < SV39 \<Longrightarrow> pte_of s2 pt va = (if pgno va = pgno TRAPFRAME then 0 else pte_of s1 pt va)"
    using uvmunmap_keep [OF tbl_grown_ok [OF s1(2)] o1 tops(2,4) e] by metis
  have "tbl_grown s pt {} s2" using tbl_grown_trans [OF s1(2) s2(2)] by simp
  moreover have "pte_of s2 pt va = (if pgno va = pgno TRAMPOLINE \<or> pgno va = pgno TRAPFRAME then 0 else pte_of s pt va)"
    if "va < SV39" for va using s1(3) s2(3) that by simp
  ultimately show thesis using that s1(1) s2(1) by blast
qed

lemma tbl_grown_refs:
  "tbl_grown s pt {} s' \<Longrightarrow> kpage s' = kpage s \<and> (\<forall>p. kpage s p \<longrightarrow> refs s' p = refs s p) \<and> pages_of s' pt = pages_of s pt"
  by (auto simp: tbl_grown_def grown_def kpage_def fun_eq_iff)

lemma proc_freepagetable_spec:
  assumes ok: "kmem_ok s" and t: "proc_table s pt (npages sz) tf" and one: "\<And>p. p \<in> pages_of s pt \<Longrightarrow> refs s p = 1"
  obtains s' where "proc_freepagetable pt sz s = Ret s'"
    and "delta s (\<lambda>p. - uses (upage s pt 0) (npages sz) p - of_bool (p \<in> pages_of s pt)) {} s'"
    and "keeps s s'"
proof -
  let ?n = "npages sz"
  note d = proc_tableD [OF t] and tp = proc_table_pages [OF t]
  obtain s1 s2 where s12: "uvmunmap pt TRAMPOLINE 1 False s = Ret s1" "uvmunmap pt TRAPFRAME 1 False s1 = Ret s2"
    and g: "tbl_grown s pt {} s2"
    and p2: "\<And>va. va < SV39 \<Longrightarrow> pte_of s2 pt va = (if pgno va = pgno TRAMPOLINE \<or> pgno va = pgno TRAPFRAME then 0 else pte_of s pt va)"
    using unmap_tops [OF ok t] by metis
  have ok2: "kmem_ok s2" and o2: "owned s2 2 pt" using g tbl_grown_ok [OF g] by (auto simp: tbl_grown_def)
  note r2 = tbl_grown_refs [OF g]
  have u2: "pte_of s2 pt (page_at 0 k) = pte_of s pt (page_at 0 k)" if "k < ?n" for k
    using p2 [OF maxva_sv39 [OF tp(4) [OF that]]] tp(3,5) that by (simp add: tops)
  have us: "uses (upage s2 pt 0) ?n p = uses (upage s pt 0) ?n p" for p by (rule uses_cong) (simp add: u2)
  have nb: "?n * 4096 \<le> 0x4000000000" and al0: "pg_aligned 0" using d(2) by (simp_all add: pg_aligned_def)
  have "\<exists>s3. uvmunmap_loop pt 0 (page_at 0 ?n) True s2 = Ret s3 \<and> unmapped s2 pt (upage s2 pt 0) ?n s3 \<and>
      (\<forall>va < SV39. pte_of s3 pt va = (if pgno 0 \<le> pgno va \<and> pgno va < pgno 0 + ?n then 0 else pte_of s2 pt va))"
    using d(7,8,9,10,11) r2 us nb
    by (intro uvmunmap_loop_pages [OF ok2 o2 al0]) (simp_all add: u2)
  then obtain s3 where s3: "uvmunmap_loop pt 0 (page_at 0 ?n) True s2 = Ret s3" "unmapped s2 pt (upage s2 pt 0) ?n s3"
      "\<And>va. va < SV39 \<Longrightarrow> pte_of s3 pt va = (if pgno va < ?n then 0 else pte_of s2 pt va)"
    by (auto simp: pgno_def)
  have "bare (mem s3) 2 pt"
    using s3(3) p2 d(12) by (intro bareI) (auto simp: not_less)
  moreover have ok3: "kmem_ok s3" "owned s3 2 pt" "pages_of s3 pt = pages_of s pt"
    using s3(2) r2 by (simp_all add: unmapped_def)
  ultimately obtain s' where s': "freewalk 3 pt s3 = Ret s'" "freed s3 (pages_of s pt) {} s'"
    using freewalk_frees [of s3 2 pt] by (auto simp: numeral_3_eq_3 numeral_2_eq_2)
  have "uvmfree pt sz s2 = Ret s'"
  proof (cases "sz > 0")
    case True
    then show ?thesis using s3(1) s'(1) by (simp add: uvmfree_def round_pages [OF nb] uvmunmap_first [OF nb])
  next
    case False
    then have "sz = 0" by (simp add: word_less_nat_alt word_unat_eq_iff)
    then have "?n = 0" by (simp add: npages_def)
    then have "s3 = s2" using s3(1) by (simp add: uvmunmap_loop.simps)
    then show ?thesis using s'(1) False by (simp add: uvmfree_def)
  qed
  then have run: "proc_freepagetable pt sz s = Ret s'" using s12 by (simp add: proc_freepagetable_def)
  have kp: "kpage s3 = kpage s" "kpage s' = kpage s" using unmapped_kpage [OF s3(2)] r2 freedD(4) [OF s'(2)] by simp_all
  have r': "refs s' p = refs s p - uses (upage s pt 0) ?n p - of_bool (p \<in> pages_of s pt)" if "kpage s p" for p
    using that freedD(5) [OF s'(2), of p] s3(2) r2 kp us by (simp add: unmapped_def)
  have "agree_on {p. kpage s p \<longrightarrow> 0 < refs s p \<and> 0 < refs s' p} (mem s) (mem s')"
  proof -
    let ?Q = "{p. kpage s p \<longrightarrow> 0 < refs s p \<and> 0 < refs s' p}"
    have Q: "p \<notin> pages_of s pt" if "p \<in> ?Q" for p
      using r' [of p] one [of p] tp(2) [of p] that ownedD(2) [OF d(1)] by auto
    have "agree_on ?Q (mem s) (mem s2)" using g Q by (auto simp: tbl_grown_def grown_def elim!: agree_on_subset)
    moreover have "agree_on ?Q (mem s2) (mem s3)"
    proof (rule unmapped_keeps [OF s3(2)])
      show "?Q \<inter> pages_of s2 pt = {}" using Q r2 by auto
      show "0 < refs s3 p" if "p \<in> ?Q" "kpage s2 p" for p
        using that freedD(5) [OF s'(2), of p] Q [OF that(1)] kp r2 by simp
    qed
    moreover have "agree_on ?Q (mem s3) (mem s')" using freedD(6) [OF s'(2)] Q by (auto elim!: agree_on_subset)
    ultimately show ?thesis by (blast intro: agree_on_trans)
  qed
  moreover have k: "keeps s s'"
    using freedD(2,3) [OF s'(2)] s3(2) g by (simp add: unmapped_def tbl_grown_def grown_def keeps_def)
  ultimately have "delta s (\<lambda>p. - uses (upage s pt 0) ?n p - of_bool (p \<in> pages_of s pt)) {} s'"
    using freedD(1) [OF s'(2)] r' by (simp add: delta_def keeps_def)
  with run show thesis using k by (rule that)
qed

end
