(* ===== verification/Lifecycle.thy ===== *)
theory Lifecycle
  imports Procmem
begin

text \<open>
  What \<open>allocproc\<close>, \<open>freeproc\<close>, \<open>fork\<close> and \<open>wait\<close> of \<^verbatim>\<open>kernel/proc.c\<close> do to memory, to the process
  table and to the open files, on the states the kernel is in.
\<close>

section \<open>Operations that leave memory alone\<close>

definition mem_eq :: "'a kmem_scheme \<Rightarrow> 'a kmem_scheme \<Rightarrow> bool" where
  "mem_eq s s' \<longleftrightarrow> mem s' = mem s \<and> freelist s' = freelist s \<and> page_ref_count s' = page_ref_count s \<and> kend s' = kend s"

lemma mem_eqD:
  assumes "mem_eq s s'"
  shows "kmem_ok s' = kmem_ok s" and "kpage s' = kpage s" and "refs s' = refs s" and "mem s' = mem s"
    and "owned s' = owned s" and "proc_table s' = proc_table s" and "delta s' f W = delta s f W" and "delta t f W s' = delta t f W s"
proof -
  have kp: "kpage s' = kpage s" and rf: "refs s' = refs s" and m: "mem s' = mem s"
    using assms by (auto simp: mem_eq_def kpage_def refs_def fun_eq_iff)
  show "kpage s' = kpage s" "refs s' = refs s" "mem s' = mem s" by (fact kp rf m)+
  show ok: "kmem_ok s' = kmem_ok s"
    unfolding kmem_ok_def kmem_inv_def kp rf using assms by (simp add: mem_eq_def)
  show ow: "owned s' = owned s" by (intro ext) (simp add: owned_def kp rf m)
  show "proc_table s' = proc_table s" by (intro ext) (simp add: proc_table_def ow kp rf m)
  show "delta s' f W = delta s f W" using assms by (intro ext) (simp add: delta_def kp rf m mem_eq_def)
  show "delta t f W s' = delta t f W s" using assms by (simp add: delta_def ok rf m mem_eq_def)
qed

lemma mem_eq_simps [simp]: "mem_eq s s" "mem_eq s (upd_proc i f s') = mem_eq s s'"
  by (simp_all add: mem_eq_def upd_proc_def)

lemma mem_eq_trans: "mem_eq s s1 \<Longrightarrow> mem_eq s1 s2 \<Longrightarrow> mem_eq s s2"
  by (simp add: mem_eq_def)

lemma procs_upd_proc [simp]: "procs (upd_proc i f s) = upd_entry i f (procs s)"
  by (simp add: upd_proc_def)

lemma more_procs:
  fixes s s' :: "'a kproc_scheme"
  assumes "kmem.more s' = kmem.more s"
  shows "procs s' = procs s"
  using assms by (cases s; cases s'; simp)

text \<open>The same state up to memory and the allocator, with one entry of the table changed.\<close>

lemma more_upd_proc:
  fixes s s' :: "'a kproc_scheme"
  assumes "kmem.more s' = kmem.more s"
  shows "kmem.more (upd_proc i f s') = kmem.more (upd_proc i f s)"
  using assms by (cases s; cases s'; simp add: upd_proc_def)

lemma upd_proc_upd_proc: "upd_proc i f (upd_proc i g s) = upd_proc i (f \<circ> g) s"
  if "i < length (procs s)"
  using that by (simp add: upd_proc_def upd_entry_def)

section \<open>The memory a process owns\<close>

text \<open>
  A live process has the only reference to its trapframe and to each page of its page table;
  the pages of its memory, which fork may share, are none of these.
\<close>

definition proc_mem :: "'a kproc_scheme \<Rightarrow> nat \<Rightarrow> bool" where
  "proc_mem s i \<longleftrightarrow> (let p = procs s ! i; pt = p_pagetable p; tf = p_trapframe p; n = npages (p_sz p) in
     proc_table s pt n tf \<and> (\<forall>q \<in> pages_of s pt. refs s q = 1) \<and> kpage s tf \<and> refs s tf = 1 \<and>
     tf \<notin> pages_of s pt \<and> (\<forall>k < n. upage s pt 0 k \<noteq> tf))"

abbreviation own_pages :: "'a kproc_scheme \<Rightarrow> nat \<Rightarrow> u64 set" where
  "own_pages s i \<equiv> insert (p_trapframe (procs s ! i)) (pages_of s (p_pagetable (procs s ! i)))"

abbreviation user_uses :: "'a kproc_scheme \<Rightarrow> nat \<Rightarrow> u64 \<Rightarrow> int" where
  "user_uses s i \<equiv> uses (upage s (p_pagetable (procs s ! i)) 0) (npages (p_sz (procs s ! i)))"

lemma proc_memD:
  assumes "proc_mem s i"
  shows "proc_table s (p_pagetable (procs s ! i)) (npages (p_sz (procs s ! i))) (p_trapframe (procs s ! i))"
    and "q \<in> own_pages s i \<Longrightarrow> kpage s q \<and> refs s q = 1" and "q \<in> own_pages s i \<Longrightarrow> user_uses s i q = 0"
    and "p_trapframe (procs s ! i) \<notin> pages_of s (p_pagetable (procs s ! i))"
    and "kmem_ok s \<Longrightarrow> p_trapframe (procs s ! i) \<noteq> 0" and "p_pagetable (procs s ! i) \<noteq> 0"
proof -
  note p = assms [unfolded proc_mem_def Let_def]
  show t: "proc_table s (p_pagetable (procs s ! i)) (npages (p_sz (procs s ! i))) (p_trapframe (procs s ! i))"
    using p by blast
  show "kpage s q \<and> refs s q = 1" if "q \<in> own_pages s i"
    using that p ownedD(2) [OF proc_tableD(1) [OF t]] by auto
  show "user_uses s i q = 0" if "q \<in> own_pages s i"
  proof (cases "q = p_trapframe (procs s ! i)")
    case True
    then show ?thesis unfolding uses_def using p by (intro sum.neutral) auto
  next
    case False
    then show ?thesis using that proc_table_pages(2) [OF t] by blast
  qed
  show "p_trapframe (procs s ! i) \<notin> pages_of s (p_pagetable (procs s ! i))" using p by blast
  show "p_pagetable (procs s ! i) \<noteq> 0" using tree_root [OF ownedD(1) [OF proc_tableD(1) [OF t]]] by blast
  show "p_trapframe (procs s ! i) \<noteq> 0" if "kmem_ok s"
    using p that by (auto simp: kmem_ok_def kmem_inv_def kpage_def KERNBASE_def)
qed

lemma proc_table_agree:
  assumes t: "proc_table s pt n tf" and ag: "agree_on (pages_of s pt) (mem s) (mem s')" and kp: "kpage s' = kpage s"
    and pos: "\<And>q. q \<in> pages_of s pt \<Longrightarrow> 0 < refs s' q"
    and u: "\<And>p. kpage s p \<Longrightarrow> uses (upage s pt 0) n p \<le> refs s' p"
  shows "proc_table s' pt n tf" and "pages_of s' pt = pages_of s pt" and "pte_of s' pt va = pte_of s pt va"
proof -
  note d = proc_tableD [OF t]
  note ta = table_agree [OF ag ownedD(1) [OF d(1)]]
  show "pages_of s' pt = pages_of s pt" "pte_of s' pt va = pte_of s pt va" by (fact ta)+
  have "owned s' 2 pt" using ta(1,2) ownedD(2) [OF d(1)] pos kp by (simp add: owned_def)
  with t u show "proc_table s' pt n tf" by (simp add: proc_table_def ta(1,4) kp)
qed

section \<open>freeproc\<close>

abbreviation cleared :: "proc \<Rightarrow> proc" where
  "cleared p \<equiv> p\<lparr>p_trapframe := 0, p_pagetable := 0, p_sz := 0, p_pid := 0, p_parent := None, p_name := [],
     p_chan := Chan0, p_killed := False, p_xstate := 0, p_state := UNUSED\<rparr>"

lemma freeproc_spec:
  fixes s :: "'a kproc_scheme"
  assumes ok: "kmem_ok s" and i: "i < length (procs s)" and pm: "proc_mem s i"
  obtains s' where "freeproc i s = Ret s'" and "kmem.more s' = kmem.more (upd_proc i cleared s)"
    and "delta s (\<lambda>p. - user_uses s i p - of_bool (p \<in> own_pages s i)) {} s'"
proof -
  define pt tf sz where "pt = p_pagetable (procs s ! i)" and "tf = p_trapframe (procs s ! i)" and "sz = p_sz (procs s ! i)"
  note D = proc_memD [OF pm, folded pt_def tf_def sz_def] and d = proc_tableD [OF proc_memD(1) [OF pm, folded pt_def tf_def sz_def]]
  have tf: "kpage s tf" "refs s tf = 1" using D(2) [of tf] by auto
  obtain s1 where s1: "kfree tf s = Ret s1" "freed s {tf} {} s1"
    using freed_kfree [OF ok tf(1)] tf(2) by auto
  have ag: "agree_on (pages_of s pt) (mem s) (mem s1)"
    using freedD(6) [OF s1(2)] D(4) by (auto elim!: agree_on_subset)
  have r1: "refs s1 q = refs s q - of_bool (q = tf)" if "kpage s q" for q using freedD(5) [OF s1(2) that] by simp
  have u1: "uses (upage s pt 0) (npages sz) p \<le> refs s1 p" if "kpage s p" for p
    using d(11) [OF that] r1 [OF that] D(3) [of tf] tf by (cases "p = tf") auto
  have pos1: "refs s1 q = 1" if "q \<in> pages_of s pt" for q using r1 [of q] D(2,4) that by auto
  note t1 = proc_table_agree [OF D(1) ag freedD(4) [OF s1(2)] _ u1]
  define s1' where "s1' = upd_proc i (p_trapframe_update (\<lambda>_. 0)) s1"
  have e1: "mem_eq s1 s1'" by (simp add: s1'_def)
  note me = mem_eqD [OF e1]
  have "proc_table s1' pt (npages sz) tf" and one: "\<And>p. p \<in> pages_of s1' pt \<Longrightarrow> refs s1' p = 1"
    using t1(1,2) pos1 by (auto simp: me)
  then obtain s2 where s2: "proc_freepagetable pt sz s1' = Ret s2"
      "delta s1' (\<lambda>p. - uses (upage s1' pt 0) (npages sz) p - of_bool (p \<in> pages_of s1' pt)) {} s2" "keeps s1' s2"
    using proc_freepagetable_spec [of s1' pt sz tf] freedD(1) [OF s1(2)] by (auto simp: me(1))
  let ?f = "\<lambda>p. p\<lparr>p_pagetable := 0, p_sz := 0, p_pid := 0, p_parent := None, p_name := [],
        p_chan := Chan0, p_killed := False, p_xstate := 0, p_state := UNUSED\<rparr>"
  define s' where "s' = upd_proc i ?f s2"
  have run: "freeproc i s = Ret s'"
    using s1(1) s2(1) D(5) [OF ok] D(6) unfolding freeproc_def Let_def s'_def s1'_def
    by (simp add: pt_def tf_def sz_def)
  have g: "uses (upage s1' pt 0) (npages sz) p = uses (upage s pt 0) (npages sz) p" "pages_of s1' pt = pages_of s pt" for p
    using t1(2,3) pos1 by (simp_all add: me(4))
  have r2: "refs s2 p = refs s1 p - uses (upage s pt 0) (npages sz) p - of_bool (p \<in> pages_of s pt)" if "kpage s p" for p
    using deltaD(4) [OF s2(2), of p] that freedD(4) [OF s1(2)] by (simp add: me(2,3) g)
  have "delta s (\<lambda>p. - uses (upage s pt 0) (npages sz) p - of_bool (p \<in> insert tf (pages_of s pt))) {} s2"
  proof (rule delta_trans [OF delta_freed [OF s1(2)]])
    show "delta s1 (\<lambda>p. - uses (upage s pt 0) (npages sz) p - of_bool (p \<in> pages_of s pt)) {} s2"
      using s2(2) by (simp add: me(7) g)
    show "0 < refs s1 p" if "kpage s p" "0 < refs s p" "0 < refs s2 p" for p
      using r2 [OF that(1)] that(3) uses_nonneg [of "upage s pt 0" "npages sz" p]
      by (cases "p \<in> pages_of s pt") (simp_all del: uses_nonneg)
    show "- uses (upage s pt 0) (npages sz) p - of_bool (p \<in> insert tf (pages_of s pt)) =
        - of_bool (p \<in> {tf}) + (- uses (upage s pt 0) (npages sz) p - of_bool (p \<in> pages_of s pt))" if "kpage s p" for p
      using D(4) by auto
  qed (use tf in auto)
  moreover have "mem_eq s2 s'" by (simp add: s'_def)
  ultimately have "delta s (\<lambda>p. - uses (upage s pt 0) (npages sz) p - of_bool (p \<in> insert tf (pages_of s pt))) {} s'"
    by (simp add: mem_eqD(8))
  moreover have "kmem.more s' = kmem.more (upd_proc i cleared s)"
  proof -
    have "kmem.more s1' = kmem.more (upd_proc i (p_trapframe_update (\<lambda>_. 0)) s)"
      unfolding s1'_def by (rule more_upd_proc [OF freedD(3) [OF s1(2)]])
    then have "kmem.more s' = kmem.more (upd_proc i ?f (upd_proc i (p_trapframe_update (\<lambda>_. 0)) s))"
      unfolding s'_def using s2(3) by (intro more_upd_proc) (simp add: keeps_def)
    then show ?thesis using i by (simp add: upd_proc_upd_proc comp_def)
  qed
  ultimately show thesis using run that by (simp add: pt_def tf_def sz_def)
qed

section \<open>allocproc\<close>

lemma kalloc_grown:
  assumes "kmem_ok s"
  obtains "kalloc s = Ret (0, s)" | q s1 where "kalloc s = Ret (q, s1)" and "q \<noteq> 0" and "kpage s q" and "grown s {} {q} s1"
proof -
  obtain fl where inv: "kmem_inv s fl" using assms by (auto simp: kmem_ok_def)
  obtain q s1 where k: "kalloc s = Ret (q, s1)"
    using kalloc_Nil [of s] kalloc_Cons [of s] inv by (cases fl) auto
  show thesis
  proof (cases "q = 0")
    case True
    then have "s1 = s" using kalloc_cases [OF inv k] by metis
    then show ?thesis using k True that(1) by simp
  next
    case False
    have "same_off_page q (mem s1) (mem s1)" by (simp add: same_off_page_def)
    from new_page [OF assms k False this] have "grown s {} {q} s1" "kpage s q" by simp_all
    then show ?thesis using that(2) k False by blast
  qed
qed

abbreviation fresh :: "'a ksys_scheme \<Rightarrow> u64 \<Rightarrow> u64 \<Rightarrow> proc \<Rightarrow> proc" where
  "fresh s tf pt p \<equiv> p\<lparr>p_pid := nextpid s, p_state := USED, p_trapframe := tf, p_pagetable := pt,
     p_context := \<lparr>ctx_ra = forkret_at s, ctx_sp = p_kstack p + PGSIZE, ctx_s = replicate 12 0\<rparr>,
     p_rtime := 0, p_etime := 0, p_ctime := kticks s, p_my_wtime := 0, p_my_rtime := 0,
     p_my_stime := 0, p_static_pri := 50, p_rbi := 25, p_tot_sche := 0, p_curr_rbi := 0\<rparr>"

abbreviation next_pid :: "'a kproc_scheme \<Rightarrow> 'a kproc_scheme" where
  "next_pid s \<equiv> s\<lparr>nextpid := nextpid s + 1\<rparr>"

lemma mem_eq_next_pid [simp]: "mem_eq s (s'\<lparr>nextpid := x\<rparr>) = mem_eq s s'"
  by (simp add: mem_eq_def)

lemma more_ksys:
  fixes s s' :: "'a ksys_scheme"
  assumes "kmem.more s' = kmem.more s"
  shows "forkret_at s' = forkret_at s" and "kticks s' = kticks s" and "vmem.trampoline s' = vmem.trampoline s"
    and "ftable s' = ftable s" and "fs s' = fs s" and "first s' = first s"
  using assms by (cases s; cases s'; simp)+

lemma upd_proc_next_pid: "procs (upd_proc i f (next_pid s)) = upd_entry i f (procs s)"
  by simp

lemma allocproc_spec:
  fixes s :: "'a ksys_scheme"
  assumes ok: "kmem_ok s" and un: "unused_entry (procs s) = Some i" and i: "i < length (procs s)"
    and blank: "p_trapframe (procs s ! i) = 0" "p_pagetable (procs s ! i) = 0" "p_sz (procs s ! i) = 0"
  obtains s' where "allocproc s = Ret (None, s')" and "delta s (\<lambda>_. 0) {} s'"
    and "kmem.more s' = kmem.more (upd_proc i cleared (next_pid s))"
  | tf pt s' where "allocproc s = Ret (Some i, s')" and "kmem.more s' = kmem.more (upd_proc i (fresh s tf pt) (next_pid s))"
    and "delta s (\<lambda>p. of_bool (p \<in> own_pages s' i)) {} s'" and "\<forall>p \<in> own_pages s' i. kpage s p \<and> refs s p = 0"
    and "proc_mem s' i"
proof -
  let ?used = "\<lambda>p. p\<lparr>p_pid := nextpid s, p_state := USED\<rparr>"
  define s0 where "s0 = upd_proc i ?used (next_pid s)"
  have e0: "mem_eq s s0" by (simp add: s0_def)
  note m0 = mem_eqD [OF e0]
  have ok0: "kmem_ok s0" using ok by (simp add: m0(1))
  have p0: "procs s0 = upd_entry i ?used (procs s)" and i0: "i < length (procs s0)" using i by (simp_all add: s0_def upd_entry_def)
  have run: "allocproc s = bindR (kalloc s0) (\<lambda>(tf, s).
          let s = upd_proc i (p_trapframe_update (\<lambda>_. tf)) s in
          if tf = 0 then bindR (freeproc i s) (\<lambda>s. Ret (None, s))
          else bindR (proc_pagetable tf s) (\<lambda>(pt, s).
            let s = upd_proc i (p_pagetable_update (\<lambda>_. pt)) s in
            if pt = 0 then bindR (freeproc i s) (\<lambda>s. Ret (None, s))
            else Ret (Some i, upd_proc i (\<lambda>p. p\<lparr>
              p_context := \<lparr>ctx_ra = forkret_at s, ctx_sp = p_kstack p + PGSIZE, ctx_s = replicate 12 0\<rparr>,
              p_rtime := 0, p_etime := 0, p_ctime := kticks s, p_my_wtime := 0, p_my_rtime := 0,
              p_my_stime := 0, p_static_pri := 50, p_rbi := 25, p_tot_sche := 0, p_curr_rbi := 0\<rparr>) s)))"
    by (simp add: allocproc_def un allocpid_def s0_def)
  have m_end: "kmem.more s' = kmem.more (upd_proc i cleared (next_pid s))"
    if "kmem.more t = kmem.more (upd_proc i f s0)" "s' = upd_proc i g t" "\<And>p. g (f (?used p)) = cleared p" for s' t f g
  proof -
    have "kmem.more s' = kmem.more (upd_proc i g (upd_proc i f s0))" using that(1,2) more_upd_proc by blast
    also have "\<dots> = kmem.more (upd_proc i cleared (next_pid s))"
      using i that(3) by (simp add: s0_def upd_proc_upd_proc comp_def upd_entry_def)
    finally show ?thesis .
  qed
  show thesis
  proof (cases rule: kalloc_grown [OF ok0])
    case 1
    let ?s1 = "upd_proc i (p_trapframe_update (\<lambda>_. 0)) s0"
    let ?c = "\<lambda>p. p\<lparr>p_pagetable := 0, p_sz := 0, p_pid := 0, p_parent := None, p_name := [],
        p_chan := Chan0, p_killed := False, p_xstate := 0, p_state := UNUSED\<rparr>"
    have b: "p_trapframe (procs ?s1 ! i) = 0" "p_pagetable (procs ?s1 ! i) = 0"
      using blank i by (simp_all add: p0 upd_entry_def)
    define s' where "s' = upd_proc i ?c (upd_proc i (p_trapframe_update (\<lambda>_. 0)) ?s1)"
    have "freeproc i ?s1 = Ret s'" unfolding freeproc_def Let_def by (simp only: b s'_def) simp
    then have "allocproc s = Ret (None, s')" using 1 by (simp add: run)
    moreover have "delta s (\<lambda>_. 0) {} s'"
    proof -
      have "mem_eq s s'" by (simp add: s'_def e0)
      moreover have "delta s (\<lambda>_. 0) {} s" using ok by (simp add: delta_def)
      ultimately show ?thesis by (simp add: mem_eqD(8))
    qed
    moreover have "kmem.more s' = kmem.more (upd_proc i cleared (next_pid s))"
    proof -
      have "upd_proc i (p_trapframe_update (\<lambda>_. 0)) ?s1 = upd_proc i (\<lambda>p. p\<lparr>p_trapframe := 0\<rparr>) s0"
        using i0 by (simp add: upd_proc_upd_proc comp_def upd_entry_def)
      then show ?thesis using m_end [of _ "\<lambda>p. p\<lparr>p_trapframe := 0\<rparr>" s' ?c] by (simp add: s'_def)
    qed
    ultimately show ?thesis by (rule that(1))
  next
    case (2 tf s1)
    define s2 where "s2 = upd_proc i (p_trapframe_update (\<lambda>_. tf)) s1"
    have e2: "mem_eq s1 s2" by (simp add: s2_def)
    note m2 = mem_eqD [OF e2]
    have ok2: "kmem_ok s2" using 2(4) by (simp add: m2(1) grown_def)
    have more2: "kmem.more s2 = kmem.more (upd_proc i (p_trapframe_update (\<lambda>_. tf)) s0)"
      unfolding s2_def using 2(4) by (intro more_upd_proc) (simp add: grown_def)
    have d2: "delta s (\<lambda>p. of_bool (p \<in> {tf})) {} s2" using delta_grown [OF 2(4)] by (simp add: m0(7) m2(8))
    have tf: "kpage s tf" "refs s tf = 0" "refs s2 tf = 1" "kpage s2 = kpage s"
      using 2(4) grown_kpage [OF 2(4)] by (simp_all add: grown_def m0(2,3) m2(2,3))
    show ?thesis
    proof (cases rule: proc_pagetable_spec [OF ok2, of tf])
      case (1 s3)
      define s4 where "s4 = upd_proc i (p_pagetable_update (\<lambda>_. 0)) s3"
      have e4: "mem_eq s3 s4" by (simp add: s4_def)
      note m4 = mem_eqD [OF e4]
      have r3: "refs s3 q = refs s2 q" "kpage s3 q = kpage s q" if "kpage s q" for q
        using deltaD(3,4) [OF 1(2)] that tf(4) by simp_all
      have ok4: "kmem_ok s4" "kpage s4 tf" "0 < refs s4 tf"
        using deltaD(1) [OF 1(2)] r3 [OF tf(1)] tf by (simp_all add: m4)
      obtain s5 where s5: "kfree tf s4 = Ret s5" "freed s4 {tf} {} s5" using freed_kfree [OF ok4] by blast
      have p4: "procs s4 ! i = (procs s ! i)\<lparr>p_pid := nextpid s, p_state := USED, p_trapframe := tf, p_pagetable := 0\<rparr>"
        using more_procs [OF more2] more_procs [of s3 s2] 1(3) i by (simp add: s4_def keeps_def p0 upd_entry_def)
      let ?c = "\<lambda>p. p\<lparr>p_pagetable := 0, p_sz := 0, p_pid := 0, p_parent := None, p_name := [],
          p_chan := Chan0, p_killed := False, p_xstate := 0, p_state := UNUSED\<rparr>"
      define s' where "s' = upd_proc i ?c (upd_proc i (p_trapframe_update (\<lambda>_. 0)) s5)"
      have "freeproc i s4 = Ret s'" unfolding freeproc_def Let_def using s5(1) 2(2) by (simp add: p4 s'_def)
      then have "allocproc s = Ret (None, s')" using 2(1,2) 1(1) by (simp add: run s2_def s4_def)
      moreover have "delta s (\<lambda>_. 0) {} s'"
      proof -
        have f4: "delta s3 (\<lambda>p. - of_bool (p \<in> {tf})) {} s5"
          using delta_freed [OF s5(2)] ok4(2) r3 [OF tf(1)] tf by (simp add: m4)
        have "delta s (\<lambda>p. of_bool (p \<in> {tf})) {} s3"
          by (rule delta_trans [OF d2 1(2)]) (use deltaD(4) [OF d2] deltaD(3) [OF d2] in auto)
        then have "delta s (\<lambda>_. 0) {} s5"
          by (rule delta_trans [OF _ f4]) (use deltaD(4) [OF d2] r3 in \<open>auto simp: add_pos_nonneg\<close>)
        moreover have "mem_eq s5 s'" by (simp add: s'_def)
        ultimately show ?thesis by (simp add: mem_eqD(8))
      qed
      moreover have "kmem.more s' = kmem.more (upd_proc i cleared (next_pid s))"
      proof -
        have "kmem.more s3 = kmem.more (upd_proc i (p_trapframe_update (\<lambda>_. tf)) s0)" using 1(3) more2 by (simp add: keeps_def)
        from more_upd_proc [OF this, of i "p_pagetable_update (\<lambda>_. 0)"]
        have m5: "kmem.more s5 = kmem.more (upd_proc i (\<lambda>p. p\<lparr>p_trapframe := tf, p_pagetable := 0\<rparr>) s0)"
          using freedD(3) [OF s5(2)] i0 by (simp add: s4_def upd_proc_upd_proc comp_def)
        from m_end [OF m5, of s' "?c \<circ> p_trapframe_update (\<lambda>_. 0)"] show ?thesis
          using more_procs [OF m5] i0 by (simp add: s'_def upd_proc_upd_proc upd_entry_def)
      qed
      ultimately show ?thesis by (rule that(1))
    next
      case (2 pt s3)
      note kal = \<open>kalloc s0 = Ret (tf, s1)\<close> \<open>tf \<noteq> 0\<close>
      have p3: "procs s3 = upd_entry i (p_trapframe_update (\<lambda>_. tf)) (procs s0)"
        using more_procs [of s3 s2] more_procs [OF more2] 2(3) by (simp add: grown_def)
      let ?g = "\<lambda>p. p\<lparr>p_context := \<lparr>ctx_ra = forkret_at s, ctx_sp = p_kstack p + PGSIZE, ctx_s = replicate 12 0\<rparr>,
              p_rtime := 0, p_etime := 0, p_ctime := kticks s, p_my_wtime := 0, p_my_rtime := 0,
              p_my_stime := 0, p_static_pri := 50, p_rbi := 25, p_tot_sche := 0, p_curr_rbi := 0\<rparr>"
      have mks: "forkret_at s3 = forkret_at s" "kticks s3 = kticks s"
        using more_ksys(1,2) [of s3 s2] more_ksys(1,2) [OF more2] 2(3) by (simp_all add: grown_def s0_def upd_proc_def)
      define s' where "s' = upd_proc i ?g (upd_proc i (p_pagetable_update (\<lambda>_. pt)) s3)"
      have e': "mem_eq s3 s'" by (simp add: s'_def)
      note m' = mem_eqD [OF e']
      have "allocproc s = Ret (Some i, s')"
        using kal 2(1,2) mks by (simp add: run s2_def s'_def upd_proc_def)
      moreover have ent: "procs s' ! i = fresh s tf pt (procs s ! i)"
        using i by (simp add: s'_def p3 p0 upd_entry_def)
      moreover have "kmem.more s' = kmem.more (upd_proc i (fresh s tf pt) (next_pid s))"
      proof -
        have "kmem.more s3 = kmem.more (upd_proc i (p_trapframe_update (\<lambda>_. tf)) s0)"
          using 2(3) more2 by (simp add: grown_def)
        from more_upd_proc [OF this, of i "?g \<circ> p_pagetable_update (\<lambda>_. pt)"]
        show ?thesis using i i0 p3 by (simp add: s'_def s0_def upd_proc_upd_proc comp_def upd_entry_def)
      qed
      moreover have new: "\<forall>p \<in> pages_of s3 pt. kpage s p \<and> refs s2 p = 0 \<and> refs s3 p = 1"
        using 2(3) tf(4) by (simp add: grown_def)
      moreover have tf3: "tf \<notin> pages_of s3 pt" "refs s3 tf = 1" "kpage s3 = kpage s"
        using grown_pos [OF 2(3), of tf] grown_kpage [OF 2(3)] tf by simp_all
      moreover have "refs s p = 0" if "p \<in> pages_of s3 pt" for p
        using new that tf3(1) deltaD(4) [OF d2, of p] by (cases "p = tf") auto
      then have "\<forall>p \<in> own_pages s' i. kpage s p \<and> refs s p = 0"
        using new tf by (auto simp: ent m'(4))
      moreover have "delta s (\<lambda>p. of_bool (p \<in> own_pages s' i)) {} s'"
      proof -
        have "delta s (\<lambda>p. of_bool (p \<in> insert tf (pages_of s3 pt))) {} s3"
          by (rule delta_trans [OF d2 delta_grown [OF 2(3)]]) (use tf3(1) deltaD(4) [OF d2] in auto)
        then show ?thesis by (simp add: ent m'(4,8))
      qed
      moreover have "proc_mem s' i"
        using 2(4) new tf3 tf blank(3) by (simp add: proc_mem_def ent m' npages_def)
      ultimately show ?thesis using that(2) by blast
    qed
  qed
qed

end
