(* ===== verification/Forkproc.thy ===== *)
theory Forkproc
  imports Lifecycle
begin

text \<open>
  \<open>fork\<close> as a whole: the child gets a table that maps the pages of the parent copy-on-write, a
  copy of the registers with a zero result, the open files and the current directory; or
  nothing is left of the attempt.
\<close>

section \<open>The tables after uvmcopy\<close>

lemma proc_forkable:
  assumes ok: "kmem_ok s" and old: "proc_table s old n tfo" and new: "proc_table s new 0 tfn"
    and dis: "pages_of s old \<inter> pages_of s new = {}" and up: "\<And>k. k < n \<Longrightarrow> upage s old 0 k \<notin> pages_of s new"
  shows "forkable old new n s"
proof -
  note d = proc_tableD [OF old] and e = proc_tableD [OF new] and p = proc_table_pages [OF old]
  have "\<not> bit (pte_of s new (page_at 0 k)) 0" if "k < n" for k
  proof (rule e(12))
    show "page_at 0 k < SV39" using p(4) [OF that] by (rule maxva_sv39)
    have "k < 0x3FFFFFE" using d(2) that by linarith
    then show "pgno (page_at 0 k) \<noteq> pgno TRAMPOLINE" "pgno (page_at 0 k) \<noteq> pgno TRAPFRAME"
      using p(3) [OF that] by (simp_all add: tops)
  qed simp
  then show ?thesis using ok d(1,2,7-10) e(1) p(1) dis up by (simp add: forkable_def)
qed

lemma shared_refs:
  assumes "shared old new n n s s'" and "kpage s p"
  shows "refs s' p = (if p \<in> pages_of s' new - pages_of s new then 1 else refs s p + uses (upage s old 0) n p)"
  using assms unfolding shared_def by auto

lemma cow_pte_leaf:
  assumes "bit e 0" and "PTE_FLAGS e \<noteq> PTE_V"
  shows "bit (cow_pte e) 0" and "PTE_FLAGS (cow_pte e) \<noteq> PTE_V"
  using child_pte_leaf [OF assms] by (simp_all add: bit_child_pte)

lemma shared_old_table:
  assumes old: "proc_table s old n tfo" and fk: "forkable old new n s" and sh: "shared old new n n s s'"
  shows "proc_table s' old n tfo" and "k < n \<Longrightarrow> pte_of s' old (page_at 0 k) = cow_pte (pte_of s old (page_at 0 k))"
proof -
  note d = proc_tableD [OF old] and p = proc_table_pages [OF old] and h = sharedD [OF sh]
  have pg: "pages_of s' old = pages_of s old" using sh by (simp add: shared_def)
  have top: "pte_of s' old TRAMPOLINE = pte_of s old TRAMPOLINE" "pte_of s' old TRAPFRAME = pte_of s old TRAPFRAME"
    using h(5) [OF maxva_sv39 [OF tops(1)]] h(5) [OF maxva_sv39 [OF tops(2)]] p(5) d(2) by (simp_all add: tops)
  show e: "pte_of s' old (page_at 0 k) = cow_pte (pte_of s old (page_at 0 k))" if "k < n" for k
    using h(5) [OF maxva_sv39 [OF p(4) [OF that]]] p(3) [OF that] that by simp
  have us: "uses (upage s' old 0) n q = uses (upage s old 0) n q" for q by (rule uses_cong) (simp add: e)
  have "uses (upage s old 0) n q \<le> refs s' q" if "kpage s q" for q
  proof (cases "q \<in> pages_of s' new - pages_of s new")
    case True
    then have "refs s q = 0" "refs s' q = 1" using sh unfolding shared_def by blast+
    then show ?thesis using d(11) [OF that] by simp
  next
    case False
    then have "refs s' q = refs s q + uses (upage s old 0) n q" using shared_refs [OF sh that] by auto
    then show ?thesis using refs_nonneg [OF forkableD(1) [OF fk] that] by simp
  qed
  moreover have "bit (pte_of s' old (page_at 0 k)) 0 \<and> PTE_FLAGS (pte_of s' old (page_at 0 k)) \<noteq> PTE_V" if "k < n" for k
    using cow_pte_leaf [OF d(7,8)] that by (simp add: e)
  moreover have "pte_of s' old va = pte_of s old va" if "va < SV39" "n \<le> pgno va" for va
    using h(5) [OF that(1)] that(2) by simp
  ultimately show "proc_table s' old n tfo"
    using old h(2,6) by (simp add: proc_table_def pg top us e)
qed

lemma shared_new_table:
  assumes old: "proc_table s old n tfo" and new: "proc_table s new 0 tfn" and fk: "forkable old new n s"
    and sh: "shared old new n n s s'" and ch: "child_ptes old new n s s'"
  shows "proc_table s' new n tfn" and "k < n \<Longrightarrow> pte_of s' new (page_at 0 k) = child_pte (pte_of s old (page_at 0 k))"
proof -
  note d = proc_tableD [OF old] and p = proc_table_pages [OF old] and h = sharedD [OF sh] and f = forkableD [OF fk]
  have c: "pte_of s' new va = (if pgno va < n then child_pte (pte_of s old va) else pte_of s new va)" if "va < SV39" for va
    using ch that by (simp add: child_ptes_def)
  have top: "pte_of s' new TRAMPOLINE = pte_of s new TRAMPOLINE" "pte_of s' new TRAPFRAME = pte_of s new TRAPFRAME"
    using c [OF maxva_sv39 [OF tops(1)]] c [OF maxva_sv39 [OF tops(2)]] p(5) d(2) by (simp_all add: tops)
  show e: "pte_of s' new (page_at 0 k) = child_pte (pte_of s old (page_at 0 k))" if "k < n" for k
    using c [OF maxva_sv39 [OF p(4) [OF that]]] p(3) [OF that] that by simp
  have us: "uses (upage s' new 0) n q = uses (upage s old 0) n q" for q by (rule uses_cong) (simp add: e)
  have "uses (upage s old 0) n q \<le> refs s' q" if "kpage s q" for q
    using proc_tableD(11) [OF shared_old_table(1) [OF old fk sh], of q] that h(6)
      uses_cong [of n "upage s' old 0" "upage s old 0" q] shared_old_table(2) [OF old fk sh] by simp
  moreover have "bit (pte_of s' new (page_at 0 k)) 0 \<and> PTE_FLAGS (pte_of s' new (page_at 0 k)) \<noteq> PTE_V" if "k < n" for k
    using child_pte_leaf [OF d(7,8)] that by (simp add: e)
  moreover have "upage s old 0 k \<notin> pages_of s' new" if "k < n" for k
  proof
    assume "upage s old 0 k \<in> pages_of s' new"
    then have "refs s (upage s old 0 k) = 0" using f(11) [OF that] sh unfolding shared_def by blast
    then show False using p(1) [OF that] by simp
  qed
  moreover have "\<not> bit (pte_of s' new va) 0"
    if "va < SV39" "n \<le> pgno va" "pgno va \<noteq> pgno TRAMPOLINE" "pgno va \<noteq> pgno TRAPFRAME" for va
    using c [OF that(1)] that proc_tableD(12) [OF new] by simp
  ultimately show "proc_table s' new n tfn"
    using new d(2,9) h(3,6) by (simp add: proc_table_def top us e)
qed

text \<open>A failed \<open>uvmcopy\<close> leaves the table of the child with the two top pages only.\<close>

lemma failed_tables:
  assumes old: "proc_table s old n tfo" and new: "proc_table s new 0 tfn" and fk: "forkable old new n s"
    and fl: "fork_failed old new n s s'"
  shows "proc_table s' old n tfo" and "proc_table s' new 0 tfn"
    and "va < SV39 \<Longrightarrow> pte_of s' old va = pte_of s old va \<or> pte_of s' old va = cow_pte (pte_of s old va)"
proof -
  note d = proc_tableD [OF old] and p = proc_table_pages [OF old] and f = forkableD [OF fk]
  have F: "kmem_ok s'" "kend s' = kend s" "owned s' 2 old" "owned s' 2 new" "pages_of s' old = pages_of s old"
    using fl by (simp_all add: fork_failed_def)
  have kp: "kpage s' = kpage s" using F(2) by (simp add: kpage_def fun_eq_iff)
  obtain j where j: "j \<le> n" "\<And>va. va < SV39 \<Longrightarrow> pte_of s' old va =
       (if pgno va < j then cow_pte (pte_of s old va) else pte_of s old va)"
    using fl unfolding fork_failed_def by blast
  have c: "if pgno va < n then \<not> bit (pte_of s' new va) 0 else pte_of s' new va = pte_of s new va" if "va < SV39" for va
    using fl that unfolding fork_failed_def by blast
  show "va < SV39 \<Longrightarrow> pte_of s' old va = pte_of s old va \<or> pte_of s' old va = cow_pte (pte_of s old va)"
    using j(2) by auto
  have top: "pte_of s' old TRAMPOLINE = pte_of s old TRAMPOLINE" "pte_of s' old TRAPFRAME = pte_of s old TRAPFRAME"
      "pte_of s' new TRAMPOLINE = pte_of s new TRAMPOLINE" "pte_of s' new TRAPFRAME = pte_of s new TRAPFRAME"
    using j(2) [OF maxva_sv39 [OF tops(1)]] j(2) [OF maxva_sv39 [OF tops(2)]] c [OF maxva_sv39 [OF tops(1)]]
      c [OF maxva_sv39 [OF tops(2)]] p(5) d(2) j(1) by (simp_all add: tops)
  have e: "pte_of s' old (page_at 0 k) = (if k < j then cow_pte (pte_of s old (page_at 0 k)) else pte_of s old (page_at 0 k))"
    if "k < n" for k using j(2) [OF maxva_sv39 [OF p(4) [OF that]]] p(3) [OF that] by simp
  have us: "uses (upage s' old 0) n q = uses (upage s old 0) n q" for q by (rule uses_cong) (simp add: e)
  have "uses (upage s old 0) n q \<le> refs s' q" if "kpage s q" for q
  proof (cases "q \<in> pages_of s' new - pages_of s new")
    case True
    then have "refs s q = 0" "refs s' q = 1" using fl unfolding fork_failed_def by blast+
    then show ?thesis using d(11) [OF that] by simp
  next
    case False
    then have "refs s' q = refs s q" using fl that unfolding fork_failed_def by blast
    then show ?thesis using d(11) [OF that] by simp
  qed
  moreover have "bit (pte_of s' old (page_at 0 k)) 0 \<and> PTE_FLAGS (pte_of s' old (page_at 0 k)) \<noteq> PTE_V" if "k < n" for k
    using cow_pte_leaf [OF d(7,8)] d(7,8) that by (simp add: e)
  moreover have "pte_of s' old va = pte_of s old va" if "va < SV39" "n \<le> pgno va" for va
    using j that by simp
  ultimately show "proc_table s' old n tfo"
    using old F by (simp add: proc_table_def top us e kp)
  have "\<not> bit (pte_of s' new va) 0"
    if "va < SV39" "pgno va \<noteq> pgno TRAMPOLINE" "pgno va \<noteq> pgno TRAPFRAME" for va
    using c [OF that(1)] that proc_tableD(12) [OF new] by (cases "pgno va < n") auto
  then show "proc_table s' new 0 tfn"
    using new F refs_nonneg [OF F(1)] kp by (simp add: proc_table_def top)
qed

section \<open>Copying the open files\<close>

text \<open>The descriptors of the child after the first \<open>k\<close> of them were copied.\<close>

abbreviation copied :: "nat \<Rightarrow> nat option list \<Rightarrow> nat option list" where
  "copied k fds \<equiv> take k fds @ replicate (NOFILE - k) None"

lemma fork_files:
  fixes s :: "'a kfs_scheme"
  assumes ok: "refs_ok s" and p: "p < length (procs s)" and np: "np < length (procs s)" "np \<noteq> p"
    and none: "p_ofile (procs s ! np) = replicate NOFILE None" and k: "k \<le> NOFILE"
  shows "\<exists>ft. foldR (fork_file p np) [0..<k] s =
      Ret (s\<lparr>procs := upd_entry np (p_ofile_update (\<lambda>_. copied k (p_ofile (procs s ! p)))) (procs s), ftable := ft\<rparr>) \<and>
    refs_ok (s\<lparr>procs := upd_entry np (p_ofile_update (\<lambda>_. copied k (p_ofile (procs s ! p)))) (procs s), ftable := ft\<rparr>)"
  using k
proof (induction k)
  case 0
  have "upd_entry np (p_ofile_update (\<lambda>_. copied 0 (p_ofile (procs s ! p)))) (procs s) = procs s"
    using none by (simp add: upd_entry_def flip: none)
  then show ?case using ok by (intro exI [of _ "ftable s"]) simp
next
  case (Suc k)
  let ?o = "p_ofile (procs s ! p)"
  obtain ft where ft: "foldR (fork_file p np) [0..<k] s =
      Ret (s\<lparr>procs := upd_entry np (p_ofile_update (\<lambda>_. copied k ?o)) (procs s), ftable := ft\<rparr>)"
    and rk: "refs_ok (s\<lparr>procs := upd_entry np (p_ofile_update (\<lambda>_. copied k ?o)) (procs s), ftable := ft\<rparr>)"
    using Suc by auto
  define t where "t = s\<lparr>procs := upd_entry np (p_ofile_update (\<lambda>_. copied k ?o)) (procs s), ftable := ft\<rparr>"
  have tp: "procs t ! p = procs s ! p" "procs t ! np = (procs s ! np)\<lparr>p_ofile := copied k ?o\<rparr>"
      "p < length (procs t)" "np < length (procs t)"
    using p np by (simp_all add: t_def upd_entry_def)
  have lo: "length ?o = NOFILE" using refs_okD(1) [OF ok p] .
  have run: "foldR (fork_file p np) [0..<Suc k] s = fork_file p np k t" using ft by (simp add: foldR_snoc t_def)
  have step: "(copied k ?o)[k := x] = copied (Suc k) (?o[k := x])" for x
    using Suc.prems lo by (intro nth_equalityI) (auto simp: nth_append nth_list_update min_def)
  have e: "upd_entry np (\<lambda>q. q\<lparr>p_ofile := (p_ofile q)[k := x]\<rparr>) (upd_entry np (p_ofile_update (\<lambda>_. copied k ?o)) (procs s)) =
      upd_entry np (p_ofile_update (\<lambda>_. copied (Suc k) (?o[k := x]))) (procs s)" for x
    using np(1) step [of x] by (simp add: upd_entry_def)
  have nk: "p_ofile (procs t ! np) ! k = None" using Suc.prems lo tp(2) by (simp add: nth_append min_def)
  show ?case
  proof (cases "?o ! k")
    case None
    then have o: "?o[k := None] = ?o" by (metis list_update_id)
    have "copied (Suc k) ?o = copied k ?o"
      using step [of None] o nk tp(2) by (metis list_update_id proc.select_convs(13) proc.surjective proc.update_convs(13))
    then have "fork_file p np k t = Ret (s\<lparr>procs := upd_entry np (p_ofile_update (\<lambda>_. copied (Suc k) ?o)) (procs s), ftable := ft\<rparr>)"
      using None tp(1) by (simp add: fork_file_def t_def)
    then show ?thesis using run rk \<open>copied (Suc k) ?o = copied k ?o\<close> by (intro exI [of _ ft]) simp
  next
    case (Some f)
    then have o: "?o[k := Some f] = ?o" by (metis list_update_id)
    note D = refs_okD [OF rk [folded t_def] tp(3)]
    have kn: "k < NOFILE" using Suc.prems by simp
    have pk: "p_ofile (procs t ! p) ! k = Some f" using Some tp(1) by simp
    have f: "f < NFILE" "1 \<le> sint (f_ref (ftable t ! f))" "sint (f_ref (ftable t ! f)) \<le> 1024"
      using D(2) [OF kn pk] D(3) [of f] D(6) [of f] D(7) [OF kn pk] by simp_all
    define t' where "t' = set_ofile np k (Some f) (upd_file f (\<lambda>x. x\<lparr>f_ref := f_ref x + 1\<rparr>) t)"
    have st: "fork_file p np k t = Ret t'" using pk f(2) by (simp add: fork_file_def filedup_def t'_def)
    have t': "t' = s\<lparr>procs := upd_entry np (p_ofile_update (\<lambda>_. copied (Suc k) ?o)) (procs s),
        ftable := ft[f := (ft ! f)\<lparr>f_ref := f_ref (ft ! f) + 1\<rparr>]\<rparr>"
      by (simp add: t'_def set_ofile_def upd_proc_def upd_file_def t_def e [of "Some f", unfolded o])
    have "refs_ok t'"
    proof (rule refs_ok_move [OF rk [folded t_def] tp(4) kn, of "Some f"])
      show "sint (f_ref (ftable t' ! g)) = sint (f_ref (ftable t ! g)) - of_bool (p_ofile (procs t ! np) ! k = Some g) +
          of_bool (Some f = Some g)" if "g < NFILE" for g
        using f sint_step(1) [of "f_ref (ftable t ! f)"] nk D(4) that
        by (auto simp: t'_def upd_file_def nth_list_update set_ofile_def upd_proc_def)
      show "procs t' = procs (set_ofile np k (Some f) t)" by (simp add: t'_def set_ofile_def)
      show "length (ftable t') = NFILE" using D(4) by (simp add: t'_def set_ofile_def upd_proc_def)
    qed (use f in auto)
    then show ?thesis using run st unfolding t' by (intro exI) (rule conjI, simp, simp)
  qed
qed

section \<open>Memory of a process through other operations\<close>

lemma proc_table_delta:
  assumes t: "proc_table s pt n tf" and d: "delta s f W s'" and w: "pages_of s pt \<inter> W = {}"
    and pos: "\<And>q. q \<in> pages_of s pt \<Longrightarrow> 0 < refs s' q" and u: "\<And>p. kpage s p \<Longrightarrow> uses (upage s pt 0) n p \<le> refs s' p"
  shows "proc_table s' pt n tf" and "pages_of s' pt = pages_of s pt" and "pte_of s' pt va = pte_of s pt va"
proof -
  have "agree_on (pages_of s pt) (mem s) (mem s')"
    using deltaD(5) [OF d] w pos ownedD(2,3) [OF proc_tableD(1) [OF t]] by (auto elim!: agree_on_subset)
  from proc_table_agree [OF t this deltaD(3) [OF d]] pos u
  show "proc_table s' pt n tf" "pages_of s' pt = pages_of s pt" "pte_of s' pt va = pte_of s pt va" by blast+
qed

text \<open>The page behind an address of a process.\<close>

lemma user_page:
  assumes t: "proc_table s pt (npages sz) tf" and w: "w < sz"
  shows "kpage s (PTE2PA (pte_of s pt w))" and "0 < refs s (PTE2PA (pte_of s pt w))"
    and "PTE2PA (pte_of s pt w) \<notin> pages_of s pt" and "PTE2PA (pte_of s pt w) = upage s pt 0 (pgno w)"
    and "pgno w < npages sz" and "w < MAXVA"
proof -
  have nb: "npages sz * 4096 \<le> 0x4000000000" using proc_tableD(2) [OF t] by simp
  note b = below_pages [OF nb w]
  show e: "PTE2PA (pte_of s pt w) = upage s pt 0 (pgno w)" using b(3) [of s pt] by simp
  show "pgno w < npages sz" "w < MAXVA" by (fact b)+
  show "kpage s (PTE2PA (pte_of s pt w))" "0 < refs s (PTE2PA (pte_of s pt w))" "PTE2PA (pte_of s pt w) \<notin> pages_of s pt"
    using proc_tableD(9,10) [OF t b(2)] proc_table_pages(1) [OF t b(2)] by (simp_all add: e)
qed

lemma user_load_agree:
  assumes "PTE2PA (pte_of s' pt' w) = PTE2PA (pte_of s pt w)"
    and "\<And>x. PGROUNDDOWN x = PTE2PA (pte_of s pt w) \<Longrightarrow> mem s' x = mem s x"
  shows "user_load s' pt' w = user_load s pt w"
  using assms user_addr_page [of s pt w] by (simp add: user_load_def user_addr_def)

text \<open>Writing a page that belongs to no table and to nobody's memory.\<close>

lemma proc_table_write:
  assumes t: "proc_table s pt n tf" and off: "same_off_page q (mem s) m'" and q: "q \<notin> pages_of s pt"
  shows "proc_table (s\<lparr>mem := m'\<rparr>) pt n tf" and "tbl_pages m' 2 pt = pages_of s pt" and "leaf m' 2 pt va = pte_of s pt va"
proof -
  have ag: "agree_on (pages_of s pt) (mem s) m'" using same_off_page_agree [OF off q] .
  have "kpage (s\<lparr>mem := m'\<rparr>) = kpage s" by (intro ext) simp
  note a = proc_table_agree [OF t, of "s\<lparr>mem := m'\<rparr>"]
  show "proc_table (s\<lparr>mem := m'\<rparr>) pt n tf" "tbl_pages m' 2 pt = pages_of s pt" "leaf m' 2 pt va = pte_of s pt va"
    using a ag \<open>kpage (s\<lparr>mem := m'\<rparr>) = kpage s\<close> ownedD(3) [OF proc_tableD(1) [OF t]] proc_tableD(11) [OF t] by simp_all
qed

section \<open>The trapframe of the child\<close>

abbreviation tf_copied :: "u64 \<Rightarrow> u64 \<Rightarrow> memory \<Rightarrow> memory" where
  "tf_copied tfp tfn m \<equiv> st64 (put_bytes m tfn (get_bytes m tfp 288)) (tfn + 112) 0"

lemma tf_copied_page:
  assumes "pg_aligned tfn"
  shows "same_off_page tfn m (tf_copied tfp tfn m)"
proof -
  have "same_off_page tfn m (put_bytes m tfn (get_bytes m tfp 288))"
    unfolding same_off_page_def put_bytes_def
  proof (intro allI impI)
    fix x assume "PGROUNDDOWN x \<noteq> tfn"
    then have "\<not> unat (x - tfn) < 4096" using in_region_page [OF assms, of x] by (simp add: in_region_def)
    then show "(if unat (x - tfn) < length (get_bytes m tfp 288) then get_bytes m tfp 288 ! unat (x - tfn) else m x) = m x" by simp
  qed
  moreover have "same_off_page tfn m1 (st64 m1 (tfn + 112) 0)" for m1
    using same_off_page_entry [OF assms, of 14 m1 0] by (simp add: PTE_ADDR_def)
  ultimately show ?thesis by (simp add: same_off_page_def)
qed

lemma tf_copied_entry:
  assumes "pg_aligned tfn" and "k < 36"
  shows "ld64 (tf_copied tfp tfn m) (tfn + 8 * of_nat k) = (if k = 14 then 0 else ld64 m (tfp + 8 * of_nat k))"
proof -
  have k: "(of_nat k :: u64) < 512" "unat (of_nat k :: u64) = k"
    using assms(2) by (simp_all add: word_less_nat_alt unat_of_nat_u64)
  have k14: "(of_nat k :: u64) = 14 \<longleftrightarrow> k = 14" using k(2) by (simp add: word_unat_eq_iff)
  have "entry (put_bytes m tfn (get_bytes m tfp 288)) tfn (of_nat k) = ld64 m (tfp + 8 * of_nat k)"
  proof -
    have "put_bytes m tfn (get_bytes m tfp 288) (tfn + 8 * of_nat k + of_nat i) = m (tfp + 8 * of_nat k + of_nat i)"
      if "i < 8" for i
    proof -
      have n: "8 * k + i < 288" using assms(2) that by simp
      have e: "a + 8 * of_nat k + of_nat i = a + of_nat (8 * k + i)" for a :: u64 by simp
      have u: "unat (of_nat (8 * k + i) :: u64) = 8 * k + i" using n by (intro unat_of_nat_u64) simp
      show ?thesis unfolding e put_bytes_def get_bytes_def using n by (simp add: u del: of_nat_add of_nat_mult)
    qed
    then show ?thesis unfolding ld64_def PTE_ADDR_def
      by (intro arg_cong [of _ _ word_rcat] arg_cong [of _ _ rev] map_cong) auto
  qed
  moreover have "tfn + 8 * of_nat k = PTE_ADDR tfn (of_nat k)" "tfn + 112 = PTE_ADDR tfn 14" by (simp_all add: PTE_ADDR_def)
  ultimately show ?thesis using entry_st64 [OF assms(1) _ k(1), of 14] k14 by simp
qed

section \<open>From allocproc to uvmcopy\<close>

text \<open>Entries that are not in use hold nothing.\<close>

definition blank_unused :: "'a kproc_scheme \<Rightarrow> bool" where
  "blank_unused s \<longleftrightarrow> (\<forall>i < length (procs s). p_state (procs s ! i) = UNUSED \<longrightarrow>
     p_trapframe (procs s ! i) = 0 \<and> p_pagetable (procs s ! i) = 0 \<and> p_sz (procs s ! i) = 0 \<and>
     p_ofile (procs s ! i) = replicate NOFILE None)"

lemma unused_entryD:
  "unused_entry ps = Some i \<Longrightarrow> i < length ps \<and> p_state (ps ! i) = UNUSED"
  by (auto simp: unused_entry_def find_Some_iff)

text \<open>
  The state \<open>s1\<close> after \<open>allocproc\<close> chose the entry \<open>np\<close>: what the parent \<open>p\<close> has is untouched, and
  what the child has is new.
\<close>

definition fork_ready :: "'a ksys_scheme \<Rightarrow> nat \<Rightarrow> nat \<Rightarrow> u64 \<Rightarrow> u64 \<Rightarrow> 'a ksys_scheme \<Rightarrow> bool" where
  "fork_ready s p np tf pt s1 \<longleftrightarrow> kmem_ok s1 \<and> kpage s1 = kpage s \<and> np \<noteq> p \<and> np < length (procs s) \<and>
     kmem.more s1 = kmem.more (upd_proc np (fresh s tf pt) (next_pid s)) \<and>
     (let old = p_pagetable (procs s ! p); n = npages (p_sz (procs s ! p)); tfp = p_trapframe (procs s ! p) in
       forkable old pt n s1 \<and> proc_table s1 old n tfp \<and> proc_table s1 pt 0 tf \<and>
       pages_of s1 old = pages_of s old \<and> (\<forall>va. pte_of s1 old va = pte_of s old va)) \<and>
     (\<forall>q. kpage s q \<longrightarrow> refs s1 q = refs s q + of_bool (q \<in> insert tf (pages_of s1 pt))) \<and>
     (\<forall>q \<in> insert tf (pages_of s1 pt). kpage s q \<and> refs s q = 0) \<and> tf \<notin> pages_of s1 pt \<and>
     agree_on {q. kpage s q \<longrightarrow> 0 < refs s q} (mem s) (mem s1)"

lemma fork_readyI:
  fixes s :: "'a ksys_scheme"
  assumes ok: "kmem_ok s" and p: "p < length (procs s)" "p_state (procs s ! p) \<noteq> UNUSED" and pm: "proc_mem s p"
    and un: "unused_entry (procs s) = Some np"
    and more: "kmem.more s1 = kmem.more (upd_proc np (fresh s tf pt) (next_pid s))"
    and d: "delta s (\<lambda>q. of_bool (q \<in> own_pages s1 np)) {} s1" and new: "\<forall>q \<in> own_pages s1 np. kpage s q \<and> refs s q = 0"
    and cm: "proc_mem s1 np" and sz: "p_sz (procs s ! np) = 0"
  shows "fork_ready s p np tf pt s1"
proof -
  have np: "np < length (procs s)" "np \<noteq> p" using unused_entryD [OF un] p(2) by auto
  have ent: "procs s1 ! np = fresh s tf pt (procs s ! np)"
    using more_procs [OF more] np(1) by (simp add: upd_entry_def)
  define old n tfp where "old = p_pagetable (procs s ! p)" and "n = npages (p_sz (procs s ! p))" and "tfp = p_trapframe (procs s ! p)"
  note P = proc_memD [OF pm, folded old_def n_def tfp_def] and C = proc_memD [OF cm, unfolded ent, simplified]
  have own: "own_pages s1 np = insert tf (pages_of s1 pt)" by (simp add: ent)
  have r: "refs s1 q = refs s q + of_bool (q \<in> insert tf (pages_of s1 pt))" if "kpage s q" for q
    using deltaD(4) [OF d that] by (simp only: own)
  have ge: "refs s q \<le> refs s1 q" if "kpage s q" for q using r [OF that] by simp
  have t1: "proc_table s1 old n tfp" "pages_of s1 old = pages_of s old" "\<And>va. pte_of s1 old va = pte_of s old va"
  proof -
    have pos: "0 < refs s1 q" if "q \<in> pages_of s old" for q using P(2) [of q] ge [of q] that by auto
    have "uses (upage s old 0) n q \<le> refs s1 q" if "kpage s q" for q
      using proc_tableD(11) [OF P(1) that] ge [OF that] by simp
    from proc_table_delta [OF P(1) d _ pos this]
    show "proc_table s1 old n tfp" "pages_of s1 old = pages_of s old" "\<And>va. pte_of s1 old va = pte_of s old va" by simp_all
  qed
  have new': "kpage s q \<and> refs s q = 0" if "q \<in> insert tf (pages_of s1 pt)" for q using new that by (simp only: own)
  have t2: "proc_table s1 pt 0 tf" using C(1) sz by (simp add: npages_def)
  have dis: "pages_of s1 old \<inter> pages_of s1 pt = {}"
    using new' ownedD(3) [OF proc_tableD(1) [OF P(1)]] by (fastforce simp: t1(2))
  have up: "upage s1 old 0 k \<notin> pages_of s1 pt" if "k < n" for k
    using proc_table_pages(1) [OF P(1) that] new' [of "upage s old 0 k"] by (auto simp: t1(3))
  have "forkable old pt n s1" by (rule proc_forkable [OF deltaD(1) [OF d] t1(1) t2 dis up])
  moreover have "agree_on {q. kpage s q \<longrightarrow> 0 < refs s q} (mem s) (mem s1)"
    using deltaD(5) [OF d] ge by (auto elim!: agree_on_subset intro: less_le_trans)
  ultimately show ?thesis
    unfolding fork_ready_def Let_def old_def [symmetric] n_def [symmetric] tfp_def [symmetric]
    using deltaD(1,3) [OF d] np more t1 t2 r new' C(4) by simp
qed

lemma fork_readyD:
  assumes "fork_ready s p np tf pt s1"
  defines "old \<equiv> p_pagetable (procs s ! p)" and "n \<equiv> npages (p_sz (procs s ! p))" and "tfp \<equiv> p_trapframe (procs s ! p)"
  shows "kmem_ok s1" and "kpage s1 = kpage s" and "np \<noteq> p" and "np < length (procs s)"
    and "kmem.more s1 = kmem.more (upd_proc np (fresh s tf pt) (next_pid s))"
    and "forkable old pt n s1" and "proc_table s1 old n tfp" and "proc_table s1 pt 0 tf"
    and "pages_of s1 old = pages_of s old" and "pte_of s1 old va = pte_of s old va"
    and "kpage s q \<Longrightarrow> refs s1 q = refs s q + of_bool (q \<in> insert tf (pages_of s1 pt))"
    and "q \<in> insert tf (pages_of s1 pt) \<Longrightarrow> kpage s q \<and> refs s q = 0" and "tf \<notin> pages_of s1 pt"
    and "agree_on {q. kpage s q \<longrightarrow> 0 < refs s q} (mem s) (mem s1)"
  using assms unfolding fork_ready_def Let_def by auto

section \<open>A fork that fails\<close>

text \<open>What stays true of the parent: its memory, its registers, its hold on its own pages.\<close>

definition parent_kept :: "'a kproc_scheme \<Rightarrow> nat \<Rightarrow> 'a kproc_scheme \<Rightarrow> bool" where
  "parent_kept s p s' \<longleftrightarrow> kmem_ok s' \<and> proc_mem s' p \<and> procs s' ! p = procs s ! p \<and>
     (\<forall>w < p_sz (procs s ! p). user_load s' (p_pagetable (procs s ! p)) w = user_load s (p_pagetable (procs s ! p)) w) \<and>
     (\<forall>off. unat off < 4096 \<longrightarrow> mem s' (p_trapframe (procs s ! p) + off) = mem s (p_trapframe (procs s ! p) + off))"

lemma parent_keptI:
  fixes s s' :: "'a kproc_scheme"
  assumes pm: "proc_mem s p" and ok: "kmem_ok s'" and e: "procs s' ! p = procs s ! p" and kp: "kpage s' = kpage s"
    and t: "proc_table s' (p_pagetable (procs s ! p)) (npages (p_sz (procs s ! p))) (p_trapframe (procs s ! p))"
    and pg: "pages_of s' (p_pagetable (procs s ! p)) = pages_of s (p_pagetable (procs s ! p))"
    and pa: "\<And>va. va < SV39 \<Longrightarrow> pgno va < npages (p_sz (procs s ! p)) \<Longrightarrow>
      PTE2PA (pte_of s' (p_pagetable (procs s ! p)) va) = PTE2PA (pte_of s (p_pagetable (procs s ! p)) va)"
    and r: "\<And>q. q \<in> own_pages s p \<Longrightarrow> refs s' q = 1"
    and ag: "agree_on {q. kpage s q \<and> 0 < refs s q \<and> q \<notin> pages_of s (p_pagetable (procs s ! p))} (mem s) (mem s')"
  shows "parent_kept s p s'"
proof -
  define pt tf sz where "pt = p_pagetable (procs s ! p)" and "tf = p_trapframe (procs s ! p)" and "sz = p_sz (procs s ! p)"
  note P = proc_memD [OF pm, folded pt_def tf_def sz_def]
  have tf: "kpage s tf" "0 < refs s tf" "tf \<notin> pages_of s pt" "pg_aligned tf" using P(2) [of tf] P(4) by (auto simp: kpage_def)
  have up: "upage s' pt 0 k = upage s pt 0 k" if "k < npages sz" for k
    using pa [of "page_at 0 k"] proc_table_pages(3,4) [OF P(1) that] that by (simp add: pt_def sz_def)
  have "proc_mem s' p"
    unfolding proc_mem_def Let_def e pt_def [symmetric] tf_def [symmetric] sz_def [symmetric]
    using t pg r up pm kp unfolding proc_mem_def Let_def pt_def [symmetric] tf_def [symmetric] sz_def [symmetric] by simp
  moreover have "user_load s' pt w = user_load s pt w" if w: "w < sz" for w
  proof (rule user_load_agree)
    note u = user_page [OF P(1) w]
    show "PTE2PA (pte_of s' pt w) = PTE2PA (pte_of s pt w)" using pa u(5,6) by (simp add: pt_def sz_def)
    show "mem s' x = mem s x" if "PGROUNDDOWN x = PTE2PA (pte_of s pt w)" for x
      using ag that u(1-3) by (simp add: agree_on_def pt_def)
  qed
  moreover have "mem s' (tf + off) = mem s (tf + off)" if "unat off < 4096" for off
  proof -
    have "in_region tf 4096 (tf + off)" using that by (simp add: in_region_def)
    then have "PGROUNDDOWN (tf + off) = tf" using in_region_page [OF tf(4)] by simp
    then show ?thesis using ag tf by (simp add: agree_on_def pt_def)
  qed
  ultimately show ?thesis using ok e by (simp add: parent_kept_def pt_def tf_def sz_def)
qed

lemma fork_fails:
  fixes s :: "'a ksys_scheme"
  assumes rd: "fork_ready s p np tf pt s1" and pm: "proc_mem s p" and sz: "p_sz (procs s ! np) = 0"
    and fl: "fork_failed (p_pagetable (procs s ! p)) pt (npages (p_sz (procs s ! p))) s1 s2"
  obtains s3 where "freeproc np s2 = Ret s3" and "parent_kept s p s3" and "\<And>q. kpage s q \<Longrightarrow> refs s3 q = refs s q"
    and "kmem.more s3 = kmem.more (upd_proc np (\<lambda>q. cleared (fresh s tf pt q)) (next_pid s))"
proof -
  define old n tfp where "old = p_pagetable (procs s ! p)" and "n = npages (p_sz (procs s ! p))" and "tfp = p_trapframe (procs s ! p)"
  note R = fork_readyD [OF rd, folded old_def n_def tfp_def] and fl = fl [folded old_def n_def]
  note P = proc_memD [OF pm, folded old_def n_def tfp_def]
  have F: "kmem_ok s2" "kend s2 = kend s1" "kmem.more s2 = kmem.more s1" "pages_of s2 old = pages_of s1 old"
      "pages_of s2 old \<inter> pages_of s2 pt = {}" "pages_of s1 pt \<subseteq> pages_of s2 pt"
    using fl unfolding fork_failed_def by blast+
  have kp2: "kpage s2 = kpage s" using F(2) R(2) by (simp add: kpage_def fun_eq_iff)
  have N: "kpage s1 q \<and> refs s1 q = 0 \<and> refs s2 q = 1" if "q \<in> pages_of s2 pt - pages_of s1 pt" for q
    using fl that unfolding fork_failed_def by blast
  have O: "refs s2 q = refs s1 q" if "kpage s q" "q \<notin> pages_of s2 pt - pages_of s1 pt" for q
    using fl that unfolding fork_failed_def R(2) [symmetric] by blast
  note T = failed_tables [OF R(7,8,6) fl]
  have more2: "kmem.more s2 = kmem.more (upd_proc np (fresh s tf pt) (next_pid s))" using F(3) R(5) by simp
  have ps2: "procs s2 = upd_entry np (fresh s tf pt) (procs s)" using more_procs [OF more2] by simp
  have ent: "procs s2 ! np = fresh s tf pt (procs s ! np)" "procs s2 ! p = procs s ! p" "np < length (procs s2)"
    using R(3,4) by (simp_all add: ps2 upd_entry_def)
  have one: "refs s2 q = 1" if "q \<in> insert tf (pages_of s2 pt)" for q
  proof (cases "q \<in> pages_of s2 pt - pages_of s1 pt")
    case False
    then have "q \<in> insert tf (pages_of s1 pt)" using that by auto
    then show ?thesis using R(11,12) [of q] O [of q] False by simp
  qed (use N in auto)
  have tf2: "tf \<notin> pages_of s2 pt" "kpage s tf" using R(11,12) [of tf] R(13) N [of tf] by auto
  have cm: "proc_mem s2 np"
    using T(2) one tf2 kp2 sz by (simp add: proc_mem_def Let_def ent npages_def)
  obtain s3 where s3: "freeproc np s2 = Ret s3" "kmem.more s3 = kmem.more (upd_proc np cleared s2)"
      "delta s2 (\<lambda>q. - user_uses s2 np q - of_bool (q \<in> own_pages s2 np)) {} s3"
    using freeproc_spec [OF F(1) ent(3) cm] by blast
  have r3: "refs s3 q = refs s2 q - of_bool (q \<in> insert tf (pages_of s2 pt))" if "kpage s q" for q
    using deltaD(4) [OF s3(3), of q] that kp2 sz by (simp add: ent npages_def)
  have rs: "refs s3 q = refs s q" if q: "kpage s q" for q
  proof (cases "q \<in> pages_of s2 pt - pages_of s1 pt")
    case True
    then have "refs s1 q = 0" "q \<noteq> tf" "q \<notin> pages_of s1 pt" using N [OF True] tf2 by auto
    then have "refs s q = 0" using R(11) [OF q] by simp
    then show ?thesis using r3 [OF q] one [of q] True by auto
  next
    case False
    then have "q \<in> insert tf (pages_of s2 pt) \<longleftrightarrow> q \<in> insert tf (pages_of s1 pt)" using F(6) by auto
    then show ?thesis using r3 [OF q] O [OF q False] R(11) [OF q] by simp
  qed
  have own: "refs s q = 1 \<and> kpage s q \<and> q \<notin> insert tf (pages_of s2 pt)" if "q \<in> own_pages s p" for q
  proof -
    have "kpage s q" "refs s q = 1" using proc_memD(2) [OF pm that] by auto
    moreover have "q \<notin> insert tf (pages_of s1 pt)" using R(12) [of q] calculation by auto
    ultimately show ?thesis using N [of q] R(11) [of q] by auto
  qed
  have u2: "uses (upage s2 old 0) n q \<le> refs s3 q" if "kpage s2 q" for q
  proof -
    have "uses (upage s2 old 0) n q = uses (upage s old 0) n q"
    proof (rule uses_cong)
      fix k assume "k < n"
      then have "page_at 0 k < SV39" using proc_table_pages(4) [OF P(1)] by blast
      from T(3) [OF this] R(10) [of "page_at 0 k"] show "upage s2 old 0 k = upage s old 0 k" by auto
    qed
    then show ?thesis using rs [of q] that kp2 proc_tableD(11) [OF P(1), of q] by simp
  qed
  have t3: "proc_table s3 old n tfp" "pages_of s3 old = pages_of s2 old" "\<And>va. pte_of s3 old va = pte_of s2 old va"
  proof -
    have pos: "0 < refs s3 q" if "q \<in> pages_of s2 old" for q
      using own [of q] rs [of q] that F(4) R(9) by (auto simp: old_def)
    from proc_table_delta [OF T(1) s3(3) _ pos u2]
    show "proc_table s3 old n tfp" "pages_of s3 old = pages_of s2 old" "\<And>va. pte_of s3 old va = pte_of s2 old va" by simp_all
  qed
  have "parent_kept s p s3"
  proof (rule parent_keptI [OF pm, folded old_def n_def tfp_def])
    show "kmem_ok s3" "kpage s3 = kpage s" using deltaD(1,3) [OF s3(3)] kp2 by simp_all
    show "procs s3 ! p = procs s ! p" using more_procs [OF s3(2)] ent R(3) by (simp add: upd_entry_def)
    show "proc_table s3 old n tfp" "pages_of s3 old = pages_of s old" using t3 F(4) R(9) by simp_all
    show "PTE2PA (pte_of s3 old va) = PTE2PA (pte_of s old va)" if "va < SV39" for va
      using T(3) [OF that] R(10) [of va] t3(3) [of va] by auto
    show "refs s3 q = 1" if "q \<in> insert tfp (pages_of s old)" for q
      using own [of q] that rs [of q] by (simp add: tfp_def old_def)
    let ?Q = "{q. kpage s q \<and> 0 < refs s q \<and> q \<notin> pages_of s old}"
    have Q: "0 < refs s1 q" "q \<notin> insert tf (pages_of s2 pt)" "refs s2 q = refs s q" "refs s3 q = refs s q" if "q \<in> ?Q" for q
    proof -
      have a: "q \<notin> insert tf (pages_of s1 pt)" using that R(12) [of q] by auto
      then show "0 < refs s1 q" using that R(11) [of q] by simp
      then show b: "q \<notin> insert tf (pages_of s2 pt)" using N [of q] a by auto
      show "refs s2 q = refs s q" using that O [of q] R(11) [of q] a b by auto
      show "refs s3 q = refs s q" using that rs by simp
    qed
    have "agree_on ?Q (mem s) (mem s1)" using R(14) by (auto elim!: agree_on_subset)
    moreover have "agree_on ?Q (mem s1) (mem s2)"
    proof -
      have "agree_on {q. q \<notin> pages_of s2 old \<and> q \<notin> pages_of s2 pt \<and> (kpage s1 q \<longrightarrow> 0 < refs s1 q)} (mem s1) (mem s2)"
        using fl unfolding fork_failed_def by blast
      then show ?thesis using Q(1,2) F(4) R(9) by (auto elim!: agree_on_subset)
    qed
    moreover have "agree_on ?Q (mem s2) (mem s3)"
      using deltaD(5) [OF s3(3)] Q(3,4) by (auto elim!: agree_on_subset)
    ultimately show "agree_on ?Q (mem s) (mem s3)" by (blast intro: agree_on_trans)
  qed
  moreover have "kmem.more s3 = kmem.more (upd_proc np (\<lambda>q. cleared (fresh s tf pt q)) (next_pid s))"
  proof -
    have "kmem.more (upd_proc np cleared s2) = kmem.more (upd_proc np cleared (upd_proc np (fresh s tf pt) (next_pid s)))"
      by (rule more_upd_proc [OF more2])
    then show ?thesis using s3(2) R(4) by (simp add: upd_proc_upd_proc comp_def)
  qed
  ultimately show thesis using that s3(1) rs by blast
qed

section \<open>A fork that succeeds\<close>

text \<open>The counts after \<open>uvmcopy\<close> shared the pages of the parent.\<close>

lemma fork_shared_refs:
  fixes s :: "'a ksys_scheme"
  assumes rd: "fork_ready s p np tf pt s1" and pm: "proc_mem s p"
    and sh: "shared (p_pagetable (procs s ! p)) pt (npages (p_sz (procs s ! p))) (npages (p_sz (procs s ! p))) s1 s2"
  shows "q \<in> own_pages s p \<Longrightarrow> refs s2 q = 1 \<and> q \<notin> insert tf (pages_of s2 pt)"
    and "q \<in> insert tf (pages_of s2 pt) \<Longrightarrow> refs s2 q = 1" and "tf \<notin> pages_of s2 pt" and "kpage s2 = kpage s"
    and "kpage s q \<Longrightarrow> 0 < refs s q \<Longrightarrow> q \<notin> insert tf (pages_of s2 pt)"
proof -
  define old n where "old = p_pagetable (procs s ! p)" and "n = npages (p_sz (procs s ! p))"
  note R = fork_readyD [OF rd, folded old_def n_def] and sh = sh [folded old_def n_def] and P = proc_memD [OF pm, folded old_def n_def]
  have N: "kpage s1 q \<and> refs s1 q = 0 \<and> refs s2 q = 1" if "q \<in> pages_of s2 pt - pages_of s1 pt" for q
    using sh that unfolding shared_def by blast
  show kp: "kpage s2 = kpage s" using sharedD(6) [OF sh] R(2) by simp
  show nin: "q \<notin> insert tf (pages_of s2 pt)" if "kpage s q" "0 < refs s q" for q
  proof -
    have "q \<notin> insert tf (pages_of s1 pt)" using R(12) [of q] that by auto
    then show ?thesis using N [of q] R(11) [OF that(1)] that(2) by auto
  qed
  have us: "uses (upage s1 old 0) n q = 0" if "\<And>k. k < n \<Longrightarrow> upage s1 old 0 k \<noteq> q" for q
    unfolding uses_def using that by (intro sum.neutral) auto
  have up: "upage s1 old 0 k = upage s old 0 k" for k using R(10) by simp
  show "refs s2 q = 1 \<and> q \<notin> insert tf (pages_of s2 pt)" if q: "q \<in> own_pages s p" for q
  proof -
    have k: "kpage s q" "refs s q = 1" using proc_memD(2) [OF pm q] by auto
    have n1: "q \<notin> insert tf (pages_of s2 pt)" using nin [OF k(1)] k(2) by simp
    have "uses (upage s1 old 0) n q = 0" using proc_memD(3) [OF pm q] uses_cong [of n "upage s1 old 0" "upage s old 0" q] up
      by (simp add: old_def n_def)
    then have "refs s2 q = refs s1 q" using shared_refs [OF sh, of q] k(1) R(2) n1 by simp
    moreover have "q \<notin> insert tf (pages_of s1 pt)" using R(12) [of q] k by auto
    ultimately show ?thesis using R(11) [OF k(1)] k(2) n1 by simp
  qed
  have u0: "uses (upage s1 old 0) n q = 0" if "q \<in> insert tf (pages_of s1 pt)" for q
  proof (rule us)
    fix k assume "k < n"
    then have "0 < refs s (upage s old 0 k)" by (rule proc_table_pages(1) [OF P(1)])
    then show "upage s1 old 0 k \<noteq> q" using R(12) [OF that] up by auto
  qed
  show tf2: "tf \<notin> pages_of s2 pt" using R(11,12) [of tf] R(13) N [of tf] by auto
  show "refs s2 q = 1" if q: "q \<in> insert tf (pages_of s2 pt)" for q
  proof (cases "q \<in> pages_of s2 pt - pages_of s1 pt")
    case False
    then have "q \<in> insert tf (pages_of s1 pt)" using q by auto
    then show ?thesis using R(11,12) [of q] u0 [of q] shared_refs [OF sh, of q] False R(2) by auto
  qed (use N in auto)
qed

lemma fork_shares:
  fixes s s' :: "'a ksys_scheme"
  assumes rd: "fork_ready s p np tf pt s1" and pm: "proc_mem s p"
    and sh: "shared (p_pagetable (procs s ! p)) pt (npages (p_sz (procs s ! p))) (npages (p_sz (procs s ! p))) s1 s2"
    and ch: "child_ptes (p_pagetable (procs s ! p)) pt (npages (p_sz (procs s ! p))) s1 s2"
    and m: "mem_eq (s2\<lparr>mem := tf_copied (p_trapframe (procs s ! p)) tf (mem s2)\<rparr>) s'"
    and e: "procs s' ! p = procs s ! p" "p_pagetable (procs s' ! np) = pt" "p_trapframe (procs s' ! np) = tf"
      "p_sz (procs s' ! np) = p_sz (procs s ! p)"
  shows "parent_kept s p s'" and "proc_mem s' np"
    and "w < p_sz (procs s ! p) \<Longrightarrow> user_load s' pt w = user_load s (p_pagetable (procs s ! p)) w"
    and "w < p_sz (procs s ! p) \<Longrightarrow> \<not> bit (pte_of s' pt w) 2 \<and> \<not> bit (pte_of s' (p_pagetable (procs s ! p)) w) 2"
    and "k < 36 \<Longrightarrow> ld64 (mem s') (tf + 8 * of_nat k) = (if k = 14 then 0 else ld64 (mem s) (p_trapframe (procs s ! p) + 8 * of_nat k))"
proof -
  define old n tfp sz where "old = p_pagetable (procs s ! p)" and "n = npages (p_sz (procs s ! p))" and
    "tfp = p_trapframe (procs s ! p)" and "sz = p_sz (procs s ! p)"
  note R = fork_readyD [OF rd, folded old_def n_def tfp_def] and sh' = sh [folded old_def n_def] and ch' = ch [folded old_def n_def]
  note P = proc_memD [OF pm, folded old_def n_def tfp_def] and C = fork_shared_refs [OF rd pm sh]
  define s5 where "s5 = s2\<lparr>mem := tf_copied tfp tf (mem s2)\<rparr>"
  note M = mem_eqD [OF m [folded tfp_def, folded s5_def]]
  have tfk: "kpage s tf" "pg_aligned tf" "refs s2 tf = 1" using R(12) [of tf] C(2) [of tf] by (auto simp: kpage_def)
  have off: "same_off_page tf (mem s2) (mem s5)" using tf_copied_page [OF tfk(2)] by (simp add: s5_def)
  have s5: "kpage s5 = kpage s2" "refs s5 = refs s2" "s2\<lparr>mem := mem s5\<rparr> = s5" by (simp_all add: s5_def fun_eq_iff)
  have ok: "kmem_ok s'" using kmem_ok_write [OF sharedD(1) [OF sh'] tfk(2) _ off] tfk(3) by (simp add: M(1) s5(3))
  have kp: "kpage s' = kpage s" using C(4) by (simp add: M(2) s5(1))
  have rf: "refs s' q = refs s2 q" for q by (simp add: M(3) s5(2))
  have old2: "pages_of s2 old = pages_of s old" using sh' R(9) by (simp add: shared_def)
  note to = proc_table_write [OF shared_old_table(1) [OF R(7,6) sh'] off] and tn = proc_table_write [OF shared_new_table(1) [OF R(7,8,6) sh' ch'] off]
  have tfo: "tf \<notin> pages_of s2 old" using old2 R(12) [of tf] ownedD(3) [OF proc_tableD(1) [OF P(1)], of tf] by auto
  have pte: "pte_of s' old va = pte_of s2 old va" "pte_of s' pt va = pte_of s2 pt va" for va
    using to(3) [OF tfo] tn(3) [OF C(3)] by (simp_all add: M(4))
  have pgs: "pages_of s' old = pages_of s old" "pages_of s' pt = pages_of s2 pt"
    using to(2) [OF tfo] tn(2) [OF C(3)] old2 by (simp_all add: M(4))
  have ag: "agree_on {q. kpage s q \<and> 0 < refs s q \<and> q \<notin> pages_of s old} (mem s) (mem s')" (is "agree_on ?Q _ _")
  proof -
    have "agree_on ?Q (mem s) (mem s1)" using R(14) by (auto elim!: agree_on_subset)
    moreover have "agree_on (- (pages_of s2 old \<union> pages_of s2 pt)) (mem s1) (mem s2)"
      using sh' unfolding shared_def by blast
    then have "agree_on ?Q (mem s1) (mem s2)" using C(5) old2 by (auto elim!: agree_on_subset)
    moreover have "agree_on ?Q (mem s2) (mem s5)" using C(5) by (intro same_off_page_agree [OF off]) auto
    ultimately show ?thesis unfolding M(4) by (blast intro: agree_on_trans)
  qed
  have pso: "proc_table s' old n tfp" "proc_table s' pt n tf"
    using to(1) [OF tfo] tn(1) [OF C(3)] by (simp_all add: M(6) s5(3))
  have p1: "PTE2PA (pte_of s2 old va) = PTE2PA (pte_of s old va)" if "va < SV39" for va
    using sharedD(5) [OF sh' that] R(10) [of va] by simp
  show "parent_kept s p s'"
  proof (rule parent_keptI [OF pm ok e(1) kp, folded old_def n_def tfp_def])
    show "refs s' q = 1" if "q \<in> insert tfp (pages_of s old)" for q
      using C(1) [of q] that by (simp add: rf old_def tfp_def)
  qed (use pso pgs p1 ag pte in auto)
  have nk: "pte_of s' pt (page_at 0 k) = child_pte (pte_of s old (page_at 0 k))" if "k < n" for k
    using shared_new_table(2) [OF R(7,8,6) sh' ch' that] R(10) by (simp add: pte)
  show "proc_mem s' np"
  proof -
    have "upage s' pt 0 k \<noteq> tf" if "k < n" for k
      using proc_table_pages(1) [OF P(1) that] R(12) [of tf] nk [OF that] by auto
    then show ?thesis unfolding proc_mem_def Let_def e n_def [symmetric]
      using pso(2) C(2,3) tfk kp by (auto simp: rf pgs(2))
  qed
  show "ld64 (mem s') (tf + 8 * of_nat k) = (if k = 14 then 0 else ld64 (mem s) (tfp + 8 * of_nat k))" if "k < 36" for k
  proof -
    have tp: "kpage s tfp" "refs s tfp = 1" "tfp \<notin> pages_of s old" "pg_aligned tfp" using P(2) [of tfp] P(4) by (auto simp: kpage_def)
    have kk: "(of_nat k :: u64) < 512" using that by (simp add: word_less_nat_alt unat_of_nat_u64)
    have "agree_on {tfp} (mem s) (mem s2)"
    proof -
      have "agree_on {tfp} (mem s) (mem s1)" using R(14) tp by (auto elim!: agree_on_subset)
      moreover have "agree_on (- (pages_of s2 old \<union> pages_of s2 pt)) (mem s1) (mem s2)" using sh' unfolding shared_def by blast
      then have "agree_on {tfp} (mem s1) (mem s2)" using C(5) [of tfp] old2 tp by (auto elim!: agree_on_subset)
      ultimately show ?thesis by (rule agree_on_trans)
    qed
    from entry_agree [OF this _ tp(4) kk] have "ld64 (mem s2) (tfp + 8 * of_nat k) = ld64 (mem s) (tfp + 8 * of_nat k)"
      by (simp add: PTE_ADDR_def)
    then show ?thesis using tf_copied_entry [OF tfk(2) that, of "mem s2" tfp] by (simp add: M(4) s5_def)
  qed
  show "user_load s' pt w = user_load s old w" "\<not> bit (pte_of s' pt w) 2 \<and> \<not> bit (pte_of s' old w) 2" if w: "w < sz"
  proof -
    note u = user_page [OF P(1) [unfolded n_def, folded sz_def] w]
    have wn: "pgno w < n" "w < SV39" using u(5,6) by (auto simp: n_def sz_def)
    have pn: "pte_of s2 pt w = child_pte (pte_of s old w)" using ch' wn R(10) [of w] by (simp add: child_ptes_def)
    have po: "pte_of s2 old w = cow_pte (pte_of s old w)" using sharedD(5) [OF sh' wn(2)] wn(1) R(10) [of w] by simp
    show "\<not> bit (pte_of s' pt w) 2 \<and> \<not> bit (pte_of s' old w) 2"
      by (simp add: pte pn po bit_child_pte bit_cow_pte)
    show "user_load s' pt w = user_load s old w"
    proof (rule user_load_agree)
      show "PTE2PA (pte_of s' pt w) = PTE2PA (pte_of s old w)" by (simp add: pte pn)
      show "mem s' x = mem s x" if "PGROUNDDOWN x = PTE2PA (pte_of s old w)" for x
        using ag u(1-3) that by (simp add: agree_on_def)
    qed
  qed
qed

section \<open>fork\<close>

text \<open>The child \<open>np\<close> of \<open>p\<close> in \<open>s'\<close>, in terms of the parent in \<open>s\<close>.\<close>

definition forked :: "'a ksys_scheme \<Rightarrow> nat \<Rightarrow> nat \<Rightarrow> 'a ksys_scheme \<Rightarrow> bool" where
  "forked s p np s' \<longleftrightarrow> (let pp = procs s ! p; q = procs s' ! np in
     p_pid q = nextpid s \<and> p_parent q = Some p \<and> p_state q = RUNNABLE \<and> p_sz q = p_sz pp \<and>
     p_ofile q = p_ofile pp \<and> p_cwd q = p_cwd pp \<and> proc_mem s' np \<and> first s' = first s \<and>
     (\<forall>w < p_sz pp. user_load s' (p_pagetable q) w = user_load s (p_pagetable pp) w \<and>
        \<not> bit (pte_of s' (p_pagetable q) w) 2 \<and> \<not> bit (pte_of s' (p_pagetable pp) w) 2) \<and>
     (\<forall>k < 36. tf_get np (8 * of_nat k) s' = (if k = 14 then 0 else tf_get p (8 * of_nat k) s)))"

lemma parent_kept_delta:
  fixes s s' :: "'a kproc_scheme"
  assumes pm: "proc_mem s p" and d: "delta s (\<lambda>_. 0) {} s'" and e: "procs s' ! p = procs s ! p"
  shows "parent_kept s p s'"
proof -
  note P = proc_memD [OF pm] and r = deltaD(4) [OF d, simplified]
  have pos: "0 < refs s' q" if "q \<in> pages_of s (p_pagetable (procs s ! p))" for q using P(2) [of q] r [of q] that by auto
  have u: "user_uses s p q \<le> refs s' q" if "kpage s q" for q using proc_tableD(11) [OF P(1) that] r [OF that] by simp
  note t = proc_table_delta [OF P(1) d _ pos u]
  show ?thesis
  proof (rule parent_keptI [OF pm deltaD(1) [OF d] e deltaD(3) [OF d]])
    show "refs s' q = 1" if "q \<in> own_pages s p" for q using P(2) [OF that] r [of q] by simp
    show "agree_on {q. kpage s q \<and> 0 < refs s q \<and> q \<notin> pages_of s (p_pagetable (procs s ! p))} (mem s) (mem s')"
      using deltaD(5) [OF d] r by (auto elim!: agree_on_subset)
  qed (use t in simp_all)
qed

lemma fork_no_trace:
  fixes s s' :: "'a ksys_scheme"
  assumes more: "kmem.more s' = kmem.more (upd_proc np f (next_pid s))" and np: "np < length (procs s)"
    and f: "\<And>q. f q = cleared q \<or> f q = cleared (fresh s tf pt q)" and un: "p_state (procs s ! np) = UNUSED"
    and ro: "refs_ok s" and bl: "blank_unused s"
  shows "refs_ok s'" and "blank_unused s'" and "map p_state (procs s') = map p_state (procs s)" and "i \<noteq> np \<Longrightarrow> procs s' ! i = procs s ! i"
proof -
  have ps: "procs s' = upd_entry np f (procs s)" and ft: "ftable s' = ftable s"
    using more_procs [OF more] more_ksys(4) [OF more] by (simp_all add: upd_proc_def)
  have fo: "p_ofile (f q) = p_ofile q" "p_state (f q) = UNUSED" "p_trapframe (f q) = 0" "p_pagetable (f q) = 0" "p_sz (f q) = 0" for q
    using f [of q] by auto
  have "map p_ofile (procs s') = map p_ofile (procs s)"
    using np by (intro nth_equalityI) (auto simp: ps upd_entry_def nth_list_update fo)
  then show "refs_ok s'" using refs_ok_same [of s s'] ro ft by (simp add: same_files_def)
  show "blank_unused s'" using bl np un by (auto simp: blank_unused_def ps upd_entry_def nth_list_update fo)
  show "map p_state (procs s') = map p_state (procs s)"
    using np un by (intro nth_equalityI) (auto simp: ps upd_entry_def nth_list_update fo)
  show "i \<noteq> np \<Longrightarrow> procs s' ! i = procs s ! i" by (simp add: ps upd_entry_def)
qed

text \<open>From the shared state on, nothing can fail any more.\<close>

lemma fork_finish:
  fixes s s2 :: "'a ksys_scheme"
  assumes rd: "fork_ready s p np tf pt s1" and m2: "kmem.more s2 = kmem.more s1" and p: "p < length (procs s)"
    and ro: "refs_ok s" and none: "p_ofile (procs s ! np) = replicate NOFILE None" and cwd: "p_cwd (procs s ! p) = Some ip"
    and al: "allocproc s = Ret (Some np, s1)" and uc: "uvmcopy (p_pagetable (procs s ! p)) pt (p_sz (procs s ! p)) s1 = Ret (0, s2)"
  obtains s' where "fork p s = Ret (sint (nextpid s), s')"
    and "mem_eq (s2\<lparr>mem := tf_copied (p_trapframe (procs s ! p)) tf (mem s2)\<rparr>) s'" and "refs_ok s'"
    and "length (procs s') = length (procs s)" and "\<And>i. i \<noteq> np \<Longrightarrow> procs s' ! i = procs s ! i"
    and "p_pagetable (procs s' ! np) = pt" "p_trapframe (procs s' ! np) = tf" "p_sz (procs s' ! np) = p_sz (procs s ! p)"
    and "p_pid (procs s' ! np) = nextpid s" "p_parent (procs s' ! np) = Some p" "p_state (procs s' ! np) = RUNNABLE"
    and "p_ofile (procs s' ! np) = p_ofile (procs s ! p)" "p_cwd (procs s' ! np) = p_cwd (procs s ! p)" "first s' = first s"
proof -
  note R = fork_readyD [OF rd]
  define s5 where "s5 = tf_set np 112 0 (copy_trapframe p np (upd_proc np (\<lambda>q. q\<lparr>p_sz := p_sz (procs s2 ! p), p_parent := Some p\<rparr>) s2))"
  have m: "kmem.more s2 = kmem.more (upd_proc np (fresh s tf pt) (next_pid s))" using m2 R(5) by simp
  have ps2: "procs s2 = upd_entry np (fresh s tf pt) (procs s)" and ft2: "ftable s2 = ftable s"
    using more_procs [OF m] more_ksys(4) [OF m] by (simp_all add: upd_proc_def)
  let ?g = "\<lambda>q. (fresh s tf pt q)\<lparr>p_sz := p_sz (procs s ! p), p_parent := Some p\<rparr>"
  have ps5: "procs s5 = upd_entry np ?g (procs s)"
    using R(3,4) by (simp add: s5_def tf_set_def copy_trapframe_def ps2 upd_entry_def)
  have e5: "procs s5 ! p = procs s ! p" "procs s5 ! np = ?g (procs s ! np)" "p < length (procs s5)" "np < length (procs s5)"
    using R(3,4) p by (simp_all add: ps5 upd_entry_def)
  have mem5: "mem_eq (s2\<lparr>mem := tf_copied (p_trapframe (procs s ! p)) tf (mem s2)\<rparr>) s5"
    using R(3,4) by (simp add: mem_eq_def s5_def tf_set_def copy_trapframe_def upd_proc_def ps2 upd_entry_def)
  have "map p_ofile (procs s5) = map p_ofile (procs s)"
    using R(4) by (intro nth_equalityI) (auto simp: ps5 upd_entry_def nth_list_update)
  moreover have "ftable s5 = ftable s" using ft2 by (simp add: s5_def tf_set_def copy_trapframe_def upd_proc_def)
  ultimately have ro5: "refs_ok s5" using refs_ok_same [of s s5] ro by (simp add: same_files_def)
  have lo: "length (p_ofile (procs s ! p)) = NOFILE" using refs_okD(1) [OF ro p] .
  define s6 where "s6 ft = s5\<lparr>procs := upd_entry np (p_ofile_update (\<lambda>_. p_ofile (procs s ! p))) (procs s5), ftable := ft\<rparr>" for ft
  obtain ft where ft: "foldR (fork_file p np) [0..<NOFILE] s5 = Ret (s6 ft)" "refs_ok (s6 ft)"
    using fork_files [OF ro5 e5(3,4) R(3), of NOFILE] none e5(1,2) lo by (auto simp: s6_def)
  define s7 where "s7 = upd_proc np (\<lambda>q. q\<lparr>p_cwd := Some ip, p_name := take 15 (p_name (procs s ! p)), p_state := RUNNABLE\<rparr>)
      ((s6 ft)\<lparr>fs := idup ip (fs (s6 ft))\<rparr>)"
  have e6: "procs (s6 ft) ! p = procs s ! p" using e5 R(3) by (simp add: s6_def upd_entry_def)
  have run: "bindR (foldR (fork_file p np) [0..<NOFILE] s5) (\<lambda>s. case p_cwd (procs s ! p) of None \<Rightarrow> Undef
      | Some ip \<Rightarrow> let s = s\<lparr>fs := idup ip (fs s)\<rparr>;
            s = upd_proc np (\<lambda>q. q\<lparr>p_cwd := Some ip, p_name := take 15 (p_name (procs s ! p))\<rparr>) s;
            pid = p_pid (procs s ! np) in
          Ret (sint pid, upd_proc np (p_state_update (\<lambda>_. RUNNABLE)) s)) = Ret (sint (nextpid s), s7)"
    using ft(1) e6 cwd e5 by (simp add: s7_def upd_proc_def upd_entry_def) (simp add: s6_def upd_entry_def)
  have "procs s1 ! p = procs s ! p" "p_pagetable (procs s1 ! np) = pt"
    using more_procs [OF R(5)] R(3,4) by (simp_all add: upd_entry_def)
  then have fk: "fork p s = Ret (sint (nextpid s), s7)"
    using al uc run unfolding s5_def by (simp add: fork_def Let_def)
  have ps7: "procs s7 = upd_entry np (\<lambda>q. (?g q)\<lparr>p_ofile := p_ofile (procs s ! p), p_cwd := Some ip,
      p_name := take 15 (p_name (procs s ! p)), p_state := RUNNABLE\<rparr>) (procs s)"
    using e5 R(4) by (simp add: s7_def s6_def upd_entry_def ps5)
  have "mem_eq s5 s7" by (simp add: s7_def s6_def mem_eq_def upd_proc_def)
  with mem5 have "mem_eq (s2\<lparr>mem := tf_copied (p_trapframe (procs s ! p)) tf (mem s2)\<rparr>) s7" by (rule mem_eq_trans)
  moreover have "refs_ok s7"
  proof -
    have "map p_ofile (procs s7) = map p_ofile (procs (s6 ft))"
      using e5(4) by (intro nth_equalityI) (auto simp: s7_def upd_entry_def nth_list_update s6_def)
    moreover have "ftable s7 = ftable (s6 ft)" by (simp add: s7_def upd_proc_def)
    ultimately show ?thesis using refs_ok_same [of "s6 ft" s7] ft(2) by (simp add: same_files_def)
  qed
  moreover have "first s7 = first s"
    using more_ksys(6) [OF m] by (simp add: s7_def s6_def s5_def tf_set_def copy_trapframe_def upd_proc_def)
  ultimately show thesis using fk R(4) cwd by (intro that [of s7]) (simp_all add: ps7 upd_entry_def)
qed

lemma fork_alloc_fails:
  assumes "allocproc s = Ret (None, s')" shows "fork p s = Ret (-1, s')"
  using assms by (simp add: fork_def)

text \<open>Six free pages are enough for the trapframe and the page table of a new process.\<close>

lemma uvmcreate_room:
  assumes "kmem_ok s" and "0 < nfree s" and "uvmcreate s = Ret (0, s)"
  shows False
proof (cases rule: kalloc_grown [OF assms(1)])
  case 1
  then show ?thesis using nfree_null [OF assms(1)] assms(2) by simp
next
  case (2 q s1)
  then show ?thesis using assms(3) by (simp add: uvmcreate_def)
qed

lemma proc_pagetable_room:
  assumes ok: "kmem_ok s" and n: "5 \<le> nfree s"
  obtains pt s' where "proc_pagetable tf s = Ret (pt, s')" and "pt \<noteq> 0" and "nfree s \<le> nfree s' + 5"
proof (cases rule: uvmcreate_spec [OF ok])
  case 1
  then show ?thesis using uvmcreate_room [OF ok] n by simp
next
  case (2 pt s1)
  have ok1: "kmem_ok s1" and n1: "nfree s = nfree s1 + 1" using 2(3) nfree_grown [OF 2(3)] by (simp_all add: grown_def)
  have nb: "\<not> bit (pte_of s1 pt TRAMPOLINE) 0" using 2(6) by simp
  obtain r s2 N where m: "mappages pt TRAMPOLINE PGSIZE (trampoline s1) (PTE_R OR PTE_X) s1 = Ret (r, s2)"
      "tbl_grown s1 pt N s2" "nfree s1 \<le> nfree s2 + 2" "r = -1 \<longrightarrow> nfree s1 < 2"
      "r = -1 \<or> r = 0 \<and> (\<forall>va < SV39. pte_of s2 pt va =
         (if pgno va = pgno TRAMPOLINE then PA2PTE (trampoline s1) OR (PTE_R OR PTE_X) OR PTE_V else 0))"
    using mappages_page [OF ok1 2(4) tops(1,3) nb] unfolding 2(6) pgno_page [OF tops(3)] by metis
  have r: "r = 0" using m(4,5) n n1 by auto
  have o2: "owned s2 2 pt" and ok2: "kmem_ok s2" using m(2) tbl_grown_ok [OF m(2)] by (auto simp: tbl_grown_def)
  have nb2: "\<not> bit (pte_of s2 pt TRAPFRAME) 0" using m(5) r maxva_sv39 [OF tops(2)] by (simp add: tops)
  obtain r' s3 where m': "mappages pt TRAPFRAME PGSIZE tf (PTE_R OR PTE_W) s2 = Ret (r', s3)"
      "nfree s2 \<le> nfree s3 + 2" "r' = -1 \<longrightarrow> nfree s2 < 2" "r' = -1 \<or> r' = 0"
    using mappages_page [OF ok2 o2 tops(2,4) nb2] by metis
  have "proc_pagetable tf s = Ret (pt, s3)"
    using 2(1,2) m(1) r m'(1,3,4) m(3) n n1 by (auto simp: proc_pagetable_def)
  moreover have "nfree s \<le> nfree s3 + 5" using m(3) m'(2) n1 by linarith
  ultimately show ?thesis using 2(2) by (intro that)
qed

lemma allocproc_room:
  fixes s :: "'a ksys_scheme"
  assumes ok: "kmem_ok s" and un: "unused_entry (procs s) = Some i" and n: "6 \<le> nfree s"
  obtains s' where "allocproc s = Ret (Some i, s')" and "nfree s \<le> nfree s' + 6"
proof -
  define s0 where "s0 = upd_proc i (\<lambda>p. p\<lparr>p_pid := nextpid s, p_state := USED\<rparr>) (next_pid s)"
  have nf: "nfree a = nfree b" if "mem_eq b a" for a b :: "'a ksys_scheme"
    using mem_eqD(2,3) [OF that] by (simp add: nfree_def)
  have e0: "mem_eq s s0" by (simp add: s0_def)
  have ok0: "kmem_ok s0" using ok by (simp add: mem_eqD(1) [OF e0])
  show thesis
  proof (cases rule: kalloc_grown [OF ok0])
    case 1
    then show ?thesis using nfree_null [OF ok0] nf [OF e0] n by simp
  next
    case (2 tf s1)
    define s2 where "s2 = upd_proc i (p_trapframe_update (\<lambda>_. tf)) s1"
    have e2: "mem_eq s1 s2" by (simp add: s2_def)
    have n2: "nfree s = nfree s2 + 1" using nfree_grown [OF 2(4)] nf [OF e0] nf [OF e2] by simp
    have "kmem_ok s2" using 2(4) by (simp add: mem_eqD(1) [OF e2] grown_def)
    then obtain pt s3 where p: "proc_pagetable tf s2 = Ret (pt, s3)" "pt \<noteq> 0" "nfree s2 \<le> nfree s3 + 5"
      using proc_pagetable_room [of s2 tf] n n2 by auto
    let ?c = "\<lambda>s p. p\<lparr>p_context := \<lparr>ctx_ra = forkret_at s, ctx_sp = p_kstack p + PGSIZE, ctx_s = replicate 12 0\<rparr>,
              p_rtime := 0, p_etime := 0, p_ctime := kticks s, p_my_wtime := 0, p_my_rtime := 0,
              p_my_stime := 0, p_static_pri := 50, p_rbi := 25, p_tot_sche := 0, p_curr_rbi := 0\<rparr>"
    define s4 where "s4 = upd_proc i (p_pagetable_update (\<lambda>_. pt)) s3"
    have "allocproc s = Ret (Some i, upd_proc i (?c s4) s4)"
      using 2(1,2) p(1,2) by (simp add: allocproc_def un allocpid_def Let_def flip: s0_def s2_def s4_def)
    moreover have "mem_eq s3 (upd_proc i (?c s4) s4)" by (simp add: s4_def)
    ultimately show ?thesis using that nf p(3) n2 by simp
  qed
qed

text \<open>The two ways \<open>fork\<close> can go on once it has an entry and a page table.\<close>

definition fork_outcome :: "'a ksys_scheme \<Rightarrow> nat \<Rightarrow> int \<Rightarrow> 'a ksys_scheme \<Rightarrow> bool" where
  "fork_outcome s p r s' \<longleftrightarrow> parent_kept s p s' \<and> refs_ok s' \<and> blank_unused s' \<and>
    (r = -1 \<and> (unused_entry (procs s) = None \<or> nfree s < 6 + 2 * npages (p_sz (procs s ! p))) \<and>
       (\<forall>q. kpage s q \<longrightarrow> refs s' q = refs s q) \<and> map p_state (procs s') = map p_state (procs s) \<or>
     (\<exists>np. unused_entry (procs s) = Some np \<and> r = sint (nextpid s) \<and> forked s p np s' \<and>
        (\<forall>i < length (procs s). i \<noteq> np \<longrightarrow> procs s' ! i = procs s ! i)))"

lemma blank_unused_keep:
  assumes "blank_unused s" and "length (procs s') = length (procs s)" and "p_state (procs s' ! np) \<noteq> UNUSED"
    and "\<And>i. i \<noteq> np \<Longrightarrow> procs s' ! i = procs s ! i"
  shows "blank_unused s'"
  unfolding blank_unused_def assms(2)
proof (intro allI impI)
  fix i assume i: "i < length (procs s)" "p_state (procs s' ! i) = UNUSED"
  then have "procs s' ! i = procs s ! i" using assms(3) assms(4) [of i] by (cases "i = np") simp_all
  then show "p_trapframe (procs s' ! i) = 0 \<and> p_pagetable (procs s' ! i) = 0 \<and> p_sz (procs s' ! i) = 0 \<and>
      p_ofile (procs s' ! i) = replicate NOFILE None"
    using assms(1) i by (simp add: blank_unused_def)
qed

lemma fork_copy:
  fixes s :: "'a ksys_scheme"
  assumes rd: "fork_ready s p np tf pt s1" and a: "allocproc s = Ret (Some np, s1)" and bl: "blank_unused s" and ro: "refs_ok s"
    and p: "p < length (procs s)" and np: "np < length (procs s)" "np \<noteq> p" "p_state (procs s ! np) = UNUSED"
    and un: "unused_entry (procs s) = Some np" and pm: "proc_mem s p" and ip: "p_cwd (procs s ! p) = Some ip"
    and ok: "kmem_ok s"
  shows "\<exists>r s'. fork p s = Ret (r, s') \<and> fork_outcome s p r s'"
proof -
  have blank: "p_sz (procs s ! np) = 0" "p_ofile (procs s ! np) = replicate NOFILE None"
    using bl np unfolding blank_unused_def by blast+
  note R = fork_readyD [OF rd]
  have ps1: "procs s1 ! p = procs s ! p" "procs s1 ! np = fresh s tf pt (procs s ! np)"
    using more_procs [OF R(5)] np by (simp_all add: upd_entry_def)
  let ?old = "p_pagetable (procs s ! p)" and ?sz = "p_sz (procs s ! p)"
  obtain r s2 where u: "uvmcopy ?old pt ?sz s1 = Ret (r, s2)"
      "r = 0 \<and> shared ?old pt (npages ?sz) (npages ?sz) s1 s2 \<and> child_ptes ?old pt (npages ?sz) s1 s2 \<or>
       r = -1 \<and> fork_failed ?old pt (npages ?sz) s1 s2"
    using uvmcopy_spec [OF R(6)] by metis
  show ?thesis
  proof (cases "r = 0")
    case False
    then have fl: "fork_failed ?old pt (npages ?sz) s1 s2" "r = -1" using u(2) by auto
    obtain s3 where s3: "freeproc np s2 = Ret s3" "parent_kept s p s3" "\<And>q. kpage s q \<Longrightarrow> refs s3 q = refs s q"
        "kmem.more s3 = kmem.more (upd_proc np (\<lambda>q. cleared (fresh s tf pt q)) (next_pid s))"
      using fork_fails [OF rd pm blank(1) fl(1)] by blast
    note nt = fork_no_trace [OF s3(4) np(1) _ np(3) ro bl, of tf pt]
    have "nfree s < 6 + 2 * npages ?sz"
    proof (rule ccontr)
      assume n: "\<not> nfree s < 6 + 2 * npages ?sz"
      then have "2 * npages ?sz \<le> nfree s1" using allocproc_room [OF ok un] a by fastforce
      then show False using uvmcopy_enough [OF R(6)] u(1) fl(2) by simp
    qed
    moreover have "fork p s = Ret (-1, s3)" using a u(1) s3(1) fl(2) by (simp add: fork_def ps1)
    ultimately show ?thesis using s3(2,3) nt(1-3) by (intro exI [of _ "-1"] exI [of _ s3]) (simp add: fork_outcome_def)
  next
    case True
    then have sh: "shared ?old pt (npages ?sz) (npages ?sz) s1 s2" "child_ptes ?old pt (npages ?sz) s1 s2" using u(2) by auto
    have m2: "kmem.more s2 = kmem.more s1" using sh(1) by (simp add: shared_def)
    obtain s' where f: "fork p s = Ret (sint (nextpid s), s')"
        "mem_eq (s2\<lparr>mem := tf_copied (p_trapframe (procs s ! p)) tf (mem s2)\<rparr>) s'" "refs_ok s'"
        "length (procs s') = length (procs s)" "\<And>i. i \<noteq> np \<Longrightarrow> procs s' ! i = procs s ! i"
        "p_pagetable (procs s' ! np) = pt" "p_trapframe (procs s' ! np) = tf" "p_sz (procs s' ! np) = ?sz"
        "p_pid (procs s' ! np) = nextpid s" "p_parent (procs s' ! np) = Some p" "p_state (procs s' ! np) = RUNNABLE"
        "p_ofile (procs s' ! np) = p_ofile (procs s ! p)" "p_cwd (procs s' ! np) = p_cwd (procs s ! p)" "first s' = first s"
      using fork_finish [OF rd m2 p ro blank(2) ip a u(1) [unfolded True]] by blast
    have e: "procs s' ! p = procs s ! p" using f(5) [of p] np(2) by simp
    note F = fork_shares [OF rd pm sh f(2) e f(6-8)]
    have "forked s p np s'" using F(2-5) f(6-14) by (simp add: forked_def tf_get_def)
    moreover have "blank_unused s'" using f(11) by (intro blank_unused_keep [OF bl f(4) _ f(5)]) simp_all
    ultimately show ?thesis
      using f(1,3,5) F(1) un by (intro exI [of _ "sint (nextpid s)"] exI [of _ s']) (simp add: fork_outcome_def)
  qed
qed

lemma fork_outcome_holds:
  fixes s :: "'a ksys_scheme"
  assumes ok: "kmem_ok s" and bl: "blank_unused s" and ro: "refs_ok s"
    and p: "p < length (procs s)" "p_state (procs s ! p) \<noteq> UNUSED" and pm: "proc_mem s p"
    and cwd: "p_cwd (procs s ! p) \<noteq> None"
  shows "\<exists>r s'. fork p s = Ret (r, s') \<and> fork_outcome s p r s'"
proof (cases "unused_entry (procs s)")
  case None
  then have "fork p s = Ret (-1, s)" by (intro fork_alloc_fails) (simp add: allocproc_def)
  moreover have "delta s (\<lambda>_. 0) {} s" using ok by (simp add: delta_def)
  ultimately show ?thesis using parent_kept_delta [OF pm _ refl] ro bl None unfolding fork_outcome_def by auto
next
  case (Some np)
  note un = unused_entryD [OF Some]
  have np: "np < length (procs s)" "np \<noteq> p" "p_state (procs s ! np) = UNUSED" using un p(2) by auto
  have blank: "p_trapframe (procs s ! np) = 0" "p_pagetable (procs s ! np) = 0" "p_sz (procs s ! np) = 0"
      "p_ofile (procs s ! np) = replicate NOFILE None"
    using bl np unfolding blank_unused_def by blast+
  show ?thesis
  proof (cases rule: allocproc_spec [OF ok Some np(1) blank(1-3)])
    case (1 s')
    note nt = fork_no_trace [OF 1(3) np(1) _ np(3) ro bl]
    have "parent_kept s p s'" using 1(2) nt(4) [where i = p] np(2) by (intro parent_kept_delta [OF pm]) auto
    moreover have "nfree s < 6" using allocproc_room [OF ok Some] 1(1) by (metis Pair_inject not_le option.distinct(1) res.inject(1))
    ultimately show ?thesis
      using fork_alloc_fails [OF 1(1)] nt(1-3) deltaD(4) [OF 1(2)] by (intro exI [of _ "-1"] exI [of _ s']) (simp add: fork_outcome_def)
  next
    case (2 tf pt s1)
    have rd: "fork_ready s p np tf pt s1" by (rule fork_readyI [OF ok p pm Some 2(2-5) blank(3)])
    obtain ip where ip: "p_cwd (procs s ! p) = Some ip" using cwd by blast
    show ?thesis
      by (rule fork_copy [OF rd 2(1) bl ro p(1) np Some pm ip ok])
  qed
qed

text \<open>
  C1 A fork on a well-formed kernel state never panics. It returns -1 only if the table is full
  or fewer than six pages plus two per page of the caller are free; then every page has as many
  references as before, the states of the table are as before and the files are untouched;
  otherwise it returns the pid of a new runnable process whose parent is the caller, which
  reads the same memory as the caller did, has the same registers but a zero in \<open>a0\<close>, the
  same open files, each counted once more, and the same current directory. The pages of both
  are write-protected until the first store. Either way the caller keeps its registers,
  its memory and the only references to its own page table.
\<close>

theorem fork_correct:
  fixes s :: "'a ksys_scheme"
  assumes ok: "kmem_ok s" and bl: "blank_unused s" and ro: "refs_ok s"
    and p: "p < length (procs s)" "p_state (procs s ! p) \<noteq> UNUSED" and pm: "proc_mem s p"
    and cwd: "p_cwd (procs s ! p) \<noteq> None"
  shows "\<exists>r s'. fork p s = Ret (r, s') \<and> parent_kept s p s' \<and> refs_ok s' \<and> blank_unused s' \<and>
    (r = -1 \<and> (unused_entry (procs s) = None \<or> nfree s < 6 + 2 * npages (p_sz (procs s ! p))) \<and>
       (\<forall>q. kpage s q \<longrightarrow> refs s' q = refs s q) \<and> map p_state (procs s') = map p_state (procs s) \<or>
     (\<exists>np. unused_entry (procs s) = Some np \<and> r = sint (nextpid s) \<and> forked s p np s' \<and>
        (\<forall>i < length (procs s). i \<noteq> np \<longrightarrow> procs s' ! i = procs s ! i)))"
  using fork_outcome_holds [OF assms] unfolding fork_outcome_def .

end
