(* ===== verification/Faults.thy ===== *)
theory Faults
  imports Trap Forkproc
begin

text \<open>
  What a process sees of a trap: the return to user space, the first return of a forked child, and
  the page fault that separates a shared page.
\<close>

section \<open>The trapframe\<close>

text \<open>The word \<open>k\<close> of a trapframe as an entry of its page.\<close>

lemma tf_entry: "tf_get me (8 * k) s = entry (mem s) (p_trapframe (procs s ! me)) k"
  by (simp add: tf_get_def PTE_ADDR_def)

lemma tf_set_entry: "tf_set me (8 * k) v s = s\<lparr>mem := st64 (mem s) (PTE_ADDR (p_trapframe (procs s ! me)) k) v\<rparr>"
  by (simp add: tf_set_def PTE_ADDR_def)

text \<open>Two memories that differ at most in words of a trapframe from \<open>K\<close>.\<close>

definition tf_change :: "u64 \<Rightarrow> u64 set \<Rightarrow> memory \<Rightarrow> memory \<Rightarrow> bool" where
  "tf_change tf K m m' \<longleftrightarrow> same_off_page tf m m' \<and> (\<forall>k < 512. k \<notin> K \<longrightarrow> entry m' tf k = entry m tf k)"

lemma tf_change_st64:
  assumes "pg_aligned tf" and "k < 512" and "tf_change tf K m m'" and "k \<in> K"
  shows "tf_change tf K m (st64 m' (PTE_ADDR tf k) v)"
  using assms entry_st64 [OF assms(1,2)] same_off_page_entry [OF assms(1,2), of m' v]
  unfolding tf_change_def same_off_page_def by (metis (mono_tags, lifting))

lemma tf_change_entry: "tf_change tf K m m' \<Longrightarrow> k < 512 \<Longrightarrow> k \<notin> K \<Longrightarrow> entry m' tf k = entry m tf k"
  by (simp add: tf_change_def)

lemma tf_change_refl: "tf_change tf K m m"
  by (simp add: tf_change_def)

section \<open>Returning to user space\<close>

lemma sstatus_bits: "bit SSTATUS_SPP n \<longleftrightarrow> n = 8" "bit SSTATUS_SPIE n \<longleftrightarrow> n = 5" "bit SSTATUS_SIE n \<longleftrightarrow> n = 1"
  unfolding SSTATUS_SPP_def SSTATUS_SPIE_def SSTATUS_SIE_def
  by (subst bit_push_bit_iff; auto simp: bit_1_iff)+

lemma sstatus_user:
  "(x AND NOT SSTATUS_SPP OR SSTATUS_SPIE) AND SSTATUS_SPP = 0" "(x AND NOT SSTATUS_SPP OR SSTATUS_SPIE) AND SSTATUS_SPIE \<noteq> 0"
  "((y AND NOT SSTATUS_SIE) AND NOT SSTATUS_SPP OR SSTATUS_SPIE) AND SSTATUS_SIE = 0"
proof -
  have "bit ((x AND NOT SSTATUS_SPP OR SSTATUS_SPIE) AND SSTATUS_SPIE) 5" by (simp add: bit_and_iff bit_or_iff sstatus_bits)
  then show "(x AND NOT SSTATUS_SPP OR SSTATUS_SPIE) AND SSTATUS_SPIE \<noteq> 0" by (metis bit_0_eq bot_apply bot_bool_def)
qed (rule bit_word_eqI; auto simp: bit_and_iff bit_or_iff bit_not_iff sstatus_bits)+

text \<open>In user mode, with interrupts on after the return, at the saved program counter.\<close>

definition in_user :: "hart \<Rightarrow> bool" where
  "in_user h \<longleftrightarrow> sstatus h AND SSTATUS_SPP = 0 \<and> sstatus h AND SSTATUS_SPIE \<noteq> 0 \<and> \<not> intr_get h"

lemma usertrapret_spec:
  fixes s :: "'a ktrap_scheme"
  assumes al: "pg_aligned (p_trapframe (procs s ! me))"
  obtains h' m where "usertrapret me h s = (MAKE_SATP (p_pagetable (procs s ! me)), h', s\<lparr>mem := m\<rparr>)" and "in_user h'"
    and "sepc h' = tf_get me 24 s" and "tf_change (p_trapframe (procs s ! me)) {0, 1, 2, 4} (mem s) m"
proof -
  define tf where "tf = p_trapframe (procs s ! me)"
  define m where "m = st64 (st64 (st64 (st64 (mem s) (PTE_ADDR tf 0) (satp h)) (PTE_ADDR tf 1) (p_kstack (procs s ! me) + PGSIZE))
      (PTE_ADDR tf 2) (usertrap_at s)) (PTE_ADDR tf 4) (tp h)"
  have c: "tf_change tf {0, 1, 2, 4} (mem s) m"
    using al unfolding m_def tf_def by (intro tf_change_st64 tf_change_refl) simp_all
  have epc: "entry m tf 3 = entry (mem s) tf 3" using c by (simp add: tf_change_def)
  define h' where "h' = (intr_off h)\<lparr>stvec := TRAMPOLINE + uservec_off s,
      sstatus := sstatus (intr_off h) AND NOT SSTATUS_SPP OR SSTATUS_SPIE, sepc := entry m tf 3\<rparr>"
  have "usertrapret me h s = (MAKE_SATP (p_pagetable (procs s ! me)), h', s\<lparr>mem := m\<rparr>)"
    unfolding usertrapret_def tf_set_def tf_get_def Let_def
    by (simp add: tf_def [symmetric] m_def h'_def intr_off_def PTE_ADDR_def)
  moreover have "in_user h'" 
    using sstatus_user [of "sstatus h AND NOT SSTATUS_SIE"] sstatus_user(3) by (simp add: in_user_def h'_def intr_off_def intr_get_def)
  moreover have "sepc h' = tf_get me 24 s" using epc by (simp add: h'_def tf_get_def tf_def [symmetric] PTE_ADDR_def)
  ultimately show thesis using that c unfolding tf_def by blast
qed

section \<open>A forked child\<close>

lemma proc_mem_aligned: "proc_mem s i \<Longrightarrow> pg_aligned (p_trapframe (procs s ! i))"
  using proc_memD(2) [of s i "p_trapframe (procs s ! i)"] by (simp add: kpage_def)

lemma tf_index: "k < 36 \<Longrightarrow> 5 \<le> k \<Longrightarrow> (of_nat k :: u64) \<notin> {0, 1, 2, 4}"
  by (auto simp: word_unat_eq_iff unat_of_nat_u64)

text \<open>The trapframe is no part of the memory of the process.\<close>

lemma tf_change_user:
  fixes s :: "'a kproc_scheme"
  assumes pm: "proc_mem s i" and c: "tf_change (p_trapframe (procs s ! i)) K (mem s) m"
  shows "leaf m 2 (p_pagetable (procs s ! i)) va = pte_of s (p_pagetable (procs s ! i)) va"
    and "w < p_sz (procs s ! i) \<Longrightarrow> user_load (s\<lparr>mem := m\<rparr>) (p_pagetable (procs s ! i)) w = user_load s (p_pagetable (procs s ! i)) w"
proof -
  note P = proc_memD [OF pm]
  have off: "same_off_page (p_trapframe (procs s ! i)) (mem s) m" using c by (simp add: tf_change_def)
  note W = proc_table_write [OF P(1) off P(4)]
  show "leaf m 2 (p_pagetable (procs s ! i)) va = pte_of s (p_pagetable (procs s ! i)) va" by (rule W(3))
  show "user_load (s\<lparr>mem := m\<rparr>) (p_pagetable (procs s ! i)) w = user_load s (p_pagetable (procs s ! i)) w"
    if "w < p_sz (procs s ! i)"
  proof (rule user_load_agree)
    note U = user_page [OF P(1) that]
    have "upage s (p_pagetable (procs s ! i)) 0 (pgno w) \<noteq> p_trapframe (procs s ! i)"
      using pm U(5) unfolding proc_mem_def Let_def by blast
    then show "mem (s\<lparr>mem := m\<rparr>) x = mem s x" if "PGROUNDDOWN x = PTE2PA (pte_of s (p_pagetable (procs s ! i)) w)" for x
      using off that U(4) by (simp add: same_off_page_def)
  qed (use W(3) in simp)
qed

text \<open>
  C8 From \<open>fork\<close> in the parent to the first instruction of the child: with a free entry and
  enough free pages \<open>fork\<close> returns the pid of the child, and when the scheduler first
  runs a forked process, \<open>forkret\<close> leaves the kernel for user mode in the child's page table at the
  program counter the parent had saved, with the parent's registers, except that the child finds
  zero in \<open>a0\<close>, the value of its own \<open>fork\<close>, and with the memory the parent had at the fork.
\<close>

theorem child_returns_zero:
  fixes s :: "'a ktrap_scheme"
  assumes ok: "kmem_ok s" and bl: "blank_unused s" and ro: "refs_ok s"
    and p: "p < length (procs s)" "p_state (procs s ! p) \<noteq> UNUSED" and pm: "proc_mem s p"
    and cwd: "p_cwd (procs s ! p) \<noteq> None" and room: "unused_entry (procs s) \<noteq> None" "6 + 2 * npages (p_sz (procs s ! p)) \<le> nfree s"
    and f: "\<not> first s"
  shows "\<exists>s' np h' s''. fork p s = Ret (sint (nextpid s), s') \<and> p_pid (procs s' ! np) = nextpid s \<and> p_parent (procs s' ! np) = Some p \<and>
    forkret np h s' = Ret (To_user (MAKE_SATP (p_pagetable (procs s' ! np))), h', s'') \<and> in_user h' \<and>
    sepc h' = tf_get p 24 s \<and> tf_get np 112 s'' = 0 \<and>
    (\<forall>k < 36. 5 \<le> k \<and> k \<noteq> 14 \<longrightarrow> tf_get np (8 * of_nat k) s'' = tf_get p (8 * of_nat k) s) \<and>
    (\<forall>w < p_sz (procs s ! p). user_load s'' (p_pagetable (procs s' ! np)) w = user_load s (p_pagetable (procs s ! p)) w)"
proof -
  obtain r s' where r: "fork p s = Ret (r, s')" "fork_outcome s p r s'" using fork_outcome_holds [OF ok bl ro p pm cwd] by blast
  then obtain np where fk: "forked s p np s'" "r = sint (nextpid s)" using room unfolding fork_outcome_def by (auto simp: not_less)
  let ?q = "procs s' ! np"
  have q: "p_pid ?q = nextpid s" "p_parent ?q = Some p" "p_sz ?q = p_sz (procs s ! p)" "proc_mem s' np"
      "\<And>w. w < p_sz (procs s ! p) \<Longrightarrow> user_load s' (p_pagetable ?q) w = user_load s (p_pagetable (procs s ! p)) w"
      "\<And>k. k < 36 \<Longrightarrow> tf_get np (8 * of_nat k) s' = (if k = 14 then 0 else tf_get p (8 * of_nat k) s)"
      "first s' = first s"
    using fk(1) unfolding forked_def Let_def by blast+
  obtain h' m where u: "usertrapret np h s' = (MAKE_SATP (p_pagetable ?q), h', s'\<lparr>mem := m\<rparr>)" "in_user h'"
      "sepc h' = tf_get np 24 s'" "tf_change (p_trapframe ?q) {0, 1, 2, 4} (mem s') m"
    by (rule usertrapret_spec [OF proc_mem_aligned [OF q(4)], of h])
  have k5: "tf_get np (8 * of_nat k) (s'\<lparr>mem := m\<rparr>) = tf_get np (8 * of_nat k) s'" if "k < 36" "5 \<le> k" for k
    using tf_change_entry [OF u(4) _ tf_index [OF that]] that by (simp add: tf_entry word_less_nat_alt unat_of_nat_u64)
  have "forkret np h s' = Ret (To_user (MAKE_SATP (p_pagetable ?q)), h', s'\<lparr>mem := m\<rparr>)"
    using f q(7) u(1) by (simp add: forkret_def to_user_def)
  moreover have "sepc h' = tf_get p 24 s" using u(3) q(6) [of 3] by simp
  moreover have "tf_get np 112 (s'\<lparr>mem := m\<rparr>) = 0" using k5 [of 14] q(6) [of 14] by simp
  moreover have "user_load (s'\<lparr>mem := m\<rparr>) (p_pagetable ?q) w = user_load s (p_pagetable (procs s ! p)) w" if "w < p_sz (procs s ! p)" for w
    using tf_change_user [OF q(4) u(4), of w] q(3,5) that by simp
  ultimately show ?thesis using q(1,2,6) u(2) k5 r(1) fk(2) by (intro exI [of _ s'] exI [of _ np] exI [of _ h'] exI [of _ "s'\<lparr>mem := m\<rparr>"]) simp
qed

section \<open>Store faults\<close>

text \<open>Saving the program counter changes nothing but the trapframe.\<close>

lemma tf_write:
  fixes s :: "'a kproc_scheme"
  assumes ok: "kmem_ok s" and pm: "proc_mem s i" and k: "k < 512"
    and s0_def: "s0 = tf_set i (8 * k) v s"
  shows "kmem_ok s0" and "owned s0 2 (p_pagetable (procs s ! i))" and "pages_of s0 (p_pagetable (procs s ! i)) = pages_of s (p_pagetable (procs s ! i))"
    and "pte_of s0 (p_pagetable (procs s ! i)) va = pte_of s (p_pagetable (procs s ! i)) va"
    and "refs s0 = refs s" and "kpage s0 = kpage s" and "proc_mem s0 i" and "tf_change (p_trapframe (procs s ! i)) {k} (mem s) (mem s0)"
    and "kmem.more s0 = kmem.more s" and "tf_get i (8 * k) s0 = v"
proof -
  note P = proc_memD [OF pm]
  define m where "m = st64 (mem s) (PTE_ADDR (p_trapframe (procs s ! i)) k) v"
  have s0: "s0 = s\<lparr>mem := m\<rparr>" by (simp add: s0_def tf_set_entry m_def)
  have al: "pg_aligned (p_trapframe (procs s ! i))" by (rule proc_mem_aligned [OF pm])
  have c: "tf_change (p_trapframe (procs s ! i)) {k} (mem s) m" unfolding m_def using al k by (intro tf_change_st64 tf_change_refl) simp_all
  then have off: "same_off_page (p_trapframe (procs s ! i)) (mem s) m" by (simp add: tf_change_def)
  note W = proc_table_write [OF P(1) off P(4)]
  show "kmem_ok s0" unfolding s0 using P(2) [of "p_trapframe (procs s ! i)"] by (intro kmem_ok_write [OF ok al _ off]) simp
  show "owned s0 2 (p_pagetable (procs s ! i))" using proc_tableD(1) [OF W(1)] by (simp add: s0)
  show "pages_of s0 (p_pagetable (procs s ! i)) = pages_of s (p_pagetable (procs s ! i))" using W(2) by (simp add: s0)
  show "pte_of s0 (p_pagetable (procs s ! i)) va = pte_of s (p_pagetable (procs s ! i)) va" using W(3) by (simp add: s0)
  show rk: "refs s0 = refs s" "kpage s0 = kpage s" by (intro ext; simp add: s0 refs_def kpage_def)+
  show "proc_mem s0 i" using pm W unfolding proc_mem_def Let_def rk by (simp add: s0)
  show "tf_change (p_trapframe (procs s ! i)) {k} (mem s) (mem s0)" using c by (simp add: s0)
  show "kmem.more s0 = kmem.more s" by (simp add: s0)
  show "tf_get i (8 * k) s0 = v" by (simp add: tf_entry s0 m_def)
qed

lemma uses_two:
  assumes "k < n" and "l < n" and "k \<noteq> l" and "f k = p" and "f l = p"
  shows "2 \<le> uses f n p"
  using assms(1,2)
proof (induction n)
  case (Suc n)
  show ?case
  proof (cases "k < n \<and> l < n")
    case True
    then show ?thesis using Suc.IH uses_Suc [of f n p] by auto
  next
    case False
    then have "n = k \<or> n = l" using Suc.prems by linarith
    moreover have "1 \<le> uses f n p"
      using calculation Suc.prems assms(3-5) uses_pos [of l n f p] uses_pos [of k n f p] by (auto simp: less_Suc_eq)
    ultimately show ?thesis using assms(4,5) by (auto simp: uses_Suc)
  qed
qed simp

text \<open>The process reads the same bytes after its shared page has been replaced.\<close>

lemma own_pte:
  assumes "pg_aligned ka"
  shows "PTE2PA (PA2PTE ka OR ((PTE_FLAGS e AND NOT PTE_COW) OR PTE_W) OR PTE_V) = ka"
      "bit (PA2PTE ka OR ((PTE_FLAGS e AND NOT PTE_COW) OR PTE_W) OR PTE_V) 2"
      "\<not> bit (PA2PTE ka OR ((PTE_FLAGS e AND NOT PTE_COW) OR PTE_W) OR PTE_V) 8"
proof -
  have "is_flags ((PTE_FLAGS e AND NOT PTE_COW) OR PTE_W OR PTE_V)" by simp
  then show "PTE2PA (PA2PTE ka OR ((PTE_FLAGS e AND NOT PTE_COW) OR PTE_W) OR PTE_V) = ka"
    using assms by (simp add: or.assoc)
  have b: "bit PTE_W 2" "bit PTE_COW 8" "\<not> bit PTE_W 8" "\<not> bit PTE_V 8" by (simp_all add: flag_simps)
  show "bit (PA2PTE ka OR ((PTE_FLAGS e AND NOT PTE_COW) OR PTE_W) OR PTE_V) 2" using b by (simp add: bit_or_iff)
  show "\<not> bit (PA2PTE ka OR ((PTE_FLAGS e AND NOT PTE_COW) OR PTE_W) OR PTE_V) 8"
    using b by (simp add: bit_or_iff bit_and_iff bit_not_iff bit_PA2PTE_low)
qed

lemma separated_load:
  assumes t: "proc_table s pt (npages sz) tf" and sep: "separated pt (PGROUNDDOWN a) ka s s'" and a: "a < sz" and w: "w < sz"
  shows "user_load s' pt w = user_load s pt w"
proof -
  let ?P = "\<lambda>w. PTE2PA (pte_of s pt w)" and ?e = "pte_of s pt (PGROUNDDOWN a)"
  note Ua = user_page [OF t a] and Uw = user_page [OF t w]
  have pe: "?e = pte_of s pt a" by (rule leaf_page) (simp add: pgno_def unat_PGROUNDDOWN)
  have S: "kpage s ka" "refs s ka = 0"
      "\<forall>va' < SV39. pte_of s' pt va' = (if pgno va' = pgno a
        then PA2PTE ka OR ((PTE_FLAGS ?e AND NOT PTE_COW) OR PTE_W) OR PTE_V else pte_of s pt va')"
      "\<forall>x. PGROUNDDOWN x = ka \<longrightarrow> mem s' x = mem s (?P a + (x - ka))"
      "\<forall>p. kpage s p \<and> p \<noteq> ka \<longrightarrow> refs s' p = refs s p - (if p = ?P a then 1 else 0)"
      "agree_on {p. p \<notin> pages_of s pt \<and> p \<noteq> ka \<and> \<not> (kpage s p \<and> refs s' p = 0)} (mem s) (mem s')"
    using sep by (auto simp: separated_def Let_def pe pgno_def unat_PGROUNDDOWN)
  have al: "pg_aligned ka" using S(1) by (simp add: kpage_def)
  show ?thesis
  proof (cases "pgno w = pgno a")
    case True
    have "pte_of s' pt w = PA2PTE ka OR ((PTE_FLAGS ?e AND NOT PTE_COW) OR PTE_W OR PTE_V)"
      using S(3) maxva_sv39 [OF Uw(6)] True by (simp add: or.assoc)
    moreover have "is_flags ((PTE_FLAGS ?e AND NOT PTE_COW) OR PTE_W OR PTE_V)" by simp
    ultimately have pw: "PTE2PA (pte_of s' pt w) = ka" using al by simp
    have e: "pte_of s pt w = pte_of s pt a" by (rule leaf_page [OF True])
    have "PGROUNDDOWN (ka + (w - PGROUNDDOWN w)) = ka" using user_addr_page [of s' pt w] by (simp add: user_addr_def pw)
    then have "mem s' (ka + (w - PGROUNDDOWN w)) = mem s (?P a + (w - PGROUNDDOWN w))" using S(4) by simp
    then show ?thesis by (simp add: user_load_def user_addr_def pw e)
  next
    case False
    have pw: "pte_of s' pt w = pte_of s pt w" using S(3) maxva_sv39 [OF Uw(6)] False by simp
    have "0 < refs s' (?P w)"
    proof (cases "?P w = ?P a")
      case True
      then have "2 \<le> uses (upage s pt 0) (npages sz) (?P a)"
        using Ua(4,5) Uw(4,5) False by (intro uses_two [of "pgno w" _ "pgno a"]) simp_all
      then have "2 \<le> refs s (?P a)" using proc_tableD(11) [OF t Ua(1)] by linarith
      then show ?thesis using S(2,5) Ua(1) True by auto
    next
      case False
      then show ?thesis using S(2,5) Uw(1,2) by auto
    qed
    moreover have "?P w \<noteq> ka" using Uw(2) S(2) by auto
    ultimately have "mem s' x = mem s x" if "PGROUNDDOWN x = ?P w" for x
      using S(6) Uw(3) that by (simp add: agree_on_def)
    then show ?thesis by (intro user_load_agree) (simp_all add: pw)
  qed
qed

text \<open>The faulting store is tried again: same instruction, same memory, the flags of its page may differ.\<close>

definition retried :: "nat \<Rightarrow> hart \<Rightarrow> 'a ktrap_scheme \<Rightarrow> hart \<Rightarrow> 'a ktrap_scheme \<Rightarrow> bool" where
  "retried me h s h' s' \<longleftrightarrow> in_user h' \<and> sepc h' = sepc h \<and> procs s' = procs s \<and>
     (\<forall>k. 5 \<le> k \<and> k < 512 \<longrightarrow> tf_get me (8 * k) s' = tf_get me (8 * k) s) \<and>
     (\<forall>w < p_sz (procs s ! me). user_load s' (p_pagetable (procs s ! me)) w = user_load s (p_pagetable (procs s ! me)) w)"

lemma usertrap_fault:
  fixes s :: "'a ktrap_scheme"
  assumes "sstatus h AND SSTATUS_SPP = 0" and "scause h = 15" and "\<not> p_killed (procs s ! me)" and "stval h < MAXVA"
    and "\<not> (stval h < tf_get me 48 (tf_set me 24 (sepc h) s) \<and> tf_get me 48 (tf_set me 24 (sepc h) s) - PGSIZE \<le> stval h)"
    and c: "cowalloc (p_pagetable (procs s ! me)) (PGROUNDDOWN (stval h)) (tf_set me 24 (sepc h) s) = Ret (r, s1)"
    and ps: "procs s1 = procs s" and kv: "kernelvec_at s1 = kernelvec_at s" and me: "me < length (procs s)"
  shows "usertrap junk me h s =
    (if r < 0 then bindR (exit me (- 1) (s1\<lparr>procs := setkilled me (procs s)\<rparr>)) (\<lambda>s. Ret (Exited, h\<lparr>stvec := kernelvec_at s1\<rparr>, s))
     else Ret (to_user me (h\<lparr>stvec := kernelvec_at s1\<rparr>) s1))"
proof -
  define s0 where "s0 = tf_set me 24 (sepc h) s"
  have p0: "procs s0 = procs s" by (simp add: s0_def tf_set_def)
  have ng: "(stval h \<ge> MAXVA \<or> stval h < tf_get me 48 s0 \<and> stval h \<ge> tf_get me 48 s0 - PGSIZE) = False"
    using assms(4,5) by (auto simp: s0_def not_le)
  have "cow_fault me (h\<lparr>stvec := kernelvec_at s\<rparr>) s0 = Ret (if r < 0 then s1\<lparr>procs := setkilled me (procs s)\<rparr> else s1)"
    unfolding cow_fault_def Let_def by (simp add: ng p0 c [folded s0_def] ps del: not_le)
  then have "usertrap junk me h s = usertrap_end me 0 (h\<lparr>stvec := kernelvec_at s\<rparr>) (if r < 0 then s1\<lparr>procs := setkilled me (procs s)\<rparr> else s1)"
    using assms(1,2) unfolding usertrap_def by (simp add: Let_def s0_def [symmetric])
  then show ?thesis
    using assms(3) ps kv me by (simp add: usertrap_end_def killed_def setkilled_def upd_entry_def)
qed

lemma to_user_retried:
  fixes s s1 :: "'a ktrap_scheme"
  assumes al: "pg_aligned (p_trapframe (procs s ! me))" and ps: "procs s1 = procs s" and epc: "tf_get me 24 s1 = sepc h"
    and regs: "\<And>k. 5 \<le> k \<Longrightarrow> k < 512 \<Longrightarrow> tf_get me (8 * k) s1 = tf_get me (8 * k) s"
    and o: "owned s1 2 (p_pagetable (procs s ! me))" and tf: "p_trapframe (procs s ! me) \<notin> pages_of s1 (p_pagetable (procs s ! me))"
    and ld: "\<And>w. w < p_sz (procs s ! me) \<Longrightarrow> user_load s1 (p_pagetable (procs s ! me)) w = user_load s (p_pagetable (procs s ! me)) w"
    and pa: "\<And>w. w < p_sz (procs s ! me) \<Longrightarrow> PTE2PA (pte_of s1 (p_pagetable (procs s ! me)) w) \<noteq> p_trapframe (procs s ! me)"
  shows "\<exists>h' s'. to_user me h1 s1 = (To_user (MAKE_SATP (p_pagetable (procs s ! me))), h', s') \<and> retried me h s h' s' \<and>
    (\<forall>va. pte_of s' (p_pagetable (procs s ! me)) va = pte_of s1 (p_pagetable (procs s ! me)) va)"
proof -
  let ?tf = "p_trapframe (procs s ! me)" and ?pt = "p_pagetable (procs s ! me)"
  obtain h' m where u: "usertrapret me h1 s1 = (MAKE_SATP ?pt, h', s1\<lparr>mem := m\<rparr>)" "in_user h'" "sepc h' = tf_get me 24 s1"
      "tf_change ?tf {0, 1, 2, 4} (mem s1) m"
    using usertrapret_spec [of s1 me h1] al ps by metis
  have off: "same_off_page ?tf (mem s1) m" using u(4) by (simp add: tf_change_def)
  have pte: "leaf m 2 ?pt va = pte_of s1 ?pt va" for va
    using table_agree(4) [OF same_off_page_agree [OF off tf] ownedD(1) [OF o]] .
  have "user_load (s1\<lparr>mem := m\<rparr>) ?pt w = user_load s ?pt w" if "w < p_sz (procs s ! me)" for w
    unfolding ld [OF that, symmetric] using off pa [OF that] by (intro user_load_agree) (simp_all add: pte same_off_page_def)
  moreover have "tf_get me (8 * k) (s1\<lparr>mem := m\<rparr>) = tf_get me (8 * k) s" if "5 \<le> k" "k < 512" for k
  proof -
    have "k \<notin> {0, 1, 2, 4}" using that(1) by (auto simp: word_le_nat_alt)
    then show ?thesis using tf_change_entry [OF u(4) that(2)] regs [OF that] by (simp add: tf_entry ps)
  qed
  ultimately have "retried me h s h' (s1\<lparr>mem := m\<rparr>)" using u(2,3) epc by (simp add: retried_def ps)
  then show ?thesis using u(1) pte by (simp add: to_user_def)
qed

lemma cowalloc_not_cow:
  assumes o: "owned s 2 pt" and va: "va < MAXVA" "pg_aligned va" and e: "bit (pte_of s pt va) 0" "\<not> bit (pte_of s pt va) 8"
    and pa: "PTE2PA (pte_of s pt va) \<noteq> 0"
  shows "cowalloc pt va s = Ret (0, s)"
proof -
  obtain p where l: "lookup (mem s) 2 pt va = Some p" using leaf_lookup [of "mem s" 2 pt va] e(1) by fastforce
  then show ?thesis
    using va e pa slot_not_0 [OF ownedD(1) [OF o] l]
    by (auto simp: cowalloc_def walk_exists [OF l va(1)] ld64_slot [OF l] flag_simps not_le pg_aligned_iff_mod [symmetric])
qed

lemma more_kernelvec:
  fixes s s' :: "'a ktrap_scheme"
  shows "kmem.more s' = kmem.more s \<Longrightarrow> kernelvec_at s' = kernelvec_at s"
  by (cases s; cases s') simp

lemma user_not_tf: "proc_mem s i \<Longrightarrow> w < p_sz (procs s ! i) \<Longrightarrow> PTE2PA (pte_of s (p_pagetable (procs s ! i)) w) \<noteq> p_trapframe (procs s ! i)"
  using user_page(4,5) [OF proc_memD(1)] unfolding proc_mem_def Let_def by metis

lemma kpage_nonnull: "kmem_ok s \<Longrightarrow> kpage s p \<Longrightarrow> p \<noteq> 0"
  by (auto simp: kmem_ok_def kmem_inv_def kpage_def KERNBASE_def)

text \<open>A store fault at an address of the process, up to the call of \<open>cowalloc\<close>.\<close>

definition store_faults :: "nat \<Rightarrow> hart \<Rightarrow> 'a ktrap_scheme \<Rightarrow> bool" where
  "store_faults me h s \<longleftrightarrow> kmem_ok s \<and> proc_mem s me \<and> sstatus h AND SSTATUS_SPP = 0 \<and> scause h = 15 \<and>
     me < length (procs s) \<and> \<not> p_killed (procs s ! me) \<and> stval h < p_sz (procs s ! me) \<and>
     \<not> (stval h < tf_get me 48 s \<and> tf_get me 48 s - PGSIZE \<le> stval h)"

lemma store_faults_facts:
  fixes s :: "'a ktrap_scheme"
  assumes f: "store_faults me h s" and s0_def: "s0 = tf_set me (8 * 3) (sepc h) s" and va_def: "va = PGROUNDDOWN (stval h)"
    and pt_def: "pt = p_pagetable (procs s ! me)"
  shows "proc_mem s0 me" and "procs s0 = procs s" and "kmem_ok s0" and "va < MAXVA" and "pg_aligned va" and "pgno va = pgno (stval h)"
    and "pte_of s0 pt va = pte_of s pt (stval h)" and "bit (pte_of s pt (stval h)) 0"
    and "5 \<le> k \<Longrightarrow> k < 512 \<Longrightarrow> tf_get me (8 * k) s0 = tf_get me (8 * k) s" and "tf_get me 24 s0 = sepc h"
    and "w < p_sz (procs s ! me) \<Longrightarrow> user_load s0 pt w = user_load s pt w" and "pte_of s0 pt x = pte_of s pt x"
    and "cowalloc pt va s0 = Ret (r, s1) \<Longrightarrow> kmem.more s1 = kmem.more s0 \<Longrightarrow> usertrap junk me h s =
      (if r < 0 then bindR (exit me (- 1) (s1\<lparr>procs := setkilled me (procs s)\<rparr>)) (\<lambda>s. Ret (Exited, h\<lparr>stvec := kernelvec_at s1\<rparr>, s))
       else Ret (to_user me (h\<lparr>stvec := kernelvec_at s1\<rparr>) s1))"
    and "freelist s0 = freelist s"
proof -
  have F: "kmem_ok s" "proc_mem s me" "sstatus h AND SSTATUS_SPP = 0" "scause h = 15" "me < length (procs s)"
      "\<not> p_killed (procs s ! me)" "stval h < p_sz (procs s ! me)" "\<not> (stval h < tf_get me 48 s \<and> tf_get me 48 s - PGSIZE \<le> stval h)"
    using f unfolding store_faults_def by blast+
  note W = tf_write [OF F(1,2) _ s0_def, simplified]
  note P = proc_memD [OF F(2)]
  note U = user_page [OF P(1) F(7), folded pt_def]
  have nb: "npages (p_sz (procs s ! me)) * 4096 \<le> 0x4000000000" using proc_tableD(2) [OF P(1)] by simp
  note b = below_pages [OF nb F(7)]
  show "proc_mem s0 me" "kmem_ok s0" by (fact W)+
  show ps0: "procs s0 = procs s" by (rule more_procs [OF W(9)])
  show va: "va < MAXVA" "pg_aligned va" "pgno va = pgno (stval h)" using b(4,5) by (simp_all add: va_def)
  show "pte_of s0 pt x = pte_of s pt x" using W(4) [of x] by (simp add: pt_def)
  show "pte_of s0 pt va = pte_of s pt (stval h)" using W(4) [of va] leaf_page [OF va(3), of "mem s" 2 pt] by (simp add: pt_def)
  show "bit (pte_of s pt (stval h)) 0" using proc_tableD(7) [OF P(1) b(2)] b(3) [of s pt] by (simp add: pt_def)
  have sp: "tf_get me 48 s0 = tf_get me 48 s"
    using tf_change_entry [OF W(8), of 6] tf_entry [of me 6 s0] tf_entry [of me 6 s] ps0 by simp
  show "tf_get me (8 * k) s0 = tf_get me (8 * k) s" if "5 \<le> k" "k < 512"
  proof -
    have "k \<notin> {3}" using that(1) by (auto simp: word_le_nat_alt)
    then show ?thesis using tf_change_entry [OF W(8) that(2)] by (simp add: tf_entry ps0)
  qed
  show "tf_get me 24 s0 = sepc h" using W(10) by simp
  show "user_load s0 pt w = user_load s pt w" if "w < p_sz (procs s ! me)"
    using tf_change_user(2) [OF F(2) W(8) that] by (simp add: s0_def tf_set_def pt_def)
  show "freelist s0 = freelist s" by (simp add: s0_def tf_set_def)
  have s0': "s0 = tf_set me 24 (sepc h) s" by (simp add: s0_def)
  show "usertrap junk me h s = (if r < 0 then bindR (exit me (- 1) (s1\<lparr>procs := setkilled me (procs s)\<rparr>)) (\<lambda>s. Ret (Exited, h\<lparr>stvec := kernelvec_at s1\<rparr>, s))
       else Ret (to_user me (h\<lparr>stvec := kernelvec_at s1\<rparr>) s1))"
    if "cowalloc pt va s0 = Ret (r, s1)" "kmem.more s1 = kmem.more s0"
    using usertrap_fault [OF F(3,4,6) U(6) F(8) [folded sp, unfolded s0'] _ _ _ F(5), folded s0' va_def pt_def, OF that(1)]
      more_procs [OF that(2)] ps0 more_kernelvec [OF that(2)] more_kernelvec [OF W(9)] by simp
qed

lemma store_fault_plain:
  fixes s :: "'a ktrap_scheme"
  assumes f: "store_faults me h s" and nc: "\<not> bit (pte_of s (p_pagetable (procs s ! me)) (stval h)) 8"
  shows "\<exists>h' s'. usertrap junk me h s = Ret (To_user (MAKE_SATP (p_pagetable (procs s ! me))), h', s') \<and> retried me h s h' s' \<and>
    (\<forall>va. pte_of s' (p_pagetable (procs s ! me)) va = pte_of s (p_pagetable (procs s ! me)) va)"
proof -
  define s0 where "s0 = tf_set me (8 * 3) (sepc h) s"
  define va where "va = PGROUNDDOWN (stval h)"
  define pt where "pt = p_pagetable (procs s ! me)"
  note S = store_faults_facts [OF f s0_def va_def pt_def]
  note P = proc_memD [OF S(1), unfolded S(2), folded pt_def]
  have a: "stval h < p_sz (procs s ! me)" and pm: "proc_mem s me" using f unfolding store_faults_def by blast+
  note U = user_page [OF P(1) a]
  have "PTE2PA (pte_of s0 pt va) \<noteq> 0" using kpage_nonnull [OF S(3) U(1)] S(7) S(12) [of "stval h"] by simp
  then have "cowalloc pt va s0 = Ret (0, s0)"
    using proc_tableD(1) [OF P(1)] S(4,5,7,8) nc by (intro cowalloc_not_cow) (simp_all add: pt_def)
  then have "usertrap junk me h s = Ret (to_user me (h\<lparr>stvec := kernelvec_at s0\<rparr>) s0)" using S(13) by simp
  moreover have "\<exists>h' s'. to_user me h1 s0 = (To_user (MAKE_SATP pt), h', s') \<and> retried me h s h' s' \<and> (\<forall>va. pte_of s' pt va = pte_of s0 pt va)" for h1
    unfolding pt_def using proc_tableD(1) [OF P(1)] P(4) S(9-12) user_not_tf [OF pm]
    by (intro to_user_retried [OF proc_mem_aligned [OF pm] S(2)]) (simp_all add: pt_def)
  ultimately show ?thesis using S(12) unfolding pt_def [symmetric] by auto
qed

lemma store_faults_cow_page:
  fixes s :: "'a ktrap_scheme"
  assumes f: "store_faults me h s" and c: "bit (pte_of s (p_pagetable (procs s ! me)) (stval h)) 8"
  shows "cow_page (p_pagetable (procs s ! me)) (PGROUNDDOWN (stval h)) (tf_set me (8 * 3) (sepc h) s)"
proof -
  note S = store_faults_facts [OF f refl refl refl]
  note P = proc_memD [OF S(1), unfolded S(2)]
  have a: "stval h < p_sz (procs s ! me)" using f unfolding store_faults_def by blast
  show ?thesis using user_page(1-3) [OF P(1) a] S(4,5,7,8) S(12) [of "stval h"] c by (simp add: cow_page_def)
qed

lemma no_free_page:
  assumes "kmem_ok s" and "freelist s = 0" and "kpage s p"
  shows "refs s p \<noteq> 0"
proof -
  obtain fl where fl: "kmem_inv s fl" using assms(1) by (auto simp: kmem_ok_def)
  then have "fl = []" using assms(2) by (cases fl) (auto simp: kmem_inv_def)
  then show ?thesis using fl assms(3) by (auto simp: kmem_inv_def)
qed

lemma store_fault_no_memory:
  fixes s :: "'a ktrap_scheme"
  assumes f: "store_faults me h s" and c: "bit (pte_of s (p_pagetable (procs s ! me)) (stval h)) 8" and room: "freelist s = 0"
  shows "\<exists>h1 s1. usertrap junk me h s = bindR (exit me (- 1) s1) (\<lambda>s'. Ret (Exited, h1, s')) \<and> p_killed (procs s1 ! me)"
proof -
  define s0 where "s0 = tf_set me (8 * 3) (sepc h) s"
  note S = store_faults_facts [OF f s0_def refl refl]
  have o: "owned s0 2 (p_pagetable (procs s ! me))" using proc_tableD(1) [OF proc_memD(1) [OF S(1)]] by (simp add: S(2))
  have "cowalloc (p_pagetable (procs s ! me)) (PGROUNDDOWN (stval h)) s0 = Ret (-1, s0)"
    using cowalloc_spec [OF S(3) o store_faults_cow_page [OF f c, folded s0_def]] no_free_page [OF S(3)] S(14) room
    by (auto simp: separated_def Let_def)
  from S(13) [OF this refl] have "usertrap junk me h s = bindR (exit me (- 1) (s0\<lparr>procs := setkilled me (procs s)\<rparr>))
      (\<lambda>s. Ret (Exited, h\<lparr>stvec := kernelvec_at s0\<rparr>, s))" by simp
  moreover have "p_killed (setkilled me (procs s) ! me)" using f by (simp add: store_faults_def setkilled_def upd_entry_def)
  ultimately show ?thesis
    by (intro exI [of _ "h\<lparr>stvec := kernelvec_at s0\<rparr>"] exI [of _ "s0\<lparr>procs := setkilled me (procs s)\<rparr>"]) simp
qed

lemma store_fault_cow:
  fixes s :: "'a ktrap_scheme"
  assumes f: "store_faults me h s" and c: "bit (pte_of s (p_pagetable (procs s ! me)) (stval h)) 8" and room: "freelist s \<noteq> 0"
  shows "\<exists>h' s'. usertrap junk me h s = Ret (To_user (MAKE_SATP (p_pagetable (procs s ! me))), h', s') \<and> retried me h s h' s' \<and>
    bit (pte_of s' (p_pagetable (procs s ! me)) (stval h)) 2 \<and> \<not> bit (pte_of s' (p_pagetable (procs s ! me)) (stval h)) 8"
proof -
  define s0 where "s0 = tf_set me (8 * 3) (sepc h) s"
  define pt where "pt = p_pagetable (procs s ! me)"
  let ?tf = "p_trapframe (procs s ! me)" and ?va = "PGROUNDDOWN (stval h)"
  note S = store_faults_facts [OF f s0_def refl pt_def]
  note P = proc_memD [OF S(1), unfolded S(2), folded pt_def]
  have a: "stval h < p_sz (procs s ! me)" and pm: "proc_mem s me" using f unfolding store_faults_def by blast+
  note U = user_page [OF P(1) a]
  have "kalloc s0 \<noteq> Ret (0, s0)" using room S(14) by (auto simp: kalloc_def res_simps Let_def)
  then obtain ka s1 where r: "cowalloc pt ?va s0 = Ret (0, s1)" and sep: "separated pt ?va ka s0 s1"
    using cowalloc_spec [OF S(3) proc_tableD(1) [OF P(1)] store_faults_cow_page [OF f c, folded s0_def pt_def]] by blast
  have Q: "kmem.more s1 = kmem.more s0" "owned s1 2 pt" "pages_of s1 pt = pages_of s0 pt" "kpage s0 ka" "refs s0 ka = 0"
      "\<And>va'. va' < SV39 \<Longrightarrow> pte_of s1 pt va' = (if pgno va' = pgno ?va then PA2PTE ka OR ((PTE_FLAGS (pte_of s0 pt ?va) AND NOT PTE_COW) OR PTE_W) OR PTE_V
        else pte_of s0 pt va')"
      "\<And>p. kpage s0 p \<Longrightarrow> p \<noteq> ka \<Longrightarrow> refs s1 p = refs s0 p - (if p = PTE2PA (pte_of s0 pt ?va) then 1 else 0)"
      "agree_on {p. p \<notin> pages_of s0 pt \<and> p \<noteq> ka \<and> \<not> (kpage s0 p \<and> refs s1 p = 0)} (mem s0) (mem s1)"
    using sep unfolding separated_def Let_def by auto
  have ps1: "procs s1 = procs s" using more_procs [OF Q(1)] S(2) by simp
  have tf: "?tf \<notin> pages_of s0 pt" "?tf \<noteq> ka" "refs s1 ?tf = 1"
  proof -
    have r1: "kpage s0 ?tf" "refs s0 ?tf = 1" using P(2) [of ?tf] by simp_all
    show "?tf \<notin> pages_of s0 pt" by (rule P(4))
    show n: "?tf \<noteq> ka" using r1(2) Q(5) by auto
    have "?tf \<noteq> PTE2PA (pte_of s0 pt ?va)" using user_not_tf [OF pm a] S(7) by (simp add: pt_def)
    then show "refs s1 ?tf = 1" using Q(7) [OF r1(1) n] r1(2) by simp
  qed
  have "tf_get me (8 * k) s1 = tf_get me (8 * k) s0" if "k < 512" for k
    using entry_agree [OF Q(8), of ?tf k] tf proc_mem_aligned [OF pm] that by (simp add: tf_entry ps1 S(2))
  from this [of 3] this have regs: "tf_get me 24 s1 = sepc h" "\<And>k. 5 \<le> k \<Longrightarrow> k < 512 \<Longrightarrow> tf_get me (8 * k) s1 = tf_get me (8 * k) s"
    using S(9,10) by simp_all
  have "pg_aligned ka" using Q(4) by (simp add: kpage_def)
  note fl = own_pte [OF this]
  have "PTE2PA (pte_of s1 pt w) \<noteq> ?tf" if "w < p_sz (procs s ! me)" for w
    using Q(6) [OF maxva_sv39 [OF user_page(6) [OF P(1) that]]] tf(2) fl(1) user_not_tf [OF pm that] S(12) [of w] by (simp add: pt_def split: if_splits)
  moreover have "user_load s1 pt w = user_load s pt w" if "w < p_sz (procs s ! me)" for w
    using separated_load [OF P(1) sep a that] S(11) [OF that] by simp
  ultimately have "\<exists>h' s'. to_user me h1 s1 = (To_user (MAKE_SATP pt), h', s') \<and> retried me h s h' s' \<and> (\<forall>va. pte_of s' pt va = pte_of s1 pt va)" for h1
    unfolding pt_def using Q(2,3) tf(1) regs
    by (intro to_user_retried [OF proc_mem_aligned [OF pm] ps1]) (simp_all add: pt_def)
  moreover have "usertrap junk me h s = Ret (to_user me (h\<lparr>stvec := kernelvec_at s1\<rparr>) s1)" using S(13) [OF r Q(1)] by simp
  moreover have "bit (pte_of s1 pt (stval h)) 2" "\<not> bit (pte_of s1 pt (stval h)) 8"
    using Q(6) [OF maxva_sv39 [OF U(6)]] S(6) fl(2,3) by simp_all
  ultimately show ?thesis unfolding pt_def [symmetric] by metis
qed


end
