(* ===== verification/Reap.thy ===== *)
theory Reap
  imports Lifecycle
begin

text \<open>
  The end of a process: \<open>exit\<close> closes its files, hands its children to \<open>init\<close> and wakes its parent;
  \<open>wait\<close> and \<open>waitx\<close> find the first zombie child and give back all it had.
\<close>

section \<open>wait\<close>

abbreviation zombie_child :: "nat \<Rightarrow> 'a kproc_scheme \<Rightarrow> nat \<Rightarrow> bool" where
  "zombie_child me s i \<equiv> p_parent (procs s ! i) = Some me \<and> p_state (procs s ! i) = ZOMBIE"

lemma scan_skip:
  assumes "\<And>i. i \<in> set is \<Longrightarrow> \<not> zombie_child me s i"
  shows "wait_scan me addr (is @ js) kids s = wait_scan me addr js (kids \<or> (\<exists>i \<in> set is. p_parent (procs s ! i) = Some me)) s"
    and "waitx_scan me addr (is @ js) kids s = waitx_scan me addr js (kids \<or> (\<exists>i \<in> set is. p_parent (procs s ! i) = Some me)) s"
  using assms by (induction "is" arbitrary: kids) (auto simp: Let_def)

lemma scan_none:
  assumes "\<And>i. i \<in> set is \<Longrightarrow> \<not> zombie_child me s i"
  shows "wait_scan me addr is kids s = Ret (None, kids \<or> (\<exists>i \<in> set is. p_parent (procs s ! i) = Some me), s)"
    and "waitx_scan me addr is kids s = Ret (None, kids \<or> (\<exists>i \<in> set is. p_parent (procs s ! i) = Some me), s)"
  using scan_skip [OF assms, of "is" addr "[]" kids] by auto

lemma find_upt_Some:
  assumes "find P [0..<n] = Some i"
  shows "i < n" and "P i" and "\<And>j. j < i \<Longrightarrow> \<not> P j" and "[0..<n] = [0..<i] @ i # [Suc i..<n]"
proof -
  show i: "i < n" "P i" "\<And>j. j < i \<Longrightarrow> \<not> P j" using assms by (auto simp: find_Some_iff)
  have "[0..<n] = [0..<i] @ [i..<n]" using i(1) upt_add_eq_append [of 0 i "n - i"] by simp
  then show "[0..<n] = [0..<i] @ i # [Suc i..<n]" using i(1) by (simp add: upt_conv_Cons)
qed


text \<open>
  C23 \<open>waitx\<close> does what \<open>wait\<close> does, on every state and for every address; in addition, exactly
  when a zombie was found it reports the time the child ran and the time between its
  creation and its exit that it did not run.
\<close>

theorem waitx_wait:
  "waitx me addr s = bindR (wait me addr s) (\<lambda>(r, s'). Ret (r,
     map_option (\<lambda>i. (p_etime (procs s ! i) - p_ctime (procs s ! i) - p_rtime (procs s ! i), p_rtime (procs s ! i)))
       (find (zombie_child me s) [0..<length (procs s)]), s'))"
proof (cases "find (zombie_child me s) [0..<length (procs s)]")
  case None
  then have "\<And>i. i \<in> set [0..<length (procs s)] \<Longrightarrow> \<not> zombie_child me s i" by (auto simp: find_None_iff)
  from scan_none [of "[0..<length (procs s)]" s me addr False, OF this]
  have "wait_scan me addr [0..<length (procs s)] False s = Ret (None, \<exists>i < length (procs s). p_parent (procs s ! i) = Some me, s)"
    "waitx_scan me addr [0..<length (procs s)] False s = Ret (None, \<exists>i < length (procs s). p_parent (procs s ! i) = Some me, s)" by auto
  then show ?thesis unfolding waitx_def wait_def None by (simp add: killed_def)
next
  case (Some i)
  note f = find_upt_Some [OF Some]
  have "wait_scan me addr [0..<length (procs s)] False s = wait_scan me addr (i # [Suc i..<length (procs s)]) (\<exists>j \<in> set [0..<i]. p_parent (procs s ! j) = Some me) s"
    and "waitx_scan me addr [0..<length (procs s)] False s = waitx_scan me addr (i # [Suc i..<length (procs s)]) (\<exists>j \<in> set [0..<i]. p_parent (procs s ! j) = Some me) s"
    unfolding f(4) using f(3) by (subst scan_skip; auto)+
  note sc = this
  define c where "c = (if addr \<noteq> 0 then copyout_obj (p_pagetable (procs s ! me)) addr (le_bytes 4 (p_xstate (procs s ! i))) s else Ret (0, s))"
  show ?thesis
  proof (cases c)
    case (Ret x)
    obtain r s1 where x: "x = (r, s1)" by (cases x)
    show ?thesis unfolding waitx_def wait_def Some sc using f(2) Ret x unfolding c_def
      by (cases "r < 0"; cases "freeproc i s1") (simp_all add: Let_def)
  qed (use f(2) in \<open>simp_all add: waitx_def wait_def Some sc Let_def c_def\<close>)
qed

section \<open>exit\<close>

text \<open>Closing a file moves one descriptor's worth of references and wakes at most sleepers.\<close>

definition woken :: "ptable \<Rightarrow> ptable \<Rightarrow> bool" where
  "woken ps ps' \<longleftrightarrow> length ps' = length ps \<and>
     (\<forall>i < length ps. ps' ! i = ps ! i \<or> p_state (ps ! i) = SLEEPING \<and> ps' ! i = (ps ! i)\<lparr>p_state := RUNNABLE\<rparr>)"

lemma woken_refl [simp]: "woken ps ps"
  by (simp add: woken_def)

lemma woken_trans: "woken ps ps1 \<Longrightarrow> woken ps1 ps2 \<Longrightarrow> woken ps ps2"
  by (fastforce simp: woken_def)

lemma woken_wakeup: "woken ps (wakeup me ch ps)"
  by (simp add: woken_def wakeup_nth)

lemma wokenD:
  assumes "woken ps ps'" and "i < length ps"
  shows "p_ofile (ps' ! i) = p_ofile (ps ! i)" and "p_parent (ps' ! i) = p_parent (ps ! i)" and "p_cwd (ps' ! i) = p_cwd (ps ! i)"
    and "length ps' = length ps"
  using assms by (auto simp: woken_def)

lemma do_fs_procs: "do_fs f s = Ret s' \<Longrightarrow> procs s' = procs s \<and> ftable s' = ftable s \<and> initproc s' = initproc s \<and> kticks s' = kticks s"
  by (auto simp: do_fs_def res_simps)

lemma keeps_proc_part:
  fixes s s' :: "'a kfs_scheme"
  assumes "keeps s s'" shows "procs s' = procs s" "ftable s' = ftable s" "initproc s' = initproc s" "kticks s' = kticks s"
  using assms by (cases s; cases s'; simp add: keeps_def)+

definition quiet :: "'a kfs_scheme \<Rightarrow> 'a kfs_scheme \<Rightarrow> bool" where
  "quiet s s' \<longleftrightarrow> woken (procs s) (procs s') \<and> initproc s' = initproc s \<and> kticks s' = kticks s"

lemma quiet_refl [simp]: "quiet s s"
  by (simp add: quiet_def)

lemma quiet_trans: "quiet s s1 \<Longrightarrow> quiet s1 s2 \<Longrightarrow> quiet s s2"
  using woken_trans by (auto simp: quiet_def)

lemma quiet_do_fs: "quiet s0 s \<Longrightarrow> holdsR (quiet s0) (do_fs f s)"
  using do_fs_procs [of f s] by (auto simp: holdsR_def quiet_def)

lemma quiet_upd_file [simp]: "quiet s0 (upd_file f g s) = quiet s0 s"
  by (simp add: quiet_def upd_file_def)

lemma quiet_kfree: "quiet s0 s \<Longrightarrow> holdsR (quiet s0) (kfree pa s)"
  unfolding holdsR_def
proof (intro allI impI)
  fix t assume a: "quiet s0 s" "kfree pa s = Ret t"
  then have "keeps s t" using keeps_kfree [OF keeps_refl, of s pa] by (simp add: holdsR_def)
  from keeps_proc_part [OF this] a(1) show "quiet s0 t" by (simp add: quiet_def)
qed

lemma quiet_pipeclose:
  assumes "quiet s0 s" shows "holdsR (quiet s0) (pipeclose me pi w s)"
proof -
  have "quiet s0 (k_wakeup (Some me) ch (upd_pipe pi g s))" for ch g
    using assms woken_trans [OF _ woken_wakeup, of "procs s0" "procs s"] by (simp add: quiet_def k_wakeup_def upd_pipe_def)
  then show ?thesis by (auto simp: pipeclose_def Let_def intro!: quiet_kfree)
qed

lemma quiet_fileclose: "holdsR (quiet s) (fileclose me f s)"
  unfolding fileclose_def Let_def
  by (auto intro!: quiet_pipeclose quiet_do_fs holdsR_bind [OF quiet_do_fs])

text \<open>One descriptor after the other is closed, in the counts and in the table.\<close>

lemma fileclose_refs:
  assumes ok: "refs_ok s" and me: "me < length (procs s)" and fd: "fd < NOFILE" "p_ofile (procs s ! me) ! fd = Some f"
    and r: "fileclose me f s = Ret s'"
  shows "refs_ok (set_ofile me fd None s')"
proof -
  note D = refs_okD [OF ok me]
  have f: "f < NFILE" "1 \<le> sint (f_ref (ftable s ! f))" "sint (f_ref (ftable s ! f)) \<le> 1024" and fn: "f < length (ftable s)"
    using D(2) [OF fd] D(3) [of f] D(6) [of f] D(7) [OF fd] D(4) by simp_all
  define n where "n = f_ref (ftable s ! f) - 1"
  have n: "sint n = sint (f_ref (ftable s ! f)) - 1" unfolding n_def using sint_step(2) f by simp
  have key: "refs_ok (set_ofile me fd None t)"
    if t: "map p_ofile (procs t) = map p_ofile (procs s)" "ftable t = (ftable s)[f := y]" "f_ref y = n" for t y
  proof -
    define u where "u = t\<lparr>procs := procs s\<rparr>"
    have "refs_ok (set_ofile me fd None u)"
    proof (rule refs_ok_move [OF ok me fd(1), of None])
      show "sint (f_ref (ftable (set_ofile me fd None u) ! g)) = sint (f_ref (ftable s ! g)) -
          of_bool (p_ofile (procs s ! me) ! fd = Some g) + of_bool (None = Some g)" if "g < NFILE" for g
        using t n fd(2) D(4) that f by (auto simp: u_def set_ofile_def upd_proc_def nth_list_update)
    qed (use t D(4) in \<open>auto simp: u_def set_ofile_def upd_proc_def\<close>)
    moreover have "same_files (set_ofile me fd None u) (set_ofile me fd None t)"
    proof -
      have l: "length (procs t) = length (procs s)" using t(1) by (metis length_map)
      have e: "p_ofile (procs t ! i) = p_ofile (procs s ! i)" if "i < length (procs s)" for i
        using t(1) that l by (metis nth_map)
      have "map p_ofile (procs (set_ofile me fd None t)) = map p_ofile (procs (set_ofile me fd None u))"
        using l e me by (intro nth_equalityI) (auto simp: set_ofile_def u_def upd_entry_def nth_list_update)
      then show ?thesis by (simp add: same_files_def set_ofile_def u_def upd_proc_def)
    qed
    ultimately show ?thesis using refs_ok_same by blast
  qed
  define s2 where "s2 = upd_file f (\<lambda>x. x\<lparr>f_ref := f_ref x - 1\<rparr>) s"
  have ref2: "f_ref (ftable s2 ! f) = n" using fn by (simp add: s2_def upd_file_def n_def)
  show ?thesis
  proof (cases "sint n > 0")
    case True
    then have "s' = s2" using r f(2) ref2 by (simp add: fileclose_def s2_def Let_def)
    then show ?thesis using key [of s2] by (simp add: s2_def upd_file_def n_def)
  next
    case False
    then have n0: "n = 0" using n f(2) sint_eq_iff [of n 0] by (simp del: sint_eq_iff)
    have "same_files (upd_file f (\<lambda>x. x\<lparr>f_ref := 0, f_type := FD_NONE\<rparr>) s2) s'"
      using fileclose_last [OF r f(2)] ref2 False unfolding s2_def by simp
    then show ?thesis
      using fn n0 by (intro key [of s' "(ftable s ! f)\<lparr>f_ref := 0, f_type := FD_NONE\<rparr>"])
        (simp_all add: same_files_def s2_def upd_file_def)
  qed
qed

lemma exit_files:
  fixes s s' :: "'a kfs_scheme"
  assumes ok: "refs_ok s" and me: "me < length (procs s)" and r: "foldR (exit_file me) [0..<k] s = Ret s'" and k: "k \<le> NOFILE"
  shows "refs_ok s' \<and> length (procs s') = length (procs s) \<and> map p_parent (procs s') = map p_parent (procs s) \<and>
    initproc s' = initproc s \<and> (\<forall>j < NOFILE. p_ofile (procs s' ! me) ! j = (if j < k then None else p_ofile (procs s ! me) ! j))"
  using r k
proof (induction k arbitrary: s')
  case 0
  then show ?case using ok by simp
next
  case (Suc k)
  obtain t where t: "foldR (exit_file me) [0..<k] s = Ret t" "exit_file me k t = Ret s'"
    using Suc.prems(1) by (auto simp: foldR_snoc res_simps)
  have IH: "refs_ok t" "length (procs t) = length (procs s)" "map p_parent (procs t) = map p_parent (procs s)" "initproc t = initproc s"
      "\<And>j. j < NOFILE \<Longrightarrow> p_ofile (procs t ! me) ! j = (if j < k then None else p_ofile (procs s ! me) ! j)"
    using Suc.IH [OF t(1)] Suc.prems(2) by simp_all
  show ?case
  proof (cases "p_ofile (procs t ! me) ! k")
    case None
    then have "s' = t" using t(2) by (simp add: exit_file_def)
    then show ?thesis using IH None Suc.prems(2) by (auto simp: less_Suc_eq)
  next
    case (Some f)
    obtain u where u: "fileclose me f t = Ret u" "s' = set_ofile me k None u"
      using t(2) Some by (auto simp: exit_file_def res_simps)
    have kn: "k < NOFILE" and met: "me < length (procs t)" using Suc.prems(2) me IH(2) by simp_all
    have q: "woken (procs t) (procs u)" "initproc u = initproc t"
      using quiet_fileclose [of t me f] u(1) by (simp_all add: holdsR_def quiet_def)
    note W = wokenD [OF q(1)]
    have l: "length (procs u) = length (procs s)" using W(4) [OF met] IH(2) by simp
    have lo: "length (p_ofile (procs t ! me)) = NOFILE" by (rule refs_okD(1) [OF IH(1) met])
    have "map p_parent (procs s') = map p_parent (procs t)"
      using W(2) l IH(2) me by (intro nth_equalityI) (auto simp: u(2) set_ofile_def upd_entry_def nth_list_update)
    moreover have "p_ofile (procs s' ! me) = (p_ofile (procs t ! me))[k := None]"
      using W(1) [OF met] met l IH(2) by (simp add: u(2) set_ofile_def upd_entry_def)
    moreover have "refs_ok s'" unfolding u(2) by (rule fileclose_refs [OF IH(1) met kn Some u(1)])
    moreover have "length (procs s') = length (procs s)" "initproc s' = initproc s"
      using l q(2) IH(4) by (simp_all add: u(2) set_ofile_def upd_proc_def upd_entry_def)
    ultimately show ?thesis using IH(3,5) lo by (auto simp: nth_list_update less_Suc_eq)
  qed
qed

lemma reparent_keeps:
  shows "length (reparent me p q ps) = length ps" and "map p_ofile (reparent me p q ps) = map p_ofile ps"
proof -
  have "length (fold (\<lambda>i ps. if p_parent (ps ! i) = Some p then wakeup me ch (upd_entry i (p_parent_update (\<lambda>_. q)) ps) else ps) is ps) = length ps \<and>
    map p_ofile (fold (\<lambda>i ps. if p_parent (ps ! i) = Some p then wakeup me ch (upd_entry i (p_parent_update (\<lambda>_. q)) ps) else ps) is ps) = map p_ofile ps"
    for ch "is" ps
  proof (induction "is" arbitrary: ps)
    case (Cons i "is")
    have "map p_ofile (upd_entry i (p_parent_update (\<lambda>_. q)) ps) = map p_ofile ps"
      by (cases "i < length ps") (auto intro!: nth_equalityI simp: upd_entry_def nth_list_update)
    then show ?case using Cons by (simp add: wakeup_ofile)
  qed simp
  then show "length (reparent me p q ps) = length ps" "map p_ofile (reparent me p q ps) = map p_ofile ps"
    by (simp_all add: reparent_def)
qed

text \<open>
  A descriptor whose file is open in another process too is closed without touching the file
  system, so a process all of whose files are shared gets rid of them at once.
\<close>

lemma fd_refs_two:
  assumes "i < length ps" and "j < length ps" and "i \<noteq> j" and "Some f \<in> set (p_ofile (ps ! i))" and "Some f \<in> set (p_ofile (ps ! j))"
  shows "2 \<le> fd_refs f ps"
proof -
  define o' where "o' = (\<lambda>i. (ps ! i)\<lparr>p_ofile := []\<rparr>)"
  have "fd_refs f (ps[i := o' i, j := o' j]) = fd_refs f ps - fd_count f (ps ! i) - fd_count f (ps ! j)"
    using assms(1-3) by (simp add: fd_refs_update o'_def fd_count_def)
  moreover have "0 \<le> fd_refs f qs" for qs by (induction qs) (auto simp: fd_refs_def fd_count_def)
  moreover have "1 \<le> fd_count f (ps ! i)" "1 \<le> fd_count f (ps ! j)"
    using assms(4,5) count_list_0_iff by (fastforce simp: fd_count_def Suc_le_eq)+
  ultimately show ?thesis by (smt (verit))
qed

definition shared_files :: "nat \<Rightarrow> ptable \<Rightarrow> bool" where
  "shared_files me ps \<longleftrightarrow>
     (\<forall>f. Some f \<in> set (p_ofile (ps ! me)) \<longrightarrow> (\<exists>q < length ps. q \<noteq> me \<and> Some f \<in> set (p_ofile (ps ! q))))"

lemma exit_file_shared:
  assumes ok: "refs_ok s" and me: "me < length (procs s)" and sh: "shared_files me (procs s)" and k: "k < NOFILE"
  shows "\<exists>t. exit_file me k s = Ret t \<and> fs t = fs s \<and> refs_ok t \<and> length (procs t) = length (procs s) \<and>
    shared_files me (procs t) \<and> p_cwd (procs t ! me) = p_cwd (procs s ! me)"
proof (cases "p_ofile (procs s ! me) ! k")
  case None
  then show ?thesis using ok sh by (simp add: exit_file_def)
next
  case (Some f)
  note D = refs_okD [OF ok me]
  have fs: "Some f \<in> set (p_ofile (procs s ! me))" using Some D(1) k by (metis nth_mem)
  then obtain q where q: "q < length (procs s)" "q \<noteq> me" "Some f \<in> set (p_ofile (procs s ! q))"
    using sh unfolding shared_files_def by blast
  have n: "2 \<le> sint (f_ref (ftable s ! f))" "f < length (ftable s)" "sint (f_ref (ftable s ! f)) \<le> 1024"
    using fd_refs_two [OF me q(1) q(2) [symmetric] fs q(3)] D(2) [OF k Some] D(3) [of f] D(4) D(6) [of f] by simp_all
  define u where "u = upd_file f (\<lambda>x. x\<lparr>f_ref := f_ref x - 1\<rparr>) s"
  have c: "fileclose me f s = Ret u"
    using n sint_step(2) by (simp add: fileclose_def u_def upd_file_def Let_def)
  have "shared_files me (procs (set_ofile me k None u))"
    unfolding shared_files_def
  proof (intro allI impI)
    fix g assume "Some g \<in> set (p_ofile (procs (set_ofile me k None u) ! me))"
    then have "Some g \<in> set (p_ofile (procs s ! me))"
      using me by (auto simp: set_ofile_def upd_entry_def u_def upd_file_def dest!: set_update_subset_insert [THEN subsetD])
    then obtain q where "q < length (procs s)" "q \<noteq> me" "Some g \<in> set (p_ofile (procs s ! q))"
      using sh unfolding shared_files_def by blast
    then show "\<exists>q < length (procs (set_ofile me k None u)). q \<noteq> me \<and> Some g \<in> set (p_ofile (procs (set_ofile me k None u) ! q))"
      by (intro exI [of _ q]) (simp add: set_ofile_def upd_entry_def u_def upd_file_def)
  qed
  moreover have "refs_ok (set_ofile me k None u)" by (rule fileclose_refs [OF ok me k Some c])
  moreover have "p_cwd (procs (set_ofile me k None u) ! me) = p_cwd (procs s ! me)"
    using me by (simp add: set_ofile_def upd_entry_def u_def upd_file_def)
  ultimately show ?thesis using Some c by (simp add: exit_file_def set_ofile_def upd_proc_def upd_entry_def u_def upd_file_def)
qed

lemma exit_files_shared:
  assumes "refs_ok s" and "me < length (procs s)" and "shared_files me (procs s)" and "k \<le> NOFILE"
  shows "\<exists>t. foldR (exit_file me) [0..<k] s = Ret t \<and> fs t = fs s \<and> refs_ok t \<and> length (procs t) = length (procs s) \<and>
    shared_files me (procs t) \<and> p_cwd (procs t ! me) = p_cwd (procs s ! me)"
  using assms(4)
proof (induction k)
  case 0
  then show ?case using assms by simp
next
  case (Suc k)
  then obtain t where t: "foldR (exit_file me) [0..<k] s = Ret t" "fs t = fs s" "refs_ok t" "length (procs t) = length (procs s)"
      "shared_files me (procs t)" "p_cwd (procs t ! me) = p_cwd (procs s ! me)" by auto
  moreover have "me < length (procs t)" "k < NOFILE" using t(4) assms(2) Suc.prems by simp_all
  ultimately obtain u where "exit_file me k t = Ret u" "fs u = fs s" "refs_ok u" "length (procs u) = length (procs s)"
      "shared_files me (procs u)" "p_cwd (procs u ! me) = p_cwd (procs s ! me)"
    using exit_file_shared [of t me k] by auto
  then show ?case using t(1) by (simp add: foldR_snoc)
qed

text \<open>
  The file system is at rest: no transaction is open, none is being committed and the log is empty.
\<close>

definition fs_at_rest :: "'a log_scheme \<Rightarrow> bool" where
  "fs_at_rest x \<longleftrightarrow> lg_committing x = 0 \<and> lg_outstanding x = 0 \<and> lh_n x = 0"

lemma exit_returns:
  fixes s :: "'a kfs_scheme"
  assumes ok: "refs_ok s" and me: "me < length (procs s)" and i: "initproc s \<noteq> Some me" and sh: "shared_files me (procs s)"
    and r: "fs_at_rest (fs s)" and cwd: "p_cwd (procs s ! me) = Some ip"
    and ip: "i_ref (itable (fs s) ! ip) \<noteq> 1 \<or> i_nlink (itable (fs s) ! ip) \<noteq> 0"
  shows "\<exists>s'. exit me status s = Ret s'"
proof -
  obtain t where t: "foldR (exit_file me) [0..<NOFILE] s = Ret t" "fs t = fs s" "p_cwd (procs t ! me) = Some ip"
    using exit_files_shared [OF ok me sh order_refl] cwd by auto
  define x where "x = fs s"
  have rx: "lg_committing x = 0" "lg_outstanding x = 0" "lh_n x = 0" using r by (simp_all add: fs_at_rest_def x_def)
  have b: "begin_op x = Ret (x\<lparr>lg_outstanding := 1\<rparr>)" using rx by (simp add: begin_op_def MAXOPBLOCKS_def LOGSIZE_def)
  have p: "iput pid ip (x\<lparr>lg_outstanding := 1\<rparr>) = Ret (upd_inode ip (\<lambda>i. i\<lparr>i_ref := i_ref i - 1\<rparr>) (x\<lparr>lg_outstanding := 1\<rparr>))" for pid
    using ip by (auto simp: iput_def x_def)
  have e: "end_op pid (upd_inode ip h (x\<lparr>lg_outstanding := 1\<rparr>)) = Ret (upd_inode ip h x)" for pid h
    using rx by (simp add: end_op_def commit_def upd_inode_def)
  show ?thesis
    using t i by (simp add: exit_def do_fs_def x_def [symmetric] b p e Let_def)
qed

text \<open>What \<open>exit\<close> does to the table once the files are closed and the directory is released.\<close>

definition exit_table :: "nat \<Rightarrow> s32 \<Rightarrow> nat option \<Rightarrow> u32 \<Rightarrow> ptable \<Rightarrow> ptable" where
  "exit_table me status ini now ps =
     (let ps = upd_entry me (p_cwd_update (\<lambda>_. None)) ps;
          ps = reparent (Some me) me ini ps;
          ps = wakeup (Some me) (proc_chan (p_parent (ps ! me))) ps
      in upd_entry me (\<lambda>p. p\<lparr>p_xstate := status, p_state := ZOMBIE, p_etime := now\<rparr>) ps)"

lemma exit_table:
  assumes me: "me < length ps"
  shows "map p_ofile (exit_table me status ini now ps) = map p_ofile ps"
    and "p_state (exit_table me status ini now ps ! me) = ZOMBIE" and "p_xstate (exit_table me status ini now ps ! me) = status"
    and "i < length ps \<Longrightarrow> p_parent (exit_table me status ini now ps ! i) =
      (if p_parent (ps ! i) = Some me then ini else p_parent (ps ! i))"
    and "q < length ps \<Longrightarrow> p_parent (ps ! me) = Some q \<Longrightarrow> q \<noteq> me \<Longrightarrow>
      \<not> (p_state (exit_table me status ini now ps ! q) = SLEEPING \<and> p_chan (exit_table me status ini now ps ! q) = Chan_proc q)"
proof -
  define ps2 where "ps2 = upd_entry me (p_cwd_update (\<lambda>_. None)) ps"
  define ps3 where "ps3 = reparent (Some me) me ini ps2"
  define ps4 where "ps4 = wakeup (Some me) (proc_chan (p_parent (ps3 ! me))) ps3"
  have e: "exit_table me status ini now ps = upd_entry me (\<lambda>p. p\<lparr>p_xstate := status, p_state := ZOMBIE, p_etime := now\<rparr>) ps4"
    by (simp add: exit_table_def Let_def ps4_def ps3_def ps2_def)
  have l: "length ps2 = length ps" "length ps3 = length ps" "length ps4 = length ps"
    by (simp_all add: ps2_def ps3_def ps4_def upd_entry_def reparent_keeps)
  have "map p_ofile ps2 = map p_ofile ps"
    using me by (intro nth_equalityI) (auto simp: ps2_def upd_entry_def nth_list_update)
  then have "map p_ofile ps4 = map p_ofile ps" by (simp add: ps4_def ps3_def wakeup_ofile reparent_keeps)
  then have "p_ofile (ps4 ! j) = p_ofile (ps ! j)" if "j < length ps" for j using that l(3) by (metis nth_map)
  then show "map p_ofile (exit_table me status ini now ps) = map p_ofile ps"
    using l(3) me by (intro nth_equalityI) (auto simp: e upd_entry_def nth_list_update)
  show "p_state (exit_table me status ini now ps ! me) = ZOMBIE" "p_xstate (exit_table me status ini now ps ! me) = status"
    using l me by (simp_all add: e upd_entry_def)
  have par3: "p_parent (ps3 ! i) = (if p_parent (ps ! i) = Some me then ini else p_parent (ps ! i))" if "i < length ps" for i
    using that l(1) by (simp add: ps3_def reparent_parent ps2_def upd_entry_nth)
  show "p_parent (exit_table me status ini now ps ! i) = (if p_parent (ps ! i) = Some me then ini else p_parent (ps ! i))"
    if "i < length ps"
    using par3 [OF that] l that by (simp add: e upd_entry_nth ps4_def wakeup_nth)
  show "\<not> (p_state (exit_table me status ini now ps ! q) = SLEEPING \<and> p_chan (exit_table me status ini now ps ! q) = Chan_proc q)"
    if "q < length ps" "p_parent (ps ! me) = Some q" "q \<noteq> me"
    using that par3 [OF me] l by (auto simp: e upd_entry_nth ps4_def wakeup_nth)
qed

lemma exit_runs:
  fixes s :: "'a kfs_scheme"
  assumes "exit me status s = Ret s'"
  obtains s1 where "foldR (exit_file me) [0..<NOFILE] s = Ret s1" and "ftable s' = ftable s1"
    and "procs s' = exit_table me status (initproc s1) (kticks s') (procs s1)"
proof -
  obtain s1 s2 ip s3 s4 where st: "foldR (exit_file me) [0..<NOFILE] s = Ret s1" "do_fs begin_op s1 = Ret s2"
      "p_cwd (procs s2 ! me) = Some ip" "do_fs (iput (my_pid me s2) ip) s2 = Ret s3" "do_fs (end_op (my_pid me s3)) s3 = Ret s4"
    and s': "s' = (let s = upd_proc me (p_cwd_update (\<lambda>_. None)) s4;
            s = s\<lparr>procs := reparent (Some me) me (initproc s) (procs s)\<rparr>;
            s = k_wakeup (Some me) (proc_chan (p_parent (procs s ! me))) s in
        upd_proc me (\<lambda>p. p\<lparr>p_xstate := status, p_state := ZOMBIE, p_etime := kticks s\<rparr>) s)"
    using assms by (auto simp: exit_def res_simps Let_def split: if_splits option.splits)
  have p4: "procs s4 = procs s1" "ftable s4 = ftable s1" "initproc s4 = initproc s1"
    using do_fs_procs [OF st(2)] do_fs_procs [OF st(4)] do_fs_procs [OF st(5)] by simp_all
  show thesis
    by (rule that [OF st(1)]) (simp_all add: s' Let_def p4 k_wakeup_def upd_proc_def exit_table_def)
qed

text \<open>
  C7 When \<open>exit\<close> reaches the scheduler, the process is a zombie with its status stored, all its
  descriptors are closed and every reference count is again the number of descriptors; its
  children have \<open>init\<close> as their parent and no other process changed its parent; and its parent is not
  left asleep in \<open>wait\<close>. It does reach the scheduler when its open files are shared with other
  processes, its directory lives on and the file system is at rest. The first process never
  exits: the call panics.
\<close>

theorem exit_correct:
  fixes s :: "'a kfs_scheme"
  assumes ok: "refs_ok s" and me: "me < length (procs s)"
  shows "(initproc s = Some me \<longrightarrow> exit me status s = Panic ''init exiting'') \<and>
    (\<forall>ip. initproc s \<noteq> Some me \<and> shared_files me (procs s) \<and> fs_at_rest (fs s) \<and> p_cwd (procs s ! me) = Some ip \<and>
        (i_ref (itable (fs s) ! ip) \<noteq> 1 \<or> i_nlink (itable (fs s) ! ip) \<noteq> 0) \<longrightarrow> (\<exists>s'. exit me status s = Ret s')) \<and>
    (\<forall>s'. exit me status s = Ret s' \<longrightarrow> refs_ok s' \<and> length (procs s') = length (procs s) \<and>
      p_state (procs s' ! me) = ZOMBIE \<and> p_xstate (procs s' ! me) = status \<and>
      (\<forall>fd < NOFILE. p_ofile (procs s' ! me) ! fd = None) \<and>
      (\<forall>i < length (procs s). p_parent (procs s' ! i) =
         (if p_parent (procs s ! i) = Some me then initproc s else p_parent (procs s ! i))) \<and>
      (\<forall>q < length (procs s). p_parent (procs s ! me) = Some q \<and> q \<noteq> me \<longrightarrow>
         \<not> (p_state (procs s' ! q) = SLEEPING \<and> p_chan (procs s' ! q) = Chan_proc q)))"
proof (intro conjI allI impI)
  assume "initproc s = Some me"
  then show "exit me status s = Panic ''init exiting''" by (simp add: exit_def)
next
  fix ip
  assume "initproc s \<noteq> Some me \<and> shared_files me (procs s) \<and> fs_at_rest (fs s) \<and> p_cwd (procs s ! me) = Some ip \<and>
      (i_ref (itable (fs s) ! ip) \<noteq> 1 \<or> i_nlink (itable (fs s) ! ip) \<noteq> 0)"
  then show "\<exists>s'. exit me status s = Ret s'" using exit_returns [OF ok me] by blast
next
  fix s' assume "exit me status s = Ret s'"
  then obtain s1 where st: "foldR (exit_file me) [0..<NOFILE] s = Ret s1" and ft: "ftable s' = ftable s1"
    and ps': "procs s' = exit_table me status (initproc s1) (kticks s') (procs s1)" by (rule exit_runs)
  note E = exit_files [OF ok me st order_refl]
  have l1: "length (procs s1) = length (procs s)" and me1: "me < length (procs s1)" using E me by simp_all
  have par1: "p_parent (procs s1 ! i) = p_parent (procs s ! i)" if "i < length (procs s)" for i
    using E that by (auto dest: arg_cong [where f = "\<lambda>xs. xs ! i"])
  note T = exit_table [OF me1, where status = status and ini = "initproc s1" and now = "kticks s'", folded ps']
  show "refs_ok s'" using refs_ok_same [of s1 s'] E ft T(1) by (simp add: same_files_def)
  show "length (procs s') = length (procs s)" using arg_cong [OF T(1), of length] l1 by simp
  show "p_state (procs s' ! me) = ZOMBIE" "p_xstate (procs s' ! me) = status" by (rule T(2), rule T(3))
  show "p_ofile (procs s' ! me) ! fd = None" if "fd < NOFILE" for fd
  proof -
    have "p_ofile (procs s' ! me) = p_ofile (procs s1 ! me)"
      using T(1) me1 by (metis length_map nth_map)
    then show ?thesis using E that by simp
  qed
  show "p_parent (procs s' ! i) = (if p_parent (procs s ! i) = Some me then initproc s else p_parent (procs s ! i))"
    if "i < length (procs s)" for i
    using T(4) [of i] that l1 par1 [OF that] E by simp
  show "\<not> (p_state (procs s' ! q) = SLEEPING \<and> p_chan (procs s' ! q) = Chan_proc q)"
    if "q < length (procs s)" "p_parent (procs s ! me) = Some q \<and> q \<noteq> me" for q
    using T(5) [of q] that l1 par1 [OF me] by simp
qed

end
