(* ===== verification/Small_Machine.thy ===== *)
theory Small_Machine
  imports Fork
begin

text \<open>
  A machine with eight managed pages, on which the hypotheses of the virtual-memory theorems
  hold: a process with one writable page (its table takes three pages), an empty second
  table, and three free pages. The theorems are applied to it.
\<close>

definition demo_mem :: memory where
  "demo_mem =
     st64 (st64 (st64 (st64 (st64 (\<lambda>_. 0)
       0x87FF8000 (PA2PTE 0x87FF9000 OR PTE_V))
       0x87FF9000 (PA2PTE 0x87FFA000 OR PTE_V))
       0x87FFA000 (PA2PTE 0x87FFB000 OR (PTE_V OR PTE_R OR PTE_W OR PTE_U)))
       0x87FFD000 0x87FFE000)
       0x87FFE000 0x87FFF000"

definition demo :: kmem where
  "demo = \<lparr>mem = demo_mem, freelist = 0x87FFD000,
     page_ref_count = (\<lambda>i. if i < 0x87FFD then 1 else 0), kend = 0x87FF8000\<rparr>"

lemma entry_store_page:
  assumes "pg_aligned p" and "pg_aligned q" and "j < 512"
  shows "entry (st64 m p v) q j = (if q = p \<and> j = 0 then v else entry m q j)"
proof (cases "q = p")
  case True
  then show ?thesis using entry_st64 [of p 0 j m v] assms by (simp add: PTE_ADDR_def)
next
  case False
  have "same_off_page p m (st64 m p v)"
    using same_off_page_entry [of p 0 m v] assms(1) by (simp add: PTE_ADDR_def)
  then have "agree_on {q} m (st64 m p v)" using False by (intro same_off_page_agree) auto
  from entry_agree [OF this, of q j] False assms show ?thesis by simp
qed

lemma demo_aligned [simp]:
  "pg_aligned 0x87FF8000" "pg_aligned 0x87FF9000" "pg_aligned 0x87FFA000" "pg_aligned 0x87FFB000"
  "pg_aligned 0x87FFC000" "pg_aligned 0x87FFD000" "pg_aligned 0x87FFE000" "pg_aligned 0x87FFF000"
  by (simp_all add: pg_aligned_def)

lemma demo_entry:
  assumes "pg_aligned q" and "j < 512"
  shows "entry demo_mem q j = (if j = 0 then
      if q = 0x87FFE000 then 0x87FFF000 else if q = 0x87FFD000 then 0x87FFE000
      else if q = 0x87FFA000 then PA2PTE 0x87FFB000 OR (PTE_V OR PTE_R OR PTE_W OR PTE_U)
      else if q = 0x87FF9000 then PA2PTE 0x87FFA000 OR PTE_V
      else if q = 0x87FF8000 then PA2PTE 0x87FF9000 OR PTE_V else 0 else 0)"
  using assms by (simp add: demo_mem_def entry_store_page ld64_zero)

lemma demo_kpage:
  "kpage demo p \<longleftrightarrow> p \<in> {0x87FF8000, 0x87FF9000, 0x87FFA000, 0x87FFB000, 0x87FFC000, 0x87FFD000,
    0x87FFE000, 0x87FFF000}"
proof
  assume k: "kpage demo p"
  then obtain i where i: "unat p = i * 4096" by (auto simp: kpage_def pg_aligned_def)
  have "0x87FF8000 \<le> unat p" "unat p < 0x88000000"
    using k by (simp_all add: kpage_def demo_def PHYSTOP_def word_le_nat_alt word_less_nat_alt)
  then have "0x87FF8 \<le> i" "i < 0x87FF8 + 8" using i by linarith+
  then obtain j where j: "i = 0x87FF8 + j" "j < 8" by (metis nat_le_iff_add nat_add_left_cancel_less)
  then have "j = 0 \<or> j = 1 \<or> j = 2 \<or> j = 3 \<or> j = 4 \<or> j = 5 \<or> j = 6 \<or> j = 7" by linarith
  then show "p \<in> {0x87FF8000, 0x87FF9000, 0x87FFA000, 0x87FFB000, 0x87FFC000, 0x87FFD000,
      0x87FFE000, 0x87FFF000}"
    using i j(1) by (auto simp: word_unat_eq_iff)
qed (auto simp: kpage_def demo_def PHYSTOP_def)

lemma demo_refs:
  "kpage demo p \<Longrightarrow> refs demo p = (if p \<in> {0x87FFD000, 0x87FFE000, 0x87FFF000} then 0 else 1)"
  unfolding demo_kpage by (auto simp: demo_def refs_def)

lemma demo_chain: "chain demo_mem 0x87FFD000 [0x87FFD000, 0x87FFE000, 0x87FFF000]"
proof -
  have "ld64 demo_mem p = (if p = 0x87FFE000 then 0x87FFF000 else if p = 0x87FFD000 then 0x87FFE000 else 0)"
    if "p \<in> {0x87FFD000, 0x87FFE000, 0x87FFF000}" for p
    using demo_entry [of p 0] that by (auto simp: PTE_ADDR_def)
  then show ?thesis by simp
qed

lemma demo_ok: "kmem_inv demo [0x87FFD000, 0x87FFE000, 0x87FFF000]"
proof -
  have "p \<in> set [0x87FFD000, 0x87FFE000, 0x87FFF000] \<longleftrightarrow> kpage demo p \<and> refs demo p = 0" for p
    using demo_refs [of p] demo_kpage [of p] by auto
  moreover have "KERNBASE \<le> kend demo" "0 \<le> page_ref_count demo i"
      "mem demo = demo_mem" "freelist demo = 0x87FFD000" for i
    by (simp_all add: demo_def KERNBASE_def)
  ultimately show ?thesis unfolding kmem_inv_def using demo_chain by simp
qed

lemma demo_valid: "pg_aligned q \<Longrightarrow> valid_at demo_mem q i \<longleftrightarrow>
    i = 0 \<and> (q = 0x87FF8000 \<or> q = 0x87FF9000 \<or> q = 0x87FFA000)"
  by (auto simp: valid_at_def demo_entry bit_or_iff flag_simps split: if_splits)

lemma demo_child:
  "child demo_mem 0x87FF8000 0 = 0x87FF9000" "child demo_mem 0x87FF9000 0 = 0x87FFA000"
  "PTE_FLAGS (entry demo_mem 0x87FF8000 0) = PTE_V" "PTE_FLAGS (entry demo_mem 0x87FF9000 0) = PTE_V"
  "bit (entry demo_mem 0x87FF8000 0) 0" "bit (entry demo_mem 0x87FF9000 0) 0"
  by (simp_all add: demo_entry bit_or_iff flag_simps)

lemma demo_old:
  "tree demo_mem 2 0x87FF8000" "tbl_pages demo_mem 2 0x87FF8000 = {0x87FF8000, 0x87FF9000, 0x87FFA000}"
proof -
  have v: "valid_at demo_mem 0x87FF8000 = (\<lambda>i. i = 0)" "valid_at demo_mem 0x87FF9000 = (\<lambda>i. i = 0)"
    by (auto simp: fun_eq_iff demo_valid)
  have 2: "(2 :: nat) = Suc (Suc 0)" by simp
  show "tree demo_mem 2 0x87FF8000" unfolding 2 by (simp add: v demo_child)
  show "tbl_pages demo_mem 2 0x87FF8000 = {0x87FF8000, 0x87FF9000, 0x87FFA000}"
    unfolding 2 by (simp add: v demo_child)
qed

lemma demo_new: "tree demo_mem 2 0x87FFC000" "tbl_pages demo_mem 2 0x87FFC000 = {0x87FFC000}"
proof -
  have v: "valid_at demo_mem 0x87FFC000 = (\<lambda>i. False)" by (auto simp: fun_eq_iff demo_valid)
  have 2: "(2 :: nat) = Suc (Suc 0)" by simp
  show "tree demo_mem 2 0x87FFC000" unfolding 2 by (simp add: v)
  show "tbl_pages demo_mem 2 0x87FFC000 = {0x87FFC000}" unfolding 2 by (simp add: v)
qed

lemma demo_pte:
  "leaf demo_mem 2 0x87FF8000 0 = PA2PTE 0x87FFB000 OR (PTE_V OR PTE_R OR PTE_W OR PTE_U)"
  "leaf demo_mem 2 0x87FFC000 0 = 0"
proof -
  have px: "PX k 0 = 0" for k by (simp add: PX_def)
  have "lookup demo_mem (Suc (Suc 0)) 0x87FF8000 0 = Some 0x87FFA000"
    by (simp add: px Let_def demo_child)
  then have "lookup demo_mem 2 0x87FF8000 0 = Some 0x87FFA000" by (simp only: numeral_2_eq_2)
  then show "leaf demo_mem 2 0x87FF8000 0 = PA2PTE 0x87FFB000 OR (PTE_V OR PTE_R OR PTE_W OR PTE_U)"
    by (simp add: leaf_def px demo_entry)
  have "lookup demo_mem (Suc (Suc 0)) 0x87FFC000 0 = None"
    by (simp add: px Let_def demo_entry)
  then have "lookup demo_mem 2 0x87FFC000 0 = None" by (simp only: numeral_2_eq_2)
  then show "leaf demo_mem 2 0x87FFC000 0 = 0" by (simp add: leaf_def)
qed

lemma demo_forkable: "forkable 0x87FF8000 0x87FFC000 1 demo"
proof -
  have m: "mem demo = demo_mem" by (simp add: demo_def)
  have "kmem_ok demo" using demo_ok by (auto simp: kmem_ok_def)
  moreover have "owned demo 2 0x87FF8000" "owned demo 2 0x87FFC000"
    by (simp_all add: owned_def m demo_old demo_new demo_kpage demo_refs)
  moreover have "PTE_FLAGS (PA2PTE 0x87FFB000 OR (PTE_V OR PTE_R OR PTE_W OR PTE_U)) \<noteq> PTE_V"
    by (subst PTE_FLAGS_PA2PTE) (simp_all, simp add: const_defs)
  ultimately show ?thesis
    by (simp add: forkable_def Let_def m demo_pte demo_old demo_new demo_kpage demo_refs bit_or_iff flag_simps)
qed

lemma demo_nfree: "nfree demo = 3"
proof -
  have "{p. kpage demo p \<and> refs demo p = 0} = set [0x87FFD000, 0x87FFE000, 0x87FFF000]"
    using kmem_invD(5) [OF demo_ok] by blast
  then show ?thesis by (simp add: nfree_def)
qed

lemma demo_npages: "npages 100 = 1"
  by (simp add: npages_def)

lemma demo_fork:
  obtains s1 where "uvmcopy 0x87FF8000 0x87FFC000 100 demo = Ret (0, s1)" and "0 < nfree s1"
proof -
  obtain s1 where "uvmcopy 0x87FF8000 0x87FFC000 100 demo = Ret (0, s1)" "nfree demo \<le> nfree s1 + 2"
    using uvmcopy_enough [of "0x87FF8000" "0x87FFC000" 100 demo] demo_forkable
    by (auto simp: demo_npages demo_nfree)
  then show thesis using that demo_nfree by simp
qed

lemma demo_writable: "bit (pte_of demo 0x87FF8000 0) 2"
  by (simp add: demo_def demo_pte bit_or_iff flag_simps)

lemma demo_cow:
  assumes "uvmcopy 0x87FF8000 0x87FFC000 100 demo = Ret (0, s1)"
  shows "kmem_ok s1" and "owned s1 2 0x87FFC000" and "cow_page 0x87FFC000 0 s1"
proof -
  have fk: "forkable 0x87FF8000 0x87FFC000 (npages 100) demo" using demo_forkable by (simp add: demo_npages)
  note sc = uvmcopy_success [OF fk assms]
  show "kmem_ok s1" "owned s1 2 0x87FFC000" using sharedD(1,3) [OF sc(1)] by auto
  show "cow_page 0x87FFC000 0 s1"
    using shared_cow_page [OF fk sc, of 0] demo_writable by (simp add: PGROUNDDOWN_def)
qed

section \<open>The theorems on this machine\<close>

theorem uvmcopy_correct_witness:
  "\<exists>r s'. uvmcopy 0x87FF8000 0x87FFC000 100 demo = Ret (r, s') \<and>
    (r = 0 \<and> shared 0x87FF8000 0x87FFC000 1 1 demo s' \<and> child_ptes 0x87FF8000 0x87FFC000 1 demo s' \<or>
     r = -1 \<and> fork_failed 0x87FF8000 0x87FFC000 1 demo s')"
  using uvmcopy_correct [of "0x87FF8000" "0x87FFC000" 100 demo] demo_forkable by (simp add: demo_npages)

theorem uvmcopy_enough_memory_witness:
  "2 * npages 100 \<le> nfree demo \<and> (\<exists>s'. uvmcopy 0x87FF8000 0x87FFC000 100 demo = Ret (0, s'))"
  using uvmcopy_enough_memory [of "0x87FF8000" "0x87FFC000" 100 demo] demo_forkable
  by (auto simp: demo_npages demo_nfree)

theorem uvmcopy_same_bytes_witness:
  "\<exists>s1. uvmcopy 0x87FF8000 0x87FFC000 100 demo = Ret (0, s1) \<and>
    user_load s1 0x87FFC000 42 = user_load demo 0x87FF8000 42 \<and> \<not> bit (pte_of s1 0x87FFC000 42) 2"
proof -
  obtain s1 where s1: "uvmcopy 0x87FF8000 0x87FFC000 100 demo = Ret (0, s1)" by (rule demo_fork)
  from uvmcopy_same_bytes [OF _ this, of 42] demo_forkable s1 show ?thesis by (auto simp: demo_npages)
qed

theorem cowalloc_correct_witness:
  "\<exists>s1 :: kmem. kmem_ok s1 \<and> owned s1 2 0x87FFC000 \<and> cow_page 0x87FFC000 0 s1 \<and>
    (\<exists>ka s'. cowalloc 0x87FFC000 0 s1 = Ret (0, s') \<and> separated 0x87FFC000 0 ka s1 s')"
proof -
  obtain s1 where s1: "uvmcopy 0x87FF8000 0x87FFC000 100 demo = Ret (0, s1)" "0 < nfree s1" by (rule demo_fork)
  note d = demo_cow [OF s1(1)]
  have "\<exists>ka s'. cowalloc 0x87FFC000 0 s1 = Ret (0, s') \<and> separated 0x87FFC000 0 ka s1 s'"
    using cowalloc_correct [OF d] nfree_null [OF d(1)] s1(2) by auto
  with d show ?thesis by blast
qed


end
