(* ===== verification/Small_Process.thy ===== *)
theory Small_Process
  imports Forkproc Reap Small_Machine
begin

text \<open>
  A machine with one process of one page, with its trapframe and a complete page table, and nine
  free pages: a state on which the theorems about processes apply.
\<close>

text \<open>The free pages, each with the address of the next one in its first word.\<close>

definition free_links :: memory where
  "free_links =
     st64 (st64 (st64 (st64 (st64 (st64 (st64 (st64 (\<lambda>_. 0)
       (PTE_ADDR 0x87FF0000 0) 0x87FF1000)
       (PTE_ADDR 0x87FF1000 0) 0x87FF2000)
       (PTE_ADDR 0x87FF2000 0) 0x87FF3000)
       (PTE_ADDR 0x87FF3000 0) 0x87FF4000)
       (PTE_ADDR 0x87FF4000 0) 0x87FF5000)
       (PTE_ADDR 0x87FF5000 0) 0x87FF6000)
       (PTE_ADDR 0x87FF6000 0) 0x87FF7000)
       (PTE_ADDR 0x87FF7000 0) 0x87FFF000"

definition pmem :: memory where
  "pmem =
     st64 (st64 (st64 (st64 (st64 (st64 (st64 free_links
       (PTE_ADDR 0x87FF8000 0) (PA2PTE 0x87FFC000 OR PTE_V))
       (PTE_ADDR 0x87FFC000 0) (PA2PTE 0x87FFD000 OR PTE_V))
       (PTE_ADDR 0x87FFD000 0) (PA2PTE 0x87FFE000 OR (PTE_V OR PTE_R OR PTE_W OR PTE_U)))
       (PTE_ADDR 0x87FF8000 255) (PA2PTE 0x87FF9000 OR PTE_V))
       (PTE_ADDR 0x87FF9000 511) (PA2PTE 0x87FFA000 OR PTE_V))
       (PTE_ADDR 0x87FFA000 511) (PA2PTE 0x80007000 OR (PTE_R OR PTE_X) OR PTE_V))
       (PTE_ADDR 0x87FFA000 510) (PA2PTE 0x87FFB000 OR (PTE_R OR PTE_W) OR PTE_V)"

lemma entry_store_cell:
  assumes "pg_aligned p" and "pg_aligned q" and "i < 512" and "j < 512"
  shows "entry (st64 m (PTE_ADDR p i) v) q j = (if q = p \<and> j = i then v else entry m q j)"
proof (cases "q = p")
  case True
  then show ?thesis using entry_st64 [of p i j m v] assms by simp
next
  case False
  have "same_off_page p m (st64 m (PTE_ADDR p i) v)" using assms by (intro same_off_page_entry)
  then have "agree_on {q} m (st64 m (PTE_ADDR p i) v)" using False by (intro same_off_page_agree) auto
  from entry_agree [OF this, of q j] False assms show ?thesis by simp
qed

lemma free_aligned [simp]:
  "pg_aligned 0x87FF0000" "pg_aligned 0x87FF1000" "pg_aligned 0x87FF2000" "pg_aligned 0x87FF3000"
  "pg_aligned 0x87FF4000" "pg_aligned 0x87FF5000" "pg_aligned 0x87FF6000" "pg_aligned 0x87FF7000"
  by (simp_all add: pg_aligned_def)

lemma free_links_entry:
  assumes "pg_aligned q" and "j < 512"
  shows "entry free_links q j =
      (if j = 0 then
         if q = 0x87FF0000 then 0x87FF1000 else
         if q = 0x87FF1000 then 0x87FF2000 else
         if q = 0x87FF2000 then 0x87FF3000 else
         if q = 0x87FF3000 then 0x87FF4000 else
         if q = 0x87FF4000 then 0x87FF5000 else
         if q = 0x87FF5000 then 0x87FF6000 else
         if q = 0x87FF6000 then 0x87FF7000 else
         if q = 0x87FF7000 then 0x87FFF000 else 0
       else 0)"
  using assms unfolding free_links_def by (simp add: entry_store_cell ld64_zero)

lemma pmem_entry:
  assumes "pg_aligned q" and "j < 512"
  shows "entry pmem q j =
      (if q = 0x87FFA000 \<and> j = 510 then PA2PTE 0x87FFB000 OR (PTE_R OR PTE_W) OR PTE_V
       else if q = 0x87FFA000 \<and> j = 511 then PA2PTE 0x80007000 OR (PTE_R OR PTE_X) OR PTE_V
       else if q = 0x87FF9000 \<and> j = 511 then PA2PTE 0x87FFA000 OR PTE_V
       else if q = 0x87FF8000 \<and> j = 255 then PA2PTE 0x87FF9000 OR PTE_V
       else if q = 0x87FFD000 \<and> j = 0 then PA2PTE 0x87FFE000 OR (PTE_V OR PTE_R OR PTE_W OR PTE_U)
       else if q = 0x87FFC000 \<and> j = 0 then PA2PTE 0x87FFD000 OR PTE_V
       else if q = 0x87FF8000 \<and> j = 0 then PA2PTE 0x87FFC000 OR PTE_V else entry free_links q j)"
  using assms unfolding pmem_def by (simp add: entry_store_cell)

lemma free_links_bit:
  assumes "pg_aligned q" and "j < 512"
  shows "\<not> bit (entry free_links q j) 0"
  using assms by (simp add: free_links_entry)

lemma pmem_valid: "pg_aligned q \<Longrightarrow> valid_at pmem q i \<longleftrightarrow>
    q = 0x87FF8000 \<and> (i = 0 \<or> i = 255) \<or> q = 0x87FF9000 \<and> i = 511 \<or> q = 0x87FFC000 \<and> i = 0 \<or>
    q = 0x87FFA000 \<and> (i = 510 \<or> i = 511) \<or> q = 0x87FFD000 \<and> i = 0"
  by (auto simp: valid_at_def pmem_entry free_links_bit bit_or_iff flag_simps split: if_splits)

lemma pmem_child:
  "child pmem 0x87FF8000 0 = 0x87FFC000" "child pmem 0x87FF8000 255 = 0x87FF9000"
  "child pmem 0x87FF9000 511 = 0x87FFA000" "child pmem 0x87FFC000 0 = 0x87FFD000"
  "PTE_FLAGS (entry pmem 0x87FF8000 0) = PTE_V" "PTE_FLAGS (entry pmem 0x87FF8000 255) = PTE_V"
  "PTE_FLAGS (entry pmem 0x87FF9000 511) = PTE_V" "PTE_FLAGS (entry pmem 0x87FFC000 0) = PTE_V"
  by (simp_all add: pmem_entry bit_or_iff flag_simps)

lemma pmem_table:
  "tree pmem 2 0x87FF8000"
  "tbl_pages pmem 2 0x87FF8000 = {0x87FF8000, 0x87FF9000, 0x87FFA000, 0x87FFC000, 0x87FFD000}"
proof -
  have v: "valid_at pmem 0x87FF8000 = (\<lambda>i. i = 0 \<or> i = 255)" "valid_at pmem 0x87FF9000 = (\<lambda>i. i = 511)"
      "valid_at pmem 0x87FFC000 = (\<lambda>i. i = 0)"
    by (auto simp: fun_eq_iff pmem_valid)
  have 2: "(2 :: nat) = Suc (Suc 0)" by simp
  have c: "{i :: u64. i = 0 \<or> i = 255} = {0, 255}" by auto
  show "tree pmem 2 0x87FF8000" unfolding 2 by (auto simp: v pmem_child)
  show "tbl_pages pmem 2 0x87FF8000 = {0x87FF8000, 0x87FF9000, 0x87FFA000, 0x87FFC000, 0x87FFD000}"
    unfolding 2 by (auto simp: v pmem_child c)
qed

lemma pmem_leaf:
  "leaf pmem 2 0x87FF8000 va =
    (if PX 2 va = 0 \<and> PX 1 va = 0 \<and> PX 0 va = 0 then PA2PTE 0x87FFE000 OR (PTE_V OR PTE_R OR PTE_W OR PTE_U)
     else if PX 2 va = 255 \<and> PX 1 va = 511 \<and> PX 0 va = 511 then PA2PTE 0x80007000 OR (PTE_R OR PTE_X) OR PTE_V
     else if PX 2 va = 255 \<and> PX 1 va = 511 \<and> PX 0 va = 510 then PA2PTE 0x87FFB000 OR (PTE_R OR PTE_W) OR PTE_V
     else 0)"
proof -
  have b: "bit (entry pmem 0x87FF8000 i) 0 \<longleftrightarrow> i = 0 \<or> i = 255" "bit (entry pmem 0x87FF9000 i) 0 \<longleftrightarrow> i = 511"
      "bit (entry pmem 0x87FFC000 i) 0 \<longleftrightarrow> i = 0" if "i < 512" for i
    using pmem_valid [of "0x87FF8000" i] pmem_valid [of "0x87FF9000" i] pmem_valid [of "0x87FFC000" i] that
    by (auto simp: valid_at_def)
  have px: "PX (Suc (Suc 0)) va = PX 2 va" "PX (Suc 0) va = PX 1 va" by (simp_all only: numeral_2_eq_2 One_nat_def)
  have two: "lookup pmem 2 q va = lookup pmem (Suc (Suc 0)) q va" for q by (simp only: numeral_2_eq_2)
  have l1: "lookup pmem (Suc 0) 0x87FFC000 va = (if PX 1 va = 0 then Some 0x87FFD000 else None)"
      "lookup pmem (Suc 0) 0x87FF9000 va = (if PX 1 va = 511 then Some 0x87FFA000 else None)"
    unfolding lookup.simps Let_def px using b(2,3) [of "PX 1 va"] pmem_child(3,4)
    by (cases "PX 1 va = 0"; cases "PX 1 va = 511"; simp)+
  have "lookup pmem 2 0x87FF8000 va = (if PX 2 va = 0 then lookup pmem (Suc 0) 0x87FFC000 va
      else if PX 2 va = 255 then lookup pmem (Suc 0) 0x87FF9000 va else None)"
    unfolding two lookup.simps(2) [of pmem "Suc 0"] Let_def px using b(1) [of "PX 2 va"]
    by (cases "PX 2 va = 0"; cases "PX 2 va = 255") (simp_all add: pmem_child del: lookup.simps)
  then have lk: "lookup pmem 2 0x87FF8000 va = (if PX 2 va = 0 then if PX 1 va = 0 then Some 0x87FFD000 else None
      else if PX 2 va = 255 then if PX 1 va = 511 then Some 0x87FFA000 else None else None)"
    by (simp only: l1)
  have e: "entry pmem 0x87FFD000 (PX 0 va) = (if PX 0 va = 0 then PA2PTE 0x87FFE000 OR (PTE_V OR PTE_R OR PTE_W OR PTE_U) else 0)"
      "entry pmem 0x87FFA000 (PX 0 va) = (if PX 0 va = 511 then PA2PTE 0x80007000 OR (PTE_R OR PTE_X) OR PTE_V
        else if PX 0 va = 510 then PA2PTE 0x87FFB000 OR (PTE_R OR PTE_W) OR PTE_V else 0)"
    by (simp_all add: pmem_entry free_links_entry)
  have ne: "(0 :: u64) \<noteq> 255" "(0 :: u64) \<noteq> 511" "(511 :: u64) \<noteq> 510" by simp_all
  show ?thesis unfolding leaf_def lk
    by (cases "PX 2 va = 0"; cases "PX 1 va = 0"; cases "PX 2 va = 255"; cases "PX 1 va = 511")
      (simp_all add: e ne)
qed

section \<open>The state\<close>

definition one_proc :: proc where
  "one_proc = demo_proc\<lparr>p_pagetable := 0x87FF8000, p_trapframe := 0x87FFB000, p_sz := 100, p_cwd := Some 0\<rparr>"

definition free_proc :: proc where
  "free_proc = demo_proc\<lparr>p_state := UNUSED, p_trapframe := 0, p_ofile := replicate NOFILE None, p_pid := 0\<rparr>"

definition demo_sys :: ksys where
  "demo_sys = kfs.extend (demo_kfs\<lparr>mem := pmem, freelist := 0x87FF0000,
     page_ref_count := (\<lambda>i. if 0x87FF8 \<le> i \<and> i < 0x87FFF then 1 else 0), kend := 0x87FF0000, procs := [one_proc, free_proc], nextpid := 2\<rparr>)
     \<lparr>forkret_at = 0x80001000, initcode_at = 0x80002000, first = False\<rparr>"

lemma demo_sys_simps:
  "mem demo_sys = pmem" "freelist demo_sys = 0x87FF0000" "page_ref_count demo_sys = (\<lambda>i. if 0x87FF8 \<le> i \<and> i < 0x87FFF then 1 else 0)"
  "kend demo_sys = 0x87FF0000" "procs demo_sys = [one_proc, free_proc]" "ftable demo_sys = ftable demo_kfs" "nextpid demo_sys = 2"
  by (simp_all add: demo_sys_def kfs.defs demo_kfs_def kcons.defs demo_cons_def)

definition free_pages :: "u64 list" where
  "free_pages = [0x87FF0000, 0x87FF1000, 0x87FF2000, 0x87FF3000, 0x87FF4000, 0x87FF5000, 0x87FF6000, 0x87FF7000, 0x87FFF000]"

definition used_pages :: "u64 list" where
  "used_pages = [0x87FF8000, 0x87FF9000, 0x87FFA000, 0x87FFB000, 0x87FFC000, 0x87FFD000, 0x87FFE000]"

lemmas small_pages = free_pages_def used_pages_def

lemma demo_sys_kpage: "kpage demo_sys p \<longleftrightarrow> p \<in> set free_pages \<or> p \<in> set used_pages"
proof
  assume k: "kpage demo_sys p"
  then obtain i where i: "unat p = i * 4096" by (auto simp: kpage_def pg_aligned_def)
  have "0x87FF0000 \<le> unat p" "unat p < 0x88000000"
    using k by (simp_all add: kpage_def demo_sys_simps PHYSTOP_def word_le_nat_alt word_less_nat_alt)
  then have "0x87FF0 \<le> i" "i < 0x87FF0 + 16" using i by linarith+
  then obtain j where j: "i = 0x87FF0 + j" "j < 16" by (metis nat_le_iff_add nat_add_left_cancel_less)
  then have "j = 0 \<or> j = 1 \<or> j = 2 \<or> j = 3 \<or> j = 4 \<or> j = 5 \<or> j = 6 \<or> j = 7 \<or>
      j = 8 \<or> j = 9 \<or> j = 10 \<or> j = 11 \<or> j = 12 \<or> j = 13 \<or> j = 14 \<or> j = 15" by presburger
  then have "unat p \<in> unat ` (set free_pages \<union> set used_pages)"
    unfolding i j(1) by (elim disjE) (simp_all add: small_pages)
  then show "p \<in> set free_pages \<or> p \<in> set used_pages" by (metis UnE imageE word_unat_eq_iff)
qed (auto simp: kpage_def demo_sys_simps PHYSTOP_def small_pages)

lemma demo_sys_refs:
  "p \<in> set used_pages \<Longrightarrow> refs demo_sys p = 1" "p \<in> set free_pages \<Longrightarrow> refs demo_sys p = 0"
  by (auto simp: refs_def demo_sys_simps small_pages)

lemma demo_sys_chain: "chain (mem demo_sys) (freelist demo_sys) free_pages"
proof -
  have "ld64 pmem p = (if p = 0x87FFF000 then 0 else p + 0x1000)" if "p \<in> set free_pages - {0x87FF7000}" for p
    using pmem_entry [of p 0] free_links_entry [of p 0] that by (auto simp: PTE_ADDR_def free_pages_def)
  moreover have "ld64 pmem 0x87FF7000 = 0x87FFF000"
    using pmem_entry [of "0x87FF7000" 0] free_links_entry [of "0x87FF7000" 0] by (simp add: PTE_ADDR_def)
  ultimately show ?thesis by (simp add: demo_sys_simps free_pages_def)
qed

lemma demo_sys_inv: "kmem_inv demo_sys free_pages"
proof -
  have "p \<in> set free_pages \<longleftrightarrow> kpage demo_sys p \<and> refs demo_sys p = 0" for p
    unfolding demo_sys_kpage using demo_sys_refs [of p] by auto
  then show ?thesis unfolding kmem_inv_def using demo_sys_chain by (simp add: demo_sys_simps KERNBASE_def free_pages_def)
qed

lemma demo_sys_ok: "kmem_ok demo_sys" and demo_sys_nfree: "nfree demo_sys = 9"
proof -
  show "kmem_ok demo_sys" using demo_sys_inv by (auto simp: kmem_ok_def)
  have "{p. kpage demo_sys p \<and> refs demo_sys p = 0} = set free_pages" using kmem_invD(5) [OF demo_sys_inv] by blast
  then show "nfree demo_sys = 9" by (simp add: nfree_def free_pages_def)
qed

lemma pmem_pte:
  "leaf pmem 2 0x87FF8000 0 = PA2PTE 0x87FFE000 OR (PTE_V OR PTE_R OR PTE_W OR PTE_U)"
  "leaf pmem 2 0x87FF8000 TRAMPOLINE = PA2PTE 0x80007000 OR (PTE_R OR PTE_X) OR PTE_V"
  "leaf pmem 2 0x87FF8000 TRAPFRAME = PA2PTE 0x87FFB000 OR (PTE_R OR PTE_W) OR PTE_V"
proof -
  have px: "PX 0 TRAMPOLINE = 511" "PX 1 TRAMPOLINE = 511" "PX 2 TRAMPOLINE = 255"
      "PX 0 TRAPFRAME = 510" "PX 1 TRAPFRAME = 511" "PX 2 TRAPFRAME = 255" "PX k 0 = 0" for k
    by (simp_all add: word_unat_eq_iff unat_PX tops)
  show "leaf pmem 2 0x87FF8000 0 = PA2PTE 0x87FFE000 OR (PTE_V OR PTE_R OR PTE_W OR PTE_U)"
      "leaf pmem 2 0x87FF8000 TRAMPOLINE = PA2PTE 0x80007000 OR (PTE_R OR PTE_X) OR PTE_V"
      "leaf pmem 2 0x87FF8000 TRAPFRAME = PA2PTE 0x87FFB000 OR (PTE_R OR PTE_W) OR PTE_V"
    unfolding pmem_leaf px by simp_all
qed

lemma pmem_nothing_else:
  assumes "va < SV39" and "1 \<le> pgno va" and "pgno va \<noteq> pgno TRAMPOLINE" and "pgno va \<noteq> pgno TRAPFRAME"
  shows "leaf pmem 2 0x87FF8000 va = 0"
proof -
  have n: "pgno va = unat (PX 0 va) + 512 * unat (PX 1 va) + 262144 * unat (PX 2 va)" by (rule pgno_PX [OF assms(1)])
  have "\<not> (PX 2 va = 0 \<and> PX 1 va = 0 \<and> PX 0 va = 0)" using n assms(2) by auto
  moreover have "\<not> (PX 2 va = 255 \<and> PX 1 va = 511 \<and> PX 0 va = 511)" using n assms(3) by (auto simp: tops)
  moreover have "\<not> (PX 2 va = 255 \<and> PX 1 va = 511 \<and> PX 0 va = 510)" using n assms(4) by (auto simp: tops)
  ultimately show ?thesis unfolding pmem_leaf by presburger
qed

lemma demo_sys_mem: "proc_mem demo_sys 0"
proof -
  have o: "owned demo_sys 2 0x87FF8000"
    by (simp add: owned_def demo_sys_simps pmem_table demo_sys_kpage used_pages_def demo_sys_refs)
  have fl: "PTE_FLAGS (PA2PTE 0x87FFE000 OR (PTE_V OR PTE_R OR PTE_W OR PTE_U)) \<noteq> PTE_V"
    by (subst PTE_FLAGS_PA2PTE) (simp_all, simp add: const_defs)
  have pa: "PTE2PA (PA2PTE 0x87FFE000 OR (PTE_V OR PTE_R OR PTE_W OR PTE_U)) = 0x87FFE000" by simp
  have n: "npages 100 = 1" by (simp add: npages_def)
  have u: "uses (upage demo_sys 0x87FF8000 0) 1 p \<le> refs demo_sys p" if "kpage demo_sys p" for p
    using demo_sys_refs [of p] that pa unfolding demo_sys_kpage
    by (auto simp: uses_def demo_sys_simps pmem_pte used_pages_def)
  have "proc_table demo_sys 0x87FF8000 1 0x87FFB000"
    unfolding proc_table_def
    using o u fl pa map_flags [of "0x80007000" PTE_X] pmem_nothing_else
    by (simp add: demo_sys_simps pmem_pte pmem_table demo_sys_kpage used_pages_def bit_or_iff flag_simps)
  then show ?thesis
    unfolding proc_mem_def Let_def
    by (simp add: demo_sys_simps one_proc_def n pmem_table demo_sys_kpage used_pages_def demo_sys_refs pmem_pte)
qed

lemma demo_sys_refs_ok: "refs_ok demo_sys"
proof -
  have "fd_refs f [one_proc, free_proc] = fd_refs f [demo_proc]" for f
    by (simp add: fd_refs_def fd_count_def one_proc_def free_proc_def NOFILE_def numeral_eq_Suc)
  moreover have "fd_refs f (procs demo_kfs) = sint (f_ref (ftable demo_kfs ! f))" if "f < NFILE" for f
    using demo_kfs_refs that by (simp add: refs_ok_def)
  ultimately show ?thesis
    using demo_kfs_refs by (auto simp: refs_ok_def demo_sys_simps demo_kfs_procs one_proc_def free_proc_def)
qed

lemma demo_sys_blank: "blank_unused demo_sys"
  by (auto simp: blank_unused_def demo_sys_simps one_proc_def free_proc_def demo_proc_def less_Suc_eq)

lemma demo_sys_room:
  "unused_entry (procs demo_sys) = Some 1" "6 + 2 * npages (p_sz (procs demo_sys ! 0)) \<le> nfree demo_sys"
  by (simp_all add: demo_sys_simps demo_sys_nfree unused_entry_def one_proc_def free_proc_def demo_proc_def npages_def upt_rec)

theorem fork_correct_witness:
  "\<exists>s'. fork 0 demo_sys = Ret (2, s') \<and> parent_kept demo_sys 0 s' \<and> refs_ok s' \<and> forked demo_sys 0 1 s'"
proof -
  have p: "0 < length (procs demo_sys)" "p_state (procs demo_sys ! 0) \<noteq> UNUSED" "p_cwd (procs demo_sys ! 0) \<noteq> None"
      "sint (nextpid demo_sys) = 2"
    by (simp_all add: demo_sys_simps one_proc_def demo_proc_def)
  from fork_correct [OF demo_sys_ok demo_sys_blank demo_sys_refs_ok p(1,2) demo_sys_mem p(3)]
  show ?thesis unfolding p(4) using demo_sys_room by (auto simp: not_less)
qed

text \<open>The process has exited and its parent, the second entry, waits.\<close>

definition demo_zombie :: ksys where
  "demo_zombie = demo_sys\<lparr>procs := [one_proc\<lparr>p_state := ZOMBIE, p_parent := Some 1\<rparr>, free_proc\<lparr>p_state := RUNNING\<rparr>]\<rparr>"


definition demo_child :: ksys where
  "demo_child = demo_sys\<lparr>procs := [one_proc\<lparr>p_state := SLEEPING, p_chan := Chan_proc 0\<rparr>,
       free_proc\<lparr>p_state := RUNNING, p_pid := 2, p_parent := Some 0, p_cwd := Some 0\<rparr>],
     fs := (fs demo_sys)\<lparr>lg_committing := 0, lg_outstanding := 0, lh_n := 0, itable := [\<lparr>i_dev = 1, i_inum = 1, i_ref = 2,
       i_lock = \<lparr>sl_locked = 0, sl_name = ''inode'', sl_pid = 0\<rparr>, i_valid = 1, i_type = T_DIR, i_major = 0, i_minor = 0, i_nlink = 1, i_size = 0, i_addrs = []\<rparr>]\<rparr>,
     initproc := Some 0\<rparr>"

theorem exit_correct_witness:
  "\<exists>s'. exit 1 7 demo_child = Ret s' \<and> p_state (procs s' ! 1) = ZOMBIE \<and> p_xstate (procs s' ! 1) = 7 \<and>
     p_parent (procs s' ! 1) = Some 0 \<and> \<not> (p_state (procs s' ! 0) = SLEEPING \<and> p_chan (procs s' ! 0) = Chan_proc 0)"
proof -
  have p: "procs demo_child = [one_proc\<lparr>p_state := SLEEPING, p_chan := Chan_proc 0\<rparr>,
       free_proc\<lparr>p_state := RUNNING, p_pid := 2, p_parent := Some 0, p_cwd := Some 0\<rparr>]"
    by (simp add: demo_child_def)
  have "same_files demo_sys demo_child"
    by (simp add: same_files_def demo_child_def demo_sys_simps)
  then have ok: "refs_ok demo_child" using demo_sys_refs_ok refs_ok_same by blast
  have len: "1 < length (procs demo_child)" by (simp add: p)
  have "shared_files 1 (procs demo_child)" by (simp add: shared_files_def p free_proc_def)
  moreover have "fs_at_rest (fs demo_child)" by (simp add: fs_at_rest_def demo_child_def)
  moreover have "initproc demo_child \<noteq> Some 1" "p_cwd (procs demo_child ! 1) = Some 0" "i_ref (itable (fs demo_child) ! 0) \<noteq> 1"
    by (simp_all add: demo_child_def)
  ultimately obtain s' where s': "exit 1 7 demo_child = Ret s'" using exit_correct [OF ok len, of 7] by blast
  moreover have "initproc demo_child = Some 0" by (simp add: demo_child_def)
  ultimately show ?thesis using exit_correct [OF ok len, of 7] by (auto simp: p)
qed

end
