(* ===== verification/Small_Trap.thy ===== *)
theory Small_Trap
  imports Faults Small_Process
begin

text \<open>
  The machine of \<open>Small_Process\<close> with its disk and interrupt controller: the process forks, and a
  store of the process faults.
\<close>

definition demo_trap :: ktrap where
  "demo_trap = ksys.extend demo_sys
     \<lparr>vd = \<lparr>desc = replicate 8 no_desc, avail_idx = 0, avail_ring = replicate 8 0, dev_used_idx = 0, used_ring = replicate 8 0,
        free = replicate 8 True, used_idx = 0, info_b = replicate 8 None, info_status = replicate 8 0,
        ops = replicate 8 \<lparr>r_type = 0, r_reserved = 0, r_sector = 0\<rparr>, b_disk = (\<lambda>_. False), woken = []\<rparr>,
      plic = (\<lambda>_. 0), kernelvec_at = 0x80005000, usertrap_at = 0x80002800, uservec_off = 0, userret_off = 0x9A\<rparr>"

lemma extend_simps:
  fixes s :: ksys
  shows "mem (ksys.extend s x) = mem s" "freelist (ksys.extend s x) = freelist s" "page_ref_count (ksys.extend s x) = page_ref_count s"
    "kend (ksys.extend s x) = kend s" "procs (ksys.extend s x) = procs s" "ftable (ksys.extend s x) = ftable s"
    "nextpid (ksys.extend s x) = nextpid s" "first (ksys.extend s x) = first s"
  by (simp_all add: ksys.defs)

lemma demo_trap_simps:
  "mem demo_trap = mem demo_sys" "freelist demo_trap = freelist demo_sys" "page_ref_count demo_trap = page_ref_count demo_sys"
  "kend demo_trap = kend demo_sys" "procs demo_trap = procs demo_sys" "ftable demo_trap = ftable demo_sys"
  "nextpid demo_trap = nextpid demo_sys" "first demo_trap = first demo_sys"
  by (simp_all add: demo_trap_def extend_simps)

lemma demo_trap_pages: "kpage demo_trap = kpage demo_sys" "refs demo_trap = refs demo_sys" "nfree demo_trap = nfree demo_sys"
proof -
  show k: "kpage demo_trap = kpage demo_sys" and r: "refs demo_trap = refs demo_sys"
    by (simp_all add: fun_eq_iff kpage_def refs_def demo_trap_simps)
  show "nfree demo_trap = nfree demo_sys" by (simp add: nfree_def k r)
qed

lemma demo_trap_ok:
  "kmem_ok demo_trap" "blank_unused demo_trap" "refs_ok demo_trap" "proc_mem demo_trap 0"
proof -
  show "kmem_ok demo_trap"
    using demo_sys_ok by (simp add: kmem_ok_def kmem_inv_def demo_trap_pages demo_trap_simps)
  show "blank_unused demo_trap" using demo_sys_blank by (simp add: blank_unused_def demo_trap_simps)
  show "refs_ok demo_trap" using demo_sys_refs_ok by (simp add: refs_ok_def demo_trap_simps)
  show "proc_mem demo_trap 0"
    using demo_sys_mem by (simp add: proc_mem_def proc_table_def owned_def Let_def demo_trap_pages demo_trap_simps)
qed

lemma demo_trap_live:
  "0 < length (procs demo_trap)" "p_state (procs demo_trap ! 0) \<noteq> UNUSED" "p_cwd (procs demo_trap ! 0) \<noteq> None"
  "\<not> p_killed (procs demo_trap ! 0)" "p_sz (procs demo_trap ! 0) = 100" "\<not> first demo_trap" "sint (nextpid demo_trap) = 2"
  by (simp_all add: demo_trap_simps demo_sys_simps one_proc_def demo_proc_def) (simp add: demo_sys_def kfs.defs)

definition demo_hart :: hart where
  "demo_hart = \<lparr>scause = 15, stval = 5, sepc = 0x44, sstatus = 0, stvec = 0, satp = 0, tp = 0, sip = 0, claim = 0\<rparr>"

theorem child_returns_zero_witness:
  "\<exists>s' np h' s''. fork 0 demo_trap = Ret (2, s') \<and> p_parent (procs s' ! np) = Some 0 \<and>
     forkret np demo_hart s' = Ret (To_user (MAKE_SATP (p_pagetable (procs s' ! np))), h', s'') \<and> in_user h' \<and> tf_get np 112 s'' = 0"
proof -
  have room: "unused_entry (procs demo_trap) \<noteq> None" "6 + 2 * npages (p_sz (procs demo_trap ! 0)) \<le> nfree demo_trap"
    using demo_sys_room by (simp_all add: demo_trap_simps demo_trap_pages)
  from child_returns_zero [OF demo_trap_ok(1-3) demo_trap_live(1,2) demo_trap_ok(4) demo_trap_live(3) room demo_trap_live(6), of demo_hart]
  show ?thesis unfolding demo_trap_live(7) by blast
qed


end
