(* ===== verification/Cafe.thy ===== *)
theory Cafe
  imports Prelude
begin

text \<open>
  \<^verbatim>\<open>concurrency/1.c\<close>: the coffee shop. Every customer has three threads (\<open>customer_handler\<close>,
  \<open>arrival_printing\<close>, \<open>exited_printing\<close>) and one more thread counts the seconds. A thread is
  its place in its function; one step runs it to the next place where another thread can
  come between (a lock, a semaphore, a wait for the clock). A mutex that is taken and
  released inside one step needs no state of its own. A wait on a condition variable in a
  loop is a step that is enabled when the loop condition fails. Times are small input
  numbers and stay mathematical integers.
\<close>

section \<open>The menu\<close>

definition MAX_SIZE :: nat where "MAX_SIZE = 100"

type_synonym menu = "(string \<times> int) list"

definition initializeMap :: menu where
  "initializeMap = []"

definition insert_key :: "string \<Rightarrow> int \<Rightarrow> menu \<Rightarrow> bool \<times> menu" where
  "insert_key key v m = (if length m < MAX_SIZE then (True, m @ [(key, v)]) else (False, m))"

fun find_key :: "string \<Rightarrow> menu \<Rightarrow> int" where
  "find_key key [] = -1"
| "find_key key ((k, v) # m) = (if k = key then v else find_key key m)"

section \<open>State\<close>

text \<open>
  The line of a customer's thread; the numbers are those of \<^verbatim>\<open>1.c\<close>. \<open>Seek j\<close> is the search
  for a free barista about to look at \<open>barber[j]\<close>.
\<close>

datatype cust_pc = Await_turn | Await_sem | Await_arrival | Seek nat | Await_second | Account | Check
  | Decide | Brew_served | Leave_check | Leave_wait | Brew_wasted | Free_barista | Post_sem
  | Finished | Gone_early

datatype arr_pc = Arr_turn | Arr_wait | Arr_next | Arr_done

record customer =
  cu_i :: int
  cof :: string
  t_arr_i :: int
  tol_i :: int

record cthread =
  pc :: cust_pc
  arrival :: int
  got :: nat

text \<open>The lines the program prints.\<close>

datatype event = Arrives int int | Orders int string | Begins nat int int | Completes nat int int
  | Leaves_with int int | Leaves_without int int

record cafe =
  menu :: menu
  cust :: "customer list"
  sec :: int
  semaphore :: int
  spawned :: int
  ind :: int
  barber :: "int list"
  wasted_cofee :: int
  waiting_time :: int
  ex :: "int list"
  arrival_spwaned :: int
  th :: "cthread list"
  arr_th :: "arr_pc list"
  exited :: "bool list"
  out :: "event list"

definition goto :: "nat \<Rightarrow> cust_pc \<Rightarrow> cafe \<Rightarrow> cafe" where
  "goto i l s = s\<lparr>th := (th s)[i := (th s ! i)\<lparr>pc := l\<rparr>]\<rparr>"

definition say :: "event list \<Rightarrow> cafe \<Rightarrow> cafe" where
  "say es s = s\<lparr>out := out s @ es\<rparr>"

definition min_int1 :: "int \<Rightarrow> int \<Rightarrow> int" where
  "min_int1 a b = (if a < b then a else b)"

section \<open>The threads\<close>

text \<open>One step of \<open>customer_handler\<close> for customer \<open>i\<close>; \<^const>\<open>None\<close> when it has to wait or is over.\<close>

definition customer_handler :: "nat \<Rightarrow> cafe \<Rightarrow> cafe option" where
  "customer_handler i s =
     (let t = th s ! i; cu = cust s ! i; leave_at = t_arr_i cu + tol_i cu;
          ready_at = arrival t + 1 + find_key (cof cu) (menu s)
      in case pc t of
        Await_turn \<Rightarrow> if int i \<ge> spawned s then None else Some (goto i Await_sem s)
      | Await_sem \<Rightarrow> if semaphore s \<le> 0 then None
          else Some (goto i Await_arrival (s\<lparr>semaphore := semaphore s - 1\<rparr>))
      | Await_arrival \<Rightarrow> if t_arr_i cu > sec s then None
          else Some (s\<lparr>th := (th s)[i := t\<lparr>pc := Seek 0, arrival := sec s\<rparr>]\<rparr>)
      | Seek j \<Rightarrow> if barber s ! j = 0
          then Some (s\<lparr>barber := (barber s)[j := 1], th := (th s)[i := t\<lparr>pc := Await_second, got := j\<rparr>]\<rparr>)
          else Some (goto i (Seek ((j + 1) mod length (barber s))) s)
      | Await_second \<Rightarrow> if arrival t + 1 > sec s then None else Some (goto i Account s)
      | Account \<Rightarrow> Some (goto i Check
          (s\<lparr>waiting_time := waiting_time s + (min_int1 (sec s) leave_at - t_arr_i cu)\<rparr>))
      | Check \<Rightarrow> if ex s ! i = 1 \<or> leave_at + 1 = sec s then Some (goto i Gone_early s)
          else Some (goto i Decide (say [Begins (got t + 1) (cu_i cu) (sec s)] s))
      | Decide \<Rightarrow> if ready_at \<le> leave_at then Some (goto i Brew_served (s\<lparr>ex := (ex s)[i := 1]\<rparr>))
          else Some (goto i Leave_check s)
      | Brew_served \<Rightarrow> if ready_at > sec s then None
          else Some (goto i Free_barista
            (say [Completes (got t + 1) (cu_i cu) (sec s), Leaves_with (cu_i cu) (sec s)] s))
      | Leave_check \<Rightarrow> if ex s ! i = 0 then Some (goto i Leave_wait (s\<lparr>ex := (ex s)[i := 1]\<rparr>))
          else Some (goto i Brew_wasted s)
      | Leave_wait \<Rightarrow> if leave_at + 1 > sec s then None
          else Some (goto i Brew_wasted (say [Leaves_without (cu_i cu) (sec s)] s))
      | Brew_wasted \<Rightarrow> if ready_at > sec s then None
          else Some (goto i Free_barista
            (say [Completes (got t + 1) (cu_i cu) (sec s)] (s\<lparr>wasted_cofee := wasted_cofee s + 1\<rparr>)))
      | Free_barista \<Rightarrow> Some (goto i Post_sem
          (s\<lparr>spawned := spawned s + 1, ind := ind s + 1, barber := (barber s)[got t := 0]\<rparr>))
      | Post_sem \<Rightarrow> Some (goto i Finished (s\<lparr>semaphore := semaphore s + 1\<rparr>))
      | Finished \<Rightarrow> None
      | Gone_early \<Rightarrow> None)"

definition exited_printing :: "nat \<Rightarrow> cafe \<Rightarrow> cafe option" where
  "exited_printing i s =
     (let cu = cust s ! i in
      if exited s ! i \<or> t_arr_i cu + tol_i cu + 1 > sec s then None
      else let s = (if ex s ! i = 0
                    then say [Leaves_without (cu_i cu) (sec s)] (s\<lparr>ex := (ex s)[i := 1]\<rparr>) else s)
           in Some (s\<lparr>exited := (exited s)[i := True]\<rparr>))"

definition arrival_printing :: "nat \<Rightarrow> cafe \<Rightarrow> cafe option" where
  "arrival_printing i s =
     (let cu = cust s ! i in
      case arr_th s ! i of
        Arr_turn \<Rightarrow> if int i \<ge> arrival_spwaned s then None else Some (s\<lparr>arr_th := (arr_th s)[i := Arr_wait]\<rparr>)
      | Arr_wait \<Rightarrow> if t_arr_i cu > sec s then None
          else Some (say [Arrives (cu_i cu) (t_arr_i cu), Orders (cu_i cu) (cof cu)]
            (s\<lparr>arr_th := (arr_th s)[i := Arr_next]\<rparr>))
      | Arr_next \<Rightarrow> Some (s\<lparr>arrival_spwaned := arrival_spwaned s + 1, arr_th := (arr_th s)[i := Arr_done]\<rparr>)
      | Arr_done \<Rightarrow> None)"

definition counter_tick :: "cafe \<Rightarrow> cafe" where
  "counter_tick s = s\<lparr>sec := sec s + 1\<rparr>"

text \<open>The state in which \<open>main\<close> starts the threads, from the numbers and lines it has read.\<close>

definition cafe_main :: "nat \<Rightarrow> (string \<times> int) list \<Rightarrow> customer list \<Rightarrow> cafe" where
  "cafe_main b cofees cs =
     \<lparr>menu = fold (\<lambda>(k, v) m. snd (insert_key k v m)) cofees initializeMap, cust = cs, sec = -1,
      semaphore = int b, spawned = int b, ind = 0, barber = replicate b 0, wasted_cofee = 0,
      waiting_time = 0, ex = replicate (length cs) 0, arrival_spwaned = 1,
      th = replicate (length cs) \<lparr>pc = Await_turn, arrival = 0, got = 0\<rparr>,
      arr_th = replicate (length cs) Arr_turn, exited = replicate (length cs) False, out = []\<rparr>"

inductive cafe_step :: "cafe \<Rightarrow> cafe \<Rightarrow> bool" where
  customer: "i < length (cust s) \<Longrightarrow> customer_handler i s = Some s' \<Longrightarrow> cafe_step s s'"
| exited: "i < length (cust s) \<Longrightarrow> exited_printing i s = Some s' \<Longrightarrow> cafe_step s s'"
| arrival: "i < length (cust s) \<Longrightarrow> arrival_printing i s = Some s' \<Longrightarrow> cafe_step s s'"
| tick: "cafe_step s (counter_tick s)"

section \<open>Permits and baristas\<close>

text \<open>Past \<open>sem_wait\<close>, before \<open>sem_post\<close>; and between taking a barista and giving it back.\<close>

definition permit :: "cthread \<Rightarrow> bool" where
  "permit t \<longleftrightarrow> pc t \<notin> {Await_turn, Await_sem, Finished}"

definition busy :: "cthread \<Rightarrow> bool" where
  "busy t \<longleftrightarrow> pc t \<in> {Await_second, Account, Check, Decide, Brew_served, Leave_check, Leave_wait,
     Brew_wasted, Free_barista, Gone_early}"

definition cafe_inv :: "nat \<Rightarrow> cafe \<Rightarrow> bool" where
  "cafe_inv b s \<longleftrightarrow>
     length (barber s) = b \<and> length (th s) = length (cust s) \<and> length (ex s) = length (cust s) \<and>
     0 \<le> semaphore s \<and> semaphore s + cnt permit (th s) = int b \<and>
     cnt (\<lambda>x. x \<noteq> 0) (barber s) = cnt busy (th s) \<and>
     (\<forall>i < length (th s). busy (th s ! i) \<longrightarrow> got (th s ! i) < b \<and> barber s ! got (th s ! i) \<noteq> 0) \<and>
     (\<forall>i < length (th s). \<forall>j < length (th s). busy (th s ! i) \<longrightarrow> busy (th s ! j) \<longrightarrow>
        got (th s ! i) = got (th s ! j) \<longrightarrow> i = j) \<and>
     (\<forall>i < length (th s). \<forall>k. pc (th s ! i) = Seek k \<longrightarrow> k < b)"

lemma cafe_invD:
  assumes "cafe_inv b s"
  shows "length (barber s) = b" and "length (th s) = length (cust s)" and "length (ex s) = length (cust s)"
    and "0 \<le> semaphore s" and "semaphore s + cnt permit (th s) = int b"
    and "cnt (\<lambda>x. x \<noteq> 0) (barber s) = cnt busy (th s)"
    and "i < length (th s) \<Longrightarrow> busy (th s ! i) \<Longrightarrow> got (th s ! i) < b \<and> barber s ! got (th s ! i) \<noteq> 0"
    and "i < length (th s) \<Longrightarrow> j < length (th s) \<Longrightarrow> busy (th s ! i) \<Longrightarrow> busy (th s ! j) \<Longrightarrow>
      got (th s ! i) = got (th s ! j) \<Longrightarrow> i = j"
    and "i < length (th s) \<Longrightarrow> pc (th s ! i) = Seek k \<Longrightarrow> k < b"
  using assms by (auto simp: cafe_inv_def)

text \<open>A step that moves a thread without touching permits or baristas, and the four that do.\<close>

lemma inv_move:
  assumes inv: "cafe_inv b s" and i: "i < length (th s)"
    and t: "permit t = permit (th s ! i)" "busy t = busy (th s ! i)"
      "busy t \<Longrightarrow> got t = got (th s ! i)" "\<And>k. pc t = Seek k \<Longrightarrow> k < b"
    and s': "th s' = (th s)[i := t]" "barber s' = barber s" "semaphore s' = semaphore s"
      "cust s' = cust s" "length (ex s') = length (ex s)"
  shows "cafe_inv b s'"
proof -
  note I = cafe_invD [OF inv]
  have "cnt permit (th s') = cnt permit (th s)" "cnt busy (th s') = cnt busy (th s)"
    using i t by (simp_all add: s' cnt_update)
  then show ?thesis
    unfolding cafe_inv_def using I i t by (auto simp: s' nth_list_update)
qed

lemma inv_sem:
  assumes inv: "cafe_inv b s" and i: "i < length (th s)"
    and t: "\<not> busy t" "\<not> busy (th s ! i)" "\<And>k. pc t \<noteq> Seek k"
    and sem: "semaphore s' = semaphore s + of_bool (permit (th s ! i)) - of_bool (permit t)" "0 \<le> semaphore s'"
    and s': "th s' = (th s)[i := t]" "barber s' = barber s" "cust s' = cust s" "ex s' = ex s"
  shows "cafe_inv b s'"
proof -
  note I = cafe_invD [OF inv]
  have "cnt permit (th s') = cnt permit (th s) - of_bool (permit (th s ! i)) + of_bool (permit t)"
    "cnt busy (th s') = cnt busy (th s)"
    using i t by (simp_all add: s' cnt_update)
  then show ?thesis
    unfolding cafe_inv_def using I i t sem by (auto simp: s' nth_list_update)
qed

lemma inv_grab:
  assumes inv: "cafe_inv b s" and i: "i < length (th s)" and pc: "pc (th s ! i) = Seek j" and free: "barber s ! j = 0"
    and s': "th s' = (th s)[i := (th s ! i)\<lparr>pc := Await_second, got := j\<rparr>]" "barber s' = (barber s)[j := 1]"
      "semaphore s' = semaphore s" "cust s' = cust s" "ex s' = ex s"
  shows "cafe_inv b s'"
proof -
  note I = cafe_invD [OF inv]
  have j: "j < b" using I(9) [OF i pc] .
  have other: "got (th s ! k) \<noteq> j" if "k < length (th s)" "busy (th s ! k)" for k
    using I(7) [OF that] free by metis
  have "cnt permit (th s') = cnt permit (th s)" "cnt busy (th s') = cnt busy (th s) + 1"
      "cnt (\<lambda>x. x \<noteq> 0) (barber s') = cnt (\<lambda>x. x \<noteq> 0) (barber s) + 1"
    using i pc j free I(1) by (simp_all add: s' cnt_update permit_def busy_def)
  then show ?thesis
    unfolding cafe_inv_def using I i j other by (auto simp: s' nth_list_update) blast+
qed

lemma inv_free:
  assumes inv: "cafe_inv b s" and i: "i < length (th s)" and pc: "pc (th s ! i) = Free_barista"
    and s': "th s' = (th s)[i := (th s ! i)\<lparr>pc := Post_sem\<rparr>]" "barber s' = (barber s)[got (th s ! i) := 0]"
      "semaphore s' = semaphore s" "cust s' = cust s" "ex s' = ex s"
  shows "cafe_inv b s'"
proof -
  note I = cafe_invD [OF inv]
  have bi: "busy (th s ! i)" using pc by (simp add: busy_def)
  note gi = I(7) [OF i bi]
  have other: "got (th s ! k) \<noteq> got (th s ! i)" if "k < length (th s)" "busy (th s ! k)" "k \<noteq> i" for k
    using I(8) [OF that(1) i that(2) bi] that(3) by auto
  have "\<not> busy ((th s ! i)\<lparr>pc := Post_sem\<rparr>)" by (simp add: busy_def)
  moreover from this have "cnt permit (th s') = cnt permit (th s)" "cnt busy (th s') = cnt busy (th s) - 1"
      "cnt (\<lambda>x. x \<noteq> 0) (barber s') = cnt (\<lambda>x. x \<noteq> 0) (barber s) - 1"
    using i pc gi bi I(1) by (simp_all add: s' cnt_update permit_def)
  ultimately show ?thesis
    unfolding cafe_inv_def using I i gi other by (auto simp: s' nth_list_update) blast+
qed

lemma inv_goto:
  assumes "cafe_inv b s" and "i < length (th s)" and "\<And>k. l \<noteq> Seek k"
    and "permit ((th s ! i)\<lparr>pc := l\<rparr>) = permit (th s ! i)" "busy ((th s ! i)\<lparr>pc := l\<rparr>) = busy (th s ! i)"
  shows "cafe_inv b (goto i l s)"
  by (rule inv_move [OF assms(1,2), where t = "(th s ! i)\<lparr>pc := l\<rparr>"]) (use assms in \<open>auto simp: goto_def\<close>)

lemma cafe_inv_frame [simp]:
  "cafe_inv b (s\<lparr>waiting_time := x\<rparr>) = cafe_inv b s" "cafe_inv b (s\<lparr>wasted_cofee := x\<rparr>) = cafe_inv b s"
  "cafe_inv b (say es s) = cafe_inv b s" "cafe_inv b (s\<lparr>ex := (ex s)[i := x]\<rparr>) = cafe_inv b s"
  "cafe_inv b (s\<lparr>sec := x\<rparr>) = cafe_inv b s" "cafe_inv b (s\<lparr>exited := xs\<rparr>) = cafe_inv b s"
  "cafe_inv b (s\<lparr>arr_th := as\<rparr>) = cafe_inv b s" "cafe_inv b (s\<lparr>arrival_spwaned := x\<rparr>) = cafe_inv b s"
  by (simp_all add: cafe_inv_def say_def)

lemma th_say [simp]: "th (say es s) = th s"
  by (simp add: say_def)

lemma customer_handler_inv:
  assumes inv: "cafe_inv b s" and "i < length (cust s)" and step: "customer_handler i s = Some s'"
  shows "cafe_inv b s'"
proof -
  note I = cafe_invD [OF inv]
  have i: "i < length (th s)" using assms(2) I(2) by simp
  show ?thesis
  proof (cases "pc (th s ! i)")
    case Await_sem
    show ?thesis
      by (rule inv_sem [OF inv i, where t = "(th s ! i)\<lparr>pc := Await_arrival\<rparr>"])
        (use step Await_sem in \<open>auto simp: customer_handler_def Let_def goto_def permit_def busy_def split: if_splits\<close>)
  next
    case Post_sem
    show ?thesis
      by (rule inv_sem [OF inv i, where t = "(th s ! i)\<lparr>pc := Finished\<rparr>"])
        (use step Post_sem I(4) in \<open>auto simp: customer_handler_def Let_def goto_def permit_def busy_def\<close>)
  next
    case Free_barista
    show ?thesis
      by (rule inv_free [OF inv i Free_barista])
        (use step Free_barista in \<open>auto simp: customer_handler_def Let_def goto_def\<close>)
  next
    case (Seek j)
    show ?thesis
    proof (cases "barber s ! j = 0")
      case True
      show ?thesis
        by (rule inv_grab [OF inv i Seek True])
          (use step Seek True in \<open>auto simp: customer_handler_def Let_def\<close>)
    next
      case False
      have "0 < b" using I(9) [OF i Seek] by simp
      then show ?thesis
        by (intro inv_move [OF inv i, where t = "(th s ! i)\<lparr>pc := Seek ((j + 1) mod length (barber s))\<rparr>"])
          (use step Seek False I(1) in \<open>auto simp: customer_handler_def Let_def goto_def permit_def busy_def\<close>)
    qed
  next
    case Await_arrival
    have "0 < b"
      using cnt_pos [of "th s ! i" "th s" permit] i Await_arrival I(4,5) by (simp add: permit_def)
    then show ?thesis
      by (intro inv_move [OF inv i, where t = "(th s ! i)\<lparr>pc := Seek 0, arrival := sec s\<rparr>"])
        (use step Await_arrival in \<open>auto simp: customer_handler_def Let_def permit_def busy_def split: if_splits\<close>)
  qed (insert step inv i, auto simp: customer_handler_def Let_def permit_def busy_def
      split: if_splits intro!: inv_goto)
qed

lemma cafe_inv_step: "cafe_inv b s \<Longrightarrow> cafe_step s s' \<Longrightarrow> cafe_inv b s'"
proof (erule cafe_step.cases, goal_cases)
  case (1 i s s')
  then show ?case by (simp add: customer_handler_inv)
qed (auto simp: exited_printing_def arrival_printing_def counter_tick_def Let_def
    split: if_splits arr_pc.splits)

lemma cafe_inv_main: "cafe_inv b (cafe_main b cofees cs)"
  by (auto simp: cafe_inv_def cafe_main_def cnt_def permit_def busy_def)

interpretation cf: inductive_invariant "\<lambda>s. \<exists>cofees cs. s = cafe_main b cofees cs" cafe_step "cafe_inv b" for b
  by unfold_locales (auto intro: cafe_inv_main cafe_inv_step)

lemma customer_handler_cust: "customer_handler i s = Some s' \<Longrightarrow> cust s' = cust s"
  by (cases "pc (th s ! i)")
    (auto simp: customer_handler_def goto_def say_def Let_def split: if_splits)

text \<open>
  C19 Baristas are never shared: in every run of the coffee shop, whatever the order in which
  threads and seconds proceed, two customers being served have different baristas, at most
  \<open>b\<close> customers are past the semaphore, and a customer who is past it and looks for a
  barista will find one, so the search loop ends.
\<close>

theorem barista_exclusion:
  assumes "cafe_step\<^sup>*\<^sup>* (cafe_main b cofees cs) s" and "i < length cs" and "j < length cs"
  shows "length (th s) = length cs \<and> cnt permit (th s) \<le> int b \<and>
    (busy (th s ! i) \<and> busy (th s ! j) \<and> i \<noteq> j \<longrightarrow> got (th s ! i) \<noteq> got (th s ! j)) \<and>
    (busy (th s ! i) \<longrightarrow> got (th s ! i) < b) \<and>
    (\<forall>k. pc (th s ! i) = Seek k \<longrightarrow> k < b \<and> (\<exists>m < b. barber s ! m = 0))"
proof -
  note I = cafe_invD [OF cf.inv_steps [OF assms(1) cafe_inv_main]]
  have "cust s = cs" using assms(1)
  proof (induction rule: rtranclp_induct)
    case (step y z)
    from step(2) have "cust z = cust y"
      by cases (auto dest: customer_handler_cust simp: exited_printing_def arrival_printing_def
          counter_tick_def say_def Let_def split: if_splits arr_pc.splits)
    with step show ?case by simp
  qed (simp add: cafe_main_def)
  then have len: "length (th s) = length cs" using I(2) by simp
  have "\<exists>m < b. barber s ! m = 0" if "pc (th s ! i) = Seek k" for k
  proof -
    have "cnt busy (th s) < cnt permit (th s)"
      by (rule cnt_less [where y = "th s ! i"]) (use that assms(2) len in \<open>auto simp: busy_def permit_def\<close>)
    then have "cnt (\<lambda>x. x \<noteq> 0) (barber s) < int (length (barber s))" using I(1,4,5,6) by simp
    then show ?thesis using cnt_lt_length I(1) by fastforce
  qed
  then show ?thesis using I(4,5,7-9) len assms(2,3) by auto
qed

text \<open>Runs given by the list of threads that move.\<close>

datatype act = Cust nat | Exit nat | Arr nat | Tick

fun run_acts :: "act list \<Rightarrow> cafe \<Rightarrow> cafe option" where
  "run_acts [] s = Some s"
| "run_acts (a # as) s =
     (case (case a of
              Cust i \<Rightarrow> if i < length (cust s) then customer_handler i s else None
            | Exit i \<Rightarrow> if i < length (cust s) then exited_printing i s else None
            | Arr i \<Rightarrow> if i < length (cust s) then arrival_printing i s else None
            | Tick \<Rightarrow> Some (counter_tick s)) of
        None \<Rightarrow> None | Some s' \<Rightarrow> run_acts as s')"

lemma run_acts_steps: "run_acts as s = Some s' \<Longrightarrow> cafe_step\<^sup>*\<^sup>* s s'"
proof (induction as arbitrary: s)
  case (Cons a as)
  then obtain s1 where s1: "cafe_step s s1" "run_acts as s1 = Some s'"
    by (cases a) (auto split: option.splits if_splits intro: cafe_step.intros)
  from s1(1) Cons.IH [OF s1(2)] show ?case by (rule converse_rtranclp_into_rtranclp)
qed simp

text \<open>One barista, and two customers who order at once; the first has no patience at all.\<close>

definition demo_cafe :: cafe where
  "demo_cafe = cafe_main 1 [(''Tea'', 3)] [\<lparr>cu_i = 1, cof = ''Tea'', t_arr_i = 0, tol_i = 0\<rparr>,
     \<lparr>cu_i = 2, cof = ''Tea'', t_arr_i = 0, tol_i = 9\<rparr>]"

definition demo_run :: "act list" where
  "demo_run = [Tick, Cust 0, Cust 0, Cust 0, Cust 0, Tick, Cust 0, Cust 0, Cust 0]"

definition demo_cafe' :: cafe where
  "demo_cafe' = the (run_acts demo_run demo_cafe)"

lemma demo_cafe_run: "run_acts demo_run demo_cafe = Some demo_cafe'"
  unfolding demo_cafe'_def by code_simp

lemma demo_cafe_steps: "cafe_step\<^sup>*\<^sup>* demo_cafe demo_cafe'"
  using demo_cafe_run by (rule run_acts_steps)

lemma demo_cafe'_th:
  "map pc (th demo_cafe') = [Gone_early, Await_turn]" "length (th demo_cafe') = 2"
  by code_simp+

theorem barista_exclusion_witness:
  "busy (th demo_cafe' ! 0) \<and> got (th demo_cafe' ! 0) < 1 \<and> cnt permit (th demo_cafe') \<le> 1"
proof -
  have "pc (th demo_cafe' ! 0) = Gone_early"
    using arg_cong [OF demo_cafe'_th(1), of "\<lambda>xs. xs ! 0"] demo_cafe'_th(2) by simp
  then have "busy (th demo_cafe' ! 0)" by (simp add: busy_def)
  with barista_exclusion [OF demo_cafe_steps [unfolded demo_cafe_def], of 0 1] show ?thesis by simp
qed

section \<open>Baristas that are lost\<close>

text \<open>
  The early return of \<open>customer_handler\<close> keeps the barista and the permit. Once all \<open>b\<close> of
  them are gone nobody is served any more.
\<close>

definition gone :: "cthread \<Rightarrow> bool" where
  "gone t \<longleftrightarrow> pc t = Gone_early"

definition waiting :: "cthread \<Rightarrow> bool" where
  "waiting t \<longleftrightarrow> pc t \<in> {Await_turn, Await_sem}"

lemma all_lost:
  assumes inv: "cafe_inv b s" and all: "cnt gone (th s) = int b"
  shows "semaphore s = 0" and "i < length (th s) \<Longrightarrow> permit (th s ! i) \<Longrightarrow> gone (th s ! i)"
proof -
  note I = cafe_invD [OF inv]
  have "cnt gone (th s) \<le> cnt permit (th s)" by (rule cnt_le) (simp add: gone_def permit_def)
  then show "semaphore s = 0" using I(4,5) all by simp
  show "gone (th s ! i)" if "i < length (th s)" "permit (th s ! i)"
  proof (rule ccontr)
    assume "\<not> gone (th s ! i)"
    then have "cnt gone (th s) < cnt permit (th s)"
      using that by (intro cnt_less [where y = "th s ! i"]) (auto simp: gone_def permit_def)
    then show False using I(4,5) all by simp
  qed
qed

lemma lost_step:
  assumes inv: "cafe_inv b s" and all: "cnt gone (th s) = int b" and step: "cafe_step s s'"
  shows "cnt gone (th s') = int b" and "length (th s') = length (th s)"
    and "i < length (th s) \<Longrightarrow> waiting (th s ! i) \<Longrightarrow> waiting (th s' ! i)"
proof -
  have "th s' = th s \<or> (\<exists>k < length (th s). pc (th s ! k) = Await_turn \<and>
      th s' = (th s)[k := (th s ! k)\<lparr>pc := Await_sem\<rparr>])"
    using step
  proof cases
    case (customer k)
    have k: "k < length (th s)" using customer(1) cafe_invD(2) [OF inv] by simp
    have "gone (th s ! k) \<or> \<not> permit (th s ! k)" using all_lost(2) [OF inv all k] by blast
    then have "pc (th s ! k) \<in> {Gone_early, Await_turn, Await_sem, Finished}"
      by (auto simp: gone_def permit_def)
    then show ?thesis using customer(2) k all_lost(1) [OF inv all]
      by (elim insertE emptyE) (auto simp: customer_handler_def goto_def split: if_splits)
  qed (auto simp: exited_printing_def arrival_printing_def counter_tick_def say_def Let_def
      split: if_splits arr_pc.splits)
  then show "cnt gone (th s') = int b" and "length (th s') = length (th s)"
    and "i < length (th s) \<Longrightarrow> waiting (th s ! i) \<Longrightarrow> waiting (th s' ! i)"
    using all by (auto simp: cnt_update gone_def waiting_def nth_list_update split: if_splits)
qed

text \<open>
  C22 Lost baristas stay lost: when as many customers as there are baristas have left through
  the early return, every customer still waiting waits for ever, in every continuation of
  the run.
\<close>

theorem lost_baristas_starve:
  assumes "cafe_step\<^sup>*\<^sup>* (cafe_main b cofees cs) s" and "cnt gone (th s) = int b"
    and "cafe_step\<^sup>*\<^sup>* s s'" and "i < length (th s)" and "waiting (th s ! i)"
  shows "waiting (th s' ! i) \<and> semaphore s' = 0"
proof -
  have inv: "cafe_inv b s" by (rule cf.inv_steps [OF assms(1) cafe_inv_main])
  have "cafe_inv b s' \<and> cnt gone (th s') = int b \<and> length (th s') = length (th s) \<and> waiting (th s' ! i)"
    using assms(3)
  proof (induction rule: rtranclp_induct)
    case (step y z)
    then show ?case using lost_step [of b y z] cafe_inv_step [of b y z] assms(4) by auto
  qed (use inv assms in simp)
  then show ?thesis using all_lost(1) by blast
qed

theorem lost_baristas_starve_witness:
  "waiting (th (counter_tick demo_cafe') ! 1) \<and> semaphore (counter_tick demo_cafe') = 0"
proof -
  have pcs: "pc (th demo_cafe' ! 0) = Gone_early" "pc (th demo_cafe' ! 1) = Await_turn"
    using arg_cong [OF demo_cafe'_th(1), of "\<lambda>xs. xs ! 0"] arg_cong [OF demo_cafe'_th(1), of "\<lambda>xs. xs ! 1"]
      demo_cafe'_th(2) by simp_all
  obtain t u where "th demo_cafe' = [t, u]" using demo_cafe'_th(2)
    by (metis (no_types, lifting) One_nat_def Suc_1 length_0_conv length_Suc_conv)
  with pcs have "cnt gone (th demo_cafe') = 1" "waiting (th demo_cafe' ! 1)"
    by (simp_all add: cnt_def gone_def waiting_def)
  then show ?thesis
    using lost_baristas_starve [OF demo_cafe_steps [unfolded demo_cafe_def], of "counter_tick demo_cafe'" 1]
      cafe_step.tick [of demo_cafe'] demo_cafe'_th(2) by auto
qed

end
