(* ===== verification/Parlour.thy ===== *)
theory Parlour
  imports Prelude
begin

text \<open>
  \<^verbatim>\<open>concurrency/2.c\<close>: the ice cream parlour. A thread per customer (\<open>arrival_handler\<close>), per ice
  cream (\<open>queue_hand\<close>) and per machine (\<open>machine_handler\<close>), one that closes the parlour
  (\<open>exit_handler\<close>) and one that counts seconds. As for the coffee shop, a thread is its place
  in its function and a step runs it to the next place where others can come between; a
  wait on a condition variable outside a loop condition may end at any time.
\<close>

section \<open>Maps\<close>

definition PMAX_SIZE :: nat where "PMAX_SIZE = 200"

type_synonym kvmap = "(string \<times> int) list"

text \<open>\<open>insert\<close> updates every entry with the key and then appends one more while there is room.\<close>

definition insert_value :: "string \<Rightarrow> int \<Rightarrow> kvmap \<Rightarrow> kvmap" where
  "insert_value key v m =
     (let m = map (\<lambda>(k, x). if k = key then (k, v) else (k, x)) m
      in if length m < PMAX_SIZE then m @ [(key, v)] else m)"

fun find_value :: "string \<Rightarrow> kvmap \<Rightarrow> int" where
  "find_value key [] = -1"
| "find_value key ((k, v) # m) = (if k = key then v else find_value key m)"

text \<open>The loop of \<open>insertOrUpdateTopping\<close>: the first entry with the key is counted up.\<close>

fun update_topping :: "string \<Rightarrow> kvmap \<Rightarrow> kvmap option" where
  "update_topping key [] = None"
| "update_topping key ((k, v) # m) =
     (if k = key then Some ((k, v + 1) # m) else map_option ((#) (k, v)) (update_topping key m))"

definition insertOrUpdateTopping :: "string \<Rightarrow> kvmap \<Rightarrow> bool \<times> kvmap" where
  "insertOrUpdateTopping key m = (case update_topping key m of
     Some m' \<Rightarrow> (True, m')
   | None \<Rightarrow> if length m < PMAX_SIZE then (True, m @ [(key, 1)]) else (False, m))"

section \<open>State\<close>

record order =
  flav :: string
  toppings :: "string list"

record pcustomer =
  pc_c :: int
  t_arr :: int
  orders :: "order list"

record cream =
  q_a :: nat
  q_b :: nat
  q_time :: int

datatype arrival_pc = P_turn | P_next | P_time | P_room | P_enter | P_reserve | P_inside | P_collect
  | P_full | P_end

datatype queue_pc = Q_wait | Q_turn | Q_next | Q_check | Q_seek nat | Q_settle | Q_make | Q_end

datatype machine_pc = M_start | M_stop | M_end

record qthread =
  q_pc :: queue_pc
  q_got :: nat
  q_curr :: int

datatype pevent = Machine_started nat int | Machine_stopped nat int | Enters int int
  | Orders_all int nat "order list" | Left_unfulfilled nat int | Parlour_full int
  | Starts_preparing nat nat nat int | Completes_preparing nat nat nat int | Collected nat int
  | Not_serviced nat | Closed

record parlour =
  pmap :: kvmap
  mac :: "(int \<times> int) list"
  marr :: "int list"
  parr :: "pcustomer list"
  queu :: "cream list"
  psec :: int
  pspawned :: int
  cind :: int
  scheduler :: nat
  scheduleind :: nat
  pdone :: "int list"
  ingredients :: "int list"
  maxtime :: int
  a_th :: "arrival_pc list"
  q_th :: "qthread list"
  m_th :: "machine_pc list"
  closed :: bool
  pout :: "pevent list"

definition psay :: "pevent list \<Rightarrow> parlour \<Rightarrow> parlour" where
  "psay es s = s\<lparr>pout := pout s @ es\<rparr>"

definition a_goto :: "nat \<Rightarrow> arrival_pc \<Rightarrow> parlour \<Rightarrow> parlour" where
  "a_goto i l s = s\<lparr>a_th := (a_th s)[i := l]\<rparr>"

definition q_goto :: "nat \<Rightarrow> queue_pc \<Rightarrow> parlour \<Rightarrow> parlour" where
  "q_goto i l s = s\<lparr>q_th := (q_th s)[i := (q_th s ! i)\<lparr>q_pc := l\<rparr>]\<rparr>"

section \<open>Reserving the toppings\<close>

definition num_icecream :: "pcustomer \<Rightarrow> int" where
  "num_icecream cu = int (length (orders cu))"

text \<open>The customer's own map of how many of each topping the order needs.\<close>

definition count_toppings :: "pcustomer \<Rightarrow> kvmap" where
  "count_toppings cu = fold (\<lambda>t m. snd (insertOrUpdateTopping t m)) (concat (map toppings (orders cu))) []"

definition sufficient :: "kvmap \<Rightarrow> kvmap \<Rightarrow> bool" where
  "sufficient need m = list_all (\<lambda>(k, v). v \<le> find_value k m \<or> find_value k m = -1) need"

definition take_toppings :: "kvmap \<Rightarrow> kvmap \<Rightarrow> kvmap" where
  "take_toppings need m =
     fold (\<lambda>(k, v) m. if find_value k m = -1 then m else insert_value k (find_value k m - v) m) need m"

section \<open>The threads\<close>

definition arrival_handler :: "nat \<Rightarrow> parlour \<Rightarrow> parlour option" where
  "arrival_handler i s =
     (let cu = parr s ! i in case a_th s ! i of
        P_turn \<Rightarrow> if i > scheduler s then None else Some (a_goto i P_next s)
      | P_next \<Rightarrow> Some (a_goto i P_time (s\<lparr>scheduler := scheduler s + 1\<rparr>))
      | P_time \<Rightarrow> if t_arr cu > psec s then None else Some (a_goto i P_room s)
      | P_room \<Rightarrow> if cind s < pspawned s then Some (a_goto i P_enter s) else Some (a_goto i P_full s)
      | P_enter \<Rightarrow> Some (a_goto i P_reserve
          (psay [Enters (pc_c cu) (t_arr cu), Orders_all (pc_c cu) (length (orders cu)) (orders cu)] s))
      | P_reserve \<Rightarrow>
          let need = count_toppings cu in
          if sufficient need (pmap s)
          then Some (a_goto i P_inside
            (s\<lparr>pmap := take_toppings need (pmap s), ingredients := (ingredients s)[i := 1]\<rparr>))
          else Some (a_goto i P_end (psay [Left_unfulfilled (i + 1) (psec s)]
            (s\<lparr>pdone := (pdone s)[i := num_icecream cu], pspawned := pspawned s + 1, cind := cind s + 1,
               ingredients := (ingredients s)[i := 0]\<rparr>)))
      | P_inside \<Rightarrow> Some (a_goto i P_collect (s\<lparr>cind := cind s + 1\<rparr>))
      | P_collect \<Rightarrow> if pdone s ! i < num_icecream cu then None
          else Some (a_goto i P_end (s\<lparr>pspawned := pspawned s + 1\<rparr>))
      | P_full \<Rightarrow> Some (a_goto i P_end (psay [Parlour_full (pc_c cu)]
          (s\<lparr>cind := cind s + 1, pspawned := pspawned s + 1, ingredients := (ingredients s)[i := 0]\<rparr>)))
      | P_end \<Rightarrow> None)"

definition can_take :: "parlour \<Rightarrow> cream \<Rightarrow> nat \<Rightarrow> bool" where
  "can_take s q j \<longleftrightarrow> psec s \<ge> fst (mac s ! j) \<and> psec s \<le> snd (mac s ! j) \<and> marr s ! j = 0 \<and>
     psec s + q_time q < snd (mac s ! j)"

definition queue_hand :: "nat \<Rightarrow> parlour \<Rightarrow> parlour option" where
  "queue_hand i s =
     (let q = queu s ! i; t = q_th s ! i; a = q_a q - 1 in case q_pc t of
        Q_wait \<Rightarrow> if ingredients s ! a = -1 then None else Some (q_goto i Q_turn s)
      | Q_turn \<Rightarrow> if i > scheduleind s then None else Some (q_goto i Q_next s)
      | Q_next \<Rightarrow> Some (q_goto i Q_check (s\<lparr>scheduleind := scheduleind s + 1\<rparr>))
      | Q_check \<Rightarrow> if ingredients s ! a = 0 then Some (q_goto i Q_end s) else Some (q_goto i (Q_seek 0) s)
      | Q_seek j \<Rightarrow>
          if j < length (mac s) then
            if can_take s q j
            then Some (s\<lparr>marr := (marr s)[j := 1], q_th := (q_th s)[i := t\<lparr>q_pc := Q_settle, q_got := j\<rparr>]\<rparr>)
            else Some (q_goto i (Q_seek (j + 1)) s)
          else Some (q_goto i (Q_seek 0) s)
      | Q_settle \<Rightarrow> if t_arr (parr s ! a) + 1 > psec s then None
          else Some (psay [Starts_preparing (q_got t + 1) (q_b q) (q_a q) (psec s)]
            (s\<lparr>q_th := (q_th s)[i := t\<lparr>q_pc := Q_make, q_curr := psec s\<rparr>]\<rparr>))
      | Q_make \<Rightarrow> if q_curr t + q_time q > psec s then None
          else let d = pdone s ! a + 1 in
            Some (q_goto i Q_end (psay (Completes_preparing (q_got t + 1) (q_b q) (q_a q) (psec s) #
                (if d = num_icecream (parr s ! a) then [Collected (q_a q) (psec s)] else []))
              (s\<lparr>marr := (marr s)[q_got t := 0], pdone := (pdone s)[a := d]\<rparr>)))
      | Q_end \<Rightarrow> None)"

definition machine_handler :: "nat \<Rightarrow> parlour \<Rightarrow> parlour option" where
  "machine_handler i s = (case m_th s ! i of
     M_start \<Rightarrow> if fst (mac s ! i) > psec s then None
       else Some (psay [Machine_started (i + 1) (psec s)] (s\<lparr>m_th := (m_th s)[i := M_stop]\<rparr>))
   | M_stop \<Rightarrow> if snd (mac s ! i) > psec s then None
       else Some (psay [Machine_stopped (i + 1) (psec s)] (s\<lparr>m_th := (m_th s)[i := M_end]\<rparr>))
   | M_end \<Rightarrow> None)"

definition exit_handler :: "parlour \<Rightarrow> parlour option" where
  "exit_handler s =
     (if maxtime s + 1 > psec s then None
      else Some (psay (map (\<lambda>i. Not_serviced (i + 1))
          (filter (\<lambda>i. num_icecream (parr s ! i) > pdone s ! i) [0..<length (parr s)]) @ [Closed])
        (s\<lparr>closed := True\<rparr>)))"

definition parlour_tick :: "parlour \<Rightarrow> parlour" where
  "parlour_tick s = s\<lparr>psec := psec s + 1\<rparr>"

text \<open>The state in which \<open>main\<close> starts the threads.\<close>

definition max_stop :: "(int \<times> int) list \<Rightarrow> int" where
  "max_stop ms = fold (\<lambda>m t. if t < snd m then snd m else t) ms (-1)"

definition make_queue :: "kvmap \<Rightarrow> pcustomer list \<Rightarrow> cream list" where
  "make_queue m cs = concat (map (\<lambda>(i, cu). map (\<lambda>(j, od).
     \<lparr>q_a = i + 1, q_b = j + 1, q_time = find_value (flav od) m\<rparr>) (enumerate 0 (orders cu))) (enumerate 0 cs))"

definition parlour_main ::
  "(int \<times> int) list \<Rightarrow> nat \<Rightarrow> (string \<times> int) list \<Rightarrow> (string \<times> int) list \<Rightarrow> pcustomer list \<Rightarrow> parlour" where
  "parlour_main ms k flavours tops cs =
     (let m = fold (\<lambda>(key, v) m. insert_value key v m) (flavours @ tops) [];
          q = make_queue m cs
      in \<lparr>pmap = m, mac = ms, marr = replicate (length ms) 0, parr = cs, queu = q, psec = -1,
          pspawned = int k, cind = 0, scheduler = 0, scheduleind = 0,
          pdone = replicate (length cs) 0, ingredients = replicate (length cs) (-1), maxtime = max_stop ms,
          a_th = replicate (length cs) P_turn,
          q_th = replicate (length q) \<lparr>q_pc = Q_wait, q_got = 0, q_curr = 0\<rparr>,
          m_th = replicate (length ms) M_start, closed = False, pout = []\<rparr>)"

inductive parlour_step :: "parlour \<Rightarrow> parlour \<Rightarrow> bool" where
  arrives: "\<not> closed s \<Longrightarrow> i < length (parr s) \<Longrightarrow> arrival_handler i s = Some s' \<Longrightarrow> parlour_step s s'"
| queue: "\<not> closed s \<Longrightarrow> i < length (queu s) \<Longrightarrow> queue_hand i s = Some s' \<Longrightarrow> parlour_step s s'"
| machine: "\<not> closed s \<Longrightarrow> i < length (mac s) \<Longrightarrow> machine_handler i s = Some s' \<Longrightarrow> parlour_step s s'"
| close: "\<not> closed s \<Longrightarrow> exit_handler s = Some s' \<Longrightarrow> parlour_step s s'"
| second: "\<not> closed s \<Longrightarrow> parlour_step s (parlour_tick s)"

section \<open>The maps are maps\<close>

text \<open>
  What a client of a key-value store relies on: a value that was stored is found, and
  storing under one key does not change what is found under another.
\<close>

locale value_store =
  fixes find :: "'k \<Rightarrow> 'm \<Rightarrow> int" and store :: "'k \<Rightarrow> int \<Rightarrow> 'm \<Rightarrow> 'm" and room :: "'k \<Rightarrow> 'm \<Rightarrow> bool"
  assumes find_store: "room k m \<Longrightarrow> find k (store k v m) = v"
    and find_store_other: "k \<noteq> k' \<Longrightarrow> find k' (store k v m) = find k' m"
    and room_known: "find k m \<noteq> -1 \<Longrightarrow> room k m"
begin

text \<open>Lowering the stock of some keys, each by its own amount.\<close>

definition lower :: "('k \<times> int) list \<Rightarrow> 'm \<Rightarrow> 'm" where
  "lower need m = fold (\<lambda>(k, v) m. if find k m = -1 then m else store k (find k m - v) m) need m"

lemma find_lower_other: "k \<notin> fst ` set need \<Longrightarrow> find k (lower need m) = find k m"
  unfolding lower_def
  by (induction need arbitrary: m) (auto simp: find_store_other)

lemma find_lower:
  assumes "distinct (map fst need)" and "(k, v) \<in> set need"
  shows "find k (lower need m) = (if find k m = -1 then -1 else find k m - v)"
  using assms
proof (induction need arbitrary: m)
  case (Cons p need)
  obtain k' v' where p: "p = (k', v')" by (cases p)
  let ?m = "if find k' m = -1 then m else store k' (find k' m - v') m"
  have step: "lower (p # need) m = lower need ?m" by (simp add: lower_def p)
  show ?case
  proof (cases "k = k'")
    case True
    then have "v = v'" and "k \<notin> fst ` set need" using Cons.prems p by (force)+
    then show ?thesis using True step find_lower_other [of k need ?m] by (auto simp: find_store room_known)
  next
    case False
    then have "find k ?m = find k m" by (simp add: find_store_other)
    then show ?thesis using Cons.IH [of ?m] Cons.prems False p step by auto
  qed
qed simp

end

lemma find_value_append:
  "find_value key (m @ m') = (if key \<in> fst ` set m then find_value key m else find_value key m')"
  by (induction m) force+

lemma find_value_absent: "key \<notin> fst ` set m \<Longrightarrow> find_value key m = -1"
  by (induction m) auto

lemma find_value_update:
  "find_value key (map (\<lambda>(k, x). if k = key' then (k, v) else (k, x)) m) =
    (if key = key' \<and> key \<in> fst ` set m then v else find_value key m)"
  by (induction m) force+

interpretation kv: value_store find_value insert_value "\<lambda>k m. k \<in> fst ` set m \<or> length m < PMAX_SIZE"
proof
  show "find_value k (insert_value k v m) = v" if "k \<in> fst ` set m \<or> length m < PMAX_SIZE" for k v m
    using that by (auto simp: insert_value_def Let_def find_value_append find_value_update rev_image_eqI)
  show "find_value k' (insert_value k v m) = find_value k' m" if "k \<noteq> k'" for k k' v m
    using that find_value_absent [of k' m]
    by (force simp: insert_value_def Let_def find_value_append find_value_update)
  show "k \<in> fst ` set m \<or> length m < PMAX_SIZE" if "find_value k m \<noteq> -1" for k m
    using that find_value_absent by blast
qed

lemma update_topping_None: "update_topping key m = None \<longleftrightarrow> key \<notin> fst ` set m"
  by (induction m) force+

lemma update_topping_Some:
  assumes "update_topping key m = Some m'" and "distinct (map fst m)"
  shows "map fst m' = map fst m \<and> set m' = (\<lambda>(k, v). (k, if k = key then v + 1 else v)) ` set m"
  using assms
proof (induction m arbitrary: m')
  case (Cons p m)
  obtain k v where p: "p = (k, v)" by (cases p)
  show ?case
  proof (cases "k = key")
    case True
    have "key \<notin> fst ` set m" using Cons.prems True p by auto
    then have "(\<lambda>(k, v). (k, if k = key then v + 1 else v)) ` set m = (\<lambda>q. q) ` set m"
      by (intro image_cong) force+
    then show ?thesis using Cons.prems True p by auto
  next
    case False
    then obtain m1 where m1: "update_topping key m = Some m1" "m' = (k, v) # m1" using Cons.prems p by auto
    from Cons.IH [OF m1(1)] Cons.prems have
      "map fst m1 = map fst m" "set m1 = (\<lambda>(k, v). (k, if k = key then v + 1 else v)) ` set m" by auto
    then show ?thesis using m1 p False by auto
  qed
qed simp

text \<open>The customer's map counts the toppings, as long as it has room for the different ones.\<close>

lemma count_list_snoc: "count_list (xs @ [x]) y = count_list xs y + (if x = y then 1 else 0)"
  by (induction xs) auto

lemma count_toppings_fold:
  assumes "card (set ts) \<le> PMAX_SIZE"
  defines "m \<equiv> fold (\<lambda>t m. snd (insertOrUpdateTopping t m)) ts []"
  shows "distinct (map fst m) \<and> set m = (\<lambda>t. (t, int (count_list ts t))) ` set ts"
  unfolding m_def using assms(1)
proof (induction ts rule: rev_induct)
  case (snoc t ts)
  let ?m = "fold (\<lambda>t m. snd (insertOrUpdateTopping t m)) ts []"
  have "card (set ts) \<le> PMAX_SIZE" using snoc.prems card_mono [of "set (ts @ [t])" "set ts"]
    by (simp add: subset_insertI)
  with snoc.IH have IH: "distinct (map fst ?m)" "set ?m = (\<lambda>t. (t, int (count_list ts t))) ` set ts" by auto
  then have keys: "fst ` set ?m = set ts" by force
  show ?case
  proof (cases "t \<in> set ts")
    case True
    then obtain m' where m': "update_topping t ?m = Some m'" using update_topping_None [of t ?m] keys by auto
    note U = update_topping_Some [OF m' IH(1)]
    have "set m' = (\<lambda>u. (u, int (count_list (ts @ [t]) u))) ` set ts"
      using U IH(2) by (simp add: image_image count_list_snoc eq_commute cong: if_cong)
        (intro image_cong; simp)
    moreover have "distinct (map fst m')" using U IH(1) by simp
    ultimately show ?thesis using m' True by (auto simp: insertOrUpdateTopping_def insert_absorb)
  next
    case False
    have "length ?m = card (set ts)" using IH(1) keys distinct_card [of "map fst ?m"] by simp
    then have "length ?m < PMAX_SIZE" using snoc.prems False by simp
    moreover have "update_topping t ?m = None" using update_topping_None [of t ?m] keys False by simp
    moreover have "count_list ts t = 0" using False by (simp add: count_list_0_iff)
    ultimately show ?thesis using IH keys False
      by (auto simp: insertOrUpdateTopping_def count_list_snoc)
  qed
qed simp



section \<open>Machines and places\<close>

text \<open>An ice cream that holds a machine, and a customer who has been let in and counted.\<close>

definition making :: "qthread \<Rightarrow> bool" where
  "making t \<longleftrightarrow> q_pc t \<in> {Q_settle, Q_make}"

definition parlour_inv :: "nat \<Rightarrow> parlour \<Rightarrow> bool" where
  "parlour_inv k s \<longleftrightarrow>
     length (marr s) = length (mac s) \<and> length (q_th s) = length (queu s) \<and> length (a_th s) = length (parr s) \<and>
     cnt (\<lambda>x. x \<noteq> 0) (marr s) = cnt making (q_th s) \<and>
     (\<forall>i < length (q_th s). making (q_th s ! i) \<longrightarrow>
        q_got (q_th s ! i) < length (mac s) \<and> marr s ! q_got (q_th s ! i) \<noteq> 0) \<and>
     (\<forall>i < length (q_th s). \<forall>j < length (q_th s). making (q_th s ! i) \<longrightarrow> making (q_th s ! j) \<longrightarrow>
        q_got (q_th s ! i) = q_got (q_th s ! j) \<longrightarrow> i = j) \<and>
     pspawned s - cind s + cnt (\<lambda>l. l = P_collect) (a_th s) = int k"

lemma parlour_invD:
  assumes "parlour_inv k s"
  shows "length (marr s) = length (mac s)" and "length (q_th s) = length (queu s)"
    and "length (a_th s) = length (parr s)" and "cnt (\<lambda>x. x \<noteq> 0) (marr s) = cnt making (q_th s)"
    and "i < length (q_th s) \<Longrightarrow> making (q_th s ! i) \<Longrightarrow>
      q_got (q_th s ! i) < length (mac s) \<and> marr s ! q_got (q_th s ! i) \<noteq> 0"
    and "i < length (q_th s) \<Longrightarrow> j < length (q_th s) \<Longrightarrow> making (q_th s ! i) \<Longrightarrow> making (q_th s ! j) \<Longrightarrow>
      q_got (q_th s ! i) = q_got (q_th s ! j) \<Longrightarrow> i = j"
    and "pspawned s - cind s + cnt (\<lambda>l. l = P_collect) (a_th s) = int k"
  using assms by (auto simp: parlour_inv_def)

lemma parlour_inv_frame [simp]:
  "parlour_inv k (psay es s) = parlour_inv k s" "parlour_inv k (s\<lparr>m_th := x\<rparr>) = parlour_inv k s"
  "parlour_inv k (s\<lparr>closed := c\<rparr>) = parlour_inv k s" "parlour_inv k (s\<lparr>psec := t\<rparr>) = parlour_inv k s"
  "parlour_inv k (s\<lparr>scheduleind := n\<rparr>) = parlour_inv k s" "parlour_inv k (s\<lparr>pdone := d\<rparr>) = parlour_inv k s"
  by (simp_all add: parlour_inv_def psay_def)

lemma psay_simps [simp]:
  "q_th (psay es s) = q_th s" "a_th (psay es s) = a_th s" "parr (psay es s) = parr s" "queu (psay es s) = queu s"
  by (simp_all add: psay_def)

lemma inv_thread:
  assumes inv: "parlour_inv k s" and i: "i < length (q_th s)"
    and t: "making t = making (q_th s ! i)" "making t \<Longrightarrow> q_got t = q_got (q_th s ! i)"
  shows "parlour_inv k (s\<lparr>q_th := (q_th s)[i := t]\<rparr>)"
proof -
  have "cnt making ((q_th s)[i := t]) = cnt making (q_th s)" using i t by (simp add: cnt_update)
  then show ?thesis unfolding parlour_inv_def using parlour_invD [OF inv] i t
    by (auto simp: nth_list_update)
qed

lemma inv_q_goto:
  assumes "parlour_inv k s" and "i < length (q_th s)" and "making ((q_th s ! i)\<lparr>q_pc := l\<rparr>) = making (q_th s ! i)"
  shows "parlour_inv k (q_goto i l s)"
  unfolding q_goto_def using assms by (intro inv_thread) auto

lemma inv_take:
  assumes inv: "parlour_inv k s" and i: "i < length (q_th s)" and "\<not> making (q_th s ! i)"
    and j: "j < length (mac s)" "marr s ! j = 0"
  shows "parlour_inv k (s\<lparr>marr := (marr s)[j := 1], q_th := (q_th s)[i := (q_th s ! i)\<lparr>q_pc := Q_settle, q_got := j\<rparr>]\<rparr>)"
proof -
  note I = parlour_invD [OF inv]
  have other: "q_got (q_th s ! m) \<noteq> j" if "m < length (q_th s)" "making (q_th s ! m)" for m
    using I(5) [OF that] j(2) by metis
  have "cnt making ((q_th s)[i := (q_th s ! i)\<lparr>q_pc := Q_settle, q_got := j\<rparr>]) = cnt making (q_th s) + 1"
    "cnt (\<lambda>x. x \<noteq> 0) ((marr s)[j := 1]) = cnt (\<lambda>x. x \<noteq> 0) (marr s) + 1"
    using i j I(1) assms(3) by (simp_all add: cnt_update making_def)
  then show ?thesis unfolding parlour_inv_def using I i j other by (auto simp: nth_list_update)
qed

lemma inv_give_back:
  assumes inv: "parlour_inv k s" and i: "i < length (q_th s)" and mk: "making (q_th s ! i)"
  shows "parlour_inv k (q_goto i Q_end (s\<lparr>marr := (marr s)[q_got (q_th s ! i) := 0]\<rparr>))"
proof -
  note I = parlour_invD [OF inv]
  note gi = I(5) [OF i mk]
  have other: "q_got (q_th s ! m) \<noteq> q_got (q_th s ! i)" if "m < length (q_th s)" "making (q_th s ! m)" "m \<noteq> i" for m
    using I(6) [OF that(1) i that(2) mk] that(3) by auto
  have "\<not> making ((q_th s ! i)\<lparr>q_pc := Q_end\<rparr>)" by (simp add: making_def)
  moreover from this have "cnt making ((q_th s)[i := (q_th s ! i)\<lparr>q_pc := Q_end\<rparr>]) = cnt making (q_th s) - 1"
    "cnt (\<lambda>x. x \<noteq> 0) ((marr s)[q_got (q_th s ! i) := 0]) = cnt (\<lambda>x. x \<noteq> 0) (marr s) - 1"
    using i gi mk I(1) by (simp_all add: cnt_update)
  ultimately show ?thesis unfolding parlour_inv_def q_goto_def using I i gi other
    by (auto simp: nth_list_update) blast+
qed

lemma queue_hand_inv:
  assumes inv: "parlour_inv k s" and "i < length (queu s)" and step: "queue_hand i s = Some s'"
  shows "parlour_inv k s'"
proof -
  have i: "i < length (q_th s)" using assms(2) parlour_invD(2) [OF inv] by simp
  show ?thesis
  proof (cases "q_pc (q_th s ! i)")
    case (Q_seek j)
    then show ?thesis using step inv i
      by (auto simp: queue_hand_def Let_def can_take_def making_def split: if_splits intro!: inv_take inv_q_goto)
  next
    case Q_settle
    then show ?thesis using step inv i
      by (auto simp: queue_hand_def Let_def making_def split: if_splits intro!: inv_thread)
  next
    case Q_make
    let ?s = "s\<lparr>pdone := (pdone s)[q_a (queu s ! i) - 1 := pdone s ! (q_a (queu s ! i) - 1) + 1]\<rparr>"
    have "parlour_inv k (q_goto i Q_end (?s\<lparr>marr := (marr ?s)[q_got (q_th ?s ! i) := 0]\<rparr>))"
      using inv i Q_make by (intro inv_give_back) (simp_all add: making_def)
    then show ?thesis using step Q_make
      by (auto simp: queue_hand_def Let_def q_goto_def psay_def parlour_inv_def split: if_splits)
  qed (insert step inv i, auto simp: queue_hand_def Let_def making_def split: if_splits intro!: inv_q_goto)
qed

lemma inv_arrival:
  assumes inv: "parlour_inv k s" and i: "i < length (a_th s)"
    and s': "a_th s' = (a_th s)[i := l]" "marr s' = marr s" "mac s' = mac s" "q_th s' = q_th s"
      "queu s' = queu s" "parr s' = parr s"
    and p: "pspawned s' - cind s' = pspawned s - cind s + of_bool (a_th s ! i = P_collect) - of_bool (l = P_collect)"
  shows "parlour_inv k s'"
  using parlour_invD [OF inv] p i unfolding parlour_inv_def by (simp add: s' cnt_update)

lemma arrival_handler_inv:
  assumes inv: "parlour_inv k s" and "i < length (parr s)" and step: "arrival_handler i s = Some s'"
  shows "parlour_inv k s'"
proof -
  have i: "i < length (a_th s)" using assms(2) parlour_invD(3) [OF inv] by simp
  have "a_th s' = (a_th s)[i := a_th s' ! i] \<and> marr s' = marr s \<and> mac s' = mac s \<and> q_th s' = q_th s \<and>
      queu s' = queu s \<and> parr s' = parr s \<and>
      pspawned s' - cind s' = pspawned s - cind s + of_bool (a_th s ! i = P_collect) - of_bool (a_th s' ! i = P_collect)"
    using step i
    by (cases "a_th s ! i") (auto simp: arrival_handler_def Let_def a_goto_def psay_def split: if_splits)
  then show ?thesis using inv_arrival [OF inv i] by metis
qed

lemma parlour_inv_step: "parlour_inv k s \<Longrightarrow> parlour_step s s' \<Longrightarrow> parlour_inv k s'"
proof (erule parlour_step.cases, goal_cases)
  case (1 s i s')
  then show ?case by (simp add: arrival_handler_inv)
next
  case (2 s i s')
  then show ?case by (simp add: queue_hand_inv)
qed (auto simp: machine_handler_def exit_handler_def parlour_tick_def split: if_splits machine_pc.splits)

lemma parlour_inv_main: "parlour_inv k (parlour_main ms k flavours tops cs)"
  by (simp add: parlour_inv_def parlour_main_def Let_def cnt_def making_def)

interpretation pl: inductive_invariant "\<lambda>s. \<exists>ms flavours tops cs. s = parlour_main ms k flavours tops cs"
    parlour_step "parlour_inv k" for k
  by unfold_locales (auto intro: parlour_inv_main parlour_inv_step)


section \<open>Concrete runs\<close>

datatype pact = A nat | Q nat | M nat | X | S

fun pexec :: "pact list \<Rightarrow> parlour \<Rightarrow> parlour option" where
  "pexec [] s = Some s"
| "pexec (a # as) s =
     (if closed s then None else
      case (case a of
              A i \<Rightarrow> if i < length (parr s) then arrival_handler i s else None
            | Q i \<Rightarrow> if i < length (queu s) then queue_hand i s else None
            | M i \<Rightarrow> if i < length (mac s) then machine_handler i s else None
            | X \<Rightarrow> exit_handler s
            | S \<Rightarrow> Some (parlour_tick s)) of
        None \<Rightarrow> None | Some s' \<Rightarrow> pexec as s')"

lemma pexec_steps: "pexec as s = Some s' \<Longrightarrow> parlour_step\<^sup>*\<^sup>* s s'"
proof (induction as arbitrary: s)
  case (Cons a as)
  then obtain s1 where s1: "parlour_step s s1" "pexec as s1 = Some s'"
    by (cases a) (auto split: option.splits if_splits intro: parlour_step.intros)
  from s1(1) Cons.IH [OF s1(2)] show ?case by (rule converse_rtranclp_into_rtranclp)
qed simp

text \<open>Two machines, one place, and two customers who arrive together, with one ice cream each.\<close>

definition demo_parlour :: parlour where
  "demo_parlour = parlour_main [(0, 9), (0, 9)] 1 [(''v'', 2)] []
     [\<lparr>pc_c = 1, t_arr = 0, orders = [\<lparr>flav = ''v'', toppings = []\<rparr>]\<rparr>,
      \<lparr>pc_c = 2, t_arr = 0, orders = [\<lparr>flav = ''v'', toppings = []\<rparr>]\<rparr>]"

definition demo_prun :: "pact list" where
  "demo_prun = [S, A 0, A 0, A 1, A 1, A 0, A 1, A 0, A 1, A 0, A 1, A 0, A 1, A 0, A 1,
     Q 0, Q 0, Q 0, Q 0, Q 0, Q 1, Q 1, Q 1, Q 1, Q 1, Q 1]"

definition demo_parlour' :: parlour where
  "demo_parlour' = the (pexec demo_prun demo_parlour)"

lemma demo_parlour_exec: "pexec demo_prun demo_parlour = Some demo_parlour'"
  unfolding demo_parlour'_def by code_simp

lemma demo_parlour_steps: "parlour_step\<^sup>*\<^sup>* demo_parlour demo_parlour'"
  using demo_parlour_exec by (rule pexec_steps)

lemma demo_parlour'_th:
  "map q_pc (q_th demo_parlour') = [Q_settle, Q_settle]" "length (q_th demo_parlour') = 2"
  "a_th demo_parlour' = [P_collect, P_collect]"
  by code_simp+


text \<open>
  The capacity is not kept: \<open>arrival_handler\<close> compares \<open>cind\<close> with \<open>spawned\<close> without a lock
  and counts the customer only after the toppings are reserved, so two customers who
  arrive in the same second both find room in a parlour with one place, and both end up
  inside waiting for their ice cream.
\<close>

lemma parlour_overfull:
  "\<exists>s. parlour_step\<^sup>*\<^sup>* demo_parlour s \<and> pspawned demo_parlour = 1 \<and>
    cnt (\<lambda>l. l = P_collect) (a_th s) = 2"
proof (intro exI conjI)
  show "pspawned demo_parlour = 1" by code_simp
  show "cnt (\<lambda>l. l = P_collect) (a_th demo_parlour') = 2" using demo_parlour'_th(3) by (simp add: cnt_def)
qed (rule demo_parlour_steps)

end
