(* ===== verification/Spec2Isabelle.thy ===== *)
theory Spec2Isabelle
  imports Small_Trap Cafe Parlour
begin

text \<open>
  A verification development for the xv6-riscv kernel with copy-on-write fork and a
  priority scheduler (\<^verbatim>\<open>src/initial-xv6/src\<close>) and for the two thread simulations beside it
  (\<^verbatim>\<open>src/concurrency\<close>).

  \<^bold>\<open>The parts and how they interact.\<close> The kernel hands out physical pages with reference
  counts (\<^verbatim>\<open>kalloc.c\<close>), builds page tables in them (\<^verbatim>\<open>vm.c\<close>), shares the pages of a forked
  process copy-on-write and separates them on the first store. Processes live in a table
  protected by spinlocks (\<^verbatim>\<open>spinlock.c\<close>, \<^verbatim>\<open>proc.c\<close>) that the scheduler, the clock and the
  system calls change. Files, pipes, devices and inodes are reached through descriptors
  (\<^verbatim>\<open>sysfile.c\<close>, \<^verbatim>\<open>file.c\<close>, \<^verbatim>\<open>pipe.c\<close>, \<^verbatim>\<open>console.c\<close>, \<^verbatim>\<open>uart.c\<close>); the file system (\<^verbatim>\<open>fs.c\<close>) changes
  blocks only through the log (\<^verbatim>\<open>log.c\<close>), which sits on the buffer cache (\<^verbatim>\<open>bio.c\<close>) and the disk
  driver (\<^verbatim>\<open>virtio_disk.c\<close>). All of it is entered by traps (\<^verbatim>\<open>trap.c\<close>): a system call is
  dispatched (\<^verbatim>\<open>syscall.c\<close>, \<^verbatim>\<open>sysproc.c\<close>, \<^verbatim>\<open>exec.c\<close>), a store fault separates a shared page, an
  interrupt of a device goes through the controller (\<^verbatim>\<open>plic.c\<close>). The coffee
  shop (\<^verbatim>\<open>1.c\<close>) and the ice cream parlour (\<^verbatim>\<open>2.c\<close>) are independent programs.

  \<^bold>\<open>How the code is modelled.\<close> Every C function is one definition with the name it has in the
  source; a loop is a recursive function of its own. Memory is a function from 64-bit
  addresses to bytes, integers are machine words. A call returns a value of type \<open>res\<close>:
  \<open>Ret\<close> with the result and the new state, \<open>Panic\<close> with the message, \<open>Undef\<close> where C has
  undefined behaviour (a null pointer, an index out of bounds), \<open>Block\<close> where the caller would
  wait for a resource. State is a chain of records, each extending the one before:
  \<open>kmem\<close> (allocator), \<open>vmem\<close>, \<open>kproc\<close> (process table), \<open>kpipe\<close>, \<open>kcons\<close> (console), \<open>kfs\<close> (files),
  \<open>ksys\<close> (what \<open>fork\<close> and the first process need), \<open>ktrap\<close> (devices and trap vectors);
  the disk side is \<open>bio\<close>, \<open>log\<close>, \<open>fsys\<close>. Operations that sleep are modelled as one pass up to
  the sleep, which a later pass resumes.

  \<^bold>\<open>The theories.\<close>
  \<^item> Prelude: outcomes, memory, words, the locale of inductive invariants. Bytes: encoding of
    integers as bytes. Kstring: \<^verbatim>\<open>string.c\<close>. Riscv: the macros of \<^verbatim>\<open>riscv.h\<close> and \<^verbatim>\<open>memlayout.h\<close>.
  \<^item> Kalloc: \<^verbatim>\<open>kalloc.c\<close>; the free list and the counts as an invariant every operation keeps.
  \<^item> Vm: \<^verbatim>\<open>vm.c\<close>. PageTable, Cow, Fork: page tables as trees, what \<open>walk\<close>, \<open>mappages\<close>, \<open>uvmunmap\<close>,
    \<open>uvmcopy\<close> and \<open>cowalloc\<close> do to them, and the isolation of parent and child. Small_Machine:
    a concrete machine on which these theorems apply. Frame: what memory operations leave alone.
  \<^item> Spinlock: \<^verbatim>\<open>spinlock.c\<close> and \<^verbatim>\<open>sleeplock.c\<close>, mutual exclusion by an inductive invariant.
    Proc, Sched: the process table and the schedulers of \<^verbatim>\<open>proc.c\<close>, the clock of \<^verbatim>\<open>trap.c\<close>.
  \<^item> Kernel: system call arguments (\<^verbatim>\<open>syscall.c\<close>). Ring: the bounded queue interface. Pipe,
    Console: \<^verbatim>\<open>pipe.c\<close>, \<^verbatim>\<open>console.c\<close>, \<^verbatim>\<open>uart.c\<close> as implementations of it.
  \<^item> Bio, Calm, Log: \<^verbatim>\<open>bio.c\<close> and \<^verbatim>\<open>log.c\<close>, crash atomicity of a commit. Fs, Txn: \<^verbatim>\<open>fs.c\<close> and
    the block allocator inside a transaction. Files, Sysfile: \<^verbatim>\<open>file.c\<close>, \<^verbatim>\<open>sysfile.c\<close>, the
    reference counts of open files.
  \<^item> Process: the life of a process, \<^verbatim>\<open>proc.c\<close>. Teardown, Procmem, Lifecycle: what freeing and building
    a page table and a table entry do to the reference counts of pages. Forkproc, Reap: \<open>fork\<close>,
    \<open>exit\<close>, \<open>wait\<close> and \<open>waitx\<close>. Small_Process: a concrete process on which these theorems apply.
  \<^item> Exec: \<^verbatim>\<open>exec.c\<close>. Printf: \<^verbatim>\<open>printf.c\<close>. Syscall: the system calls of \<^verbatim>\<open>sysproc.c\<close> and the dispatcher.
    Virtio: \<^verbatim>\<open>virtio_disk.c\<close>, with threads, device and interrupts interleaved. Trap: \<^verbatim>\<open>trap.c\<close> and
    \<^verbatim>\<open>plic.c\<close>. Faults: what a store fault does to a process, and the way of a forked child from
    \<open>fork\<close> to user mode. Small_Trap: the small machine with its devices.
  \<^item> Cafe, Parlour: the thread functions of \<^verbatim>\<open>1.c\<close> and \<^verbatim>\<open>2.c\<close> as steps.

  \<^bold>\<open>Bounds and fuel.\<close> Loops over tables and pages recurse on a bounded index and terminate.
  \<open>freewalk\<close> carries the depth of the page table, 3, which is the depth of the hardware format;
  the circular list of the buffer cache is scanned for at most the number of buffers plus two
  links, and the invariant shows that this reaches every buffer.

  \<^bold>\<open>Not modelled.\<close> Assembly (\<^verbatim>\<open>entry.S\<close>, \<^verbatim>\<open>trampoline.S\<close>, \<^verbatim>\<open>kernelvec.S\<close>, \<^verbatim>\<open>swtch.S\<close>), the
  register accessors, the set-up of the machine (\<^verbatim>\<open>start.c\<close>, \<^verbatim>\<open>main.c\<close>) and of the UART; the
  programs that only test the system.
\<close>

end
